(* ===== verification/Prelude.thy ===== *)
theory Prelude
  imports Complex_Main "HOL-Library.Word" "HOL-Library.Sublist"
begin

text \<open>
  Vocabulary shared by every component of the development.

  \<^item> \<open>byte\<close> is one octet of a Python \<^verbatim>\<open>bytes\<close> value; \<open>secs\<close> is a clock reading or
    a duration. Python's finite floats are rationals, so clocks and durations are
    modelled by exact rationals: the theory makes no claim about rounding in the
    last binary digit.
  \<^item> \<open>py_exn\<close> lists the exceptions the modelled code raises itself.
  \<^item> A Python \<^verbatim>\<open>dict\<close> or \<^verbatim>\<open>OrderedDict\<close> whose iteration order matters is an
    association list with distinct keys (the theory \<open>Ordered_Dict\<close>); one whose order is never observed is a map.
  \<^item> Runs of a component are folds of its step function (\<open>run\<close>), with the values
    a step emits collected by \<open>emits\<close>.
\<close>

type_synonym byte = "8 word"
type_synonym secs = rat

datatype py_exn = ValueError | TypeError | KeyError | OverflowError | ReliabilityError | NoteTooLong

named_theorems bound_simps "computation rules for bounds and clamps"
named_theorems inv_step "operations preserve their component's invariant"

subsection \<open>Runs of a step function\<close>

fun run :: "('s \<Rightarrow> 'op \<Rightarrow> 's) \<Rightarrow> 's \<Rightarrow> 'op list \<Rightarrow> 's" where
  "run step s [] = s"
| "run step s (x # xs) = run step (step s x) xs"

fun emits :: "('s \<Rightarrow> 'op \<Rightarrow> 's) \<Rightarrow> ('s \<Rightarrow> 'op \<Rightarrow> 'a list) \<Rightarrow> 's \<Rightarrow> 'op list \<Rightarrow> 'a list" where
  "emits step out s [] = []"
| "emits step out s (x # xs) = out s x @ emits step out (step s x) xs"

lemma run_append [simp]: "run step s (xs @ ys) = run step (run step s xs) ys"
  by (induction xs arbitrary: s) auto

lemma emits_append [simp]:
  "emits step out s (xs @ ys) = emits step out s xs @ emits step out (run step s xs) ys"
  by (induction xs arbitrary: s) auto

lemma run_invariant:
  assumes "\<And>s x. P s \<Longrightarrow> P (step s x)"
  shows "P s \<Longrightarrow> P (run step s xs)"
  by (induction xs arbitrary: s) (auto intro: assms)

subsection \<open>Lists updated by index\<close>

lemma sum_list_update_nat:
  "i < length xs \<Longrightarrow> sum_list (xs[i := (v::nat)]) + xs ! i = sum_list xs + v"
  by (induction xs arbitrary: i) (auto split: nat.splits)

lemma sum_list_map_length_update:
  "i < length xss \<Longrightarrow>
    sum_list (map length (xss[i := ys])) + length (xss ! i) = sum_list (map length xss) + length ys"
  using sum_list_update_nat [of i "map length xss" "length ys"] by (simp add: map_update)

lemma length_concat_update:
  "i < length xss \<Longrightarrow>
    length (concat (xss[i := ys])) + length (xss ! i) = length (concat xss) + length ys"
  using sum_list_map_length_update by (simp add: length_concat)

lemma subseq_tl: "subseq (tl xs) xs"
  by (cases xs) auto

lemma subseq_butlast: "subseq (butlast xs) xs"
  by (induction xs) auto

lemma concat_single_update:
  assumes "i < length xss" and "\<forall>j < i. xss ! j = []"
  shows "concat (xss[i := ys]) = ys @ concat (drop (Suc i) xss)"
    and "concat xss = xss ! i @ concat (drop (Suc i) xss)"
proof -
  have nil: "concat (take i xss) = []"
    using assms by (auto simp: in_set_conv_nth)
  show "concat (xss[i := ys]) = ys @ concat (drop (Suc i) xss)"
    using assms(1) nil by (simp add: upd_conv_take_nth_drop)
  have "concat xss = concat (take i xss @ xss ! i # drop (Suc i) xss)"
    using assms(1) by (simp only: id_take_nth_drop [symmetric])
  with nil show "concat xss = xss ! i @ concat (drop (Suc i) xss)" by simp
qed

text \<open>The last \<open>n\<close> elements of a list.\<close>

definition newest :: "nat \<Rightarrow> 'a list \<Rightarrow> 'a list" where
  "newest n xs = drop (length xs - n) xs"

lemma newest_short: "length xs \<le> n \<Longrightarrow> newest n xs = xs"
  by (simp add: newest_def)

lemma newest_absorb: "newest n (newest n xs @ ys) = newest n (xs @ ys)"
  by (cases "length xs \<le> n") (auto simp: newest_def add.commute)

lemma newest_snoc: "length xs = n \<Longrightarrow> 0 < n \<Longrightarrow> newest n (xs @ [x]) = tl xs @ [x]"
  by (cases xs) (auto simp: newest_def)

lemma take_absorb: "take n (take n xs @ ys) = take n (xs @ ys)"
  by (cases "length xs \<le> n") auto

end
