(* ===== verification/Ring_Queue.thy ===== *)
theory Ring_Queue
  imports Prelude
begin

text \<open>
  The bounded queues of \<^verbatim>\<open>amiga_ros2_comms/ring_queue.py\<close>: \<open>ring_queue\<close> is
  \<^verbatim>\<open>BoundedRingQueue\<close> and \<open>prio_queue\<close> is \<^verbatim>\<open>BoundedPriorityRingQueue\<close>. A method
  is a function on the record of the instance's fields; a call under the condition
  variable's lock is one step. \<^verbatim>\<open>get\<close> is modelled from the moment its wait ends: the
  wait itself only lets other steps run. Items are of any type, as in the code.

  The two locales state the contract both queues give their users: \<open>bounded_buffer\<close>
  (never more than the capacity, every item accounted for) and \<open>lossy_fifo\<close> (items of
  a lane leave in the order they came, none twice, none invented).
\<close>

section \<open>Overflow policies\<close>

definition DROP_OLDEST :: string where
  "DROP_OLDEST = ''drop_oldest''"

definition DROP_NEWEST :: string where
  "DROP_NEWEST = ''drop_newest''"

definition POLICIES :: "string list" where
  "POLICIES = [DROP_OLDEST, DROP_NEWEST]"

section \<open>BoundedRingQueue\<close>

record 'a ring_queue =
  rq_capacity :: int
  rq_policy :: string
  rq_items :: "'a list"
  rq_closed :: bool
  rq_dropped :: nat

definition rq_init :: "int \<Rightarrow> string \<Rightarrow> py_exn + 'a ring_queue" where
  "rq_init capacity policy =
     (if capacity < 1 then Inl ValueError
      else if policy \<notin> set POLICIES then Inl ValueError
      else Inr \<lparr>rq_capacity = capacity, rq_policy = policy, rq_items = [],
                rq_closed = False, rq_dropped = 0\<rparr>)"

definition rq_put :: "'a ring_queue \<Rightarrow> 'a \<Rightarrow> bool \<times> 'a ring_queue" where
  "rq_put q item =
     (if rq_closed q then (False, q)
      else if int (length (rq_items q)) \<ge> rq_capacity q then
        (let q1 = q\<lparr>rq_dropped := rq_dropped q + 1\<rparr>
         in if rq_policy q1 = DROP_NEWEST then (False, q1)
            else (False, q1\<lparr>rq_items := tl (rq_items q1) @ [item]\<rparr>))
      else (True, q\<lparr>rq_items := rq_items q @ [item]\<rparr>))"

definition rq_get :: "'a ring_queue \<Rightarrow> 'a option \<times> 'a ring_queue" where
  "rq_get q =
     (case rq_items q of
        x # xs \<Rightarrow> (Some x, q\<lparr>rq_items := xs\<rparr>)
      | [] \<Rightarrow> (None, q))"

definition rq_snapshot :: "'a ring_queue \<Rightarrow> 'a list" where
  "rq_snapshot q = rq_items q"

definition rq_close :: "'a ring_queue \<Rightarrow> 'a ring_queue" where
  "rq_close q = q\<lparr>rq_closed := True\<rparr>"

section \<open>BoundedPriorityRingQueue\<close>

record 'a prio_queue =
  pq_capacity :: int
  pq_policy :: string
  pq_levels :: int
  pq_bands :: "'a list list"
  pq_closed :: bool
  pq_dropped :: nat
  pq_dropped_by_band :: "nat list"

definition pq_init :: "int \<Rightarrow> string \<Rightarrow> int \<Rightarrow> py_exn + 'a prio_queue" where
  "pq_init capacity policy levels =
     (if capacity < 1 then Inl ValueError
      else if policy \<notin> set POLICIES then Inl ValueError
      else if levels < 1 then Inl ValueError
      else Inr \<lparr>pq_capacity = capacity, pq_policy = policy, pq_levels = levels,
                pq_bands = replicate (nat levels) [], pq_closed = False, pq_dropped = 0,
                pq_dropped_by_band = replicate (nat levels) 0\<rparr>)"

definition pq_size :: "'a prio_queue \<Rightarrow> nat" where
  "pq_size q = sum_list (map length (pq_bands q))"

definition pq_band_index :: "'a prio_queue \<Rightarrow> int \<Rightarrow> nat" where
  "pq_band_index q priority = nat (max 0 (min priority (pq_levels q - 1)))"

text \<open>The loop of \<^verbatim>\<open>_lowest_occupied\<close>: from the last band down, the first occupied one.\<close>

fun lowest_occupied_below :: "'a list list \<Rightarrow> nat \<Rightarrow> nat option" where
  "lowest_occupied_below bands 0 = None"
| "lowest_occupied_below bands (Suc i) =
     (if bands ! i \<noteq> [] then Some i else lowest_occupied_below bands i)"

definition pq_lowest_occupied :: "'a prio_queue \<Rightarrow> nat option" where
  "pq_lowest_occupied q = lowest_occupied_below (pq_bands q) (nat (pq_levels q))"

definition pq_discard :: "'a prio_queue \<Rightarrow> nat \<Rightarrow> 'a prio_queue" where
  "pq_discard q band =
     q\<lparr>pq_dropped := pq_dropped q + 1,
       pq_dropped_by_band :=
         (pq_dropped_by_band q)[band := pq_dropped_by_band q ! band + 1]\<rparr>"

definition pq_append :: "'a prio_queue \<Rightarrow> nat \<Rightarrow> 'a \<Rightarrow> 'a prio_queue" where
  "pq_append q band item = q\<lparr>pq_bands := (pq_bands q)[band := pq_bands q ! band @ [item]]\<rparr>"

definition pq_put :: "'a prio_queue \<Rightarrow> 'a \<Rightarrow> int \<Rightarrow> bool \<times> 'a prio_queue" where
  "pq_put q item priority =
     (if pq_closed q then (False, q)
      else
        let band = pq_band_index q priority
        in if int (pq_size q) < pq_capacity q then (True, pq_append q band item)
           else
             case pq_lowest_occupied q of
               None \<Rightarrow> (True, pq_append q band item)
             | Some victim \<Rightarrow>
                 if victim < band then (False, pq_discard q band)
                 else if victim = band \<and> pq_policy q = DROP_NEWEST then (False, pq_discard q band)
                 else
                   let rest = (if pq_policy q = DROP_NEWEST then butlast (pq_bands q ! victim)
                               else tl (pq_bands q ! victim));
                       q1 = q\<lparr>pq_bands := (pq_bands q)[victim := rest]\<rparr>
                   in (False, pq_append (pq_discard q1 victim) band item))"

text \<open>The scan of \<^verbatim>\<open>get\<close> over the bands, most urgent first.\<close>

fun first_occupied :: "'a list list \<Rightarrow> nat option" where
  "first_occupied [] = None"
| "first_occupied (b # bs) =
     (if b \<noteq> [] then Some 0 else map_option Suc (first_occupied bs))"

definition pq_get :: "'a prio_queue \<Rightarrow> 'a option \<times> 'a prio_queue" where
  "pq_get q =
     (case first_occupied (pq_bands q) of
        Some i \<Rightarrow>
          (Some (hd (pq_bands q ! i)),
           q\<lparr>pq_bands := (pq_bands q)[i := tl (pq_bands q ! i)]\<rparr>)
      | None \<Rightarrow> (None, q))"

definition pq_snapshot :: "'a prio_queue \<Rightarrow> 'a list" where
  "pq_snapshot q = concat (pq_bands q)"

definition pq_close :: "'a prio_queue \<Rightarrow> 'a prio_queue" where
  "pq_close q = q\<lparr>pq_closed := True\<rparr>"

section \<open>Contracts of a bounded queue\<close>

locale bounded_buffer =
  fixes inv :: "'s \<Rightarrow> bool"
    and step :: "'s \<Rightarrow> 'op \<Rightarrow> 's"
    and arrives :: "'s \<Rightarrow> 'op \<Rightarrow> 'a list"
    and departs :: "'s \<Rightarrow> 'op \<Rightarrow> 'a list"
    and contents :: "'s \<Rightarrow> 'a list"
    and discarded :: "'s \<Rightarrow> nat"
    and room :: "'s \<Rightarrow> int"
  assumes inv_keeps: "inv s \<Longrightarrow> inv (step s x)"
    and room_keeps: "room (step s x) = room s"
    and bounded: "inv s \<Longrightarrow> int (length (contents s)) \<le> room s"
    and accounts: "inv s \<Longrightarrow>
      length (departs s x) + length (contents (step s x)) + discarded (step s x) =
      length (contents s) + discarded s + length (arrives s x)"
begin

lemma inv_run: "inv s \<Longrightarrow> inv (run step s xs)"
  using inv_keeps by (rule run_invariant)

lemma room_run: "room (run step s xs) = room s"
  by (induction xs arbitrary: s) (auto simp: room_keeps)

lemma never_over: "inv s \<Longrightarrow> int (length (contents (run step s xs))) \<le> room s"
  using bounded [OF inv_run] by (simp add: room_run)

lemma accounts_run:
  "inv s \<Longrightarrow>
    length (emits step departs s xs) + length (contents (run step s xs)) + discarded (run step s xs) =
    length (contents s) + discarded s + length (emits step arrives s xs)"
proof (induction xs arbitrary: s)
  case (Cons x xs)
  from Cons.IH [OF inv_keeps [OF Cons.prems], of x] accounts [OF Cons.prems, of x]
  show ?case by simp
qed simp

end

locale lossy_fifo =
  fixes good :: "'s \<Rightarrow> bool"
    and step :: "'s \<Rightarrow> 'op \<Rightarrow> 's"
    and arrives :: "'s \<Rightarrow> 'op \<Rightarrow> 'a list"
    and departs :: "'s \<Rightarrow> 'op \<Rightarrow> 'a list"
    and lane :: "'s \<Rightarrow> 'a list"
  assumes good_keeps: "good s \<Longrightarrow> good (step s x)"
    and in_order: "good s \<Longrightarrow>
      subseq (departs s x @ lane (step s x)) (lane s @ arrives s x)"
begin

lemma in_order_run:
  "good s \<Longrightarrow>
    subseq (emits step departs s xs @ lane (run step s xs)) (lane s @ emits step arrives s xs)"
proof (induction xs arbitrary: s)
  case (Cons x xs)
  let ?t = "step s x"
  have "subseq (departs s x @ emits step departs ?t xs @ lane (run step ?t xs))
               (departs s x @ lane ?t @ emits step arrives ?t xs)"
    by (intro list_emb_append_mono subseq_order.order_refl Cons.IH good_keeps Cons.prems)
  also have "subseq (departs s x @ lane ?t @ emits step arrives ?t xs)
               (lane s @ arrives s x @ emits step arrives ?t xs)"
    using list_emb_append_mono [OF in_order [OF Cons.prems, of x] subseq_order.order_refl]
    by (simp only: append_assoc)
  finally show ?case by simp
qed simp

end

section \<open>BoundedRingQueue keeps the contracts\<close>

datatype 'a rq_op = RPut 'a | RGet | RClose

fun rq_step :: "'a ring_queue \<Rightarrow> 'a rq_op \<Rightarrow> 'a ring_queue" where
  "rq_step q (RPut x) = snd (rq_put q x)"
| "rq_step q RGet = snd (rq_get q)"
| "rq_step q RClose = rq_close q"

fun rq_arrives :: "'a ring_queue \<Rightarrow> 'a rq_op \<Rightarrow> 'a list" where
  "rq_arrives q (RPut x) = (if rq_closed q then [] else [x])"
| "rq_arrives q _ = []"

fun rq_departs :: "'a ring_queue \<Rightarrow> 'a rq_op \<Rightarrow> 'a list" where
  "rq_departs q RGet = (case fst (rq_get q) of None \<Rightarrow> [] | Some x \<Rightarrow> [x])"
| "rq_departs q _ = []"

definition rq_wf :: "'a ring_queue \<Rightarrow> bool" where
  "rq_wf q \<longleftrightarrow> 1 \<le> rq_capacity q \<and> rq_policy q \<in> set POLICIES \<and>
     int (length (rq_items q)) \<le> rq_capacity q"

lemma rq_init_wf: "rq_init c p = Inr q \<Longrightarrow> rq_wf q"
  by (auto simp: rq_init_def rq_wf_def split: if_splits)

lemma rq_step_wf [inv_step]: "rq_wf q \<Longrightarrow> rq_wf (rq_step q x)"
  by (cases x) (auto simp: rq_wf_def rq_put_def rq_get_def rq_close_def Let_def split: list.splits)

lemma rq_full_nonempty: "rq_wf q \<Longrightarrow> int (length (rq_items q)) \<ge> rq_capacity q \<Longrightarrow> rq_items q \<noteq> []"
  by (auto simp: rq_wf_def)

lemma rq_step_accounts:
  assumes "rq_wf q"
  shows "length (rq_departs q x) + length (rq_snapshot (rq_step q x)) + rq_dropped (rq_step q x) =
    length (rq_snapshot q) + rq_dropped q + length (rq_arrives q x)"
  using rq_full_nonempty [OF assms]
  by (cases x; cases "rq_items q")
     (auto simp: rq_put_def rq_get_def rq_close_def rq_snapshot_def Let_def)

lemma rq_step_in_order:
  "subseq (rq_departs q x @ rq_snapshot (rq_step q x)) (rq_snapshot q @ rq_arrives q x)"
  by (cases x; cases "rq_items q")
     (auto simp: rq_put_def rq_get_def rq_close_def rq_snapshot_def Let_def)

interpretation rq: bounded_buffer rq_wf rq_step rq_arrives rq_departs rq_snapshot rq_dropped rq_capacity
proof unfold_locales
  show "rq_capacity (rq_step s x) = rq_capacity s" for s :: "'a ring_queue" and x
    by (cases x) (auto simp: rq_put_def rq_get_def rq_close_def Let_def split: list.splits)
qed (simp_all add: rq_step_accounts rq_step_wf, simp add: rq_wf_def rq_snapshot_def)

interpretation rq_lane: lossy_fifo "\<lambda>_. True" rq_step rq_arrives rq_departs rq_snapshot
  by unfold_locales (auto intro: rq_step_in_order)

section \<open>BoundedPriorityRingQueue keeps the contracts\<close>

datatype 'a pq_op = PPut 'a int | PGet | PClose

fun pq_step :: "'a prio_queue \<Rightarrow> 'a pq_op \<Rightarrow> 'a prio_queue" where
  "pq_step q (PPut x p) = snd (pq_put q x p)"
| "pq_step q PGet = snd (pq_get q)"
| "pq_step q PClose = pq_close q"

fun pq_arrives :: "'a prio_queue \<Rightarrow> 'a pq_op \<Rightarrow> 'a list" where
  "pq_arrives q (PPut x p) = (if pq_closed q then [] else [x])"
| "pq_arrives q _ = []"

fun pq_departs :: "'a prio_queue \<Rightarrow> 'a pq_op \<Rightarrow> 'a list" where
  "pq_departs q PGet = (case fst (pq_get q) of None \<Rightarrow> [] | Some x \<Rightarrow> [x])"
| "pq_departs q _ = []"

text \<open>The same traffic, restricted to one band.\<close>

fun pq_arrives_in :: "nat \<Rightarrow> 'a prio_queue \<Rightarrow> 'a pq_op \<Rightarrow> 'a list" where
  "pq_arrives_in b q (PPut x p) =
     (if \<not> pq_closed q \<and> pq_band_index q p = b then [x] else [])"
| "pq_arrives_in b q _ = []"

fun pq_departs_from :: "nat \<Rightarrow> 'a prio_queue \<Rightarrow> 'a pq_op \<Rightarrow> 'a list" where
  "pq_departs_from b q PGet =
     (if first_occupied (pq_bands q) = Some b then [hd (pq_bands q ! b)] else [])"
| "pq_departs_from b q _ = []"

definition pq_wf :: "'a prio_queue \<Rightarrow> bool" where
  "pq_wf q \<longleftrightarrow> 1 \<le> pq_capacity q \<and> 1 \<le> pq_levels q \<and> pq_policy q \<in> set POLICIES \<and>
     length (pq_bands q) = nat (pq_levels q) \<and>
     length (pq_dropped_by_band q) = nat (pq_levels q) \<and>
     sum_list (pq_dropped_by_band q) = pq_dropped q \<and>
     int (pq_size q) \<le> pq_capacity q"

lemma pq_init_wf: "pq_init c p l = Inr q \<Longrightarrow> pq_wf q"
  by (auto simp: pq_init_def pq_wf_def pq_size_def sum_list_replicate split: if_splits)

lemma pq_size_snapshot: "pq_size q = length (pq_snapshot q)"
  by (simp add: pq_size_def pq_snapshot_def length_concat)

lemma pq_band_index_less [bound_simps]:
  "1 \<le> pq_levels q \<Longrightarrow> pq_band_index q p < nat (pq_levels q)"
  by (simp add: pq_band_index_def)

lemma lowest_occupied_below_Some:
  "lowest_occupied_below bands n = Some i \<Longrightarrow>
    i < n \<and> bands ! i \<noteq> [] \<and> (\<forall>j. i < j \<and> j < n \<longrightarrow> bands ! j = [])"
  by (induction n) (auto split: if_splits simp: less_Suc_eq)

lemma lowest_occupied_below_None:
  "lowest_occupied_below bands n = None \<longleftrightarrow> (\<forall>i < n. bands ! i = [])"
  by (induction n) (auto simp: less_Suc_eq)

lemma first_occupied_Some:
  "first_occupied bands = Some i \<Longrightarrow>
    i < length bands \<and> bands ! i \<noteq> [] \<and> (\<forall>j < i. bands ! j = [])"
proof (induction bands arbitrary: i)
  case (Cons b bs)
  then show ?case
    by (cases i) (auto split: if_splits simp: All_less_Suc2)
qed simp

lemma first_occupied_None: "first_occupied bands = None \<longleftrightarrow> concat bands = []"
  by (induction bands) auto

lemma pq_full_victim:
  assumes "pq_wf q" and "\<not> int (pq_size q) < pq_capacity q"
  obtains v where "pq_lowest_occupied q = Some v" "v < length (pq_bands q)"
    "pq_bands q ! v \<noteq> []" "\<forall>j. v < j \<and> j < length (pq_bands q) \<longrightarrow> pq_bands q ! j = []"
proof (cases "pq_lowest_occupied q")
  case None
  then have "\<forall>b \<in> set (pq_bands q). b = []"
    using assms(1)
    by (auto simp: pq_lowest_occupied_def lowest_occupied_below_None in_set_conv_nth pq_wf_def)
  then have "map length (pq_bands q) = map (\<lambda>_. 0) (pq_bands q)" by simp
  then have "pq_size q = 0" by (simp only: pq_size_def sum_list_0)
  with assms show ?thesis by (simp add: pq_wf_def)
next
  case (Some v)
  with lowest_occupied_below_Some [of "pq_bands q" "nat (pq_levels q)" v] assms(1) that
  show ?thesis by (simp add: pq_lowest_occupied_def pq_wf_def)
qed

text \<open>The three outcomes of a \<^verbatim>\<open>put\<close> on an open queue.\<close>

definition pq_victim :: "'a prio_queue \<Rightarrow> nat \<Rightarrow> bool" where
  "pq_victim q v \<longleftrightarrow> v < length (pq_bands q) \<and> pq_bands q ! v \<noteq> [] \<and>
     (\<forall>j. v < j \<and> j < length (pq_bands q) \<longrightarrow> pq_bands q ! j = [])"

definition pq_shed :: "'a prio_queue \<Rightarrow> nat \<Rightarrow> 'a prio_queue" where
  "pq_shed q v = pq_discard (q\<lparr>pq_bands := (pq_bands q)[v :=
     (if pq_policy q = DROP_NEWEST then butlast (pq_bands q ! v) else tl (pq_bands q ! v))]\<rparr>) v"

lemma pq_put_cases:
  assumes "pq_wf q" and "\<not> pq_closed q"
  obtains (room) "int (pq_size q) < pq_capacity q"
      "pq_put q x p = (True, pq_append q (pq_band_index q p) x)"
    | (refuse) v where "pq_victim q v" "\<not> int (pq_size q) < pq_capacity q"
      "v \<le> pq_band_index q p" "v = pq_band_index q p \<Longrightarrow> pq_policy q = DROP_NEWEST"
      "pq_put q x p = (False, pq_discard q (pq_band_index q p))"
    | (evict) v where "pq_victim q v" "\<not> int (pq_size q) < pq_capacity q"
      "pq_band_index q p \<le> v" "v = pq_band_index q p \<Longrightarrow> pq_policy q \<noteq> DROP_NEWEST"
      "pq_put q x p = (False, pq_append (pq_shed q v) (pq_band_index q p) x)"
proof (cases "int (pq_size q) < pq_capacity q")
  case True
  then show ?thesis using assms(2) by (intro room) (simp_all add: pq_put_def)
next
  case False
  obtain v where v: "pq_lowest_occupied q = Some v" "pq_victim q v"
    using pq_full_victim [OF assms(1) False] unfolding pq_victim_def by blast
  show ?thesis
  proof (cases "v < pq_band_index q p \<or> v = pq_band_index q p \<and> pq_policy q = DROP_NEWEST")
    case True
    with v False assms(2) show ?thesis by (intro refuse [of v]) (auto simp: pq_put_def)
  next
    case other: False
    with v False assms(2) show ?thesis
      by (intro evict [of v]) (auto simp: pq_put_def pq_shed_def Let_def)
  qed
qed

lemma pq_append_size:
  "b < length (pq_bands q) \<Longrightarrow> pq_size (pq_append q b x) = Suc (pq_size q)"
  using sum_list_map_length_update [of b "pq_bands q" "pq_bands q ! b @ [x]"]
  by (simp add: pq_size_def pq_append_def)

lemma pq_shed_size: "pq_victim q v \<Longrightarrow> Suc (pq_size (pq_shed q v)) = pq_size q"
proof -
  assume v: "pq_victim q v"
  let ?r = "if pq_policy q = DROP_NEWEST then butlast (pq_bands q ! v) else tl (pq_bands q ! v)"
  have "Suc (length ?r) = length (pq_bands q ! v)"
    using v by (cases "pq_bands q ! v") (simp_all add: pq_victim_def)
  moreover have "sum_list (map length ((pq_bands q)[v := ?r])) + length (pq_bands q ! v) =
      pq_size q + length ?r"
    using v sum_list_map_length_update [of v "pq_bands q" ?r]
    by (simp only: pq_size_def pq_victim_def simp_thms)
  ultimately show ?thesis by (simp add: pq_size_def pq_shed_def pq_discard_def)
qed

lemma pq_size_discard [simp]: "pq_size (pq_discard q b) = pq_size q"
  by (simp add: pq_size_def pq_discard_def)

lemma pq_fields [simp]:
  "pq_capacity (pq_append q b x) = pq_capacity q" "pq_levels (pq_append q b x) = pq_levels q"
  "pq_policy (pq_append q b x) = pq_policy q" "pq_dropped (pq_append q b x) = pq_dropped q"
  "pq_dropped_by_band (pq_append q b x) = pq_dropped_by_band q"
  "length (pq_bands (pq_append q b x)) = length (pq_bands q)"
  "pq_capacity (pq_discard q b) = pq_capacity q" "pq_levels (pq_discard q b) = pq_levels q"
  "pq_policy (pq_discard q b) = pq_policy q" "pq_bands (pq_discard q b) = pq_bands q"
  "pq_dropped (pq_discard q b) = Suc (pq_dropped q)"
  "pq_capacity (pq_shed q b) = pq_capacity q" "pq_levels (pq_shed q b) = pq_levels q"
  "pq_policy (pq_shed q b) = pq_policy q" "pq_dropped (pq_shed q b) = Suc (pq_dropped q)"
  "length (pq_bands (pq_shed q b)) = length (pq_bands q)"
  by (simp_all add: pq_append_def pq_discard_def pq_shed_def)

lemma pq_dropped_by_band_sum:
  "b < length (pq_dropped_by_band q) \<Longrightarrow>
    sum_list (pq_dropped_by_band (pq_discard q b)) = Suc (sum_list (pq_dropped_by_band q))"
  using sum_list_update_nat [of b "pq_dropped_by_band q" "pq_dropped_by_band q ! b + 1"]
  by (simp add: pq_discard_def)

lemma pq_append_wf:
  "pq_wf q \<Longrightarrow> b < nat (pq_levels q) \<Longrightarrow> int (pq_size q) < pq_capacity q \<Longrightarrow> pq_wf (pq_append q b x)"
  by (simp add: pq_wf_def pq_append_size)

lemma pq_discard_wf: "pq_wf q \<Longrightarrow> b < nat (pq_levels q) \<Longrightarrow> pq_wf (pq_discard q b)"
  by (simp add: pq_wf_def pq_dropped_by_band_sum) (simp add: pq_discard_def)

lemma pq_shed_wf:
  assumes "pq_wf q" and "pq_victim q v"
  shows "pq_wf (pq_shed q v)" and "int (pq_size (pq_shed q v)) < pq_capacity q"
proof -
  have v: "v < nat (pq_levels q)" using assms by (simp add: pq_wf_def pq_victim_def)
  have "pq_dropped_by_band (pq_shed q v) = pq_dropped_by_band (pq_discard q v)"
    by (simp add: pq_shed_def pq_discard_def)
  with assms v pq_discard_wf [OF assms(1) v] pq_shed_size [OF assms(2)]
  show "pq_wf (pq_shed q v)" by (simp add: pq_wf_def)
  show "int (pq_size (pq_shed q v)) < pq_capacity q"
    using assms pq_shed_size [OF assms(2)] by (simp add: pq_wf_def)
qed

lemma pq_put_wf: "pq_wf q \<Longrightarrow> pq_wf (snd (pq_put q x p))"
proof (cases "pq_closed q")
  case False
  assume wf: "pq_wf q"
  then have b: "pq_band_index q p < nat (pq_levels q)"
    by (intro pq_band_index_less) (simp add: pq_wf_def)
  from wf False show ?thesis
    by (cases rule: pq_put_cases [where x = x and p = p])
       (simp_all add: pq_append_wf pq_discard_wf pq_shed_wf wf b)
qed (simp add: pq_put_def)

text \<open>The two outcomes of a \<^verbatim>\<open>get\<close>.\<close>

lemma pq_get_cases:
  obtains (empty) "pq_snapshot q = []" "first_occupied (pq_bands q) = None" "pq_get q = (None, q)"
    | (item) b x xs where "first_occupied (pq_bands q) = Some b" "b < length (pq_bands q)"
      "pq_bands q ! b = x # xs" "\<forall>j < b. pq_bands q ! j = []"
      "pq_get q = (Some x, q\<lparr>pq_bands := (pq_bands q)[b := xs]\<rparr>)"
proof (cases "first_occupied (pq_bands q)")
  case None
  then have "pq_snapshot q = []" by (simp only: pq_snapshot_def first_occupied_None)
  with None show ?thesis by (intro empty) (simp_all add: pq_get_def)
next
  case (Some b)
  from first_occupied_Some [OF Some] obtain x xs where
    "pq_bands q ! b = x # xs" "b < length (pq_bands q)" "\<forall>j < b. pq_bands q ! j = []"
    by (auto simp: neq_Nil_conv)
  with Some show ?thesis by (intro item [of b x xs]) (simp_all add: pq_get_def)
qed

lemma pq_get_accounts:
  "length (pq_departs q PGet) + pq_size (snd (pq_get q)) = pq_size q"
proof (cases rule: pq_get_cases [of q])
  case (item b x xs)
  then show ?thesis
    using sum_list_map_length_update [of b "pq_bands q" xs] by (simp add: pq_size_def)
qed simp

lemma pq_get_wf: "pq_wf q \<Longrightarrow> pq_wf (snd (pq_get q))"
  using pq_get_accounts [of q] by (cases rule: pq_get_cases [of q]) (auto simp: pq_wf_def)

lemma pq_step_wf [inv_step]: "pq_wf q \<Longrightarrow> pq_wf (pq_step q x)"
  by (cases x) (simp_all add: pq_put_wf pq_get_wf, simp add: pq_close_def pq_wf_def pq_size_def)

lemma pq_put_accounts:
  assumes "pq_wf q"
  shows "pq_size (snd (pq_put q x p)) + pq_dropped (snd (pq_put q x p)) =
    pq_size q + pq_dropped q + (if pq_closed q then 0 else 1)"
proof (cases "pq_closed q")
  case False
  have b: "pq_band_index q p < length (pq_bands q)"
    using assms pq_band_index_less [of q p] by (simp add: pq_wf_def)
  from assms False show ?thesis
  proof (cases rule: pq_put_cases [where x = x and p = p])
    case (evict v)
    with b pq_shed_size [OF evict(1)] False show ?thesis by (simp add: pq_append_size)
  qed (use b False in \<open>simp_all add: pq_append_size\<close>)
qed (simp add: pq_put_def)

lemma pq_step_accounts:
  "pq_wf q \<Longrightarrow>
    length (pq_departs q x) + length (pq_snapshot (pq_step q x)) + pq_dropped (pq_step q x) =
    length (pq_snapshot q) + pq_dropped q + length (pq_arrives q x)"
proof (cases x)
  case (PPut y p)
  assume "pq_wf q"
  then show ?thesis using PPut pq_put_accounts [of q y p] by (simp flip: pq_size_snapshot)
next
  case PGet
  have "pq_dropped (snd (pq_get q)) = pq_dropped q" by (cases rule: pq_get_cases [of q]) simp_all
  with PGet pq_get_accounts [of q] show ?thesis by (simp flip: pq_size_snapshot)
qed (simp add: pq_close_def pq_snapshot_def)

lemma pq_step_capacity: "pq_capacity (pq_step q x) = pq_capacity q"
  by (cases x)
     (auto simp: pq_put_def pq_get_def pq_close_def pq_append_def pq_discard_def Let_def
        split: option.splits)

lemma pq_step_levels [simp]: "pq_levels (pq_step q x) = pq_levels q"
  by (cases x)
     (auto simp: pq_put_def pq_get_def pq_close_def pq_append_def pq_discard_def Let_def
        split: option.splits)

lemma pq_step_in_order:
  assumes "pq_wf q"
  shows "subseq (pq_departs_from b q x @ pq_bands (pq_step q x) ! b)
                (pq_bands q ! b @ pq_arrives_in b q x)"
proof (cases x)
  case (PPut y p)
  show ?thesis
  proof (cases "pq_closed q")
    case False
    have len: "pq_band_index q p < length (pq_bands q)"
      using assms pq_band_index_less [of q p] by (simp add: pq_wf_def)
    have shed: "subseq (pq_bands (pq_shed q v) ! b) (pq_bands q ! b)" if "pq_victim q v" for v
      using that subseq_tl subseq_butlast
      by (cases "v = b") (auto simp: pq_shed_def pq_discard_def pq_victim_def)
    from assms False show ?thesis
    proof (cases rule: pq_put_cases [where x = y and p = p])
      case (evict v)
      with shed [OF evict(1)] PPut len False show ?thesis
        by (cases "pq_band_index q p = b") (auto simp: pq_append_def)
    qed (use PPut len False in \<open>auto simp: pq_append_def nth_list_update\<close>)
  qed (use PPut in \<open>simp add: pq_put_def\<close>)
next
  case PGet
  show ?thesis
    by (cases rule: pq_get_cases [of q]) (auto simp: PGet nth_list_update)
qed (simp add: pq_close_def)

interpretation pq: bounded_buffer pq_wf pq_step pq_arrives pq_departs pq_snapshot pq_dropped pq_capacity
  by unfold_locales
     (simp_all add: pq_step_accounts pq_step_wf pq_step_capacity, simp add: pq_wf_def flip: pq_size_snapshot)

interpretation pq_lane: lossy_fifo pq_wf pq_step "pq_arrives_in b" "pq_departs_from b" "\<lambda>q. pq_bands q ! b"
  for b
  by unfold_locales (simp_all add: pq_step_wf pq_step_in_order)

section \<open>Properties of the queues\<close>

lemma emits_arrives_le:
  "length (emits pq_step pq_arrives q xs) \<le> length xs"
proof (induction xs arbitrary: q)
  case (Cons x xs)
  have "length (pq_arrives q x) \<le> 1" by (cases x) auto
  with Cons [of "pq_step q x"] show ?case by simp
qed simp

text \<open>
  Bulk never displaces urgent. Whatever is put on the queue, and under either
  policy, every band more urgent than the newcomer's is left exactly as it was, and no
  drop is ever charged to such a band.
\<close>

lemma pq_bulk_never_displaces_urgent:
  assumes "pq_wf q" and "j < pq_band_index q p"
  shows "pq_bands (snd (pq_put q x p)) ! j = pq_bands q ! j \<and>
    pq_dropped_by_band (snd (pq_put q x p)) ! j = pq_dropped_by_band q ! j"
proof (cases "pq_closed q")
  case False
  from assms(1) False show ?thesis
    by (cases rule: pq_put_cases [where x = x and p = p])
       (use assms(2) in \<open>auto simp: pq_append_def pq_shed_def pq_discard_def\<close>)
qed (simp add: pq_put_def)

lemma pq_bulk_never_displaces_urgent_witness:
  "\<exists>q. pq_wf q \<and> 0 < pq_band_index q 7 \<and> pq_bands (snd (pq_put q (9::nat) 7)) ! 0 = [1, 2]"
proof -
  let ?q = "\<lparr>pq_capacity = 2, pq_policy = DROP_OLDEST, pq_levels = 2, pq_bands = [[1, 2], []],
    pq_closed = False, pq_dropped = 0, pq_dropped_by_band = [0, 0]\<rparr> :: nat prio_queue"
  have wf: "pq_wf ?q" by (simp add: pq_wf_def pq_size_def POLICIES_def)
  have b: "0 < pq_band_index ?q 7" by (simp add: pq_band_index_def)
  show ?thesis using pq_bulk_never_displaces_urgent [OF wf b, of 9] wf b by (intro exI [of _ ?q]) simp
qed

text \<open>
  First in, first out within a band. Over any run of puts, gets and a close from a
  fresh queue, the items that leave band \<open>b\<close>, followed by those still in it, are a
  subsequence of the items that were put in it: none overtakes another, none is
  delivered twice, none is made up.
\<close>

lemma pq_fifo_within_band:
  assumes "pq_init capacity policy levels = Inr q"
  shows "subseq (emits pq_step (pq_departs_from b) q ops @ pq_bands (run pq_step q ops) ! b)
    (pq_bands q ! b @ emits pq_step (pq_arrives_in b) q ops)"
  using pq_lane.in_order_run [OF pq_init_wf [OF assms]] .

lemma pq_fifo_within_band_witness:
  "\<exists>q. pq_init 2 DROP_OLDEST 2 = Inr (q :: nat prio_queue) \<and>
     subseq (emits pq_step (pq_departs_from 1) q [PPut 4 1, PPut 5 1, PPut 6 1, PGet] @
       pq_bands (run pq_step q [PPut 4 1, PPut 5 1, PPut 6 1, PGet]) ! 1)
     (pq_bands q ! 1 @ emits pq_step (pq_arrives_in 1) q [PPut 4 1, PPut 5 1, PPut 6 1, PGet])"
proof -
  obtain q :: "nat prio_queue" where q: "pq_init 2 DROP_OLDEST 2 = Inr q"
    by (simp add: pq_init_def POLICIES_def)
  show ?thesis using q pq_fifo_within_band [OF q] by blast
qed

text \<open>
  The priority queue is bounded and accounts for every item. Over any run from a
  fresh queue, no more items are held than the capacity, and the items accepted are
  those that left, those held and those counted as dropped; the per-band drop counters
  add up to the total.
\<close>

lemma pq_bounded_and_accounted:
  assumes "pq_init capacity policy levels = Inr q"
  shows "int (length (pq_snapshot (run pq_step q ops))) \<le> capacity \<and>
    length (emits pq_step pq_departs q ops) + length (pq_snapshot (run pq_step q ops)) +
      pq_dropped (run pq_step q ops) = length (emits pq_step pq_arrives q ops) \<and>
    sum_list (pq_dropped_by_band (run pq_step q ops)) = pq_dropped (run pq_step q ops)"
proof -
  note wf = pq_init_wf [OF assms]
  have "pq_snapshot q = []" "pq_dropped q = 0" "pq_capacity q = capacity"
    using assms by (auto simp: pq_init_def pq_snapshot_def split: if_splits)
  with pq.never_over [OF wf, of ops] pq.accounts_run [OF wf, of ops] pq.inv_run [OF wf, of ops]
  show ?thesis by (simp add: pq_wf_def)
qed

lemma pq_bounded_and_accounted_witness:
  "\<exists>q. pq_init 1 DROP_NEWEST 2 = Inr (q :: nat prio_queue) \<and>
     pq_snapshot (run pq_step q [PPut 4 1, PPut 5 0]) = [5] \<and>
     int (length (pq_snapshot (run pq_step q [PPut 4 1, PPut 5 0]))) \<le> 1"
proof -
  let ?q = "\<lparr>pq_capacity = 1, pq_policy = DROP_NEWEST, pq_levels = 2, pq_bands = [[], []],
    pq_closed = False, pq_dropped = 0, pq_dropped_by_band = [0, 0]\<rparr> :: nat prio_queue"
  have q: "pq_init 1 DROP_NEWEST 2 = Inr ?q"
    by (simp add: pq_init_def POLICIES_def numeral_2_eq_2)
  have "pq_snapshot (run pq_step ?q [PPut 4 1, PPut 5 0]) = [5]"
    by (simp add: pq_put_def pq_band_index_def pq_size_def pq_append_def pq_lowest_occupied_def
        numeral_2_eq_2 pq_discard_def pq_snapshot_def Let_def)
  with q pq_bounded_and_accounted [OF q, of "[PPut 4 1, PPut 5 0]"] show ?thesis by blast
qed

lemma pq_get_snapshot:
  "(case pq_get q of (None, q') \<Rightarrow> pq_snapshot q = [] \<and> q' = q
    | (Some x, q') \<Rightarrow> pq_snapshot q = x # pq_snapshot q')"
proof (cases rule: pq_get_cases [of q])
  case (item b x xs)
  with concat_single_update(1) [of b "pq_bands q" xs] concat_single_update(2) [of b "pq_bands q"]
  show ?thesis by (simp add: pq_snapshot_def)
qed simp

text \<open>
  A queue drains in the order \<^verbatim>\<open>snapshot\<close> shows: \<open>n\<close> gets return exactly the first
  \<open>n\<close> items of the snapshot, so band 0 is emptied before band 1 is looked at.
\<close>

lemma pq_drains_in_snapshot_order:
  "emits pq_step pq_departs q (replicate n PGet) = take n (pq_snapshot q)"
proof (induction n arbitrary: q)
  case (Suc n)
  show ?case
    using pq_get_snapshot [of q] Suc [of "snd (pq_get q)"]
    by (cases "pq_get q"; cases "fst (pq_get q)") auto
qed simp

lemma policies_differ [simp]: "DROP_OLDEST \<noteq> DROP_NEWEST" "DROP_NEWEST \<noteq> DROP_OLDEST"
  by (simp_all add: DROP_OLDEST_def DROP_NEWEST_def)

text \<open>What one put and what many puts leave in an open queue.\<close>

definition rq_keep :: "'a ring_queue \<Rightarrow> 'a list \<Rightarrow> 'a list" where
  "rq_keep q xs =
     (if rq_policy q = DROP_NEWEST then take (nat (rq_capacity q)) xs
      else newest (nat (rq_capacity q)) xs)"

lemma rq_keep_absorb: "rq_keep q (rq_keep q xs @ ys) = rq_keep q (xs @ ys)"
  by (simp add: rq_keep_def newest_absorb take_absorb del: take_append)

lemma rq_put_keeps:
  assumes "rq_wf q" and "\<not> rq_closed q"
  shows "rq_items (snd (rq_put q x)) = rq_keep q (rq_items q @ [x])"
proof (cases "int (length (rq_items q)) \<ge> rq_capacity q")
  case True
  with assms have "length (rq_items q) = nat (rq_capacity q)" "0 < nat (rq_capacity q)"
    by (auto simp: rq_wf_def)
  with True assms show ?thesis by (simp add: rq_put_def rq_keep_def newest_snoc Let_def)
next
  case False
  with assms show ?thesis by (simp add: rq_put_def rq_keep_def newest_short le_nat_iff)
qed

lemma rq_puts_keep:
  "rq_wf q \<Longrightarrow> \<not> rq_closed q \<Longrightarrow>
    rq_items (run rq_step q (map RPut xs)) = rq_keep q (rq_items q @ xs)"
proof (induction xs arbitrary: q)
  case Nil
  then show ?case by (auto simp: rq_keep_def rq_wf_def newest_short le_nat_iff nat_le_iff)
next
  case (Cons x xs)
  let ?q = "snd (rq_put q x)"
  have "rq_wf ?q" using rq_step_wf [OF Cons.prems(1), of "RPut x"] by simp
  moreover have "\<not> rq_closed ?q" "rq_keep ?q = rq_keep q"
    using Cons.prems by (auto simp: rq_put_def rq_keep_def Let_def)
  ultimately show ?case
    using Cons.IH [of ?q] rq_put_keeps [OF Cons.prems] rq_keep_absorb [of q "rq_items q @ [x]" xs]
    by simp
qed

text \<open>
  What survives an overflow of \<^verbatim>\<open>BoundedRingQueue\<close> is exactly what the policy
  names: under \<^verbatim>\<open>drop_oldest\<close> the newest \<open>capacity\<close> items, under \<^verbatim>\<open>drop_newest\<close> the
  oldest, in the order they came.
\<close>

lemma rq_overflow_policy:
  assumes "rq_init capacity policy = Inr q"
  shows "rq_snapshot (run rq_step q (map RPut xs)) =
    (if policy = DROP_NEWEST then take (nat capacity) xs
     else drop (length xs - nat capacity) xs)"
proof -
  have "rq_wf q" "\<not> rq_closed q" "rq_items q = []" "rq_capacity q = capacity" "rq_policy q = policy"
    using rq_init_wf [OF assms] assms by (auto simp: rq_init_def split: if_splits)
  then show ?thesis
    using rq_puts_keep [of q xs] by (simp add: rq_snapshot_def rq_keep_def newest_def)
qed

lemma rq_overflow_policy_witness:
  "\<exists>q. rq_init 2 DROP_OLDEST = Inr (q :: nat ring_queue) \<and>
     rq_snapshot (run rq_step q (map RPut [1, 2, 3])) = [2, 3]"
proof -
  obtain q :: "nat ring_queue" where q: "rq_init 2 DROP_OLDEST = Inr q"
    by (simp add: rq_init_def POLICIES_def)
  show ?thesis using q rq_overflow_policy [OF q, of "[1, 2, 3]"]
    by (simp add: DROP_OLDEST_def DROP_NEWEST_def numeral_2_eq_2)
qed


end
