(* ===== verification/Framing.thy ===== *)
theory Framing
  imports Prelude
begin

unbundle bit_operations_syntax

text \<open>
  The serial framing of \<^verbatim>\<open>amiga_ros2_comms/lora/framing.py\<close>: CRC-8, COBS byte
  stuffing, the wire frame and the incremental parser. Bytes are \<open>8 word\<close>; the integer
  accumulators of the code that are masked with \<^verbatim>\<open>0xFF\<close> are \<open>8 word\<close> too, the
  counters and indices of the COBS loops are \<open>nat\<close>.
\<close>

section \<open>CRC-8\<close>

definition CRC8_POLY :: byte where
  "CRC8_POLY = 0x07"

definition DELIMITER :: byte where
  "DELIMITER = 0"

definition MAX_BODY_BYTES :: nat where
  "MAX_BODY_BYTES = 255"

definition LINK_STATS_BYTES :: nat where
  "LINK_STATS_BYTES = 3"

text \<open>One turn of the inner loop of \<^verbatim>\<open>_build_crc8_table\<close>.\<close>

definition crc8_shift :: "byte \<Rightarrow> byte" where
  "crc8_shift crc =
     (if crc AND 0x80 \<noteq> 0 then push_bit 1 crc XOR CRC8_POLY else push_bit 1 crc)"

definition build_crc8_table :: "byte list" where
  "build_crc8_table = map (\<lambda>i. (crc8_shift ^^ 8) (of_nat i)) [0..<256]"

definition crc8 :: "byte list \<Rightarrow> byte" where
  "crc8 data = foldl (\<lambda>crc b. build_crc8_table ! unat (crc XOR b)) 0 data"

section \<open>Frame errors\<close>

text \<open>The \<^verbatim>\<open>kind\<close> of a \<^verbatim>\<open>FrameError\<close>; the message text is for logs only.\<close>

datatype frame_error = Cobs | Crc | Length | Oversize

text \<open>\<^verbatim>\<open>encode_frame\<close> can also let \<^verbatim>\<open>int.to_bytes\<close>'s OverflowError through.\<close>

datatype frame_exn = FrameError frame_error | IntTooBig

section \<open>COBS\<close>

record cobs_state =
  co_out :: "byte list"
  co_code_index :: nat
  co_code :: nat

definition cobs_close :: "cobs_state \<Rightarrow> cobs_state" where
  "cobs_close s =
     s\<lparr>co_out := (co_out s)[co_code_index s := of_nat (co_code s)] @ [0],
       co_code_index := length (co_out s),
       co_code := 1\<rparr>"

definition cobs_encode_step :: "cobs_state \<Rightarrow> byte \<Rightarrow> cobs_state" where
  "cobs_encode_step s b =
     (if b = 0 then cobs_close s
      else
        let s1 = s\<lparr>co_out := co_out s @ [b], co_code := co_code s + 1\<rparr>
        in if co_code s1 = 0xFF then cobs_close s1 else s1)"

definition cobs_encode :: "byte list \<Rightarrow> byte list" where
  "cobs_encode data =
     (let s = foldl cobs_encode_step \<lparr>co_out = [0], co_code_index = 0, co_code = 1\<rparr> data
      in (co_out s)[co_code_index s := of_nat (co_code s)])"

function cobs_decode_loop :: "byte list \<Rightarrow> nat \<Rightarrow> byte list \<Rightarrow> frame_error + byte list" where
  "cobs_decode_loop data i out =
     (if i < length data then
        let code = unat (data ! i)
        in if code = 0 then Inl Cobs
           else
             let i1 = i + 1; block_end = i1 + code - 1
             in if block_end > length data then Inl Cobs
                else
                  let out1 = out @ take (block_end - i1) (drop i1 data)
                  in cobs_decode_loop data block_end
                       (if code \<noteq> 0xFF \<and> block_end < length data then out1 @ [0] else out1)
      else Inr out)"
  by pat_completeness auto
termination
  by (relation "measure (\<lambda>(data, i, out). length data - i)") auto

declare cobs_decode_loop.simps [simp del]

definition cobs_decode :: "byte list \<Rightarrow> frame_error + byte list" where
  "cobs_decode data = cobs_decode_loop data 0 []"

definition max_wire_frame_bytes :: "nat \<Rightarrow> nat" where
  "max_wire_frame_bytes max_body_bytes =
     (let logical = max_body_bytes + 2 in logical + (logical div 254 + 1) + 1)"

section \<open>Frames\<close>

text \<open>Python's \<^verbatim>\<open>round\<close>: to the nearest integer, ties to the even one.\<close>

definition py_round :: "rat \<Rightarrow> int" where
  "py_round x =
     (let f = \<lfloor>x\<rfloor>; d = x - of_int f
      in if d < 1/2 then f else if d > 1/2 then f + 1 else if even f then f else f + 1)"

text \<open>\<^verbatim>\<open>int.to_bytes(n, "little", signed=True)\<close> and its inverse.\<close>

definition to_bytes_le_signed :: "nat \<Rightarrow> int \<Rightarrow> byte list option" where
  "to_bytes_le_signed n v =
     (if - (2 ^ (8 * n - 1)) \<le> v \<and> v < 2 ^ (8 * n - 1)
      then Some (map (\<lambda>k. word_of_int (v div 256 ^ k)) [0..<n]) else None)"

definition from_bytes_le_signed :: "byte list \<Rightarrow> int" where
  "from_bytes_le_signed bs =
     (let u = foldr (\<lambda>b acc. uint b + 256 * acc) bs 0; n = length bs
      in if bs \<noteq> [] \<and> u \<ge> 2 ^ (8 * n - 1) then u - 256 ^ n else u)"

definition encode_frame :: "byte list \<Rightarrow> (int \<times> rat) option \<Rightarrow> frame_exn + byte list" where
  "encode_frame payload link_stats =
     (let body =
        (case link_stats of
           None \<Rightarrow> Some payload
         | Some (rssi, snr) \<Rightarrow>
             (case (to_bytes_le_signed 2 rssi, to_bytes_le_signed 1 (py_round (snr * 4))) of
                (Some r, Some s) \<Rightarrow> Some (r @ s @ payload)
              | _ \<Rightarrow> None))
      in case body of
           None \<Rightarrow> Inl IntTooBig
         | Some body \<Rightarrow>
             if length body > MAX_BODY_BYTES then Inl (FrameError Oversize)
             else Inr (cobs_encode (of_nat (length body) # body @ [crc8 body]) @ [DELIMITER]))"

record frame =
  fr_payload :: "byte list"
  fr_rssi :: "int option"
  fr_snr :: "rat option"

definition decode_frame :: "byte list \<Rightarrow> int \<Rightarrow> bool \<Rightarrow> frame_error + frame" where
  "decode_frame encoded max_payload_bytes with_link_stats =
     (case cobs_decode encoded of
        Inl e \<Rightarrow> Inl e
      | Inr logical \<Rightarrow>
          if length logical < 2 then Inl Length
          else
            let declared = unat (logical ! 0); body = butlast (tl logical)
            in if declared \<noteq> length body then Inl Length
               else if crc8 body \<noteq> last logical then Inl Crc
               else if with_link_stats \<and> length body < LINK_STATS_BYTES then Inl Length
               else
                 let rssi = (if with_link_stats then Some (from_bytes_le_signed (take 2 body)) else None);
                     snr = (if with_link_stats
                            then Some (of_int (from_bytes_le_signed (take 1 (drop 2 body))) / 4)
                            else None);
                     payload = (if with_link_stats then drop LINK_STATS_BYTES body else body)
                 in if int (length payload) > max_payload_bytes then Inl Oversize
                    else Inr \<lparr>fr_payload = payload, fr_rssi = rssi, fr_snr = snr\<rparr>)"

section \<open>The incremental parser\<close>

record parser_stats =
  ps_frames :: nat
  ps_crc_errors :: nat
  ps_cobs_errors :: nat
  ps_length_errors :: nat
  ps_oversize_errors :: nat
  ps_resyncs :: nat

definition stats_zero :: parser_stats where
  "stats_zero = \<lparr>ps_frames = 0, ps_crc_errors = 0, ps_cobs_errors = 0, ps_length_errors = 0,
     ps_oversize_errors = 0, ps_resyncs = 0\<rparr>"

definition ps_drops :: "parser_stats \<Rightarrow> nat" where
  "ps_drops s = ps_crc_errors s + ps_cobs_errors s + ps_length_errors s + ps_oversize_errors s
     + ps_resyncs s"

text \<open>The \<^verbatim>\<open>setattr\<close> on \<^verbatim>\<open>f"{exc.kind}_errors"\<close>.\<close>

fun count_error :: "frame_error \<Rightarrow> parser_stats \<Rightarrow> parser_stats" where
  "count_error Cobs s = s\<lparr>ps_cobs_errors := ps_cobs_errors s + 1\<rparr>"
| "count_error Crc s = s\<lparr>ps_crc_errors := ps_crc_errors s + 1\<rparr>"
| "count_error Length s = s\<lparr>ps_length_errors := ps_length_errors s + 1\<rparr>"
| "count_error Oversize s = s\<lparr>ps_oversize_errors := ps_oversize_errors s + 1\<rparr>"

record frame_parser =
  fp_max_payload_bytes :: int
  fp_with_link_stats :: bool
  fp_stats :: parser_stats
  fp_buffer :: "byte list"
  fp_max_wire :: nat

definition parser_init :: "int \<Rightarrow> bool \<Rightarrow> frame_parser" where
  "parser_init max_payload with_stats =
     \<lparr>fp_max_payload_bytes = max_payload, fp_with_link_stats = with_stats,
      fp_stats = stats_zero, fp_buffer = [], fp_max_wire = max_wire_frame_bytes MAX_BODY_BYTES\<rparr>"

definition feed_byte :: "frame_parser \<Rightarrow> byte \<Rightarrow> frame_parser \<times> frame list" where
  "feed_byte p b =
     (if b \<noteq> DELIMITER then
        let p1 = p\<lparr>fp_buffer := fp_buffer p @ [b]\<rparr>
        in if length (fp_buffer p1) > fp_max_wire p1
           then (p1\<lparr>fp_buffer := [],
                    fp_stats := (fp_stats p1)\<lparr>ps_resyncs := ps_resyncs (fp_stats p1) + 1\<rparr>\<rparr>, [])
           else (p1, [])
      else if fp_buffer p = [] then (p, [])
      else
        let p1 = p\<lparr>fp_buffer := []\<rparr>
        in case decode_frame (fp_buffer p) (fp_max_payload_bytes p) (fp_with_link_stats p) of
             Inr f \<Rightarrow>
               (p1\<lparr>fp_stats := (fp_stats p1)\<lparr>ps_frames := ps_frames (fp_stats p1) + 1\<rparr>\<rparr>, [f])
           | Inl e \<Rightarrow> (p1\<lparr>fp_stats := count_error e (fp_stats p1)\<rparr>, []))"

fun feed :: "frame_parser \<Rightarrow> byte list \<Rightarrow> frame_parser \<times> frame list" where
  "feed p [] = (p, [])"
| "feed p (b # bs) =
     (let (p1, fs1) = feed_byte p b; (p2, fs2) = feed p1 bs in (p2, fs1 @ fs2))"

section \<open>COBS against a block-wise reference\<close>

text \<open>
  The encoder patches a placeholder in its output buffer; the reference holds the
  current block and writes its code byte when the block ends.
\<close>

fun cobs_ref :: "byte list \<Rightarrow> byte list \<Rightarrow> byte list" where
  "cobs_ref blk [] = of_nat (Suc (length blk)) # blk"
| "cobs_ref blk (b # bs) =
     (if b = 0 then (of_nat (Suc (length blk)) # blk) @ cobs_ref [] bs
      else if length blk = 253 then (0xFF # blk @ [b]) @ cobs_ref [] bs
      else cobs_ref (blk @ [b]) bs)"

lemma cobs_encode_from_ref:
  assumes "length blk < 254"
  shows "(let s = foldl cobs_encode_step
              \<lparr>co_out = P @ 0 # blk, co_code_index = length P, co_code = Suc (length blk)\<rparr> data
          in (co_out s)[co_code_index s := of_nat (co_code s)]) = P @ cobs_ref blk data"
  using assms
proof (induction blk data arbitrary: P rule: cobs_ref.induct)
  case (1 blk)
  then show ?case by simp
next
  case (2 blk b bs)
  consider "b = 0" | "b \<noteq> 0" "length blk = 253" | "b \<noteq> 0" "length blk \<noteq> 253" by blast
  then show ?case
  proof cases
    case 1
    with 2(1) [of "P @ of_nat (Suc (length blk)) # blk"] show ?thesis
      by (simp add: cobs_encode_step_def cobs_close_def Let_def)
  next
    case c: 2
    with 2(2) [of "P @ 0xFF # blk @ [b]"] show ?thesis
      by (simp add: cobs_encode_step_def cobs_close_def Let_def)
  next
    case 3
    with 2(3) [of P] 2(4) show ?thesis
      by (simp add: cobs_encode_step_def Let_def)
  qed
qed

lemma cobs_encode_ref: "cobs_encode data = cobs_ref [] data"
  using cobs_encode_from_ref [of "[]" "[]" data] by (simp add: cobs_encode_def)

lemma cobs_ref_not_Nil [simp]: "cobs_ref blk data \<noteq> []"
  by (induction blk data rule: cobs_ref.induct) auto

lemma of_nat_byte: "n < 256 \<Longrightarrow> unat (of_nat n :: byte) = n"
  by (simp add: unat_of_nat)

lemma code_byte_nonzero: "n < 254 \<Longrightarrow> of_nat (Suc n) \<noteq> (0::byte)"
  using of_nat_byte [of "Suc n"] by (auto simp del: of_nat_Suc)

lemma cobs_ref_no_zero:
  "length blk < 254 \<Longrightarrow> 0 \<notin> set blk \<Longrightarrow> 0 \<notin> set (cobs_ref blk data)"
  by (induction blk data rule: cobs_ref.induct) (auto dest: code_byte_nonzero simp del: of_nat_Suc)

lemma cobs_ref_length:
  "length blk < 254 \<Longrightarrow>
    length (cobs_ref blk data) \<le> length blk + length data + (length blk + length data) div 254 + 1"
proof (induction blk data rule: cobs_ref.induct)
  case (2 blk b bs)
  have "(length blk + 1 + length bs) div 254 \<ge> length bs div 254" by (intro div_le_mono) simp
  with 2 show ?case by (auto simp: le_div_geq)
qed simp

text \<open>One block of the decoder's loop.\<close>

lemma cobs_decode_block:
  assumes "length blk < 255"
    and data_def: "data = Q @ of_nat (Suc (length blk)) # blk @ R"
  shows "cobs_decode_loop data (length Q) out =
    cobs_decode_loop data (length Q + Suc (length blk))
      (out @ blk @ (if length blk \<noteq> 254 \<and> R \<noteq> [] then [0] else []))"
proof -
  have "unat (data ! length Q) = Suc (length blk)"
    using assms(1) by (simp add: data_def of_nat_byte del: of_nat_Suc)
  then show ?thesis
    by (subst cobs_decode_loop.simps) (auto simp: data_def Let_def)
qed

lemma cobs_decode_done: "length data \<le> i \<Longrightarrow> cobs_decode_loop data i out = Inr out"
  by (subst cobs_decode_loop.simps) simp

lemma cobs_decode_ref:
  "length blk < 254 \<Longrightarrow>
    cobs_decode_loop (Q @ cobs_ref blk data) (length Q) out = Inr (out @ blk @ data)"
proof (induction blk data arbitrary: Q out rule: cobs_ref.induct)
  case (1 blk)
  then show ?case
    using cobs_decode_block [of blk _ Q "[]", OF _ refl, of out] by (simp add: cobs_decode_done)
next
  case (2 blk b bs)
  consider "b = 0" | "b \<noteq> 0" "length blk = 253" | "b \<noteq> 0" "length blk \<noteq> 253" by blast
  then show ?case
  proof cases
    case 1
    with 2 cobs_decode_block [of blk _ Q "cobs_ref [] bs", OF _ refl, of out]
      2(1) [of "Q @ of_nat (Suc (length blk)) # blk" "out @ blk @ [0]"]
    show ?thesis by simp
  next
    case c: 2
    with cobs_decode_block [of "blk @ [b]" _ Q "cobs_ref [] bs", OF _ refl, of out]
      2(2) [of "Q @ 0xFF # blk @ [b]" "out @ blk @ [b]"]
    show ?thesis by simp
  next
    case 3
    with 2(3) [of Q out] 2(4) show ?thesis by simp
  qed
qed

lemma cobs_roundtrip: "cobs_decode (cobs_encode data) = Inr data"
  using cobs_decode_ref [of "[]" "[]" data "[]"] by (simp add: cobs_decode_def cobs_encode_ref)

lemma cobs_no_delimiter: "DELIMITER \<notin> set (cobs_encode data)"
  using cobs_ref_no_zero [of "[]" data] by (simp add: DELIMITER_def cobs_encode_ref)

lemma cobs_overhead: "length (cobs_encode data) \<le> length data + length data div 254 + 1"
  using cobs_ref_length [of "[]" data] by (simp add: cobs_encode_ref)

section \<open>Frames: lengths and round trips\<close>

lemma cobs_encode_not_Nil [simp]: "cobs_encode data \<noteq> []"
  by (simp add: cobs_encode_ref)

lemma le_value:
  "foldr (\<lambda>b acc. uint b + 256 * acc) (map (\<lambda>k. word_of_int (v div 256 ^ k) :: byte) [0..<n]) 0
    = v mod 256 ^ n"
proof (induction n arbitrary: v)
  case (Suc n)
  have "map (\<lambda>k. word_of_int (v div 256 ^ k) :: byte) [0..<Suc n] =
      word_of_int v # map (\<lambda>k. word_of_int (v div 256 div 256 ^ k)) [0..<n]"
    by (simp only: upt_conv_Cons map_Suc_upt [symmetric])
      (simp add: div_mult2_eq [symmetric] zdiv_zmult2_eq mult.commute comp_def)
  then show ?case
    using Suc [of "v div 256"] by (simp add: uint_word_of_int zmod_zmult2_eq)
qed simp

lemma from_to_bytes_le_signed:
  assumes "to_bytes_le_signed n v = Some bs" "0 < n"
  shows "from_bytes_le_signed bs = v" "length bs = n"
proof -
  let ?H = "2 ^ (8 * n - 1) :: int"
  have H: "256 ^ n = 2 * ?H"
    using assms(2) power_Suc [of "2::int" "8 * n - 1"] by (simp add: power_mult)
  have bs: "bs = map (\<lambda>k. word_of_int (v div 256 ^ k)) [0..<n]" and r: "- ?H \<le> v" "v < ?H"
    using assms(1) by (auto simp: to_bytes_le_signed_def split: if_splits)
  show len: "length bs = n" by (simp add: bs)
  have u: "foldr (\<lambda>b acc. uint b + 256 * acc) bs 0 = v mod 256 ^ n"
    unfolding bs by (rule le_value)
  have "v mod 256 ^ n = (if 0 \<le> v then v else v + 256 ^ n)"
    using r H by (auto intro!: mod_pos_pos_trivial)
      (smt (verit) mod_add_self2 mod_pos_pos_trivial)
  then show "from_bytes_le_signed bs = v"
    using r H u len assms(2) by (auto simp: from_bytes_le_signed_def Let_def)
qed

lemma encode_wire_length:
  assumes "encode_frame payload ls = Inr w"
  shows "length w \<le> max_wire_frame_bytes MAX_BODY_BYTES"
proof -
  obtain body where w: "w = cobs_encode (of_nat (length body) # body @ [crc8 body]) @ [DELIMITER]"
    and b: "length body \<le> MAX_BODY_BYTES"
    using assms by (auto simp: encode_frame_def Let_def split: option.splits if_splits)
  let ?n = "length body + 2"
  have "length w \<le> ?n + ?n div 254 + 2"
    using cobs_overhead [of "of_nat (length body) # body @ [crc8 body]"] by (simp add: w)
  also have "\<dots> \<le> 257 + 257 div 254 + 2"
    using b div_le_mono [of ?n 257 254] by (simp add: MAX_BODY_BYTES_def)
  finally show ?thesis by (simp add: max_wire_frame_bytes_def MAX_BODY_BYTES_def)
qed

lemma decode_logical:
  assumes "length body \<le> MAX_BODY_BYTES" and "\<not> ls \<or> LINK_STATS_BYTES \<le> length body"
  shows "decode_frame (cobs_encode (of_nat (length body) # body @ [c])) m ls =
    (if crc8 body \<noteq> c then Inl Crc
     else if int (length (if ls then drop LINK_STATS_BYTES body else body)) > m then Inl Oversize
     else Inr \<lparr>fr_payload = (if ls then drop LINK_STATS_BYTES body else body),
       fr_rssi = (if ls then Some (from_bytes_le_signed (take 2 body)) else None),
       fr_snr = (if ls then Some (of_int (from_bytes_le_signed (take 1 (drop 2 body))) / 4)
                 else None)\<rparr>)"
  using assms
  by (auto simp: decode_frame_def cobs_roundtrip Let_def MAX_BODY_BYTES_def of_nat_byte
      butlast_append)

definition stats_ok :: "int \<Rightarrow> rat \<Rightarrow> bool" where
  "stats_ok rssi snr \<longleftrightarrow> - 32768 \<le> rssi \<and> rssi < 32768 \<and>
     - 128 \<le> py_round (snr * 4) \<and> py_round (snr * 4) < 128"

definition wire_ok :: "int \<Rightarrow> bool \<Rightarrow> byte list \<times> (int \<times> rat) option \<Rightarrow> bool" where
  "wire_ok m ls pk = (case pk of (payload, link) \<Rightarrow>
     int (length payload) \<le> m \<and> (link = None \<longleftrightarrow> \<not> ls) \<and>
     (case link of
        None \<Rightarrow> length payload \<le> MAX_BODY_BYTES
      | Some (rssi, snr) \<Rightarrow> stats_ok rssi snr \<and> length payload + LINK_STATS_BYTES \<le> MAX_BODY_BYTES))"

definition wire :: "byte list \<times> (int \<times> rat) option \<Rightarrow> byte list" where
  "wire pk = projr (encode_frame (fst pk) (snd pk))"

text \<open>What the receiver gets: the payload exactly, the RSSI exactly, the SNR to a quarter dB.\<close>

definition received :: "byte list \<times> (int \<times> rat) option \<Rightarrow> frame" where
  "received pk =
     \<lparr>fr_payload = fst pk, fr_rssi = map_option fst (snd pk),
      fr_snr = map_option (\<lambda>(_, snr). of_int (py_round (snr * 4)) / 4) (snd pk)\<rparr>"

lemma wire_cobs:
  assumes "wire_ok m ls pk"
  obtains enc where "encode_frame (fst pk) (snd pk) = Inr (enc @ [DELIMITER])"
    "DELIMITER \<notin> set enc" "enc \<noteq> []" "length enc < max_wire_frame_bytes MAX_BODY_BYTES"
    "decode_frame enc m ls = Inr (received pk)"
proof -
  obtain payload link where pk: "pk = (payload, link)" by force
  have "\<exists>enc. encode_frame payload link = Inr (enc @ [DELIMITER]) \<and> DELIMITER \<notin> set enc \<and> enc \<noteq> [] \<and>
      decode_frame enc m ls = Inr (received pk)"
  proof (cases link)
    case None
    with assms show ?thesis
      by (auto simp: pk wire_ok_def encode_frame_def Let_def decode_logical received_def
          cobs_no_delimiter)
  next
    case (Some st)
    then obtain rssi snr where link: "link = Some (rssi, snr)" by (cases st) auto
    from assms have ok: "stats_ok rssi snr" by (simp add: pk wire_ok_def link)
    obtain r where r: "to_bytes_le_signed 2 rssi = Some r"
      using ok by (auto simp: to_bytes_le_signed_def stats_ok_def)
    obtain s where s: "to_bytes_le_signed 1 (py_round (snr * 4)) = Some s"
      using ok by (auto simp: to_bytes_le_signed_def stats_ok_def)
    note rs = from_to_bytes_le_signed [OF r] from_to_bytes_le_signed [OF s]
    let ?body = "r @ s @ payload"
    have "length ?body \<le> MAX_BODY_BYTES" "LINK_STATS_BYTES \<le> length ?body"
      using assms rs by (auto simp: pk link wire_ok_def LINK_STATS_BYTES_def)
    with decode_logical [of ?body ls "crc8 ?body" m] assms rs show ?thesis
      by (auto simp: pk link wire_ok_def encode_frame_def Let_def r s [unfolded One_nat_def] received_def
          cobs_no_delimiter LINK_STATS_BYTES_def)
  qed
  then obtain enc where e: "encode_frame payload link = Inr (enc @ [DELIMITER])"
    "DELIMITER \<notin> set enc" "enc \<noteq> []" "decode_frame enc m ls = Inr (received pk)" by blast
  show thesis
    using that [of enc] e encode_wire_length [OF e(1)] by (simp add: pk)
qed

section \<open>What the CRC detects\<close>

lemma bit_CRC8_POLY: "bit CRC8_POLY n \<longleftrightarrow> n < 3"
proof -
  have "CRC8_POLY = mask 3" by (simp add: CRC8_POLY_def mask_eq_exp_minus_1)
  show ?thesis unfolding \<open>CRC8_POLY = mask 3\<close> bit_mask_iff possible_bit_word by auto
qed

lemma and_0x80: "(crc :: byte) AND 0x80 \<noteq> 0 \<longleftrightarrow> bit crc 7"
  using and_exp_eq_0_iff_not_bit [of crc 7] by simp

lemma bit_push_1: "bit (push_bit 1 (a::byte)) n \<longleftrightarrow> 0 < n \<and> n < 8 \<and> bit a (n - 1)"
  by (simp only: bit_push_bit_iff possible_bit_word) auto

lemma crc8_shift_alt:
  "crc8_shift a = push_bit 1 a XOR (if bit a 7 then CRC8_POLY else 0)"
  unfolding crc8_shift_def and_0x80 by (cases "bit a 7") (simp_all only: if_True if_False xor.right_neutral)

lemma bit_crc8_shift:
  "bit (crc8_shift a) n \<longleftrightarrow> (0 < n \<and> n < 8 \<and> bit a (n - 1)) \<noteq> (bit a 7 \<and> n < 3)"
  unfolding crc8_shift_alt bit_xor_iff bit_push_1 by (simp add: bit_CRC8_POLY)

lemma crc8_shift_xor: "crc8_shift (a XOR b) = crc8_shift a XOR crc8_shift b"
  by (rule bit_eqI) (auto simp: bit_crc8_shift bit_xor_iff)

lemma crc8_shift_eq_0: "crc8_shift a = 0 \<Longrightarrow> a = 0"
proof -
  assume *: "crc8_shift a = 0"
  have no7: "\<not> bit a 7" using arg_cong [OF *, of "\<lambda>w. bit w 0"] by (simp add: bit_crc8_shift)
  show "a = 0"
  proof (rule bit_eqI)
    fix n assume "possible_bit TYPE(8 word) n"
    then show "bit a n = bit (0 :: byte) n"
      using arg_cong [OF *, of "\<lambda>w. bit w (Suc n)"] no7
      by (cases "n = 7") (auto simp: bit_crc8_shift)
  qed
qed

definition crc8_next :: "byte \<Rightarrow> byte" where
  "crc8_next = crc8_shift ^^ 8"

lemma crc8_funpow_xor:
  "(crc8_shift ^^ n) (a XOR b) = (crc8_shift ^^ n) a XOR (crc8_shift ^^ n) b"
  by (induction n) (auto simp: crc8_shift_xor)

lemma crc8_funpow_eq_0: "(crc8_shift ^^ n) a = 0 \<Longrightarrow> a = 0"
  by (induction n) (auto dest: crc8_shift_eq_0)

lemma word_xor_eq_0: "(a :: byte) XOR b = 0 \<longleftrightarrow> a = b"
proof
  assume *: "a XOR b = 0"
  have "a = (a XOR b) XOR b" by (simp add: xor.assoc)
  then show "a = b" by (simp add: *)
qed simp

lemma xor_left_cancel: "(a :: byte) XOR b = a XOR c \<longleftrightarrow> b = c"
proof
  assume *: "a XOR b = a XOR c"
  have "b = a XOR (a XOR b)" by (simp add: xor.assoc [symmetric])
  also have "\<dots> = c" unfolding * by (simp add: xor.assoc [symmetric])
  finally show "b = c" .
qed simp

lemma xor_right_cancel: "(b :: byte) XOR a = c XOR a \<longleftrightarrow> b = c"
  by (simp add: xor.commute [of _ a] xor_left_cancel)

lemma crc8_next_inj: "crc8_next a = crc8_next b \<Longrightarrow> a = b"
  using crc8_funpow_eq_0 [of 8 "a XOR b"] by (simp add: crc8_next_def crc8_funpow_xor word_xor_eq_0)

lemma unat_lt2p_byte: "unat (w :: byte) < 256"
  using unsigned_less [where 'b = 8 and 'a = nat, of w] by simp

lemma crc8_foldl: "crc8 data = foldl (\<lambda>crc b. crc8_next (crc XOR b)) 0 data"
proof -
  have unat_lt_len: "unat w < 256" for w :: byte
    using unat_lt2p_byte [of w] .
  have "build_crc8_table ! unat w = crc8_next w" for w
    using unat_lt_len by (simp add: build_crc8_table_def crc8_next_def)
  then show ?thesis by (simp add: crc8_def)
qed

lemma crc8_state_inj:
  "foldl (\<lambda>crc b. crc8_next (crc XOR b)) s xs = foldl (\<lambda>crc b. crc8_next (crc XOR b)) t xs \<Longrightarrow> s = t"
  by (induction xs arbitrary: s t) (force dest!: crc8_next_inj simp: xor_right_cancel)+

lemma crc8_byte_change: "b \<noteq> c \<Longrightarrow> crc8 (xs @ b # ys) \<noteq> crc8 (xs @ c # ys)"
  by (auto simp: crc8_foldl xor_left_cancel dest!: crc8_state_inj crc8_next_inj)

lemma crc8_next_unfold:
  "crc8_next a = crc8_shift (crc8_shift (crc8_shift (crc8_shift
     (crc8_shift (crc8_shift (crc8_shift (crc8_shift a)))))))"
  by (simp add: crc8_next_def eval_nat_numeral)

lemma crc8_check_value:
  "crc8 [0x31, 0x32, 0x33, 0x34, 0x35, 0x36, 0x37, 0x38, 0x39] = 0xF4"
  by (simp add: crc8_foldl crc8_next_unfold crc8_shift_def CRC8_POLY_def)

definition logical_frame :: "byte list \<Rightarrow> byte list" where
  "logical_frame body = of_nat (length body) # body @ [crc8 body]"

lemma decode_cobs_encode:
  "decode_frame (cobs_encode (l # body @ [c])) m ls =
    (if unat l \<noteq> length body then Inl Length
     else decode_frame (cobs_encode (of_nat (length body) # body @ [c])) m ls)"
  using unat_lt2p_byte [of l]
  by (auto simp: decode_frame_def cobs_roundtrip Let_def of_nat_byte butlast_append)

lemma decode_frame_bad_crc:
  "length body \<le> MAX_BODY_BYTES \<Longrightarrow> crc8 body \<noteq> c \<Longrightarrow>
    decode_frame (cobs_encode (of_nat (length body) # body @ [c])) m ls = Inl Crc"
  by (auto simp: decode_frame_def cobs_roundtrip Let_def MAX_BODY_BYTES_def of_nat_byte
      butlast_append)

lemma crc_rejects_corruption:
  assumes "length body \<le> MAX_BODY_BYTES" and "i < length (logical_frame body)"
    and "y \<noteq> logical_frame body ! i"
  shows "decode_frame (cobs_encode ((logical_frame body)[i := y])) m ls \<in> {Inl Length, Inl Crc}"
proof -
  let ?l = "of_nat (length body) :: byte"
  consider "i = 0" | "i = Suc (length body)" | j where "i = Suc j" "j < length body"
    using assms(2) by (cases i) (auto simp: logical_frame_def less_Suc_eq)
  then show ?thesis
  proof cases
    case 1
    then have "unat y \<noteq> length body"
      using assms(1,3)
      by (auto simp: logical_frame_def MAX_BODY_BYTES_def word_unat_eq_iff of_nat_byte)
    with 1 show ?thesis by (simp add: logical_frame_def decode_cobs_encode [of y])
  next
    case 2
    then have "(logical_frame body)[i := y] = ?l # body @ [y]" "y \<noteq> crc8 body"
      using assms(3) by (auto simp: logical_frame_def list_update_append)
    then show ?thesis
      using decode_frame_bad_crc [OF assms(1)] by simp
  next
    case 3
    have split: "body = take j body @ body ! j # drop (Suc j) body"
      using 3 by (simp add: id_take_nth_drop)
    have upd: "body[j := y] = take j body @ y # drop (Suc j) body"
      using 3 by (simp add: upd_conv_take_nth_drop)
    have "y \<noteq> body ! j" using 3 assms(3) by (auto simp: logical_frame_def nth_append)
    then have "crc8 (body[j := y]) \<noteq> crc8 body"
      using crc8_byte_change [of y "body ! j" "take j body" "drop (Suc j) body"] split upd by simp
    moreover have "(logical_frame body)[i := y] = ?l # body[j := y] @ [crc8 body]"
      using 3 by (simp add: logical_frame_def list_update_append)
    ultimately show ?thesis
      using decode_frame_bad_crc [of "body[j := y]" "crc8 body"] assms(1) by simp
  qed
qed

section \<open>The parser\<close>

lemma feed_append:
  "feed p (xs @ ys) = (let (p1, fs1) = feed p xs; (p2, fs2) = feed p1 ys in (p2, fs1 @ fs2))"
  by (induction xs arbitrary: p) (auto simp: Let_def split: prod.splits)

definition parser_inv :: "int \<Rightarrow> bool \<Rightarrow> frame_parser \<Rightarrow> bool" where
  "parser_inv m ls p \<longleftrightarrow> fp_max_payload_bytes p = m \<and> fp_with_link_stats p = ls \<and>
     fp_max_wire p = max_wire_frame_bytes MAX_BODY_BYTES \<and>
     length (fp_buffer p) \<le> fp_max_wire p \<and> DELIMITER \<notin> set (fp_buffer p)"

lemma parser_inv_init: "parser_inv m ls (parser_init m ls)"
  by (simp add: parser_inv_def parser_init_def)

lemma parser_inv_feed_byte [inv_step]: "parser_inv m ls p \<Longrightarrow> parser_inv m ls (fst (feed_byte p b))"
  by (auto simp: parser_inv_def feed_byte_def Let_def split: sum.splits)

lemma parser_inv_feed [inv_step]: "parser_inv m ls p \<Longrightarrow> parser_inv m ls (fst (feed p bs))"
proof (induction bs arbitrary: p)
  case (Cons b bs)
  with parser_inv_feed_byte [OF Cons.prems, of b] show ?case
    by (auto simp: Let_def split: prod.splits) (metis fst_conv)
qed simp

lemma feed_clean_prefix:
  "DELIMITER \<notin> set bs \<Longrightarrow> length (fp_buffer p) + length bs \<le> fp_max_wire p \<Longrightarrow>
    feed p bs = (p\<lparr>fp_buffer := fp_buffer p @ bs\<rparr>, [])"
  by (induction bs arbitrary: p) (auto simp: feed_byte_def Let_def)

definition parser_clean :: "int \<Rightarrow> bool \<Rightarrow> frame_parser \<Rightarrow> bool" where
  "parser_clean m ls p \<longleftrightarrow> parser_inv m ls p \<and> fp_buffer p = []"

lemma parser_clean_inv: "parser_clean m ls p \<Longrightarrow> parser_inv m ls p"
  by (simp add: parser_clean_def)

lemma feed_delimiter: "parser_inv m ls p \<Longrightarrow> parser_clean m ls (fst (feed p [DELIMITER]))"
  using parser_inv_feed [of m ls p "[DELIMITER]"]
  by (auto simp: parser_clean_def feed_byte_def Let_def split: prod.splits sum.splits)

lemma feed_wire:
  assumes "parser_clean m ls p" "wire_ok m ls pk"
  shows "feed p (wire pk) = (p\<lparr>fp_stats := (fp_stats p)\<lparr>ps_frames := ps_frames (fp_stats p) + 1\<rparr>\<rparr>,
    [received pk])"
proof -
  obtain enc where enc: "encode_frame (fst pk) (snd pk) = Inr (enc @ [DELIMITER])"
    "DELIMITER \<notin> set enc" "enc \<noteq> []" "length enc < max_wire_frame_bytes MAX_BODY_BYTES"
    "decode_frame enc m ls = Inr (received pk)"
    using wire_cobs [OF assms(2)] by metis
  have p: "fp_buffer p = []" "fp_max_payload_bytes p = m" "fp_with_link_stats p = ls"
    "fp_max_wire p = max_wire_frame_bytes MAX_BODY_BYTES"
    using assms(1) by (auto simp: parser_clean_def parser_inv_def)
  have "feed p enc = (p\<lparr>fp_buffer := enc\<rparr>, [])"
    using feed_clean_prefix [of enc p] enc p by simp
  with enc p show ?thesis
    by (simp add: wire_def feed_append feed_byte_def Let_def)
qed

section \<open>The link as an interface\<close>

text \<open>
  What the reliability layer relies on: a sender's byte strings, a receiver that
  consumes chunks, a set of receiver states in which the next byte begins a frame.
\<close>

locale packet_link =
  fixes encode :: "'m \<Rightarrow> 'b list" and consume :: "'s \<Rightarrow> 'b list \<Rightarrow> 's \<times> 'f list"
    and view :: "'m \<Rightarrow> 'f" and valid :: "'m \<Rightarrow> bool"
    and inv :: "'s \<Rightarrow> bool" and clean :: "'s \<Rightarrow> bool" and delim :: 'b
  assumes consume_Nil: "consume s [] = (s, [])"
    and consume_append: "consume s (xs @ ys) =
      (let (s1, fs1) = consume s xs; (s2, fs2) = consume s1 ys in (s2, fs1 @ fs2))"
    and inv_consume: "inv s \<Longrightarrow> inv (fst (consume s xs))"
    and clean_inv: "clean s \<Longrightarrow> inv s"
    and clean_delim: "inv s \<Longrightarrow> clean (fst (consume s [delim]))"
    and clean_frame: "clean s \<Longrightarrow> valid m \<Longrightarrow>
      clean (fst (consume s (encode m))) \<and> snd (consume s (encode m)) = [view m]"
begin

lemma consume_append_snd:
  "snd (consume s (xs @ ys)) = snd (consume s xs) @ snd (consume (fst (consume s xs)) ys)"
  by (simp add: consume_append Let_def split: prod.splits)

lemma consume_append_fst:
  "fst (consume s (xs @ ys)) = fst (consume (fst (consume s xs)) ys)"
  by (simp add: consume_append Let_def split: prod.splits)

lemma stream:
  "clean s \<Longrightarrow> (\<forall>m \<in> set ms. valid m) \<Longrightarrow>
    snd (consume s (concat (map encode ms))) = map view ms"
proof (induction ms arbitrary: s)
  case Nil
  then show ?case by (simp add: consume_Nil)
next
  case (Cons m ms)
  then show ?case using clean_frame [of s m] by (simp add: consume_append_snd)
qed

lemma resync:
  assumes "inv s" "\<forall>m \<in> set ms. valid m"
  shows "snd (consume s (noise @ delim # concat (map encode ms))) =
    snd (consume s (noise @ [delim])) @ map view ms"
proof -
  have "clean (fst (consume s (noise @ [delim])))"
    by (simp add: consume_append_fst clean_delim inv_consume assms(1))
  from stream [OF this assms(2)] show ?thesis
    using consume_append_snd [of s "noise @ [delim]" "concat (map encode ms)"] by simp
qed

lemma chunks:
  "snd (consume s (concat chunks)) = emits (\<lambda>s c. fst (consume s c)) (\<lambda>s c. snd (consume s c)) s chunks"
  by (induction chunks arbitrary: s) (simp_all add: consume_Nil consume_append_snd)

lemma chunks_state: "fst (consume s (concat chunks)) = run (\<lambda>s c. fst (consume s c)) s chunks"
  by (induction chunks arbitrary: s) (simp_all add: consume_Nil consume_append_fst)

end

interpretation serial: packet_link wire feed received "wire_ok m ls" "parser_inv m ls"
    "parser_clean m ls" DELIMITER for m ls
proof
  fix s :: frame_parser and pk
  assume "parser_clean m ls s" "wire_ok m ls pk"
  then show "parser_clean m ls (fst (feed s (wire pk))) \<and> snd (feed s (wire pk)) = [received pk]"
    by (simp add: feed_wire) (simp add: parser_clean_def parser_inv_def)
qed (auto simp: feed_append parser_inv_feed parser_clean_inv feed_delimiter simp del: feed.simps(2))

section \<open>Accounting of the parser\<close>

lemma decode_frame_bounds:
  "decode_frame enc m ls = Inr f \<Longrightarrow>
    int (length (fr_payload f)) \<le> m \<and> (fr_rssi f \<noteq> None \<longleftrightarrow> ls)"
  by (auto simp: decode_frame_def Let_def split: sum.splits if_splits)

definition ps_events :: "frame_parser \<Rightarrow> nat" where
  "ps_events p = ps_frames (fp_stats p) + ps_drops (fp_stats p)"

lemma ps_drops_update [simp]:
  "ps_drops (s\<lparr>ps_frames := n\<rparr>) = ps_drops s"
  "ps_drops (s\<lparr>ps_resyncs := Suc (ps_resyncs s)\<rparr>) = Suc (ps_drops s)"
  by (auto simp: ps_drops_def)

lemma count_error_counts [simp]:
  "ps_drops (count_error e s) = Suc (ps_drops s)" "ps_frames (count_error e s) = ps_frames s"
  by (cases e; simp add: ps_drops_def)+

text \<open>
  A byte completes a frame, is counted as one drop, or is only buffered; every event
  consumes the buffer, so the bytes that were buffered before it are accounted for too.
\<close>

lemma feed_byte_accounts:
  "feed_byte p b = (p', fs) \<Longrightarrow> 0 < fp_max_wire p \<Longrightarrow> fp_max_wire p' = fp_max_wire p \<and>
    ps_frames (fp_stats p') = ps_frames (fp_stats p) + length fs \<and>
    2 * ps_events p' + length (fp_buffer p') \<le> 2 * ps_events p + length (fp_buffer p) + 1"
  by (auto simp: feed_byte_def Let_def ps_events_def Suc_le_eq split: if_splits sum.splits)

lemma feed_accounts:
  "feed p bs = (p', fs) \<Longrightarrow> 0 < fp_max_wire p \<Longrightarrow>
    ps_frames (fp_stats p') = ps_frames (fp_stats p) + length fs \<and>
    2 * ps_events p' + length (fp_buffer p') \<le> 2 * ps_events p + length (fp_buffer p) + length bs"
proof (induction bs arbitrary: p p' fs)
  case (Cons b bs)
  obtain p1 fs1 where 1: "feed_byte p b = (p1, fs1)" by force
  obtain p2 fs2 where 2: "feed p1 bs = (p2, fs2)" by force
  from feed_byte_accounts [OF 1 Cons.prems(2)] Cons.IH [OF 2] Cons.prems show ?case
    by (auto simp: 1 2)
qed auto

lemma feed_byte_frames:
  "parser_inv m ls p \<Longrightarrow> f \<in> set (snd (feed_byte p b)) \<Longrightarrow>
    int (length (fr_payload f)) \<le> m \<and> (fr_rssi f \<noteq> None \<longleftrightarrow> ls)"
  by (auto simp: feed_byte_def Let_def parser_inv_def dest: decode_frame_bounds
      split: if_splits sum.splits)

lemma feed_frames:
  "parser_inv m ls p \<Longrightarrow> f \<in> set (snd (feed p bs)) \<Longrightarrow>
    int (length (fr_payload f)) \<le> m \<and> (fr_rssi f \<noteq> None \<longleftrightarrow> ls)"
proof (induction bs arbitrary: p)
  case (Cons b bs)
  from parser_inv_feed_byte [OF Cons.prems(1)] Cons feed_byte_frames [of m ls p f b] show ?case
    by (auto simp: Let_def split: prod.splits) (metis fst_conv snd_conv)+
qed simp

section \<open>Properties\<close>

text \<open>
  A frame survives the wire. For every payload and link-stats pair within the
  protocol's limits, \<^verbatim>\<open>encode_frame\<close> yields one delimiter-terminated byte string with no
  delimiter inside, and \<^verbatim>\<open>decode_frame\<close> on the part before the delimiter returns the
  payload and the RSSI exactly and the SNR rounded to a quarter of a dB.
\<close>

lemma frame_roundtrip:
  assumes "wire_ok m ls (payload, link)"
  shows "\<exists>enc. encode_frame payload link = Inr (enc @ [DELIMITER]) \<and> DELIMITER \<notin> set enc \<and>
    decode_frame enc m ls = Inr (received (payload, link))"
  using wire_cobs [OF assms] by (metis fst_conv snd_conv)

lemma frame_roundtrip_witness:
  "\<exists>enc. encode_frame [1, 0, 2] (Some (-80, 29/8)) = Inr (enc @ [DELIMITER]) \<and> DELIMITER \<notin> set enc \<and>
    decode_frame enc 200 True =
      Inr \<lparr>fr_payload = [1, 0, 2], fr_rssi = Some (-80), fr_snr = Some (7/2)\<rparr>"
proof -
  have "\<lfloor>29 / 2 :: rat\<rfloor> = 14" by (simp add: floor_eq_iff)
  then have "py_round (29 / 8 * 4) = 14" by (simp add: py_round_def Let_def)
  then show ?thesis
    using frame_roundtrip [of 200 True "[1, 0, 2]" "Some (-80, 29/8)"]
    by (simp add: wire_ok_def stats_ok_def LINK_STATS_BYTES_def MAX_BODY_BYTES_def received_def
        del: times_divide_eq_left not_None_eq)
qed

text \<open>
  COBS is correct. The decoder inverts the encoder on every byte string, the
  encoding never contains the delimiter, and its overhead is at most one byte per 254
  bytes of data, plus one: the figure \<^verbatim>\<open>max_wire_frame_bytes\<close> counts with.
\<close>

lemma cobs_correct:
  "cobs_decode (cobs_encode data) = Inr data \<and> DELIMITER \<notin> set (cobs_encode data) \<and>
   length (cobs_encode data) + 1 \<le> max_wire_frame_bytes (length data - 2) + (2 - length data)"
proof -
  have "length data \<le> 2 \<or> length data \<ge> 2" by linarith
  then show ?thesis
    using cobs_overhead [of data]
    by (auto simp: cobs_roundtrip cobs_no_delimiter max_wire_frame_bytes_def Let_def)
qed

text \<open>
  The integrity checks catch every single-byte corruption. Change one byte of a
  frame (its length byte, any body byte, or its CRC) to any other value before it is
  stuffed, and the receiver rejects the frame, as a length or a CRC error.
\<close>

lemma single_byte_corruption_rejected:
  assumes "length body \<le> MAX_BODY_BYTES" and "i < length (logical_frame body)"
    and "y \<noteq> logical_frame body ! i"
  shows "decode_frame (cobs_encode ((logical_frame body)[i := y])) m ls \<in> {Inl Length, Inl Crc}"
  using assms by (rule crc_rejects_corruption)

lemma single_byte_corruption_rejected_witness:
  "decode_frame (cobs_encode ((logical_frame [5, 6])[1 := 9])) 200 False \<in> {Inl Length, Inl Crc}"
  using single_byte_corruption_rejected [of "[5, 6]" 1 9 200 False]
  by (simp add: logical_frame_def MAX_BODY_BYTES_def)

text \<open>
  C27: The parser is chunk-independent and self-resynchronising. Whatever noise came
  first, and however the bytes are cut into chunks, once a delimiter has passed every
  well-formed frame that follows is returned, in order and exactly once.
\<close>

theorem stream_recovered:
  assumes "\<forall>pk \<in> set pks. wire_ok m ls pk"
    and "concat chunks = noise @ DELIMITER # concat (map wire pks)"
  shows "emits (\<lambda>p c. fst (feed p c)) (\<lambda>p c. snd (feed p c)) (parser_init m ls) chunks =
    snd (feed (parser_init m ls) (noise @ [DELIMITER])) @ map received pks"
  using serial.resync [OF parser_inv_init assms(1)] serial.chunks [of _ chunks] assms(2) by metis

theorem stream_recovered_witness:
  "emits (\<lambda>p c. fst (feed p c)) (\<lambda>p c. snd (feed p c)) (parser_init 200 False)
     [[7, 9], 0 # wire ([1, 0], None), wire ([4], None)] =
   snd (feed (parser_init 200 False) [7, 9, 0]) @ [received ([1, 0], None), received ([4], None)]"
  using stream_recovered [of "[([1, 0], None), ([4], None)]" 200 False
    "[[7, 9], 0 # wire ([1, 0], None), wire ([4], None)]" "[7, 9]"]
  by (simp add: wire_ok_def MAX_BODY_BYTES_def DELIMITER_def)

text \<open>
  The parser's memory and counters are bounded and exact. After any input the
  buffer holds at most the longest legal wire frame, the frame counter equals the
  number of frames returned, every returned payload respects the configured limit, and
  frames plus drops never exceed half the bytes consumed: no input is counted twice.
\<close>

lemma parser_bounded_and_accounted:
  assumes "feed (parser_init m ls) bs = (p, fs)"
  shows "length (fp_buffer p) \<le> max_wire_frame_bytes MAX_BODY_BYTES \<and>
    ps_frames (fp_stats p) = length fs \<and>
    2 * (ps_frames (fp_stats p) + ps_drops (fp_stats p)) + length (fp_buffer p) \<le> length bs \<and>
    (\<forall>f \<in> set fs. int (length (fr_payload f)) \<le> m \<and> (fr_rssi f \<noteq> None \<longleftrightarrow> ls))"
  using parser_inv_feed [OF parser_inv_init, of m ls bs] feed_accounts [OF assms]
    feed_frames [OF parser_inv_init, of _ m ls bs] assms
  by (auto simp: parser_inv_def ps_events_def parser_init_def stats_zero_def ps_drops_def
      max_wire_frame_bytes_def)

lemma parser_bounded_and_accounted_witness:
  "length (fp_buffer (fst (feed (parser_init 200 False) [3, 0, 0, 9]))) \<le>
     max_wire_frame_bytes MAX_BODY_BYTES"
  using parser_bounded_and_accounted [of 200 False "[3, 0, 0, 9]"] by (metis prod.collapse)


end
