(* ===== verification/Airtime.thy ===== *)
theory Airtime
  imports Prelude
begin

text \<open>
  The time-on-air calculator of \<^verbatim>\<open>amiga_ros2_comms/lora/airtime.py\<close>. Settings and
  byte counts are \<open>int\<close>; times are exact rationals (the code computes them in double
  precision, from small integers).
\<close>

section \<open>Modem settings\<close>

record radio_config =
  rc_spreading_factor :: int
  rc_bandwidth_hz :: int
  rc_coding_rate :: int
  rc_preamble_symbols :: int
  rc_explicit_header :: bool
  rc_payload_crc :: bool

text \<open>\<^verbatim>\<open>__post_init__\<close>: the settings, or the \<^verbatim>\<open>ValueError\<close> that refuses them.\<close>

definition radio_post_init :: "radio_config \<Rightarrow> py_exn + radio_config" where
  "radio_post_init r =
     (if \<not> (6 \<le> rc_spreading_factor r \<and> rc_spreading_factor r \<le> 12) then Inl ValueError
      else if rc_bandwidth_hz r \<le> 0 then Inl ValueError
      else if \<not> (5 \<le> rc_coding_rate r \<and> rc_coding_rate r \<le> 8) then Inl ValueError
      else if rc_preamble_symbols r < 0 then Inl ValueError
      else Inr r)"

definition DEFAULT_RADIO :: radio_config where
  "DEFAULT_RADIO = \<lparr>rc_spreading_factor = 7, rc_bandwidth_hz = 125000, rc_coding_rate = 5,
     rc_preamble_symbols = 8, rc_explicit_header = True, rc_payload_crc = True\<rparr>"

definition DWELL_LIMIT_SEC :: secs where
  "DWELL_LIMIT_SEC = 4 / 10"

definition PAYLOAD_CEILING_BYTES :: int where
  "PAYLOAD_CEILING_BYTES = 255"

section \<open>Symbols and airtime\<close>

definition symbol_time_sec :: "radio_config \<Rightarrow> secs" where
  "symbol_time_sec r = of_int (2 ^ nat (rc_spreading_factor r)) / of_int (rc_bandwidth_hz r)"

definition low_data_rate_optimize :: "radio_config \<Rightarrow> bool" where
  "low_data_rate_optimize r \<longleftrightarrow> symbol_time_sec r > 16 / 1000"

definition preamble_time_sec :: "radio_config \<Rightarrow> secs" where
  "preamble_time_sec r = (of_int (rc_preamble_symbols r) + 17 / 4) * symbol_time_sec r"

definition symbol_numerator :: "int \<Rightarrow> radio_config \<Rightarrow> int" where
  "symbol_numerator payload_bytes r =
     8 * payload_bytes - 4 * rc_spreading_factor r + 28
       + (if rc_payload_crc r then 16 else 0)
       - (if rc_explicit_header r then 0 else 20)"

definition symbol_denominator :: "radio_config \<Rightarrow> int" where
  "symbol_denominator r =
     4 * (rc_spreading_factor r - 2 * (if low_data_rate_optimize r then 1 else 0))"

definition payload_symbols :: "int \<Rightarrow> radio_config \<Rightarrow> py_exn + int" where
  "payload_symbols payload_bytes r =
     (if payload_bytes < 0 then Inl ValueError
      else Inr (8 + max (\<lceil>of_int (symbol_numerator payload_bytes r)
                         / (of_int (symbol_denominator r) :: rat)\<rceil> * rc_coding_rate r) 0))"

definition airtime_sec :: "int \<Rightarrow> radio_config \<Rightarrow> py_exn + secs" where
  "airtime_sec payload_bytes r =
     (case payload_symbols payload_bytes r of
        Inl e \<Rightarrow> Inl e
      | Inr n \<Rightarrow> Inr (preamble_time_sec r + of_int n * symbol_time_sec r))"

text \<open>The \<^verbatim>\<open>for size in range(ceiling + 1)\<close> loop, with its \<^verbatim>\<open>break\<close>.\<close>

fun dwell_search :: "radio_config \<Rightarrow> secs \<Rightarrow> int list \<Rightarrow> int \<Rightarrow> py_exn + int" where
  "dwell_search r dwell [] best = Inr best"
| "dwell_search r dwell (n # sizes) best =
     (case airtime_sec n r of
        Inl e \<Rightarrow> Inl e
      | Inr t \<Rightarrow> if t > dwell then Inr best else dwell_search r dwell sizes n)"

definition max_payload_for_dwell :: "radio_config \<Rightarrow> secs \<Rightarrow> int \<Rightarrow> py_exn + int" where
  "max_payload_for_dwell r dwell ceiling_bytes =
     dwell_search r dwell (map int [0..<nat (ceiling_bytes + 1)]) 0"

section \<open>The airtime grows with the payload\<close>

definition radio_ok :: "radio_config \<Rightarrow> bool" where
  "radio_ok r \<longleftrightarrow> radio_post_init r = Inr r"

lemma radio_ok_bounds:
  "radio_ok r \<Longrightarrow> 6 \<le> rc_spreading_factor r \<and> 0 < rc_bandwidth_hz r \<and>
    5 \<le> rc_coding_rate r \<and> 0 \<le> rc_preamble_symbols r"
  by (auto simp: radio_ok_def radio_post_init_def split: if_splits)

lemma symbol_time_pos: "radio_ok r \<Longrightarrow> 0 < symbol_time_sec r"
  by (auto dest: radio_ok_bounds simp: symbol_time_sec_def)

lemma symbol_denominator_pos: "radio_ok r \<Longrightarrow> 0 < symbol_denominator r"
  by (auto dest: radio_ok_bounds simp: symbol_denominator_def)

lemma airtime_value:
  "0 \<le> n \<Longrightarrow> \<exists>t. airtime_sec n r = Inr t"
  by (simp add: airtime_sec_def payload_symbols_def)

lemma airtime_mono:
  assumes "radio_ok r" "airtime_sec m r = Inr s" "airtime_sec n r = Inr t" "m \<le> n"
  shows "s \<le> t"
proof -
  let ?q = "\<lambda>n. of_int (symbol_numerator n r) / (of_int (symbol_denominator r) :: rat)"
  have "symbol_numerator m r \<le> symbol_numerator n r"
    using assms(4) by (simp add: symbol_numerator_def)
  then have "\<lceil>?q m\<rceil> \<le> \<lceil>?q n\<rceil>"
    using symbol_denominator_pos [OF assms(1)] by (intro ceiling_mono divide_right_mono) auto
  then have "\<lceil>?q m\<rceil> * rc_coding_rate r \<le> \<lceil>?q n\<rceil> * rc_coding_rate r"
    using radio_ok_bounds [OF assms(1)] by (intro mult_right_mono) auto
  then have "max (\<lceil>?q m\<rceil> * rc_coding_rate r) 0 \<le> max (\<lceil>?q n\<rceil> * rc_coding_rate r) 0" by simp
  then show ?thesis
    using assms(2,3) symbol_time_pos [OF assms(1)]
    by (auto simp: airtime_sec_def payload_symbols_def mult_right_mono simp del: max.bounded_iff
        split: if_splits)
qed

section \<open>The dwell search\<close>

text \<open>\<open>fits r d n\<close>: a payload of \<open>n\<close> bytes stays within the dwell limit.\<close>

definition fits :: "radio_config \<Rightarrow> secs \<Rightarrow> int \<Rightarrow> bool" where
  "fits r dwell n \<longleftrightarrow> (case airtime_sec n r of Inl _ \<Rightarrow> False | Inr t \<Rightarrow> t \<le> dwell)"

lemma fits_down: "radio_ok r \<Longrightarrow> fits r d n \<Longrightarrow> 0 \<le> m \<Longrightarrow> m \<le> n \<Longrightarrow> fits r d m"
  using airtime_value [of m r] airtime_mono [of r m _ n]
  by (fastforce simp: fits_def split: sum.splits)

declare dwell_search.simps(2) [simp del]

lemma dwell_search_step:
  "0 \<le> n \<Longrightarrow> dwell_search r d (n # sizes) best =
    (if fits r d n then dwell_search r d sizes n else Inr best)"
  using airtime_value [of n r] by (auto simp: fits_def dwell_search.simps(2))

lemma dwell_search_from:
  assumes "radio_ok r" "fits r d (int k)" "k \<le> n"
  shows "\<exists>best. dwell_search r d (map int [Suc k..<Suc n]) (int k) = Inr (int best) \<and>
    k \<le> best \<and> best \<le> n \<and> fits r d (int best) \<and> (best < n \<longrightarrow> \<not> fits r d (int best + 1))"
  using assms(2,3)
proof (induction "n - k" arbitrary: k)
  case 0
  then show ?case by auto
next
  case (Suc j)
  have upt: "[Suc k..<Suc n] = Suc k # [Suc (Suc k)..<Suc n]"
    using Suc.hyps(2) by (simp add: upt_conv_Cons del: upt_Suc)
  show ?case
  proof (cases "fits r d (int (Suc k))")
    case True
    have "j = n - Suc k" "Suc k \<le> n" using Suc.hyps(2) by auto
    from Suc.hyps(1) [OF this(1) True this(2)] obtain best where
      "dwell_search r d (map int [Suc (Suc k)..<Suc n]) (int (Suc k)) = Inr (int best)"
      "Suc k \<le> best" "best \<le> n" "fits r d (int best)" "best < n \<longrightarrow> \<not> fits r d (int best + 1)"
      by blast
    then show ?thesis
      using True by (intro exI [of _ best]) (simp add: upt dwell_search_step del: upt_Suc of_nat_Suc)
  next
    case False
    then show ?thesis
      using Suc.prems Suc.hyps(2)
      by (intro exI [of _ k]) (auto simp: upt dwell_search_step add.commute simp del: upt_Suc)
  qed
qed

text \<open>
  The payload limit derived from the dwell budget is the right one. For every
  accepted modem setting, \<^verbatim>\<open>max_payload_for_dwell\<close> returns a value that separates the
  payload sizes exactly: a size up to the ceiling fits the dwell limit if and only if it
  is at most the returned value (given that the empty payload fits; otherwise it returns 0).
\<close>

lemma max_payload_for_dwell_exact:
  assumes "radio_post_init r = Inr r" and "0 \<le> c"
  shows "\<exists>best. max_payload_for_dwell r d c = Inr best \<and> 0 \<le> best \<and> best \<le> c \<and>
    (if fits r d 0 then (\<forall>n. 0 \<le> n \<and> n \<le> c \<longrightarrow> (fits r d n \<longleftrightarrow> n \<le> best)) else best = 0)"
proof -
  have ok: "radio_ok r" using assms(1) by (simp add: radio_ok_def)
  have range: "map int [0..<nat (c + 1)] = 0 # map int [Suc 0..<Suc (nat c)]"
    using assms(2) by (simp add: nat_add_distrib upt_conv_Cons del: upt_Suc)
  show ?thesis
  proof (cases "fits r d 0")
    case True
    then obtain best where best: "max_payload_for_dwell r d c = Inr (int best)" "best \<le> nat c"
      "fits r d (int best)" "best < nat c \<longrightarrow> \<not> fits r d (int best + 1)"
      using dwell_search_from [OF ok, of d 0 "nat c"]
      by (auto simp: max_payload_for_dwell_def range dwell_search_step simp del: upt_Suc)
    have "fits r d n \<longleftrightarrow> n \<le> int best" if "0 \<le> n" "n \<le> c" for n
      using that best fits_down [OF ok, of d n "int best + 1"] fits_down [OF ok, of d "int best" n]
      by (cases "n \<le> int best") auto
    with True best show ?thesis using assms(2) by (intro exI [of _ "int best"]) auto
  next
    case False
    then show ?thesis
      using assms(2) by (simp add: max_payload_for_dwell_def range dwell_search_step)
  qed
qed

lemma max_payload_for_dwell_exact_witness:
  "\<exists>best. max_payload_for_dwell DEFAULT_RADIO DWELL_LIMIT_SEC PAYLOAD_CEILING_BYTES = Inr best \<and>
    (\<forall>n. 0 \<le> n \<and> n \<le> 255 \<longrightarrow> (fits DEFAULT_RADIO DWELL_LIMIT_SEC n \<longleftrightarrow> n \<le> best))"
proof -
  have "radio_post_init DEFAULT_RADIO = Inr DEFAULT_RADIO"
    by (simp add: radio_post_init_def DEFAULT_RADIO_def)
  moreover have "\<lceil>4 / 7 :: rat\<rceil> = 1" by (simp add: ceiling_eq_iff)
  then have "fits DEFAULT_RADIO DWELL_LIMIT_SEC 0"
    by (simp add: fits_def airtime_sec_def payload_symbols_def symbol_numerator_def
        symbol_denominator_def low_data_rate_optimize_def preamble_time_sec_def symbol_time_sec_def
        DEFAULT_RADIO_def DWELL_LIMIT_SEC_def)
  ultimately show ?thesis
    using max_payload_for_dwell_exact [of DEFAULT_RADIO PAYLOAD_CEILING_BYTES DWELL_LIMIT_SEC]
    by (auto simp: PAYLOAD_CEILING_BYTES_def)
qed

end
