(* ===== verification/Vocabulary.thy ===== *)
theory Vocabulary
  imports Framing
begin

text \<open>
  The wire vocabulary of \<^verbatim>\<open>codec/definitions.py\<close> and \<^verbatim>\<open>codec/messages.py\<close>: tags, capability
  masks, targets and the six message classes. Python's integers are \<open>int\<close>, an
  \<^verbatim>\<open>IntEnum\<close> member is its integer where the code lets one stand for the other. Degrees
  are exact rationals.
\<close>

unbundle bit_operations_syntax

section \<open>Constants\<close>

definition HEADER_BYTES :: nat where "HEADER_BYTES = 4"
definition DEFAULT_MAX_PAYLOAD_BYTES :: int where "DEFAULT_MAX_PAYLOAD_BYTES = 50"
definition CAP_MASK_BITS :: int where "CAP_MASK_BITS = 16"
definition TASK_NONE :: int where "TASK_NONE = 0"
definition ROBOT_ID_NONE :: int where "ROBOT_ID_NONE = 0"
definition GPS_SCALE :: int where "GPS_SCALE = 10000000"
definition TARGET_WORD_MAX :: int where "TARGET_WORD_MAX = 2 ^ 31 - 1"
definition TARGET_WORD_MIN :: int where "TARGET_WORD_MIN = - (2 ^ 31)"
definition INDEX_MAX :: int where "INDEX_MAX = 0xFFFF"
definition SRC_MAX :: int where "SRC_MAX = 0xFF"
definition SEQ_MAX :: int where "SEQ_MAX = 0xFFFF"
definition TASK_ID_MAX :: int where "TASK_ID_MAX = 0xFFFF"
definition BATTERY_MAX :: int where "BATTERY_MAX = 100"
definition PRIORITY_MAX :: int where "PRIORITY_MAX = 0xFF"
definition COST_MAX :: int where "COST_MAX = 0xFF"
definition ETA_RESOLUTION_S :: int where "ETA_RESOLUTION_S = 4"
definition ETA_MAX_S :: int where "ETA_MAX_S = 0xFF * ETA_RESOLUTION_S"
definition NOTE_ID_MAX :: int where "NOTE_ID_MAX = 0xFF"
definition FRAG_MAX :: int where "FRAG_MAX = 0xFF"
definition MAX_NOTE_FRAGMENTS :: int where "MAX_NOTE_FRAGMENTS = 8"

lemmas wire_consts = HEADER_BYTES_def CAP_MASK_BITS_def TARGET_WORD_MAX_def TARGET_WORD_MIN_def
  INDEX_MAX_def SRC_MAX_def SEQ_MAX_def TASK_ID_MAX_def BATTERY_MAX_def PRIORITY_MAX_def COST_MAX_def
  ETA_RESOLUTION_S_def ETA_MAX_S_def NOTE_ID_MAX_def FRAG_MAX_def

section \<open>Message types\<close>

datatype message_type = HEARTBEAT | TASK_ANNOUNCE | BID | GRANT | ACK | FREEFORM

fun tag_of :: "message_type \<Rightarrow> int" where
  "tag_of HEARTBEAT = 0x01"
| "tag_of TASK_ANNOUNCE = 0x02"
| "tag_of BID = 0x03"
| "tag_of GRANT = 0x04"
| "tag_of ACK = 0x05"
| "tag_of FREEFORM = 0x07"

definition RESERVED_TYPES :: "int list" where
  "RESERVED_TYPES = []"

text \<open>A dataclass instance of \<^verbatim>\<open>messages.py\<close>; every class has \<open>m_src\<close> and \<open>m_seq\<close>.\<close>

datatype message =
  Heartbeat (m_src: int) (m_seq: int) (m_cap_mask: int)
    (m_target_kind: int) (m_target_a: int) (m_target_b: int) (m_battery: int) (m_cur_task: int)
| TaskAnnounce (m_src: int) (m_seq: int) (m_task_id: int) (m_req_cap_mask: int)
    (m_target_kind: int) (m_target_a: int) (m_target_b: int) (m_priority: int) (m_reason_code: int)
| Bid (m_src: int) (m_seq: int) (m_task_id: int) (m_eta_s: int) (m_feasible: bool) (m_cost: int)
| Grant (m_src: int) (m_seq: int) (m_task_id: int) (m_winner_id: int)
| Ack (m_src: int) (m_seq: int) (m_ack_src: int) (m_ack_seq: int)
| Freeform (m_src: int) (m_seq: int) (m_task_id: int) (m_note_id: int) (m_frag_index: int)
    (m_frag_count: int) (m_text: "byte list")

fun type_of :: "message \<Rightarrow> message_type" where
  "type_of (Heartbeat _ _ _ _ _ _ _ _) = HEARTBEAT"
| "type_of (TaskAnnounce _ _ _ _ _ _ _ _ _) = TASK_ANNOUNCE"
| "type_of (Bid _ _ _ _ _ _) = BID"
| "type_of (Grant _ _ _ _) = GRANT"
| "type_of (Ack _ _ _ _) = ACK"
| "type_of (Freeform _ _ _ _ _ _ _) = FREEFORM"

text \<open>The assignments \<^verbatim>\<open>msg.src = ...; msg.seq = ...\<close> of a sender.\<close>

fun set_header :: "int \<Rightarrow> int \<Rightarrow> message \<Rightarrow> message" where
  "set_header src seq (Heartbeat _ _ a b c d e f) = Heartbeat src seq a b c d e f"
| "set_header src seq (TaskAnnounce _ _ a b c d e f g) = TaskAnnounce src seq a b c d e f g"
| "set_header src seq (Bid _ _ a b c d) = Bid src seq a b c d"
| "set_header src seq (Grant _ _ a b) = Grant src seq a b"
| "set_header src seq (Ack _ _ a b) = Ack src seq a b"
| "set_header src seq (Freeform _ _ a b c d e) = Freeform src seq a b c d e"

section \<open>Capabilities\<close>

datatype capability =
  MOVE_TO_TREE_ID | MOVE_TO_AISLE_HEAD | MOVE_TO_GPS_LOCATION | APPROACH_GPS_WAYPOINT
| MOVE_TO_RELATIVE_LOCATION | ORIENT_ROBOT_HEADING | FOLLOW_PERSON | SAMPLE_LEAF
| MOVE_ARM_TO_POSITION

definition all_capabilities :: "capability list" where
  "all_capabilities = [MOVE_TO_TREE_ID, MOVE_TO_AISLE_HEAD, MOVE_TO_GPS_LOCATION,
     APPROACH_GPS_WAYPOINT, MOVE_TO_RELATIVE_LOCATION, ORIENT_ROBOT_HEADING, FOLLOW_PERSON,
     SAMPLE_LEAF, MOVE_ARM_TO_POSITION]"

fun cap_index :: "capability \<Rightarrow> int" where
  "cap_index MOVE_TO_TREE_ID = 0"
| "cap_index MOVE_TO_AISLE_HEAD = 1"
| "cap_index MOVE_TO_GPS_LOCATION = 2"
| "cap_index APPROACH_GPS_WAYPOINT = 3"
| "cap_index MOVE_TO_RELATIVE_LOCATION = 4"
| "cap_index ORIENT_ROBOT_HEADING = 5"
| "cap_index FOLLOW_PERSON = 6"
| "cap_index SAMPLE_LEAF = 7"
| "cap_index MOVE_ARM_TO_POSITION = 8"

fun xml_element :: "capability \<Rightarrow> string" where
  "xml_element MOVE_TO_TREE_ID = ''MoveToTreeID''"
| "xml_element MOVE_TO_AISLE_HEAD = ''MoveToAisleHead''"
| "xml_element MOVE_TO_GPS_LOCATION = ''MoveToGPSLocation''"
| "xml_element APPROACH_GPS_WAYPOINT = ''ApproachGPSWaypoint''"
| "xml_element MOVE_TO_RELATIVE_LOCATION = ''MoveToRelativeLocation''"
| "xml_element ORIENT_ROBOT_HEADING = ''OrientRobotHeading''"
| "xml_element FOLLOW_PERSON = ''FollowPerson''"
| "xml_element SAMPLE_LEAF = ''SampleLeaf''"
| "xml_element MOVE_ARM_TO_POSITION = ''MoveArmToPosition''"

definition capability_by_element :: "string \<Rightarrow> capability option" where
  "capability_by_element = map_of (map (\<lambda>c. (xml_element c, c)) all_capabilities)"

fun cap_mask_from :: "int \<Rightarrow> int list \<Rightarrow> py_exn + int" where
  "cap_mask_from m [] = Inr m"
| "cap_mask_from m (index # rest) =
     (if \<not> (0 \<le> index \<and> index < CAP_MASK_BITS) then Inl ValueError
      else cap_mask_from (m OR push_bit (nat index) 1) rest)"

definition cap_mask :: "int list \<Rightarrow> py_exn + int" where
  "cap_mask capabilities = cap_mask_from 0 capabilities"

definition has_capability :: "int \<Rightarrow> int \<Rightarrow> py_exn + bool" where
  "has_capability m index =
     (if \<not> (0 \<le> index \<and> index < CAP_MASK_BITS) then Inl ValueError
      else Inr (m AND push_bit (nat index) 1 \<noteq> 0))"

definition has_capabilities :: "int \<Rightarrow> int \<Rightarrow> bool" where
  "has_capabilities m required \<longleftrightarrow> m AND required = required"

definition capabilities_in :: "int \<Rightarrow> capability list" where
  "capabilities_in m =
     filter (\<lambda>c. m AND push_bit (nat (cap_index c)) 1 \<noteq> 0) all_capabilities"

section \<open>Targets\<close>

datatype target_kind = NONE | TREE | AISLE | GPS

definition TargetKind :: "int \<Rightarrow> py_exn + target_kind" where
  "TargetKind k =
     (if k = 0 then Inr NONE else if k = 1 then Inr TREE else if k = 2 then Inr AISLE
      else if k = 3 then Inr GPS else Inl ValueError)"

fun kind_int :: "target_kind \<Rightarrow> int" where
  "kind_int NONE = 0" | "kind_int TREE = 1" | "kind_int AISLE = 2" | "kind_int GPS = 3"

record target =
  tg_kind :: target_kind
  tg_a :: int
  tg_b :: int

definition word_in_range :: "int \<Rightarrow> bool" where
  "word_in_range v \<longleftrightarrow> TARGET_WORD_MIN \<le> v \<and> v \<le> TARGET_WORD_MAX"

text \<open>The constructor with its \<^verbatim>\<open>__post_init__\<close>.\<close>

definition Target :: "int \<Rightarrow> int \<Rightarrow> int \<Rightarrow> py_exn + target" where
  "Target kind a b =
     (case TargetKind kind of
        Inl e \<Rightarrow> Inl e
      | Inr k \<Rightarrow>
          if \<not> word_in_range a then Inl ValueError
          else if \<not> word_in_range b then Inl ValueError
          else if k = TREE \<or> k = AISLE then
            (if \<not> (0 \<le> a \<and> a \<le> INDEX_MAX) then Inl ValueError
             else if b \<noteq> 0 then Inl ValueError
             else Inr \<lparr>tg_kind = k, tg_a = a, tg_b = b\<rparr>)
          else if k = NONE \<and> (a \<noteq> 0 \<or> b \<noteq> 0) then Inl ValueError
          else Inr \<lparr>tg_kind = k, tg_a = a, tg_b = b\<rparr>)"

definition target_none :: "py_exn + target" where
  "target_none = Target (kind_int NONE) 0 0"

definition target_tree :: "int \<Rightarrow> py_exn + target" where
  "target_tree i = Target (kind_int TREE) i 0"

definition target_aisle :: "int \<Rightarrow> py_exn + target" where
  "target_aisle i = Target (kind_int AISLE) i 0"

definition target_gps :: "rat \<Rightarrow> rat \<Rightarrow> py_exn + target" where
  "target_gps lat lon =
     (if \<not> (-90 \<le> lat \<and> lat \<le> 90) then Inl ValueError
      else if \<not> (-180 \<le> lon \<and> lon \<le> 180) then Inl ValueError
      else Target (kind_int GPS) (py_round (lat * of_int GPS_SCALE)) (py_round (lon * of_int GPS_SCALE)))"

definition lat_deg :: "target \<Rightarrow> rat" where
  "lat_deg t = of_int (tg_a t) / of_int GPS_SCALE"

definition lon_deg :: "target \<Rightarrow> rat" where
  "lon_deg t = of_int (tg_b t) / of_int GPS_SCALE"

definition placed :: "target \<Rightarrow> bool" where
  "placed t \<longleftrightarrow> tg_kind t \<noteq> NONE"

section \<open>Targets are consistent\<close>

text \<open>What a constructed target promises its readers.\<close>

definition target_wf :: "target \<Rightarrow> bool" where
  "target_wf t \<longleftrightarrow> word_in_range (tg_a t) \<and> word_in_range (tg_b t) \<and>
     (case tg_kind t of
        NONE \<Rightarrow> tg_a t = 0 \<and> tg_b t = 0
      | TREE \<Rightarrow> 0 \<le> tg_a t \<and> tg_a t \<le> INDEX_MAX \<and> tg_b t = 0
      | AISLE \<Rightarrow> 0 \<le> tg_a t \<and> tg_a t \<le> INDEX_MAX \<and> tg_b t = 0
      | GPS \<Rightarrow> True)"

lemma TargetKind_kind_int [simp]: "TargetKind (kind_int k) = Inr k"
  by (cases k) (simp_all add: TargetKind_def)

lemma TargetKind_Inr: "TargetKind i = Inr k \<longleftrightarrow> i = kind_int k"
  by (cases k) (auto simp: TargetKind_def)

lemma Target_Inr:
  "Target k a b = Inr t \<longleftrightarrow>
    k = kind_int (tg_kind t) \<and> a = tg_a t \<and> b = tg_b t \<and> target_wf t"
proof (cases "TargetKind k")
  case (Inl e)
  then show ?thesis by (auto simp: Target_def)
next
  case (Inr kd)
  then have k: "k = kind_int kd" by (simp add: TargetKind_Inr)
  obtain kd' a' b' where t: "t = \<lparr>tg_kind = kd', tg_a = a', tg_b = b'\<rparr>" by (cases t)
  show ?thesis
    by (cases kd; cases kd'; auto simp: Target_def TargetKind_def target_wf_def k t)
qed

lemma Target_Inl: "Target k a b = Inl e \<Longrightarrow> e = ValueError"
  by (auto simp: Target_def TargetKind_def split: sum.splits if_splits)

lemma py_round_near: "\<bar>of_int (py_round x) - x\<bar> \<le> 1 / 2"
proof -
  obtain f where f: "f = \<lfloor>x\<rfloor>" by blast
  have "of_int f \<le> x" "x < of_int f + 1" unfolding f by linarith+
  then show ?thesis unfolding py_round_def Let_def f [symmetric] by (auto simp: abs_if)
qed

lemma py_round_between:
  assumes "of_int m \<le> x" "x \<le> of_int n"
  shows "m \<le> py_round x" "py_round x \<le> n"
  using abs_le_D1 [OF py_round_near [of x]] abs_le_D2 [OF py_round_near [of x]] assms by linarith+

lemma scaled_error:
  fixes x y c :: rat
  assumes "\<bar>x - y * c\<bar> \<le> 1 / 2" "0 < c"
  shows "\<bar>x / c - y\<bar> \<le> 1 / (2 * c)"
proof -
  have "x / c - y = (x - y * c) / c" using assms(2) by (simp add: field_simps)
  then show ?thesis using assms divide_right_mono [of "\<bar>x - y * c\<bar>" "1 / 2" c] by simp
qed

lemma py_round_word:
  assumes "\<bar>x\<bar> \<le> 180"
  shows "word_in_range (py_round (x * 10000000))"
  using py_round_between [of "-1800000000" "x * 10000000" 1800000000] assms
  by (auto simp: word_in_range_def wire_consts abs_le_iff)

text \<open>
  Every place a robot can name is representable, and no malformed place is. A
  target is built exactly when its three words are consistent; \<^verbatim>\<open>Target.gps\<close> accepts
  exactly the latitudes and longitudes on the globe, and reading the degrees back is
  off by at most half of 1e-7 degree.
\<close>

lemma target_constructors_sound:
  "(Target k a b = Inr t \<longleftrightarrow> k = kind_int (tg_kind t) \<and> a = tg_a t \<and> b = tg_b t \<and> target_wf t) \<and>
   (if \<bar>lat\<bar> \<le> 90 \<and> \<bar>lon\<bar> \<le> 180
    then \<exists>g. target_gps lat lon = Inr g \<and> target_wf g \<and> placed g \<and>
           \<bar>lat_deg g - lat\<bar> \<le> 1 / 20000000 \<and> \<bar>lon_deg g - lon\<bar> \<le> 1 / 20000000
    else target_gps lat lon = Inl ValueError)"
proof -
  have "\<exists>g. target_gps lat lon = Inr g \<and> target_wf g \<and> placed g \<and>
      \<bar>lat_deg g - lat\<bar> \<le> 1 / 20000000 \<and> \<bar>lon_deg g - lon\<bar> \<le> 1 / 20000000"
    if deg: "\<bar>lat\<bar> \<le> 90" "\<bar>lon\<bar> \<le> 180"
  proof -
    let ?a = "py_round (lat * 10000000)" and ?b = "py_round (lon * 10000000)"
    let ?g = "\<lparr>tg_kind = GPS, tg_a = ?a, tg_b = ?b\<rparr>"
    have "word_in_range ?a" "word_in_range ?b"
      using deg py_round_word [of lat] py_round_word [of lon] by auto
    then have wf: "target_wf ?g" by (simp add: target_wf_def)
    then have "target_gps lat lon = Inr ?g"
      using deg by (auto simp: target_gps_def GPS_SCALE_def Target_Inr)
    moreover have "\<bar>lat_deg ?g - lat\<bar> \<le> 1 / 20000000" "\<bar>lon_deg ?g - lon\<bar> \<le> 1 / 20000000"
      using scaled_error [OF py_round_near [of "lat * 10000000"]]
        scaled_error [OF py_round_near [of "lon * 10000000"]]
      by (simp_all add: lat_deg_def lon_deg_def GPS_SCALE_def)
    ultimately show ?thesis using wf by (auto simp: placed_def)
  qed
  then show ?thesis by (auto simp: Target_Inr target_gps_def)
qed

section \<open>Capability masks are sets\<close>

text \<open>The set a mask stands for.\<close>

definition mask_set :: "int \<Rightarrow> nat set" where
  "mask_set m = {n. bit m n}"

lemma cap_index_nonneg: "0 \<le> cap_index c"
  by (cases c) auto

lemma cap_mask_from_bits:
  "cap_mask_from m cs = (if \<forall>i \<in> set cs. 0 \<le> i \<and> i < CAP_MASK_BITS
     then Inr (foldl (\<lambda>m i. m OR push_bit (nat i) 1) m cs) else Inl ValueError)"
  by (induction cs arbitrary: m) auto

lemma bit_foldl_or:
  "bit (foldl (\<lambda>m i. m OR push_bit (nat i) 1) (m :: int) cs) n \<longleftrightarrow> bit m n \<or> (\<exists>i \<in> set cs. nat i = n)"
  by (induction cs arbitrary: m) (auto simp: bit_or_iff bit_exp_iff)

lemma has_capabilities_subset:
  "has_capabilities m r \<longleftrightarrow> mask_set r \<subseteq> mask_set m"
  by (auto simp: has_capabilities_def mask_set_def bit_eq_iff bit_and_iff)

lemma distinct_all_capabilities: "distinct all_capabilities"
  by (simp add: all_capabilities_def)

lemma set_all_capabilities: "set all_capabilities = UNIV"
proof -
  have "c \<in> set all_capabilities" for c by (cases c) (simp_all add: all_capabilities_def)
  then show ?thesis by auto
qed

text \<open>
  A capability mask is the set it was built from. \<^verbatim>\<open>cap_mask\<close> refuses an index that
  does not fit the 16-bit field and otherwise advertises exactly the given indices;
  \<^verbatim>\<open>has_capability\<close> is membership, \<^verbatim>\<open>has_capabilities\<close> is inclusion of the requirement in
  the advertisement, and \<^verbatim>\<open>capabilities_in\<close> lists the known members once each.
\<close>

lemma cap_mask_is_a_set:
  "(case cap_mask cs of
      Inl e \<Rightarrow> e = ValueError \<and> (\<exists>i \<in> set cs. \<not> (0 \<le> i \<and> i < 16))
    | Inr m \<Rightarrow> (\<forall>i. has_capability m i =
          (if 0 \<le> i \<and> i < 16 then Inr (i \<in> set cs) else Inl ValueError)) \<and>
        set (capabilities_in m) = {c. cap_index c \<in> set cs} \<and> distinct (capabilities_in m) \<and>
        (\<forall>r. has_capabilities m r \<longleftrightarrow> (\<forall>n. bit r n \<longrightarrow> int n \<in> set cs)))"
proof (cases "cap_mask cs")
  case (Inl e)
  then show ?thesis
    by (auto simp: cap_mask_def cap_mask_from_bits wire_consts split: if_splits)
next
  case (Inr m)
  then have ok: "\<forall>i \<in> set cs. 0 \<le> i \<and> i < 16"
    and m: "m = foldl (\<lambda>m i. m OR push_bit (nat i) 1) 0 cs"
    by (auto simp: cap_mask_def cap_mask_from_bits wire_consts split: if_splits)
  have bits: "bit m n \<longleftrightarrow> int n \<in> set cs" for n
  proof -
    have "(\<exists>i \<in> set cs. nat i = n) \<longleftrightarrow> int n \<in> set cs"
      using ok by (metis int_nat_eq nat_int)
    then show ?thesis unfolding m bit_foldl_or by simp
  qed
  show ?thesis
    using Inr by (auto simp: has_capability_def and_exp_eq_0_iff_not_bit bits cap_index_nonneg wire_consts capabilities_in_def
        set_all_capabilities distinct_all_capabilities has_capabilities_subset mask_set_def)
qed

lemma cap_mask_is_a_set_witness:
  "\<exists>m. cap_mask [0, 7] = Inr m \<and> has_capability m 7 = Inr True \<and> has_capability m 3 = Inr False"
  using cap_mask_is_a_set [of "[0, 7]"] by (auto split: sum.splits)

end
