(* ===== verification/Codec.thy ===== *)
theory Codec
  imports Vocabulary
begin

text \<open>
  The packet codec of \<^verbatim>\<open>codec/codec.py\<close>: one message, one packet. The layout table is
  data, as in the code, and both directions are driven from it. A message object is its
  class and its attributes; attributes are Python values (\<open>pyval\<close>), so that every check
  \<^verbatim>\<open>_to_raw\<close> makes on a value's type is a branch. \<open>encode\<close> is \<open>encode_obj\<close> on the
  typed messages of \<^verbatim>\<open>messages.py\<close>. An \<^verbatim>\<open>IntEnum\<close> member coming out of \<^verbatim>\<open>_from_raw\<close>
  is its integer.
\<close>

section \<open>Values, errors, fields\<close>

datatype pyval = PInt int | PFloat rat | PNonFinite | PBool bool | PBytes "byte list" | POther

text \<open>
  The subclasses of \<^verbatim>\<open>CodecError\<close>, and \<^verbatim>\<open>struct.error\<close>, which is not one of them.
\<close>

datatype codec_exn =
  UnknownMessageType | ReservedMessageType | TruncatedMessage | TrailingBytes
| PayloadTooLarge | FieldRangeError | StructError

text \<open>The struct codes the table uses: \<^verbatim>\<open>B\<close>, \<^verbatim>\<open>H\<close> and \<^verbatim>\<open>i\<close>, all big-endian.\<close>

datatype struct_code = UByte | UShort | SInt

record field =
  fd_name :: string
  fd_fmt :: struct_code
  fd_hi :: int
  fd_lo :: int
  fd_scale :: int
  fd_is_bool :: bool

definition fld :: "string \<Rightarrow> struct_code \<Rightarrow> int \<Rightarrow> field" where
  "fld n c h = \<lparr>fd_name = n, fd_fmt = c, fd_hi = h, fd_lo = 0, fd_scale = 1, fd_is_bool = False\<rparr>"

section \<open>The layout table\<close>

definition HEADER_FIELDS :: "field list" where
  "HEADER_FIELDS = [fld ''src'' UByte SRC_MAX, fld ''seq'' UShort SEQ_MAX]"

definition TARGET_FIELDS :: "field list" where
  "TARGET_FIELDS =
     [fld ''target_kind'' UByte (kind_int GPS),
      (fld ''target_a'' SInt TARGET_WORD_MAX)\<lparr>fd_lo := TARGET_WORD_MIN\<rparr>,
      (fld ''target_b'' SInt TARGET_WORD_MAX)\<lparr>fd_lo := TARGET_WORD_MIN\<rparr>]"

fun layout :: "message_type \<Rightarrow> field list" where
  "layout HEARTBEAT =
     [fld ''cap_mask'' UShort (2 ^ nat CAP_MASK_BITS - 1)] @ TARGET_FIELDS @
     [fld ''battery'' UByte BATTERY_MAX, fld ''cur_task'' UShort TASK_ID_MAX]"
| "layout TASK_ANNOUNCE =
     [fld ''task_id'' UShort TASK_ID_MAX,
      fld ''req_cap_mask'' UShort (2 ^ nat CAP_MASK_BITS - 1)] @ TARGET_FIELDS @
     [fld ''priority'' UByte PRIORITY_MAX, fld ''reason_code'' UByte 0xFF]"
| "layout BID =
     [fld ''task_id'' UShort TASK_ID_MAX,
      (fld ''eta_s'' UByte ETA_MAX_S)\<lparr>fd_scale := ETA_RESOLUTION_S\<rparr>,
      (fld ''feasible'' UByte 1)\<lparr>fd_is_bool := True\<rparr>,
      fld ''cost'' UByte COST_MAX]"
| "layout GRANT = [fld ''task_id'' UShort TASK_ID_MAX, fld ''winner_id'' UByte SRC_MAX]"
| "layout ACK = [fld ''ack_src'' UByte SRC_MAX, fld ''ack_seq'' UShort SEQ_MAX]"
| "layout FREEFORM =
     [fld ''task_id'' UShort TASK_ID_MAX, fld ''note_id'' UByte NOTE_ID_MAX,
      fld ''frag_index'' UByte FRAG_MAX, fld ''frag_count'' UByte FRAG_MAX]"

fun tail_of :: "message_type \<Rightarrow> string option" where
  "tail_of FREEFORM = Some ''text''"
| "tail_of _ = None"

definition all_types :: "message_type list" where
  "all_types = [HEARTBEAT, TASK_ANNOUNCE, BID, GRANT, ACK, FREEFORM]"

definition by_tag :: "int \<Rightarrow> message_type option" where
  "by_tag = map_of (map (\<lambda>c. (tag_of c, c)) all_types)"

definition targeted :: "message_type \<Rightarrow> bool" where
  "targeted cls \<longleftrightarrow> set (map fd_name TARGET_FIELDS) \<subseteq> set (map fd_name (layout cls))"

section \<open>struct\<close>

fun code_size :: "struct_code \<Rightarrow> nat" where
  "code_size UByte = 1" | "code_size UShort = 2" | "code_size SInt = 4"

fun pack_code :: "struct_code \<Rightarrow> int \<Rightarrow> byte list option" where
  "pack_code UByte v = (if 0 \<le> v \<and> v < 256 then Some [word_of_int v] else None)"
| "pack_code UShort v =
     (if 0 \<le> v \<and> v < 65536 then Some [word_of_int (v div 256), word_of_int v] else None)"
| "pack_code SInt v = map_option rev (to_bytes_le_signed 4 v)"

fun unpack_code :: "struct_code \<Rightarrow> byte list \<Rightarrow> int" where
  "unpack_code UByte bs = uint (bs ! 0)"
| "unpack_code UShort bs = uint (bs ! 0) * 256 + uint (bs ! 1)"
| "unpack_code SInt bs = from_bytes_le_signed (rev bs)"

fun struct_pack :: "struct_code list \<Rightarrow> int list \<Rightarrow> byte list option" where
  "struct_pack [] [] = Some []"
| "struct_pack (c # cs) (v # vs) =
     (case (pack_code c v, struct_pack cs vs) of (Some a, Some b) \<Rightarrow> Some (a @ b) | _ \<Rightarrow> None)"
| "struct_pack _ _ = None"

fun struct_unpack :: "struct_code list \<Rightarrow> byte list \<Rightarrow> int list" where
  "struct_unpack [] bs = []"
| "struct_unpack (c # cs) bs =
     unpack_code c (take (code_size c) bs) # struct_unpack cs (drop (code_size c) bs)"

definition calcsize :: "struct_code list \<Rightarrow> nat" where
  "calcsize cs = sum_list (map code_size cs)"

definition payload_format :: "message_type \<Rightarrow> struct_code list" where
  "payload_format cls = map fd_fmt (layout cls)"

definition HEADER_FORMAT :: "struct_code list" where
  "HEADER_FORMAT = [UByte, UByte, UShort]"

definition message_size :: "message_type \<Rightarrow> nat" where
  "message_size cls = HEADER_BYTES + calcsize (payload_format cls)"

definition MAX_MESSAGE_BYTES :: nat where
  "MAX_MESSAGE_BYTES = Max (set (map message_size (filter (\<lambda>c. tail_of c = None) all_types)))"

definition NOTE_HEADER_BYTES :: nat where
  "NOTE_HEADER_BYTES = message_size FREEFORM"

section \<open>Field conversion\<close>

definition to_raw :: "field \<Rightarrow> pyval \<Rightarrow> codec_exn + int" where
  "to_raw f v =
     (if fd_is_bool f then
        (case v of
           PBool b \<Rightarrow> Inr (of_bool b)
         | PInt i \<Rightarrow> if i = 0 \<or> i = 1 then Inr i else Inl FieldRangeError
         | PFloat q \<Rightarrow> if q = 0 \<or> q = 1 then Inr (of_bool (q \<noteq> 0)) else Inl FieldRangeError
         | _ \<Rightarrow> Inl FieldRangeError)
      else
        (case v of
           PInt i \<Rightarrow>
             if \<not> (fd_lo f \<le> i \<and> i \<le> fd_hi f) then Inl FieldRangeError
             else if fd_scale f = 1 then Inr i
             else Inr ((i * 2 + fd_scale f) div (2 * fd_scale f))
         | PFloat q \<Rightarrow>
             if \<not> (of_int (fd_lo f) \<le> q \<and> q \<le> of_int (fd_hi f)) then Inl FieldRangeError
             else if fd_scale f = 1 then (if of_int \<lfloor>q\<rfloor> = q then Inr \<lfloor>q\<rfloor> else Inl FieldRangeError)
             else Inr \<lfloor>(q + of_int (fd_scale f) / 2) / of_int (fd_scale f)\<rfloor>
         | _ \<Rightarrow> Inl FieldRangeError))"

definition from_raw :: "field \<Rightarrow> int \<Rightarrow> codec_exn + pyval" where
  "from_raw f raw =
     (if fd_is_bool f then
        (if raw = 0 \<or> raw = 1 then Inr (PBool (raw = 1)) else Inl FieldRangeError)
      else
        let v = raw * fd_scale f
        in if \<not> (fd_lo f \<le> v \<and> v \<le> fd_hi f) then Inl FieldRangeError else Inr (PInt v))"

text \<open>The generator expressions: the first error stops them.\<close>

fun to_raws :: "field list \<Rightarrow> (string \<Rightarrow> pyval) \<Rightarrow> codec_exn + int list" where
  "to_raws [] attr = Inr []"
| "to_raws (f # fs) attr =
     (case to_raw f (attr (fd_name f)) of
        Inl e \<Rightarrow> Inl e
      | Inr r \<Rightarrow> (case to_raws fs attr of Inl e \<Rightarrow> Inl e | Inr rs \<Rightarrow> Inr (r # rs)))"

fun from_raws :: "field list \<Rightarrow> int list \<Rightarrow> codec_exn + (string \<times> pyval) list" where
  "from_raws (f # fs) (r # rs) =
     (case from_raw f r of
        Inl e \<Rightarrow> Inl e
      | Inr v \<Rightarrow> (case from_raws fs rs of Inl e \<Rightarrow> Inl e | Inr vs \<Rightarrow> Inr ((fd_name f, v) # vs)))"
| "from_raws _ _ = Inr []"

section \<open>Encode\<close>

definition encode_obj :: "message_type \<Rightarrow> (string \<Rightarrow> pyval) \<Rightarrow> int \<Rightarrow> codec_exn + byte list" where
  "encode_obj cls attr max_payload_bytes =
     (if tag_of cls \<in> set RESERVED_TYPES then Inl ReservedMessageType
      else case to_raws HEADER_FIELDS attr of
        Inl e \<Rightarrow> Inl e
      | Inr hs \<Rightarrow> (case struct_pack HEADER_FORMAT (tag_of cls # hs) of
          None \<Rightarrow> Inl StructError
        | Some header \<Rightarrow> (case to_raws (layout cls) attr of
            Inl e \<Rightarrow> Inl e
          | Inr vs \<Rightarrow> (case struct_pack (payload_format cls) vs of
              None \<Rightarrow> Inl StructError
            | Some payload \<Rightarrow>
                let tail =
                  (case tail_of cls of
                     None \<Rightarrow> Inr []
                   | Some n \<Rightarrow> (case attr n of PBytes b \<Rightarrow> Inr b | _ \<Rightarrow> Inl FieldRangeError))
                in case tail of
                     Inl e \<Rightarrow> Inl e
                   | Inr t \<Rightarrow>
                       let packet = header @ payload @ t
                       in if int (length packet) > max_payload_bytes then Inl PayloadTooLarge
                          else Inr packet))))"

text \<open>A message's \<^verbatim>\<open>__dict__\<close>, and attribute access on it.\<close>

fun msg_dict :: "message \<Rightarrow> (string \<times> pyval) list" where
  "msg_dict (Heartbeat src seq cm tk ta tb bat cur) =
     [(''src'', PInt src), (''seq'', PInt seq), (''cap_mask'', PInt cm), (''target_kind'', PInt tk),
      (''target_a'', PInt ta), (''target_b'', PInt tb), (''battery'', PInt bat),
      (''cur_task'', PInt cur)]"
| "msg_dict (TaskAnnounce src seq tid req tk ta tb pri reason) =
     [(''src'', PInt src), (''seq'', PInt seq), (''task_id'', PInt tid), (''req_cap_mask'', PInt req),
      (''target_kind'', PInt tk), (''target_a'', PInt ta), (''target_b'', PInt tb),
      (''priority'', PInt pri), (''reason_code'', PInt reason)]"
| "msg_dict (Bid src seq tid eta ok cost) =
     [(''src'', PInt src), (''seq'', PInt seq), (''task_id'', PInt tid), (''eta_s'', PInt eta),
      (''feasible'', PBool ok), (''cost'', PInt cost)]"
| "msg_dict (Grant src seq tid win) =
     [(''src'', PInt src), (''seq'', PInt seq), (''task_id'', PInt tid), (''winner_id'', PInt win)]"
| "msg_dict (Ack src seq asrc aseq) =
     [(''src'', PInt src), (''seq'', PInt seq), (''ack_src'', PInt asrc), (''ack_seq'', PInt aseq)]"
| "msg_dict (Freeform src seq tid nid fi fc t) =
     [(''src'', PInt src), (''seq'', PInt seq), (''task_id'', PInt tid), (''note_id'', PInt nid),
      (''frag_index'', PInt fi), (''frag_count'', PInt fc), (''text'', PBytes t)]"

definition getattr :: "message \<Rightarrow> string \<Rightarrow> pyval" where
  "getattr m n = (case map_of (msg_dict m) n of Some v \<Rightarrow> v | None \<Rightarrow> POther)"

definition encode :: "message \<Rightarrow> int \<Rightarrow> codec_exn + byte list" where
  "encode m max_payload_bytes = encode_obj (type_of m) (getattr m) max_payload_bytes"

section \<open>Decode\<close>

text \<open>
  Keyword arguments of the constructor call. \<^verbatim>\<open>decode\<close> always passes every field the
  class has, so the last branch of each accessor is never taken.
\<close>

definition kw_int :: "(string \<times> pyval) list \<Rightarrow> string \<Rightarrow> int" where
  "kw_int vals n = (case map_of vals n of Some (PInt i) \<Rightarrow> i | _ \<Rightarrow> 0)"

definition kw_bool :: "(string \<times> pyval) list \<Rightarrow> string \<Rightarrow> bool" where
  "kw_bool vals n = (case map_of vals n of Some (PBool b) \<Rightarrow> b | _ \<Rightarrow> False)"

definition kw_bytes :: "(string \<times> pyval) list \<Rightarrow> string \<Rightarrow> byte list" where
  "kw_bytes vals n = (case map_of vals n of Some (PBytes b) \<Rightarrow> b | _ \<Rightarrow> [])"

fun construct :: "message_type \<Rightarrow> int \<Rightarrow> int \<Rightarrow> (string \<times> pyval) list \<Rightarrow> message" where
  "construct HEARTBEAT src seq vals =
     Heartbeat src seq (kw_int vals ''cap_mask'') (kw_int vals ''target_kind'')
       (kw_int vals ''target_a'') (kw_int vals ''target_b'') (kw_int vals ''battery'')
       (kw_int vals ''cur_task'')"
| "construct TASK_ANNOUNCE src seq vals =
     TaskAnnounce src seq (kw_int vals ''task_id'') (kw_int vals ''req_cap_mask'')
       (kw_int vals ''target_kind'') (kw_int vals ''target_a'') (kw_int vals ''target_b'')
       (kw_int vals ''priority'') (kw_int vals ''reason_code'')"
| "construct BID src seq vals =
     Bid src seq (kw_int vals ''task_id'') (kw_int vals ''eta_s'') (kw_bool vals ''feasible'')
       (kw_int vals ''cost'')"
| "construct GRANT src seq vals =
     Grant src seq (kw_int vals ''task_id'') (kw_int vals ''winner_id'')"
| "construct ACK src seq vals =
     Ack src seq (kw_int vals ''ack_src'') (kw_int vals ''ack_seq'')"
| "construct FREEFORM src seq vals =
     Freeform src seq (kw_int vals ''task_id'') (kw_int vals ''note_id'')
       (kw_int vals ''frag_index'') (kw_int vals ''frag_count'') (kw_bytes vals ''text'')"

definition decode :: "byte list \<Rightarrow> codec_exn + message" where
  "decode data =
     (if length data < HEADER_BYTES then Inl TruncatedMessage
      else case struct_unpack HEADER_FORMAT data of
        [tag, src, seq] \<Rightarrow>
          if tag \<in> set RESERVED_TYPES then Inl ReservedMessageType
          else (case by_tag tag of
            None \<Rightarrow> Inl UnknownMessageType
          | Some cls \<Rightarrow>
              let expected = message_size cls
              in if length data < expected then Inl TruncatedMessage
                 else if length data > expected \<and> tail_of cls = None then Inl TrailingBytes
                 else
                   let raw = struct_unpack (payload_format cls) (drop HEADER_BYTES data)
                   in case from_raws (layout cls) raw of
                        Inl e \<Rightarrow> Inl e
                      | Inr vals0 \<Rightarrow>
                          let vals = (case tail_of cls of
                                        None \<Rightarrow> vals0
                                      | Some n \<Rightarrow> vals0 @ [(n, PBytes (drop expected data))])
                          in if targeted cls \<and>
                                (case Target (kw_int vals ''target_kind'') (kw_int vals ''target_a'')
                                        (kw_int vals ''target_b'') of Inl _ \<Rightarrow> True | Inr _ \<Rightarrow> False)
                             then Inl FieldRangeError
                             else Inr (construct cls src seq vals))
      | _ \<Rightarrow> Inl StructError)"

text \<open>\<^verbatim>\<open>target_of\<close> on the messages that name a place, and its inverse \<^verbatim>\<open>target_fields\<close>.\<close>

definition target_of :: "message \<Rightarrow> py_exn + target" where
  "target_of m = Target (m_target_kind m) (m_target_a m) (m_target_b m)"

definition target_fields :: "target \<Rightarrow> int \<times> int \<times> int" where
  "target_fields t = (kind_int (tg_kind t), tg_a t, tg_b t)"

section \<open>The struct layer\<close>

lemma from_to_bytes_canonical:
  assumes "bs \<noteq> []"
  shows "to_bytes_le_signed (length bs) (from_bytes_le_signed bs) = Some bs"
proof -
  let ?u = "foldr (\<lambda>b acc. uint b + 256 * acc) bs (0 :: int)"
  let ?H = "2 ^ (8 * length bs - 1) :: int"
  have H: "256 ^ length bs = 2 * ?H"
  proof -
    have "8 * length bs = Suc (8 * length bs - 1)" using assms by (cases bs) auto
    then have "(2::int) ^ (8 * length bs) = 2 * ?H" by (metis power_Suc)
    then show ?thesis by (simp add: power_mult)
  qed
  have bound: "0 \<le> foldr (\<lambda>b acc. uint b + 256 * acc) bs (0::int) \<and>
      foldr (\<lambda>b acc. uint b + 256 * acc) bs (0::int) < 256 ^ length bs" for bs :: "byte list"
  proof (induction bs)
    case (Cons b bs)
    have "uint b < 256" using unsigned_less [of b] by simp
    with Cons show ?case by auto
  qed simp
  have digits: "(foldr (\<lambda>b acc. uint b + 256 * acc) bs (0::int) + c * 256 ^ length bs) div 256 ^ k mod 256
      = uint (bs ! k)" if "k < length bs" for k c and bs :: "byte list"
    using that
  proof (induction bs arbitrary: k)
    case (Cons b bs)
    have b: "uint b < 256" "0 \<le> uint b" using unsigned_less [of b] by auto
    let ?r = "foldr (\<lambda>b acc. uint b + 256 * acc) bs (0::int)"
    have eq: "foldr (\<lambda>b acc. uint b + 256 * acc) (b # bs) 0 + c * 256 ^ length (b # bs) =
        uint b + 256 * (?r + c * 256 ^ length bs)"
      by (simp add: algebra_simps)
    show ?case
    proof (cases k)
      case 0
      have "(uint b + 256 * x) mod 256 = uint b" for x using b by simp
      with 0 show ?thesis unfolding eq by (simp del: distrib_left_numeral)
    next
      case (Suc j)
      have "(uint b + 256 * x) div 256 = x" for x using b by simp
      with Cons Suc show ?thesis
        unfolding eq by (simp add: zdiv_zmult2_eq del: distrib_left_numeral)
    qed
  qed simp
  have word: "word_of_int (x div 256 ^ k) = bs ! k" if "x div 256 ^ k mod 256 = uint (bs ! k)"
    for x :: int and k
    using that by (intro word_uint_eqI, unfold uint_word_of_int) simp
  obtain c where c: "from_bytes_le_signed bs = ?u + c * 256 ^ length bs"
    and r: "- ?H \<le> from_bytes_le_signed bs" "from_bytes_le_signed bs < ?H"
  proof (cases "?H \<le> ?u")
    case True
    with that [of "-1"] bound [of bs] H show thesis
      using assms by (simp add: from_bytes_le_signed_def Let_def)
  next
    case False
    with that [of 0] bound [of bs] H show thesis
      using assms by (simp add: from_bytes_le_signed_def Let_def)
  qed
  have "map (\<lambda>k. word_of_int (from_bytes_le_signed bs div 256 ^ k)) [0..<length bs] = bs"
    by (rule nth_equalityI) (simp_all add: c word digits)
  with r show ?thesis by (simp add: to_bytes_le_signed_def)
qed

lemma code_size_pos: "0 < code_size c"
  by (cases c) auto

lemma pack_code_length: "pack_code c v = Some bs \<Longrightarrow> length bs = code_size c"
  by (cases c) (auto simp: to_bytes_le_signed_def split: if_splits)

lemma uint_byte: "0 \<le> v \<Longrightarrow> v < 256 \<Longrightarrow> uint (word_of_int v :: byte) = v"
  by (simp add: uint_word_of_int)

lemma unpack_pack_code: "pack_code c v = Some bs \<Longrightarrow> unpack_code c bs = v"
proof (cases c)
  case UShort
  assume "pack_code c v = Some bs"
  then show ?thesis using UShort by (auto simp: uint_word_of_int split: if_splits)
next
  case SInt
  assume "pack_code c v = Some bs"
  then show ?thesis using SInt from_to_bytes_le_signed(1) [of 4 v] by auto
qed (auto simp: uint_word_of_int split: if_splits)

lemma pack_unpack_code:
  assumes "length bs = code_size c"
  shows "pack_code c (unpack_code c bs) = Some bs"
proof (cases c)
  case UByte
  with assms obtain a where "bs = [a]" by (auto simp: length_Suc_conv)
  with UByte unsigned_less [of a] show ?thesis by simp
next
  case UShort
  with assms obtain a b where bs: "bs = [a, b]" by (auto simp: length_Suc_conv numeral_2_eq_2)
  have "uint a < 256" "uint b < 256" using unsigned_less [of a] unsigned_less [of b] by auto
  moreover have "word_of_int (uint a * 256 + uint b) = b"
    by (rule word_uint_eqI, unfold uint_word_of_int) (simp add: \<open>uint b < 256\<close>)
  ultimately show ?thesis using UShort bs by simp
next
  case SInt
  with assms have "length (rev bs) = 4" "rev bs \<noteq> []" by auto
  with from_to_bytes_canonical [of "rev bs"] SInt show ?thesis by simp
qed

lemma struct_pack_length:
  "struct_pack cs vs = Some bs \<Longrightarrow> length bs = calcsize cs \<and> length vs = length cs"
  by (induction cs vs arbitrary: bs rule: struct_pack.induct)
    (auto simp: calcsize_def pack_code_length split: option.splits)

lemma struct_unpack_length: "length (struct_unpack cs bs) = length cs"
  by (induction cs bs rule: struct_unpack.induct) auto

lemma struct_unpack_pack: "struct_pack cs vs = Some bs \<Longrightarrow> struct_unpack cs (bs @ rest) = vs"
  by (induction cs vs arbitrary: bs rule: struct_pack.induct)
    (auto simp: pack_code_length unpack_pack_code split: option.splits)

lemma struct_pack_unpack:
  "calcsize cs \<le> length bs \<Longrightarrow> struct_pack cs (struct_unpack cs bs) = Some (take (calcsize cs) bs)"
proof (induction cs arbitrary: bs)
  case (Cons c cs)
  then show ?case
    using pack_unpack_code [of "take (code_size c) bs" c]
    by (auto simp: calcsize_def take_add split: option.splits)
qed (simp add: calcsize_def)

section \<open>Fields\<close>

text \<open>
  A consistent table entry: every value the field accepts has a raw form that fits the
  struct code and that the decoder accepts back.
\<close>

fun code_min :: "struct_code \<Rightarrow> int" where
  "code_min UByte = 0" | "code_min UShort = 0" | "code_min SInt = - (2 ^ 31)"

fun code_max :: "struct_code \<Rightarrow> int" where
  "code_max UByte = 255" | "code_max UShort = 65535" | "code_max SInt = 2 ^ 31 - 1"

definition raw_of_int :: "field \<Rightarrow> int \<Rightarrow> int" where
  "raw_of_int f i = (i * 2 + fd_scale f) div (2 * fd_scale f)"

definition field_table_ok :: "field \<Rightarrow> bool" where
  "field_table_ok f \<longleftrightarrow> 0 < fd_scale f \<and>
     code_min (fd_fmt f) \<le> raw_of_int f (fd_lo f) \<and> raw_of_int f (fd_hi f) \<le> code_max (fd_fmt f) \<and>
     fd_lo f \<le> raw_of_int f (fd_lo f) * fd_scale f \<and> raw_of_int f (fd_hi f) * fd_scale f \<le> fd_hi f \<and>
     (fd_is_bool f \<longrightarrow> fd_lo f = 0 \<and> fd_hi f = 1 \<and> fd_scale f = 1)"

lemma header_table_ok: "\<forall>f \<in> set HEADER_FIELDS. field_table_ok f"
  by (simp add: HEADER_FIELDS_def fld_def field_table_ok_def raw_of_int_def wire_consts)

lemma layout_table_ok: "\<forall>f \<in> set (layout cls). field_table_ok f"
  by (cases cls) (simp_all add: fld_def field_table_ok_def raw_of_int_def wire_consts
      TARGET_FIELDS_def)

lemma raw_of_int_mono: "0 < fd_scale f \<Longrightarrow> i \<le> j \<Longrightarrow> raw_of_int f i \<le> raw_of_int f j"
  by (simp add: raw_of_int_def zdiv_mono1)

lemma raw_of_int_1: "fd_scale f = 1 \<Longrightarrow> raw_of_int f i = i"
  by (simp add: raw_of_int_def)

lemma raw_of_int_multiple: "0 < fd_scale f \<Longrightarrow> raw_of_int f (r * fd_scale f) = r"
proof -
  assume "0 < fd_scale f"
  then have "(fd_scale f + r * (2 * fd_scale f)) div (2 * fd_scale f) = r"
    by (subst div_mult_self1) auto
  moreover have "r * fd_scale f * 2 + fd_scale f = fd_scale f + r * (2 * fd_scale f)" by simp
  ultimately show ?thesis unfolding raw_of_int_def by metis
qed

text \<open>The number a value stands for.\<close>

fun num_of :: "pyval \<Rightarrow> rat option" where
  "num_of (PInt i) = Some (of_int i)"
| "num_of (PFloat q) = Some q"
| "num_of _ = None"

text \<open>Half-up rounding of any accepted number, as one formula.\<close>

definition half_up :: "int \<Rightarrow> rat \<Rightarrow> int" where
  "half_up s q = \<lfloor>(2 * q + of_int s) / (2 * of_int s)\<rfloor>"

lemma half_up_int: "half_up s (of_int i) = (i * 2 + s) div (2 * s)"
proof -
  have "(2 * of_int i + of_int s) / (2 * of_int s) = (of_int (i * 2 + s) / of_int (2 * s) :: rat)"
    by simp
  then show ?thesis by (simp only: half_up_def floor_divide_of_int_eq)
qed

lemma half_up_1: "of_int \<lfloor>q\<rfloor> = q \<Longrightarrow> half_up 1 q = \<lfloor>q\<rfloor>"
proof -
  assume q: "of_int \<lfloor>q\<rfloor> = q"
  have "half_up 1 (of_int \<lfloor>q\<rfloor>) = \<lfloor>q\<rfloor>" by (simp only: half_up_int) simp
  then show ?thesis by (simp only: q)
qed

lemma half_up_near:
  assumes "0 < s"
  shows "2 * \<bar>of_int (half_up s q * s) - q\<bar> \<le> of_int s"
proof -
  let ?x = "(2 * q + of_int s) / (2 * of_int s)"
  have "of_int (half_up s q) \<le> ?x" "?x < of_int (half_up s q) + 1"
    unfolding half_up_def by linarith+
  then show ?thesis using assms by (auto simp: field_simps abs_if)
qed

lemma half_up_mono: "0 < s \<Longrightarrow> p \<le> q \<Longrightarrow> half_up s p \<le> half_up s q"
  unfolding half_up_def by (intro floor_mono divide_right_mono) auto

lemma to_raw_number:
  assumes "\<not> fd_is_bool f" "0 < fd_scale f"
  shows "to_raw f v = (case num_of v of
      None \<Rightarrow> Inl FieldRangeError
    | Some q \<Rightarrow> if of_int (fd_lo f) \<le> q \<and> q \<le> of_int (fd_hi f) \<and>
                  (fd_scale f = 1 \<longrightarrow> of_int \<lfloor>q\<rfloor> = q)
               then Inr (half_up (fd_scale f) q) else Inl FieldRangeError)"
proof (cases v)
  case (PInt i)
  then show ?thesis using assms by (simp add: to_raw_def half_up_int)
next
  case (PFloat q)
  have "(q + of_int (fd_scale f) / 2) / of_int (fd_scale f) =
      (2 * q + of_int (fd_scale f)) / (2 * of_int (fd_scale f))"
    using assms(2) by (simp add: field_simps)
  then show ?thesis
    using PFloat assms half_up_1 [of q]
    by (cases "fd_scale f = 1") (auto simp: to_raw_def half_up_def [symmetric])
qed (use assms in \<open>auto simp: to_raw_def\<close>)

lemma to_raw_bounds:
  assumes "to_raw f v = Inr r" "field_table_ok f"
  shows "raw_of_int f (fd_lo f) \<le> r \<and> r \<le> raw_of_int f (fd_hi f)"
proof (cases "fd_is_bool f")
  case True
  then show ?thesis
    using assms by (auto simp: to_raw_def field_table_ok_def raw_of_int_1 split: pyval.splits if_splits)
next
  case False
  with assms obtain q where "of_int (fd_lo f) \<le> q" "q \<le> of_int (fd_hi f)"
    "r = half_up (fd_scale f) q" and s: "0 < fd_scale f"
    by (auto simp: to_raw_number field_table_ok_def split: option.splits if_splits)
  then show ?thesis
    using half_up_mono [OF s] by (auto simp: raw_of_int_def half_up_int [symmetric])
qed

text \<open>What the decoder will read for an accepted value.\<close>

definition quantise :: "field \<Rightarrow> pyval \<Rightarrow> pyval" where
  "quantise f v = (case to_raw f v of
     Inl _ \<Rightarrow> POther | Inr r \<Rightarrow> if fd_is_bool f then PBool (r = 1) else PInt (r * fd_scale f))"

lemma from_to_raw:
  assumes "to_raw f v = Inr r" "field_table_ok f"
  shows "from_raw f r = Inr (quantise f v)"
proof -
  have r: "raw_of_int f (fd_lo f) \<le> r" "r \<le> raw_of_int f (fd_hi f)" and s: "0 < fd_scale f"
    using to_raw_bounds [OF assms] assms(2) by (auto simp: field_table_ok_def)
  have "raw_of_int f (fd_lo f) * fd_scale f \<le> r * fd_scale f"
    "r * fd_scale f \<le> raw_of_int f (fd_hi f) * fd_scale f"
    using r s by (auto intro: mult_right_mono)
  moreover have "fd_lo f \<le> raw_of_int f (fd_lo f) * fd_scale f"
    "raw_of_int f (fd_hi f) * fd_scale f \<le> fd_hi f"
    using assms(2) by (simp_all add: field_table_ok_def)
  ultimately have "fd_lo f \<le> r * fd_scale f" "r * fd_scale f \<le> fd_hi f" by linarith+
  moreover have "fd_is_bool f \<Longrightarrow> r = 0 \<or> r = 1"
    using r assms(2) by (auto simp: field_table_ok_def raw_of_int_1)
  ultimately show ?thesis
    using assms(1) by (auto simp: from_raw_def quantise_def Let_def)
qed

lemma to_from_raw:
  assumes "from_raw f r = Inr v" "field_table_ok f"
  shows "to_raw f v = Inr r"
proof (cases "fd_is_bool f")
  case True
  then show ?thesis using assms by (auto simp: from_raw_def to_raw_def split: if_splits)
next
  case False
  then have v: "v = PInt (r * fd_scale f)" "fd_lo f \<le> r * fd_scale f" "r * fd_scale f \<le> fd_hi f"
    using assms by (auto simp: from_raw_def Let_def split: if_splits)
  show ?thesis
    using False v raw_of_int_multiple [of f r] assms(2)
    by (auto simp: to_raw_def raw_of_int_def field_table_ok_def)
qed

lemma pack_code_fits: "code_min c \<le> r \<Longrightarrow> r \<le> code_max c \<Longrightarrow> \<exists>bs. pack_code c r = Some bs"
  by (cases c) (auto simp: to_bytes_le_signed_def)

lemma struct_pack_raws:
  "to_raws fs attr = Inr rs \<Longrightarrow> \<forall>f \<in> set fs. field_table_ok f \<Longrightarrow>
    \<exists>bs. struct_pack (map fd_fmt fs) rs = Some bs"
proof (induction fs arbitrary: rs)
  case (Cons f fs)
  then obtain r rs' where r: "to_raw f (attr (fd_name f)) = Inr r" "to_raws fs attr = Inr rs'"
    "rs = r # rs'" by (auto split: sum.splits)
  obtain bs where "pack_code (fd_fmt f) r = Some bs"
    using to_raw_bounds [OF r(1)] Cons.prems(2) pack_code_fits [of "fd_fmt f" r]
    by (fastforce simp: field_table_ok_def)
  with Cons r show ?case by fastforce
qed simp

lemma from_to_raws:
  "to_raws fs attr = Inr rs \<Longrightarrow> \<forall>f \<in> set fs. field_table_ok f \<Longrightarrow>
    from_raws fs rs = Inr (map (\<lambda>f. (fd_name f, quantise f (attr (fd_name f)))) fs)"
  by (induction fs arbitrary: rs) (auto simp: from_to_raw split: sum.splits)

lemma to_from_raws:
  "from_raws fs rs = Inr vals \<Longrightarrow> length rs = length fs \<Longrightarrow> \<forall>f \<in> set fs. field_table_ok f \<Longrightarrow>
    \<forall>p \<in> set vals. attr (fst p) = snd p \<Longrightarrow> to_raws fs attr = Inr rs"
proof (induction fs arbitrary: rs vals)
  case (Cons f fs)
  then obtain r rs' where rs: "rs = r # rs'" by (cases rs) auto
  with Cons.prems(1) obtain v vs where v: "from_raw f r = Inr v" "from_raws fs rs' = Inr vs"
    "vals = (fd_name f, v) # vs" by (auto split: sum.splits)
  with Cons.prems rs have "to_raw f (attr (fd_name f)) = Inr r" by (simp add: to_from_raw)
  moreover have "to_raws fs attr = Inr rs'"
    using Cons.IH [OF v(2)] Cons.prems rs v(3) by simp
  ultimately show ?case by (simp add: rs)
qed simp

section \<open>Packets\<close>

lemma by_tag_tag_of [simp]: "by_tag (tag_of cls) = Some cls"
  by (cases cls) (simp_all add: by_tag_def all_types_def)

lemma by_tag_Some: "by_tag t = Some cls \<longleftrightarrow> t = tag_of cls"
proof
  assume "by_tag t = Some cls"
  then show "t = tag_of cls"
    by (auto simp: by_tag_def all_types_def split: if_splits)
qed simp

lemma header_format: "HEADER_FORMAT = UByte # map fd_fmt HEADER_FIELDS"
  by (simp add: HEADER_FORMAT_def HEADER_FIELDS_def fld_def)

lemma tag_byte: "pack_code UByte (tag_of cls) = Some [word_of_int (tag_of cls)]"
  by (cases cls) auto

lemma calcsize_header [simp]: "calcsize HEADER_FORMAT = 4"
  by (simp add: HEADER_FORMAT_def calcsize_def)

lemma packet_header:
  assumes "to_raws HEADER_FIELDS attr = Inr hs"
  obtains h where "struct_pack HEADER_FORMAT (tag_of cls # hs) = Some h" "length h = 4"
proof -
  obtain b where "struct_pack (map fd_fmt HEADER_FIELDS) hs = Some b"
    using struct_pack_raws [OF assms header_table_ok] by blast
  then have "struct_pack HEADER_FORMAT (tag_of cls # hs) = Some (word_of_int (tag_of cls) # b)"
    by (simp only: header_format struct_pack.simps tag_byte) simp
  with that struct_pack_length show thesis by (metis calcsize_header)
qed

definition tail_bytes :: "message_type \<Rightarrow> (string \<Rightarrow> pyval) \<Rightarrow> codec_exn + byte list" where
  "tail_bytes cls attr = (case tail_of cls of
     None \<Rightarrow> Inr []
   | Some n \<Rightarrow> (case attr n of PBytes b \<Rightarrow> Inr b | _ \<Rightarrow> Inl FieldRangeError))"

text \<open>\<open>encode_obj\<close> with the branches that are never taken removed.\<close>

lemma encode_obj_alt:
  "encode_obj cls attr maxb =
    (case to_raws HEADER_FIELDS attr of
       Inl e \<Rightarrow> Inl e
     | Inr hs \<Rightarrow> (case to_raws (layout cls) attr of
         Inl e \<Rightarrow> Inl e
       | Inr vs \<Rightarrow> (case tail_bytes cls attr of
           Inl e \<Rightarrow> Inl e
         | Inr t \<Rightarrow>
             if int (message_size cls + length t) > maxb then Inl PayloadTooLarge
             else Inr (the (struct_pack HEADER_FORMAT (tag_of cls # hs)) @
                       the (struct_pack (payload_format cls) vs) @ t))))"
proof (cases "to_raws HEADER_FIELDS attr")
  case (Inr hs)
  then obtain h where h: "struct_pack HEADER_FORMAT (tag_of cls # hs) = Some h" "length h = 4"
    by (rule packet_header)
  show ?thesis
  proof (cases "to_raws (layout cls) attr")
    case vs: (Inr vs)
    then obtain p where p: "struct_pack (payload_format cls) vs = Some p"
      using struct_pack_raws layout_table_ok by (fastforce simp: payload_format_def)
    then have "length p = calcsize (payload_format cls)" by (simp add: struct_pack_length)
    with h p show ?thesis
      by (simp add: encode_obj_def Inr vs RESERVED_TYPES_def tail_bytes_def Let_def message_size_def
          HEADER_BYTES_def add.assoc split: option.splits pyval.splits)
  qed (simp add: encode_obj_def Inr h RESERVED_TYPES_def)
qed (simp add: encode_obj_def RESERVED_TYPES_def)

lemma header_raws:
  "to_raws HEADER_FIELDS attr = Inr hs \<Longrightarrow> \<exists>src seq. hs = [src, seq]"
  by (auto simp: HEADER_FIELDS_def split: sum.splits)

definition read_fields :: "message_type \<Rightarrow> (string \<Rightarrow> pyval) \<Rightarrow> (string \<times> pyval) list" where
  "read_fields cls attr = map (\<lambda>f. (fd_name f, quantise f (attr (fd_name f)))) (layout cls)"

definition bad_place :: "message_type \<Rightarrow> (string \<times> pyval) list \<Rightarrow> bool" where
  "bad_place cls vals \<longleftrightarrow> targeted cls \<and>
     (case Target (kw_int vals ''target_kind'') (kw_int vals ''target_a'')
        (kw_int vals ''target_b'') of Inl _ \<Rightarrow> True | Inr _ \<Rightarrow> False)"

lemma targeted_types: "targeted cls \<longleftrightarrow> cls = HEARTBEAT \<or> cls = TASK_ANNOUNCE"
  by (cases cls) (simp_all add: targeted_def TARGET_FIELDS_def fld_def)

lemma tail_types: "tail_of cls = (if cls = FREEFORM then Some ''text'' else None)"
  by (cases cls) auto

lemma tail_not_targeted: "tail_of cls = Some n \<Longrightarrow> \<not> targeted cls"
  by (cases cls) (simp_all add: targeted_types)

lemma decode_encode_obj:
  assumes "encode_obj cls attr maxb = Inr data"
  obtains src seq t where
    "to_raws HEADER_FIELDS attr = Inr [src, seq]" "tail_bytes cls attr = Inr t"
    "\<exists>rs. to_raws (layout cls) attr = Inr rs" "length data = message_size cls + length t"
    "int (length data) \<le> maxb"
    "decode data = (if bad_place cls (read_fields cls attr) then Inl FieldRangeError
       else Inr (construct cls src seq
         (read_fields cls attr @ (case tail_of cls of None \<Rightarrow> [] | Some n \<Rightarrow> [(n, PBytes t)]))))"
proof -
  obtain hs vs t where r: "to_raws HEADER_FIELDS attr = Inr hs" "to_raws (layout cls) attr = Inr vs"
    "tail_bytes cls attr = Inr t" and len: "\<not> int (message_size cls + length t) > maxb"
    and data: "data = the (struct_pack HEADER_FORMAT (tag_of cls # hs)) @
      the (struct_pack (payload_format cls) vs) @ t"
    using assms by (auto simp: encode_obj_alt split: sum.splits if_splits)
  obtain src seq where hs: "hs = [src, seq]" using header_raws [OF r(1)] by blast
  obtain h where h: "struct_pack HEADER_FORMAT (tag_of cls # hs) = Some h" "length h = 4"
    using packet_header [OF r(1)] .
  obtain p where p: "struct_pack (payload_format cls) vs = Some p"
    using struct_pack_raws [OF r(2) layout_table_ok] by (auto simp: payload_format_def)
  then have lp: "length p = calcsize (payload_format cls)" by (simp add: struct_pack_length)
  have vals: "from_raws (layout cls) vs = Inr (read_fields cls attr)"
    using from_to_raws [OF r(2) layout_table_ok] by (simp add: read_fields_def)
  have d: "data = h @ p @ t" using h p by (simp add: data)
  have t: "tail_of cls = None \<Longrightarrow> t = []" using r(3) by (simp add: tail_bytes_def)
  have "struct_unpack HEADER_FORMAT data = [tag_of cls, src, seq]"
    using struct_unpack_pack [OF h(1)] by (simp add: d hs)
  moreover have "struct_unpack (payload_format cls) (drop HEADER_BYTES data) = vs"
    using struct_unpack_pack [OF p] h(2) by (simp add: d HEADER_BYTES_def)
  moreover have "drop (message_size cls) data = t"
    using h(2) lp by (simp add: d message_size_def HEADER_BYTES_def)
  moreover have "length data = message_size cls + length t"
    using h(2) lp by (simp add: d message_size_def HEADER_BYTES_def)
  ultimately have "decode data = (if bad_place cls (read_fields cls attr) then Inl FieldRangeError
       else Inr (construct cls src seq
         (read_fields cls attr @ (case tail_of cls of None \<Rightarrow> [] | Some n \<Rightarrow> [(n, PBytes t)]))))"
    using t tail_not_targeted [of cls]
    by (cases "tail_of cls")
      (auto simp: decode_def RESERVED_TYPES_def vals message_size_def Let_def bad_place_def)
  with that [of src seq t] r hs len \<open>length data = _\<close> show thesis by auto
qed

section \<open>Typed messages\<close>

text \<open>What a receiver reads: the message with its ETA on the 4-second lattice.\<close>

fun on_wire :: "message \<Rightarrow> message" where
  "on_wire (Bid src seq tid eta ok cost) =
     Bid src seq tid ((eta * 2 + ETA_RESOLUTION_S) div (2 * ETA_RESOLUTION_S) * ETA_RESOLUTION_S) ok cost"
| "on_wire m = m"

text \<open>Every field is within its engineering range.\<close>

fun fields_ok :: "message \<Rightarrow> bool" where
  "fields_ok (Heartbeat src seq cm tk ta tb bat cur) \<longleftrightarrow>
     src \<in> {0..SRC_MAX} \<and> seq \<in> {0..SEQ_MAX} \<and> cm \<in> {0..65535} \<and> tk \<in> {0..3} \<and>
     word_in_range ta \<and> word_in_range tb \<and> bat \<in> {0..BATTERY_MAX} \<and> cur \<in> {0..TASK_ID_MAX}"
| "fields_ok (TaskAnnounce src seq tid req tk ta tb pri reason) \<longleftrightarrow>
     src \<in> {0..SRC_MAX} \<and> seq \<in> {0..SEQ_MAX} \<and> tid \<in> {0..TASK_ID_MAX} \<and> req \<in> {0..65535} \<and>
     tk \<in> {0..3} \<and> word_in_range ta \<and> word_in_range tb \<and> pri \<in> {0..PRIORITY_MAX} \<and> reason \<in> {0..255}"
| "fields_ok (Bid src seq tid eta ok cost) \<longleftrightarrow>
     src \<in> {0..SRC_MAX} \<and> seq \<in> {0..SEQ_MAX} \<and> tid \<in> {0..TASK_ID_MAX} \<and> eta \<in> {0..ETA_MAX_S} \<and>
     cost \<in> {0..COST_MAX}"
| "fields_ok (Grant src seq tid win) \<longleftrightarrow>
     src \<in> {0..SRC_MAX} \<and> seq \<in> {0..SEQ_MAX} \<and> tid \<in> {0..TASK_ID_MAX} \<and> win \<in> {0..SRC_MAX}"
| "fields_ok (Ack src seq asrc aseq) \<longleftrightarrow>
     src \<in> {0..SRC_MAX} \<and> seq \<in> {0..SEQ_MAX} \<and> asrc \<in> {0..SRC_MAX} \<and> aseq \<in> {0..SEQ_MAX}"
| "fields_ok (Freeform src seq tid nid fi fc t) \<longleftrightarrow>
     src \<in> {0..SRC_MAX} \<and> seq \<in> {0..SEQ_MAX} \<and> tid \<in> {0..TASK_ID_MAX} \<and> nid \<in> {0..NOTE_ID_MAX} \<and>
     fi \<in> {0..FRAG_MAX} \<and> fc \<in> {0..FRAG_MAX}"

fun text_length :: "message \<Rightarrow> nat" where
  "text_length (Freeform _ _ _ _ _ _ t) = length t"
| "text_length _ = 0"

lemma to_raw_int:
  "\<not> fd_is_bool f \<Longrightarrow> to_raw f (PInt i) =
    (if fd_lo f \<le> i \<and> i \<le> fd_hi f then Inr (raw_of_int f i) else Inl FieldRangeError)"
  by (simp add: to_raw_def raw_of_int_1 raw_of_int_def)

lemma to_raw_fld [simp]:
  "to_raw (fld n c h) (PInt i) = (if 0 \<le> i \<and> i \<le> h then Inr i else Inl FieldRangeError)"
  "to_raw ((fld n c h)\<lparr>fd_lo := l\<rparr>) (PInt i) = (if l \<le> i \<and> i \<le> h then Inr i else Inl FieldRangeError)"
  "to_raw ((fld n c h)\<lparr>fd_is_bool := True\<rparr>) (PBool b) = Inr (of_bool b)"
  by (simp_all add: fld_def to_raw_def)

lemma quantise_fld [simp]:
  "0 \<le> i \<Longrightarrow> i \<le> h \<Longrightarrow> quantise (fld n c h) (PInt i) = PInt i"
  "l \<le> i \<Longrightarrow> i \<le> h \<Longrightarrow> quantise ((fld n c h)\<lparr>fd_lo := l\<rparr>) (PInt i) = PInt i"
  "quantise ((fld n c h)\<lparr>fd_is_bool := True\<rparr>) (PBool b) = PBool b"
  by (simp_all add: quantise_def fld_def to_raw_def)

lemma fld_name [simp]: "fd_name (fld n c h) = n"
  by (simp add: fld_def)

lemma header_fields_ok:
  "to_raws HEADER_FIELDS (getattr m) =
    (if m_src m \<in> {0..SRC_MAX} \<and> m_seq m \<in> {0..SEQ_MAX} then Inr [m_src m, m_seq m]
     else Inl FieldRangeError)"
proof -
  have "getattr m ''src'' = PInt (m_src m)" "getattr m ''seq'' = PInt (m_seq m)"
    by (cases m; simp add: getattr_def)+
  then show ?thesis by (simp add: HEADER_FIELDS_def)
qed

lemmas raws_simps = TARGET_FIELDS_def getattr_def word_in_range_def

lemma layout_fields_ok:
  assumes "m_src m \<in> {0..SRC_MAX}" "m_seq m \<in> {0..SEQ_MAX}"
  shows "(case to_raws (layout (type_of m)) (getattr m) of
      Inl e \<Rightarrow> e = FieldRangeError \<and> \<not> fields_ok m
    | Inr rs \<Rightarrow> fields_ok m)"
  using assms
  by (cases m) (auto simp: raws_simps to_raw_def wire_consts fld_def)

lemma read_typed:
  assumes "fields_ok m"
  shows "construct (type_of m) (m_src m) (m_seq m) (read_fields (type_of m) (getattr m) @
      (case tail_of (type_of m) of None \<Rightarrow> [] | Some n \<Rightarrow> [(n, getattr m n)])) = on_wire m"
  using assms
  by (cases m) (simp_all add: read_fields_def raws_simps kw_int_def kw_bool_def kw_bytes_def
      quantise_def to_raw_int raw_of_int_def fld_def wire_consts to_raw_def)

lemma tail_typed: "tail_bytes (type_of m) (getattr m) =
    Inr (case m of Freeform _ _ _ _ _ _ t \<Rightarrow> t | _ \<Rightarrow> [])"
  by (cases m) (simp_all add: tail_bytes_def getattr_def)

lemma text_length_tail:
  "text_length m = length (case m of Freeform _ _ _ _ _ _ t \<Rightarrow> t | _ \<Rightarrow> [])"
  by (cases m) simp_all

lemma tail_getattr:
  "(case tail_of (type_of m) of None \<Rightarrow> [] | Some n \<Rightarrow> [(n, getattr m n)]) =
   (case tail_of (type_of m) of None \<Rightarrow> []
    | Some n \<Rightarrow> [(n, PBytes (case m of Freeform _ _ _ _ _ _ t \<Rightarrow> t | _ \<Rightarrow> []))])"
  by (cases m) (simp_all add: getattr_def)

lemma fields_ok_header: "fields_ok m \<Longrightarrow> m_src m \<in> {0..SRC_MAX} \<and> m_seq m \<in> {0..SEQ_MAX}"
  by (cases m) auto

definition names_place :: "message \<Rightarrow> bool" where
  "names_place m \<longleftrightarrow> (targeted (type_of m) \<longrightarrow> (\<exists>t. target_of m = Inr t))"

lemma encode_typed:
  "\<exists>data. encode m maxb =
    (if \<not> fields_ok m then Inl FieldRangeError
     else if int (message_size (type_of m) + text_length m) > maxb then Inl PayloadTooLarge
     else Inr data)"
proof (cases "m_src m \<in> {0..SRC_MAX} \<and> m_seq m \<in> {0..SEQ_MAX}")
  case True
  then have h: "to_raws HEADER_FIELDS (getattr m) = Inr [m_src m, m_seq m]"
    by (simp add: header_fields_ok)
  show ?thesis
  proof (cases "to_raws (layout (type_of m)) (getattr m)")
    case (Inl e)
    then show ?thesis
      using layout_fields_ok [of m] True by (simp add: encode_def encode_obj_alt h)
  next
    case (Inr rs)
    then have "fields_ok m" using layout_fields_ok [of m] True by simp
    then show ?thesis
      by (simp add: encode_def encode_obj_alt h Inr tail_typed text_length_tail)
  qed
next
  case False
  then show ?thesis
    using fields_ok_header [of m] by (auto simp: encode_def encode_obj_alt header_fields_ok)
qed

lemma encode_Inr: "encode m maxb = Inr data \<Longrightarrow>
    fields_ok m \<and> int (message_size (type_of m) + text_length m) \<le> maxb"
  using encode_typed [of m maxb] by (auto split: if_splits)

lemma encode_Inl:
  "encode m maxb = Inl e \<Longrightarrow> e = (if fields_ok m then PayloadTooLarge else FieldRangeError)"
  using encode_typed [of m maxb] by (auto split: if_splits)

lemma encode_ok:
  "fields_ok m \<Longrightarrow> int (message_size (type_of m) + text_length m) \<le> maxb \<Longrightarrow>
    \<exists>data. encode m maxb = Inr data"
  using encode_typed [of m maxb] by auto

lemma bad_place_typed:
  "fields_ok m \<Longrightarrow> bad_place (type_of m) (read_fields (type_of m) (getattr m)) \<longleftrightarrow> \<not> names_place m"
  by (cases m) (auto simp: bad_place_def names_place_def targeted_types target_of_def read_fields_def
      raws_simps kw_int_def quantise_def to_raw_int raw_of_int_def fld_def wire_consts to_raw_def
      split: sum.splits)

lemma decode_encode:
  assumes "encode m maxb = Inr data"
  shows "decode data = (if names_place m then Inr (on_wire m) else Inl FieldRangeError)"
    and "length data = message_size (type_of m) + text_length m" and "int (length data) \<le> maxb"
proof -
  obtain src seq t where d:
    "to_raws HEADER_FIELDS (getattr m) = Inr [src, seq]" "tail_bytes (type_of m) (getattr m) = Inr t"
    "length data = message_size (type_of m) + length t" "int (length data) \<le> maxb"
    "decode data = (if bad_place (type_of m) (read_fields (type_of m) (getattr m)) then Inl FieldRangeError
       else Inr (construct (type_of m) src seq (read_fields (type_of m) (getattr m) @
         (case tail_of (type_of m) of None \<Rightarrow> [] | Some n \<Rightarrow> [(n, PBytes t)]))))"
    using decode_encode_obj [OF assms [unfolded encode_def]] by blast
  have ok: "fields_ok m" using encode_Inr [OF assms] by simp
  have "src = m_src m" "seq = m_seq m"
    using d(1) by (auto simp: header_fields_ok split: if_splits)
  moreover have t: "t = (case m of Freeform _ _ _ _ _ _ t \<Rightarrow> t | _ \<Rightarrow> [])"
    using d(2) by (simp add: tail_typed)
  ultimately show "decode data = (if names_place m then Inr (on_wire m) else Inl FieldRangeError)"
    using d(5) unfolding t tail_getattr [symmetric] by (simp add: read_typed [OF ok] bad_place_typed [OF ok])
  show "length data = message_size (type_of m) + text_length m" "int (length data) \<le> maxb"
    using d(3,4) t by (simp_all add: text_length_tail)
qed

section \<open>Accepted packets are canonical\<close>

lemma header_unpack:
  assumes "4 \<le> length data"
  obtains tag src seq where "struct_unpack HEADER_FORMAT data = [tag, src, seq]"
    "struct_pack HEADER_FORMAT [tag, src, seq] = Some (take 4 data)"
    "src \<in> {0..SRC_MAX}" "seq \<in> {0..SEQ_MAX}"
proof -
  obtain tag src seq where u: "struct_unpack HEADER_FORMAT data = [tag, src, seq]"
    by (simp add: HEADER_FORMAT_def)
  moreover have p: "struct_pack HEADER_FORMAT [tag, src, seq] = Some (take 4 data)"
    using struct_pack_unpack [of HEADER_FORMAT data] assms u by simp
  moreover have "src \<in> {0..SRC_MAX}" "seq \<in> {0..SEQ_MAX}"
    using p by (auto simp: HEADER_FORMAT_def wire_consts split: option.splits if_splits)
  ultimately show thesis by (rule that)
qed

lemma decode_Inr:
  assumes "decode data = Inr m"
  obtains cls src seq vals t where
    "struct_pack HEADER_FORMAT [tag_of cls, src, seq] = Some (take 4 data)"
    "src \<in> {0..SRC_MAX}" "seq \<in> {0..SEQ_MAX}"
    "from_raws (layout cls) (struct_unpack (payload_format cls) (drop 4 data)) = Inr vals"
    "length data = message_size cls + length t" "drop (message_size cls) data = t"
    "tail_of cls = None \<Longrightarrow> t = []" "\<not> bad_place cls vals"
    "m = construct cls src seq (vals @ (case tail_of cls of None \<Rightarrow> [] | Some n \<Rightarrow> [(n, PBytes t)]))"
proof -
  have len: "4 \<le> length data"
    using assms by (auto simp: decode_def HEADER_BYTES_def split: if_splits)
  then obtain tag src seq where u: "struct_unpack HEADER_FORMAT data = [tag, src, seq]"
    "struct_pack HEADER_FORMAT [tag, src, seq] = Some (take 4 data)"
    "src \<in> {0..SRC_MAX}" "seq \<in> {0..SEQ_MAX}" by (rule header_unpack)
  obtain cls where cls: "by_tag tag = Some cls"
    using assms len by (auto simp: decode_def u(1) HEADER_BYTES_def RESERVED_TYPES_def
        split: option.splits)
  obtain vals where vals:
      "from_raws (layout cls) (struct_unpack (payload_format cls) (drop 4 data)) = Inr vals"
    using assms len by (auto simp: decode_def u(1) cls HEADER_BYTES_def RESERVED_TYPES_def Let_def
        split: if_splits sum.splits)
  let ?t = "drop (message_size cls) data"
  have lens: "message_size cls \<le> length data" "tail_of cls = None \<Longrightarrow> length data = message_size cls"
    using assms len by (auto simp: decode_def u(1) cls HEADER_BYTES_def RESERVED_TYPES_def Let_def
        split: if_splits)
  have m: "\<not> bad_place cls vals \<and>
      m = construct cls src seq (vals @ (case tail_of cls of None \<Rightarrow> [] | Some n \<Rightarrow> [(n, PBytes ?t)]))"
  proof (cases "tail_of cls")
    case None
    then show ?thesis
      using assms len lens vals
      by (auto simp: decode_def u(1) cls HEADER_BYTES_def RESERVED_TYPES_def bad_place_def
          split: if_splits)
  next
    case (Some n)
    then show ?thesis
      using assms len lens vals tail_not_targeted [OF Some]
      by (simp add: decode_def u(1) cls HEADER_BYTES_def RESERVED_TYPES_def bad_place_def
          split: if_splits)
  qed
  from cls have tag: "tag = tag_of cls" by (simp add: by_tag_Some)
  have "length data = message_size cls + length ?t" using lens(1) by simp
  moreover have "tail_of cls = None \<Longrightarrow> ?t = []" using lens(2) by simp
  ultimately show thesis
    using m by (intro that [OF u(2) [unfolded tag] u(3,4) vals, of ?t]) simp_all
qed

lemma from_raws_Cons:
  "from_raws (f # fs) rs = Inr vals \<Longrightarrow> length rs = length (f # fs) \<Longrightarrow>
    \<exists>r rs' v vs. rs = r # rs' \<and> from_raw f r = Inr v \<and> from_raws fs rs' = Inr vs \<and>
      vals = (fd_name f, v) # vs \<and> length rs' = length fs"
  by (cases rs) (auto split: sum.splits)

lemma from_raw_shape:
  "from_raw f r = Inr v \<Longrightarrow> v = (if fd_is_bool f then PBool (r = 1) else PInt (r * fd_scale f))"
  by (auto simp: from_raw_def Let_def split: if_splits)

lemma construct_getattr:
  assumes "from_raws (layout cls) rs = Inr vals" "length rs = length (layout cls)"
  shows "\<forall>p \<in> set vals. getattr (construct cls src seq (vals @ rest)) (fst p) = snd p"
  using assms
  by (cases cls)
    (auto dest!: from_raws_Cons from_raw_shape simp: TARGET_FIELDS_def fld_def getattr_def
      kw_int_def kw_bool_def)

lemma type_of_construct [simp]: "type_of (construct cls src seq vals) = cls"
  by (cases cls) simp_all

lemma header_construct [simp]:
  "m_src (construct cls src seq vals) = src" "m_seq (construct cls src seq vals) = seq"
  by (cases cls; simp)+

lemma tail_construct:
  assumes "from_raws (layout cls) rs = Inr vals" "length rs = length (layout cls)"
    and "tail_of cls = None \<Longrightarrow> t = []"
  shows "tail_bytes cls (getattr (construct cls src seq
    (vals @ (case tail_of cls of None \<Rightarrow> [] | Some n \<Rightarrow> [(n, PBytes t)])))) = Inr t"
  using assms
  by (cases cls) (auto dest!: from_raws_Cons simp: tail_bytes_def getattr_def kw_bytes_def fld_def)

lemma encode_decode:
  assumes "decode data = Inr m"
  shows "encode m (int (length data)) = Inr data"
proof (rule decode_Inr [OF assms])
  fix cls src seq vals t
  assume d: "struct_pack HEADER_FORMAT [tag_of cls, src, seq] = Some (take 4 data)"
    "src \<in> {0..SRC_MAX}" "seq \<in> {0..SEQ_MAX}"
    "from_raws (layout cls) (struct_unpack (payload_format cls) (drop 4 data)) = Inr vals"
    "length data = message_size cls + length t" "drop (message_size cls) data = t"
    "tail_of cls = None \<Longrightarrow> t = []" "\<not> bad_place cls vals"
    "m = construct cls src seq (vals @ (case tail_of cls of None \<Rightarrow> [] | Some n \<Rightarrow> [(n, PBytes t)]))"
  let ?rs = "struct_unpack (payload_format cls) (drop 4 data)"
  have lrs: "length ?rs = length (layout cls)"
    by (simp add: struct_unpack_length payload_format_def)
  have cls: "type_of m = cls" by (simp add: d(9))
  have h: "to_raws HEADER_FIELDS (getattr m) = Inr [src, seq]"
    using d(2,3) by (simp add: header_fields_ok d(9))
  have "\<forall>p \<in> set vals. getattr m (fst p) = snd p"
    unfolding d(9) by (rule construct_getattr [OF d(4) lrs])
  then have l: "to_raws (layout cls) (getattr m) = Inr ?rs"
    by (rule to_from_raws [OF d(4) lrs layout_table_ok])
  have tb: "tail_bytes cls (getattr m) = Inr t"
    unfolding d(9) by (rule tail_construct [OF d(4) lrs d(7)])
  have n: "message_size cls = 4 + calcsize (payload_format cls)"
    by (simp add: message_size_def HEADER_BYTES_def)
  have p: "struct_pack (payload_format cls) ?rs = Some (take (calcsize (payload_format cls)) (drop 4 data))"
    using d(5) n by (intro struct_pack_unpack) simp
  have "take 4 data @ take (calcsize (payload_format cls)) (drop 4 data) @ t = data"
    using d(6) n by (metis append_take_drop_id drop_drop add.commute)
  then show "encode m (int (length data)) = Inr data"
    using d(1,5) by (simp add: encode_def encode_obj_alt cls h l tb p)
qed

section \<open>Properties\<close>


section \<open>Properties\<close>

text \<open>
  C25: A typed message survives the wire. Whatever \<^verbatim>\<open>encode\<close> returns for a message fits
  the payload limit, has the size the message's class determines plus its text, and decodes
  to the same message with only a bid's ETA moved onto the 4-second lattice, by at most two
  seconds. The one message that encodes and is then refused is one whose three target
  words do not name a place, which the encoder does not check.
\<close>

theorem codec_roundtrip:
  assumes "encode m maxb = Inr data"
  shows "decode data = (if names_place m then Inr (on_wire m) else Inl FieldRangeError) \<and>
    length data = message_size (type_of m) + text_length m \<and> int (length data) \<le> maxb \<and>
    (case m of
       Bid src seq tid eta ok cost \<Rightarrow>
         \<exists>eta'. on_wire m = Bid src seq tid eta' ok cost \<and> \<bar>eta' - eta\<bar> \<le> 2 \<and> 4 dvd eta'
     | _ \<Rightarrow> on_wire m = m)"
proof -
  have "(eta * 2 + 4) div 8 * 4 - eta \<le> 2" "eta - (eta * 2 + 4) div 8 * 4 \<le> 2" for eta :: int
    by presburger+
  then have "\<bar>(eta * 2 + 4) div 8 * 4 - eta\<bar> \<le> 2" for eta :: int by (simp add: abs_le_iff)
  then show ?thesis
    using decode_encode [OF assms] by (cases m) (auto simp: ETA_RESOLUTION_S_def)
qed

theorem codec_roundtrip_witness:
  "\<exists>data. encode (Bid 3 9 7 62 True 12) 50 = Inr data \<and> length data = 9 \<and>
    decode data = Inr (Bid 3 9 7 64 True 12)"
proof -
  obtain data where d: "encode (Bid 3 9 7 62 True 12) 50 = Inr data"
    using encode_ok [of "Bid 3 9 7 62 True 12" 50]
    by (auto simp: wire_consts message_size_def payload_format_def calcsize_def fld_def)
  then show ?thesis
    using codec_roundtrip [OF d]
    by (auto simp: names_place_def targeted_types wire_consts message_size_def payload_format_def
        calcsize_def fld_def)
qed

text \<open>
  The decoder accepts canonical packets only. A packet that decodes to a message is
  the unique packet that message encodes to, byte for byte; the message names a
  consistent place where its class has one. No two packets mean the same message.
\<close>

lemma decode_canonical:
  assumes "decode data = Inr m"
  shows "encode m (int (length data)) = Inr data \<and> fields_ok m \<and> names_place m \<and> on_wire m = m \<and>
    (\<forall>data'. decode data' = Inr m \<longrightarrow> data' = data)"
proof -
  have e: "encode m (int (length data)) = Inr data" using encode_decode [OF assms] .
  have r: "names_place m \<and> on_wire m = m"
    using decode_encode(1) [OF e] assms by (auto split: if_splits)
  have "data' = data" if "decode data' = Inr m" for data'
  proof -
    have e': "encode m (int (length data')) = Inr data'" using encode_decode [OF that] .
    have "length data' = length data" using decode_encode(2) [OF e] decode_encode(2) [OF e'] by simp
    with e e' show ?thesis by simp
  qed
  with e r encode_Inr [OF e] show ?thesis by blast
qed

lemma decode_canonical_witness:
  "encode (Grant 1 2 7 3) 7 = Inr [4, 1, 0, 2, 0, 7, 3]"
proof -
  have "decode [4, 1, 0, 2, 0, 7, 3] = Inr (Grant 1 2 7 3)" by code_simp
  from decode_canonical [OF this] show ?thesis by simp
qed

text \<open>
  The encoder never truncates and never fails outside its contract. For any class and
  any attribute values, encoding returns a packet within the limit, or a
  \<^verbatim>\<open>FieldRangeError\<close>, or \<^verbatim>\<open>PayloadTooLarge\<close>: \<^verbatim>\<open>struct.error\<close> is unreachable. It
  accepts only finite numbers (never a bool) within each numeric field's range, whole ones
  where the field has unit resolution, and the raw value it writes is within half a unit of
  the field's scale.
\<close>

lemma encode_never_truncates:
  "(case encode_obj cls attr maxb of
      Inr data \<Rightarrow> int (length data) \<le> maxb \<and> message_size cls \<le> length data
    | Inl e \<Rightarrow> e = FieldRangeError \<or> e = PayloadTooLarge) \<and>
   (\<forall>f \<in> set (HEADER_FIELDS @ layout cls). \<forall>v r. to_raw f v = Inr r \<and> \<not> fd_is_bool f \<longrightarrow>
      (\<exists>q. num_of v = Some q \<and> of_int (fd_lo f) \<le> q \<and> q \<le> of_int (fd_hi f) \<and>
        2 * \<bar>of_int (r * fd_scale f) - q\<bar> \<le> of_int (fd_scale f) \<and>
        (fd_scale f = 1 \<longrightarrow> of_int r = q)))"
proof -
  have raw_err: "to_raws fs g = Inl e \<Longrightarrow> e = FieldRangeError" for fs g e
    by (induction fs arbitrary: e) (auto simp: to_raw_def split: sum.splits pyval.splits if_splits)
  have tail_err: "tail_bytes cls attr = Inl e \<Longrightarrow> e = FieldRangeError" for e
    by (auto simp: tail_bytes_def split: option.splits pyval.splits)
  have 1: "case encode_obj cls attr maxb of
      Inr data \<Rightarrow> int (length data) \<le> maxb \<and> message_size cls \<le> length data
    | Inl e \<Rightarrow> e = FieldRangeError \<or> e = PayloadTooLarge"
  proof (cases "encode_obj cls attr maxb")
    case (Inr data)
    then show ?thesis by (rule decode_encode_obj) (simp add: Inr)
  next
    case (Inl e)
    then show ?thesis
      by (auto simp: encode_obj_alt split: sum.splits if_splits dest: raw_err tail_err)
  qed
  have 2: "\<exists>q. num_of v = Some q \<and> of_int (fd_lo f) \<le> q \<and> q \<le> of_int (fd_hi f) \<and>
        2 * \<bar>of_int (r * fd_scale f) - q\<bar> \<le> of_int (fd_scale f) \<and> (fd_scale f = 1 \<longrightarrow> of_int r = q)"
    if f: "f \<in> set (HEADER_FIELDS @ layout cls)" and r: "to_raw f v = Inr r" "\<not> fd_is_bool f" for f v r
  proof -
    have s: "0 < fd_scale f"
      using f header_table_ok layout_table_ok [of cls] by (auto simp: field_table_ok_def)
    with r obtain q where q: "num_of v = Some q" "of_int (fd_lo f) \<le> q" "q \<le> of_int (fd_hi f)"
      "r = half_up (fd_scale f) q" "fd_scale f = 1 \<longrightarrow> of_int \<lfloor>q\<rfloor> = q"
      by (auto simp add: to_raw_number simp del: of_int_floor split: option.splits if_splits)
    then show ?thesis using half_up_near [OF s, of q] half_up_1 [of q] by auto
  qed
  show ?thesis using 1 2 by blast
qed

lemma encode_never_truncates_witness:
  "\<exists>q. num_of (PFloat 3) = Some q \<and> q \<le> 255 \<and> of_int 3 = q"
proof -
  have "to_raw (fld ''src'' UByte SRC_MAX) (PFloat 3) = Inr 3"
    by (simp add: to_raw_def fld_def wire_consts)
  moreover have "fld ''src'' UByte SRC_MAX \<in> set (HEADER_FIELDS @ layout ACK)"
    by (simp add: HEADER_FIELDS_def)
  ultimately have "\<exists>q. num_of (PFloat 3) = Some q \<and> of_int (fd_lo (fld ''src'' UByte SRC_MAX)) \<le> q \<and>
      q \<le> of_int (fd_hi (fld ''src'' UByte SRC_MAX)) \<and>
      2 * \<bar>of_int (3 * fd_scale (fld ''src'' UByte SRC_MAX)) - q\<bar> \<le> of_int (fd_scale (fld ''src'' UByte SRC_MAX)) \<and>
      (fd_scale (fld ''src'' UByte SRC_MAX) = 1 \<longrightarrow> of_int 3 = q)"
    using encode_never_truncates [where cls = ACK and attr = "\<lambda>_. POther" and maxb = 0] by (fastforce simp: fld_def)
  then show ?thesis by (simp add: fld_def wire_consts)
qed


end
