(* ===== verification/Ordered_Dict.thy ===== *)
theory Ordered_Dict
  imports Prelude
begin

text \<open>
  Python's insertion-ordered \<^verbatim>\<open>dict\<close> and \<^verbatim>\<open>OrderedDict\<close> as association lists with distinct
  keys, oldest first, and the expiry walk that the duplicate filter and the note
  reassembler share.
\<close>

section \<open>Operations\<close>

type_synonym ('k, 'v) odict = "('k \<times> 'v) list"

definition od_get :: "('k, 'v) odict \<Rightarrow> 'k \<Rightarrow> 'v option" where
  "od_get d k = map_of d k"

definition od_mem :: "('k, 'v) odict \<Rightarrow> 'k \<Rightarrow> bool" where
  "od_mem d k \<longleftrightarrow> k \<in> set (map fst d)"

text \<open>\<^verbatim>\<open>d[k] = v\<close>: in place for a key that is there, else at the end.\<close>

fun od_set :: "'k \<Rightarrow> 'v \<Rightarrow> ('k, 'v) odict \<Rightarrow> ('k, 'v) odict" where
  "od_set k v [] = [(k, v)]"
| "od_set k v ((k', v') # d) = (if k' = k then (k, v) # d else (k', v') # od_set k v d)"

text \<open>\<^verbatim>\<open>del d[k]\<close>, of a key that is there.\<close>

definition od_del :: "'k \<Rightarrow> ('k, 'v) odict \<Rightarrow> ('k, 'v) odict" where
  "od_del k d = filter (\<lambda>(k', _). k' \<noteq> k) d"

definition od_move_to_end :: "'k \<Rightarrow> ('k, 'v) odict \<Rightarrow> ('k, 'v) odict" where
  "od_move_to_end k d = filter (\<lambda>(k', _). k' \<noteq> k) d @ filter (\<lambda>(k', _). k' = k) d"

text \<open>\<^verbatim>\<open>while len(d) > n: d.popitem(last=False)\<close>, with the number of items it drops.\<close>

function od_evict :: "nat \<Rightarrow> ('k, 'v) odict \<Rightarrow> ('k, 'v) odict \<times> nat" where
  "od_evict n d = (if length d > n then (let (d', c) = od_evict n (tl d) in (d', c + 1)) else (d, 0))"
  by pat_completeness auto
termination by (relation "measure (\<lambda>(n, d). length d)") auto

text \<open>
  \<^verbatim>\<open>for key, v in list(d.items()): if expiry > now: break; del d[key]\<close>, with the number of
  deletions. The first argument is the snapshot being walked.
\<close>

fun od_prune :: "('v \<Rightarrow> secs) \<Rightarrow> secs \<Rightarrow> ('k \<times> 'v) list \<Rightarrow> ('k, 'v) odict \<Rightarrow> ('k, 'v) odict \<times> nat" where
  "od_prune expiry now [] d = (d, 0)"
| "od_prune expiry now ((k, v) # items) d =
     (if expiry v > now then (d, 0)
      else let (d', c) = od_prune expiry now items (od_del k d) in (d', c + 1))"

section \<open>Laws\<close>

definition od_ok :: "('k, 'v) odict \<Rightarrow> bool" where
  "od_ok d \<longleftrightarrow> distinct (map fst d)"

lemma od_ok_Nil [simp]: "od_ok []"
  by (simp add: od_ok_def)

lemma od_ok_append: "od_ok (d @ e) \<longleftrightarrow> od_ok d \<and> od_ok e \<and> fst ` set d \<inter> fst ` set e = {}"
  by (simp add: od_ok_def)

lemma od_get_mem: "od_get d k = Some v \<Longrightarrow> (k, v) \<in> set d"
  by (simp add: od_get_def map_of_SomeD)

lemma od_get_iff: "od_ok d \<Longrightarrow> od_get d k = Some v \<longleftrightarrow> (k, v) \<in> set d"
  by (simp add: od_get_def od_ok_def map_of_eq_Some_iff)

lemma od_get_None: "od_get d k = None \<longleftrightarrow> \<not> od_mem d k"
  by (simp add: od_get_def od_mem_def map_of_eq_None_iff)

lemma od_get_set: "od_get (od_set k v d) j = (if j = k then Some v else od_get d j)"
  by (induction d) (auto simp: od_get_def)

lemma keys_od_set: "fst ` set (od_set k v d) = insert k (fst ` set d)"
  by (induction d) (auto split: if_splits, force+)

lemma od_ok_set: "od_ok d \<Longrightarrow> od_ok (od_set k v d)"
  by (induction d) (auto simp: od_ok_def keys_od_set)

lemma od_set_fresh: "\<not> od_mem d k \<Longrightarrow> od_set k v d = d @ [(k, v)]"
  by (induction d) (auto simp: od_mem_def)

lemma length_od_set: "length (od_set k v d) = (if od_mem d k then length d else length d + 1)"
  by (induction d) (force simp: od_mem_def)+

lemma set_od_set: "set (od_set k v d) \<subseteq> insert (k, v) (set d)"
  by (induction d) (auto split: if_splits)

lemma set_od_set_eq: "od_ok d \<Longrightarrow> set (od_set k v d) = insert (k, v) {p \<in> set d. fst p \<noteq> k}"
  by (induction d) (force simp: od_ok_def)+

lemma od_del_absent: "\<not> od_mem d k \<Longrightarrow> od_del k d = d"
  by (induction d) (auto simp: od_del_def od_mem_def)

lemma od_get_del: "od_get (od_del k d) j = (if j = k then None else od_get d j)"
  by (induction d) (auto simp: od_get_def od_del_def)

lemma set_od_del: "set (od_del k d) = {p \<in> set d. fst p \<noteq> k}"
  by (auto simp: od_del_def)

lemma od_ok_del: "od_ok d \<Longrightarrow> od_ok (od_del k d)"
  by (induction d) (auto simp: od_ok_def od_del_def)

lemma length_od_del: "length (od_del k d) \<le> length d"
  by (simp add: od_del_def)

lemma length_od_del_mem: "od_ok d \<Longrightarrow> od_mem d k \<Longrightarrow> length (od_del k d) + 1 = length d"
proof (induction d)
  case (Cons p d)
  then show ?case
    using od_del_absent [of d k] by (cases "fst p = k") (auto simp: od_ok_def od_mem_def od_del_def)
qed (simp add: od_mem_def)

text \<open>The idiom of both caches: assign, then move to the end.\<close>

lemma od_move_set:
  assumes "od_ok d"
  shows "od_move_to_end k (od_set k v d) = od_del k d @ [(k, v)]"
proof -
  have "filter (\<lambda>(k', _). k' \<noteq> k) (od_set k v d) = od_del k d"
    by (induction d) (auto simp: od_del_def)
  moreover have "filter (\<lambda>(k', _). k' = k) (od_set k v d) = [(k, v)]"
    using assms
  proof (induction d)
    case (Cons p d)
    have "filter (\<lambda>(k', _). k' = k) d = []" if "fst p = k"
      using that Cons.prems by (auto simp: od_ok_def filter_empty_conv image_iff)
    with Cons show ?case by (cases p) (auto simp: od_ok_def)
  qed simp
  ultimately show ?thesis by (simp add: od_move_to_end_def)
qed

lemma od_move_last:
  assumes "od_ok d" "od_get d k = Some v"
  shows "od_move_to_end k d = od_del k d @ [(k, v)]"
proof -
  have "od_set k v d = d"
    using assms by (induction d) (auto simp: od_get_def od_ok_def split: if_splits)
  then show ?thesis using od_move_set [OF assms(1), of k v] by simp
qed

lemma od_del_set: "od_del k (od_set k v d) = od_del k d"
  by (induction d) (auto simp: od_del_def split: if_splits)

lemma dropWhile_stop:
  "\<not> P x \<Longrightarrow> \<exists>pre'. dropWhile P (pre @ x # suf) = pre' @ x # suf"
  by (induction pre) auto

lemma od_del_append: "od_del k (d @ e) = od_del k d @ od_del k e"
  by (simp add: od_del_def)

lemma od_put_end: "od_ok d \<Longrightarrow> od_ok (od_del k d @ [(k, v)])"
  by (auto simp: od_ok_append od_ok_del set_od_del) (simp add: od_ok_def)

declare od_evict.simps [simp del]

lemma od_evict_drop: "od_evict n d = (drop (length d - n) d, length d - n)"
proof (induction n d rule: od_evict.induct)
  case (1 n d)
  show ?case
  proof (cases "length d > n")
    case True
    then have "length d - n = Suc (length (tl d) - n)" by simp
    then show ?thesis
      using 1 True by (cases d) (simp_all add: od_evict.simps [of n "_ # _"])
  next
    case False
    then show ?thesis by (simp add: od_evict.simps [of n d])
  qed
qed

lemma od_ok_drop: "od_ok d \<Longrightarrow> od_ok (drop n d)"
  by (simp add: od_ok_def drop_map [symmetric])

lemma od_ok_dropWhile: "od_ok d \<Longrightarrow> od_ok (dropWhile P d)"
  by (metis od_ok_append takeWhile_dropWhile_id)

text \<open>On a dictionary with distinct keys the walk is a \<open>dropWhile\<close>.\<close>

lemma od_prune_walk:
  "od_ok d \<Longrightarrow> od_prune expiry now d d =
    (dropWhile (\<lambda>(_, v). expiry v \<le> now) d, length (takeWhile (\<lambda>(_, v). expiry v \<le> now) d))"
proof (induction d)
  case (Cons p d)
  obtain k v where p: "p = (k, v)" by force
  have "od_del k ((k, v) # d) = d"
    using Cons.prems od_del_absent [of d k] by (auto simp: p od_ok_def od_del_def od_mem_def)
  with Cons show ?case by (auto simp: p od_ok_def not_le split: prod.splits)
qed simp

text \<open>
  When the entries are sorted by expiry the walk that stops at the first live entry
  has removed exactly the dead ones.
\<close>

definition by_expiry :: "('v \<Rightarrow> secs) \<Rightarrow> ('k, 'v) odict \<Rightarrow> bool" where
  "by_expiry expiry d \<longleftrightarrow> sorted (map (expiry \<circ> snd) d)"

lemma by_expiry_Nil [simp]: "by_expiry expiry []"
  by (simp add: by_expiry_def)

lemma prune_live:
  "by_expiry expiry d \<Longrightarrow>
    dropWhile (\<lambda>(_, v). expiry v \<le> now) d = filter (\<lambda>(_, v). expiry v > now) d"
proof (induction d)
  case (Cons p d)
  have "filter (\<lambda>(_, v). expiry v > now) d = d" if "\<not> expiry (snd p) \<le> now"
    using Cons.prems that by (force simp: by_expiry_def filter_id_conv)
  with Cons show ?case by (cases p) (auto simp: by_expiry_def)
qed simp

lemma by_expiry_del: "by_expiry expiry d \<Longrightarrow> by_expiry expiry (od_del k d)"
  by (induction d) (auto simp: by_expiry_def od_del_def)

lemma by_expiry_drop: "by_expiry expiry d \<Longrightarrow> by_expiry expiry (drop n d)"
  by (simp add: by_expiry_def drop_map [symmetric] sorted_wrt_drop)

lemma by_expiry_dropWhile: "by_expiry expiry d \<Longrightarrow> by_expiry expiry (dropWhile P d)"
  by (metis by_expiry_drop dropWhile_eq_drop)

lemma by_expiry_snoc:
  "by_expiry expiry d \<Longrightarrow> \<forall>(k', w) \<in> set d. expiry w \<le> expiry v \<Longrightarrow> by_expiry expiry (d @ [(k, v)])"
  by (auto simp: by_expiry_def sorted_append)

end
