(* ===== verification/Dedup.thy ===== *)
theory Dedup
  imports Ordered_Dict
begin

text \<open>
  The duplicate filter of \<^verbatim>\<open>reliability/dedup.py\<close>. The cache is an ordered dictionary from
  \<open>(src, seq)\<close> to the time its entry expires; the clock reading is an argument, as in the
  code. The contract the session relies on is the locale \<open>once_filter\<close>.
\<close>

type_synonym msg_key = "int \<times> int"

record dedup_cache =
  dc_ttl :: secs
  dc_max :: int
  dc_seen :: "(msg_key, secs) odict"
  dc_duplicates :: nat
  dc_evicted :: nat

definition dedup_init :: "secs \<Rightarrow> int \<Rightarrow> py_exn + dedup_cache" where
  "dedup_init ttl_sec max_entries =
     (if ttl_sec \<le> 0 then Inl ValueError
      else if max_entries < 1 then Inl ValueError
      else Inr \<lparr>dc_ttl = ttl_sec, dc_max = max_entries, dc_seen = [], dc_duplicates = 0,
             dc_evicted = 0\<rparr>)"

definition dedup_contains :: "dedup_cache \<Rightarrow> msg_key \<Rightarrow> bool" where
  "dedup_contains c k = od_mem (dc_seen c) k"

definition dedup_prune :: "dedup_cache \<Rightarrow> secs \<Rightarrow> dedup_cache \<times> nat" where
  "dedup_prune c now =
     (let (seen, dropped) = od_prune (\<lambda>e. e) now (dc_seen c) (dc_seen c)
      in (c\<lparr>dc_seen := seen\<rparr>, dropped))"

definition first_sight :: "dedup_cache \<Rightarrow> msg_key \<Rightarrow> secs \<Rightarrow> dedup_cache \<times> bool" where
  "first_sight c key now =
     (let c1 = fst (dedup_prune c now);
          known = od_mem (dc_seen c1) key;
          c2 = (if known then c1\<lparr>dc_duplicates := dc_duplicates c1 + 1\<rparr> else c1);
          c3 = c2\<lparr>dc_seen := od_move_to_end key (od_set key (now + dc_ttl c2) (dc_seen c2))\<rparr>;
          (seen, n) = od_evict (nat (dc_max c3)) (dc_seen c3)
      in (c3\<lparr>dc_seen := seen, dc_evicted := dc_evicted c3 + n\<rparr>, \<not> known))"

section \<open>The cache is a bounded dictionary\<close>

definition dedup_inv :: "dedup_cache \<Rightarrow> bool" where
  "dedup_inv c \<longleftrightarrow> od_ok (dc_seen c) \<and> 0 < dc_ttl c \<and> 1 \<le> dc_max c \<and>
     length (dc_seen c) \<le> nat (dc_max c)"

lemma dedup_inv_init: "dedup_init ttl m = Inr c \<Longrightarrow> dedup_inv c"
  by (auto simp: dedup_init_def dedup_inv_def split: if_splits)

lemma dedup_prune_seen:
  "dedup_inv c \<Longrightarrow> dc_seen (fst (dedup_prune c now)) = dropWhile (\<lambda>(_, e). e \<le> now) (dc_seen c)"
  by (simp add: dedup_prune_def dedup_inv_def od_prune_walk split: prod.splits)

lemma dedup_prune_frame [simp]:
  "dc_ttl (fst (dedup_prune c now)) = dc_ttl c" "dc_max (fst (dedup_prune c now)) = dc_max c"
  "dc_duplicates (fst (dedup_prune c now)) = dc_duplicates c"
  "dc_evicted (fst (dedup_prune c now)) = dc_evicted c"
  by (simp_all add: dedup_prune_def split: prod.splits)

lemma dedup_inv_prune [inv_step]: "dedup_inv c \<Longrightarrow> dedup_inv (fst (dedup_prune c now))"
  using length_dropWhile_le [of "\<lambda>(_, e). e \<le> now" "dc_seen c"]
  by (simp add: dedup_inv_def dedup_prune_seen [unfolded dedup_inv_def] od_ok_dropWhile)

text \<open>The entries a sight leaves, before and after the capacity is enforced.\<close>

definition sighted :: "dedup_cache \<Rightarrow> msg_key \<Rightarrow> secs \<Rightarrow> (msg_key, secs) odict" where
  "sighted c k now = od_del k (dropWhile (\<lambda>(_, e). e \<le> now) (dc_seen c)) @ [(k, now + dc_ttl c)]"

lemma first_sight_alt:
  assumes "dedup_inv c"
  shows "dc_seen (fst (first_sight c k now)) =
      drop (length (sighted c k now) - nat (dc_max c)) (sighted c k now)"
    and "snd (first_sight c k now) \<longleftrightarrow> \<not> od_mem (dropWhile (\<lambda>(_, e). e \<le> now) (dc_seen c)) k"
    and "dc_ttl (fst (first_sight c k now)) = dc_ttl c" "dc_max (fst (first_sight c k now)) = dc_max c"
  using assms od_move_set [of "dropWhile (\<lambda>(_, e). e \<le> now) (dc_seen c)" k "now + dc_ttl c"]
  by (simp_all add: first_sight_def Let_def od_evict_drop dedup_prune_seen sighted_def dedup_inv_def
      od_ok_dropWhile split: prod.splits)

lemma sighted_ok: "dedup_inv c \<Longrightarrow> od_ok (sighted c k now)"
  by (simp add: sighted_def dedup_inv_def od_put_end od_ok_dropWhile)

lemma sighted_length: "dedup_inv c \<Longrightarrow> length (sighted c k now) \<le> nat (dc_max c) + 1"
  using length_dropWhile_le [of "\<lambda>(_, e). e \<le> now" "dc_seen c"]
    length_od_del [of k "dropWhile (\<lambda>(_, e). e \<le> now) (dc_seen c)"]
  by (simp add: sighted_def dedup_inv_def)

lemma dedup_inv_sight [inv_step]: "dedup_inv c \<Longrightarrow> dedup_inv (fst (first_sight c k now))"
  using sighted_ok [of c k now] sighted_length [of c k now]
  by (auto simp: dedup_inv_def [of "fst _"] first_sight_alt od_ok_drop) (auto simp: dedup_inv_def)

section \<open>The contract of a duplicate filter\<close>

text \<open>
  \<open>sight s k t\<close> answers whether \<open>k\<close> is new; \<open>knows s k\<close>: the filter holds an entry for \<open>k\<close>;
  \<open>holds s k S u\<close>: \<open>k\<close> will be recognised before time \<open>u\<close>, and only the keys \<open>S\<close> came
  after it; \<open>cap\<close> is the number of keys the filter can tell apart.
\<close>

locale once_filter =
  fixes sight :: "'s \<Rightarrow> 'k \<Rightarrow> secs \<Rightarrow> 's \<times> bool"
    and knows :: "'s \<Rightarrow> 'k \<Rightarrow> bool"
    and holds :: "'s \<Rightarrow> 'k \<Rightarrow> 'k set \<Rightarrow> secs \<Rightarrow> bool"
    and inv :: "'s \<Rightarrow> bool" and ttl :: secs and cap :: nat
  assumes inv_sight: "inv s \<Longrightarrow> inv (fst (sight s k t))"
    and suppressed_known: "inv s \<Longrightarrow> \<not> snd (sight s k t) \<Longrightarrow> knows s k"
    and knows_only: "inv s \<Longrightarrow> knows (fst (sight s k t)) j \<Longrightarrow> j = k \<or> knows s j"
    and holds_sight: "inv s \<Longrightarrow> holds (fst (sight s k t)) k {} (t + ttl)"
    and holds_other: "inv s \<Longrightarrow> holds s k S u \<Longrightarrow> j \<noteq> k \<Longrightarrow> t < u \<Longrightarrow> finite S \<Longrightarrow>
      card (insert j S) < cap \<Longrightarrow> holds (fst (sight s j t)) k (insert j S) u"
    and holds_suppresses: "inv s \<Longrightarrow> holds s k S u \<Longrightarrow> t < u \<Longrightarrow> \<not> snd (sight s k t)"
begin

definition after :: "'s \<Rightarrow> ('k \<times> secs) list \<Rightarrow> 's" where
  "after = run (\<lambda>s (k, t). fst (sight s k t))"

lemma inv_after: "inv s \<Longrightarrow> inv (after s xs)"
  unfolding after_def by (rule run_invariant) (auto intro: inv_sight)

lemma first_passes:
  "inv s \<Longrightarrow> \<not> knows s k \<Longrightarrow> k \<notin> fst ` set xs \<Longrightarrow> snd (sight (after s xs) k t)"
proof (induction xs arbitrary: s)
  case Nil
  then show ?case using suppressed_known [of s k t] by (auto simp: after_def)
next
  case (Cons p xs)
  obtain j u where p: "p = (j, u)" by force
  have "\<not> knows (fst (sight s j u)) k"
    using knows_only [OF Cons.prems(1), of j u k] Cons.prems(2,3) by (auto simp: p)
  with Cons.IH [of "fst (sight s j u)"] Cons.prems inv_sight show ?case by (simp add: after_def p)
qed

lemma holds_after:
  "inv s \<Longrightarrow> holds s k S u \<Longrightarrow> finite S \<Longrightarrow> k \<notin> fst ` set xs \<Longrightarrow> \<forall>(_, t) \<in> set xs. t < u \<Longrightarrow>
    card (S \<union> fst ` set xs) < cap \<Longrightarrow> holds (after s xs) k (S \<union> fst ` set xs) u"
proof (induction xs arbitrary: s S)
  case (Cons p xs)
  obtain j t where p: "p = (j, t)" by force
  have fin: "finite (S \<union> fst ` set (p # xs))" using Cons.prems(3) by simp
  have "card (insert j S) \<le> card (S \<union> fst ` set (p # xs))"
    using fin by (intro card_mono) (auto simp: p)
  then have "holds (fst (sight s j t)) k (insert j S) u"
    using Cons.prems by (intro holds_other) (auto simp: p)
  moreover have "insert j S \<union> fst ` set xs = S \<union> fst ` set (p # xs)" by (auto simp: p)
  ultimately show ?case
    using Cons.IH [of "fst (sight s j t)" "insert j S"] Cons.prems inv_sight
    by (simp add: after_def p)
qed (simp add: after_def)

text \<open>A repeat within the window is suppressed; a first sight never is.\<close>

lemma repeat_suppressed:
  assumes "inv s" "k \<notin> fst ` set xs" "\<forall>(_, t') \<in> set xs. t' < t + ttl" "card (fst ` set xs) < cap"
    "u < t + ttl"
  shows "\<not> snd (sight (after (fst (sight s k t)) xs) k u)"
proof -
  have i: "inv (fst (sight s k t))" by (rule inv_sight [OF assms(1)])
  have "holds (after (fst (sight s k t)) xs) k ({} \<union> fst ` set xs) (t + ttl)"
    using assms by (intro holds_after i holds_sight) auto
  from holds_suppresses [OF inv_after [OF i] this assms(5)] show ?thesis .
qed

end

section \<open>The cache keeps the contract\<close>

definition holds_key :: "dedup_cache \<Rightarrow> msg_key \<Rightarrow> msg_key set \<Rightarrow> secs \<Rightarrow> bool" where
  "holds_key c k S u \<longleftrightarrow>
     (\<exists>pre e suf. dc_seen c = pre @ (k, e) # suf \<and> fst ` set suf \<subseteq> S \<and> u \<le> e)"

lemma first_sight_keeps:
  assumes inv: "dedup_inv c" and h: "holds_key c k S u" "j \<noteq> k" "t < u" "finite S"
    and cap: "card (insert j S) < nat (dc_max c)"
  shows "holds_key (fst (first_sight c j t)) k (insert j S) u"
proof -
  obtain pre e suf where d: "dc_seen c = pre @ (k, e) # suf" "fst ` set suf \<subseteq> S" "u \<le> e"
    using h(1) by (auto simp: holds_key_def)
  obtain pre' where "dropWhile (\<lambda>(_, e). e \<le> t) (dc_seen c) = pre' @ (k, e) # suf"
    using dropWhile_stop [of "\<lambda>(_, e). e \<le> t" "(k, e)" pre suf] d h(3) by auto
  then have s: "sighted c j t = od_del j pre' @ (k, e) # (od_del j suf @ [(j, t + dc_ttl c)])"
    using h(2) by (simp add: sighted_def od_del_append) (simp add: od_del_def)
  let ?suf = "od_del j suf @ [(j, t + dc_ttl c)]"
  have keys: "fst ` set ?suf \<subseteq> insert j S" using d(2) by (auto simp: set_od_del)
  have "distinct (map fst ?suf)"
    using sighted_ok [OF inv, of j t] unfolding s by (simp add: od_ok_def)
  then have "length ?suf = card (fst ` set ?suf)" by (metis distinct_card length_map set_map)
  also have "\<dots> \<le> card (insert j S)" using keys h(4) by (intro card_mono) auto
  finally have "length ?suf < nat (dc_max c)" using cap by simp
  then have "length (sighted c j t) - nat (dc_max c) \<le> length (od_del j pre')"
    unfolding s by simp
  then have "dc_seen (fst (first_sight c j t)) =
      drop (length (sighted c j t) - nat (dc_max c)) (od_del j pre') @ (k, e) # ?suf"
    by (simp add: first_sight_alt(1) [OF inv]) (simp add: s)
  with keys d(3) show ?thesis unfolding holds_key_def by blast
qed

lemma first_sight_holds:
  assumes "dedup_inv c"
  shows "holds_key (fst (first_sight c k t)) k {} (t + dc_ttl c)"
proof -
  have "length (sighted c k t) - nat (dc_max c) \<le>
      length (od_del k (dropWhile (\<lambda>(_, e). e \<le> t) (dc_seen c)))"
    using assms by (auto simp: sighted_def dedup_inv_def)
  then show ?thesis
    by (auto simp: holds_key_def first_sight_alt(1) [OF assms] sighted_def)
qed

lemma holds_key_suppresses:
  assumes "dedup_inv c" "holds_key c k S u" "t < u"
  shows "\<not> snd (first_sight c k t)"
proof -
  obtain pre e suf where d: "dc_seen c = pre @ (k, e) # suf" "u \<le> e"
    using assms(2) by (auto simp: holds_key_def)
  then show ?thesis
    using dropWhile_stop [of "\<lambda>(_, e). e \<le> t" "(k, e)" pre suf] assms(3)
    by (auto simp: first_sight_alt(2) [OF assms(1)] od_mem_def)
qed

lemma knows_after_sight:
  assumes "dedup_inv c" "dedup_contains (fst (first_sight c k t)) j"
  shows "j = k \<or> dedup_contains c j"
proof -
  have "j \<in> fst ` set (sighted c k t)"
    using assms(2) by (auto simp: dedup_contains_def od_mem_def first_sight_alt(1) [OF assms(1)]
        dest!: in_set_dropD)
  then show ?thesis
    by (auto simp: sighted_def set_od_del dedup_contains_def od_mem_def dest!: set_dropWhileD)
qed

lemma suppressed_contained:
  "dedup_inv c \<Longrightarrow> \<not> snd (first_sight c k t) \<Longrightarrow> dedup_contains c k"
  by (auto simp: first_sight_alt(2) dedup_contains_def od_mem_def dest!: set_dropWhileD)

interpretation dedup: once_filter first_sight dedup_contains holds_key
    "\<lambda>c. dedup_inv c \<and> dc_ttl c = ttl \<and> dc_max c = m" ttl "nat m" for ttl m
  by unfold_locales
    (auto simp: dedup_inv_sight first_sight_alt(3,4) suppressed_contained knows_after_sight
      first_sight_holds first_sight_keeps holds_key_suppresses dest: knows_after_sight)

section \<open>Properties\<close>

definition dedup_after :: "dedup_cache \<Rightarrow> (msg_key \<times> secs) list \<Rightarrow> dedup_cache" where
  "dedup_after = run (\<lambda>c (k, t). fst (first_sight c k t))"

lemma dedup_after_alt: "dedup_after = dedup.after"
  by (simp add: dedup_after_def dedup.after_def)



end
