(* ===== verification/Utf8.thy ===== *)
theory Utf8
  imports Prelude
begin

text \<open>
  Python's \<^verbatim>\<open>str.encode("utf-8")\<close> and \<^verbatim>\<open>bytes.decode("utf-8")\<close>, strict in both directions. A
  \<^verbatim>\<open>str\<close> is the list of its code points; a lone surrogate does not encode
  (\<^verbatim>\<open>UnicodeEncodeError\<close>, a \<^verbatim>\<open>ValueError\<close>), and the decoder refuses overlong forms,
  surrogates and values past U+10FFFF.
\<close>

type_synonym text_str = "nat list"

definition scalar :: "nat \<Rightarrow> bool" where
  "scalar c \<longleftrightarrow> c < 0x110000 \<and> \<not> (0xD800 \<le> c \<and> c < 0xE000)"

definition utf8_char :: "nat \<Rightarrow> nat list" where
  "utf8_char c =
     (if c < 0x80 then [c]
      else if c < 0x800 then [0xC0 + c div 64, 0x80 + c mod 64]
      else if c < 0x10000 then [0xE0 + c div 4096, 0x80 + c div 64 mod 64, 0x80 + c mod 64]
      else [0xF0 + c div 262144, 0x80 + c div 4096 mod 64, 0x80 + c div 64 mod 64, 0x80 + c mod 64])"

definition utf8_encode :: "text_str \<Rightarrow> byte list option" where
  "utf8_encode t =
     (if list_all scalar t then Some (map of_nat (concat (map utf8_char t))) else None)"

definition continuation :: "nat \<Rightarrow> bool" where
  "continuation x \<longleftrightarrow> 0x80 \<le> x \<and> x < 0xC0"

text \<open>The next code point and the number of bytes it took.\<close>

definition utf8_next :: "nat list \<Rightarrow> (nat \<times> nat) option" where
  "utf8_next xs =
     (case xs of
        [] \<Rightarrow> None
      | x # rest \<Rightarrow>
          if x < 0x80 then Some (x, 1)
          else if 0xC0 \<le> x \<and> x < 0xE0 then
            (case rest of
               a # _ \<Rightarrow>
                 let c = (x - 0xC0) * 64 + (a - 0x80)
                 in if continuation a \<and> 0x80 \<le> c then Some (c, 2) else None
             | _ \<Rightarrow> None)
          else if 0xE0 \<le> x \<and> x < 0xF0 then
            (case rest of
               a # b # _ \<Rightarrow>
                 let c = (x - 0xE0) * 4096 + (a - 0x80) * 64 + (b - 0x80)
                 in if continuation a \<and> continuation b \<and> 0x800 \<le> c \<and> scalar c then Some (c, 3) else None
             | _ \<Rightarrow> None)
          else if 0xF0 \<le> x \<and> x < 0xF8 then
            (case rest of
               a # b # d # _ \<Rightarrow>
                 let c = (x - 0xF0) * 262144 + (a - 0x80) * 4096 + (b - 0x80) * 64 + (d - 0x80)
                 in if continuation a \<and> continuation b \<and> continuation d \<and> 0x10000 \<le> c \<and> scalar c
                    then Some (c, 4) else None
             | _ \<Rightarrow> None)
          else None)"

lemma utf8_next_bounds: "utf8_next xs = Some (c, n) \<Longrightarrow> 0 < n \<and> n \<le> length xs"
  by (auto simp: utf8_next_def Let_def split: list.splits if_splits)

function utf8_points :: "nat list \<Rightarrow> text_str option" where
  "utf8_points xs =
     (if xs = [] then Some []
      else case utf8_next xs of
        None \<Rightarrow> None
      | Some (c, n) \<Rightarrow> map_option (\<lambda>cs. c # cs) (utf8_points (drop n xs)))"
  by pat_completeness auto
termination
  by (relation "measure length") (auto dest: utf8_next_bounds)

declare utf8_points.simps [simp del]

definition utf8_decode :: "byte list \<Rightarrow> text_str option" where
  "utf8_decode bs = utf8_points (map unat bs)"

section \<open>Round trips\<close>

lemma utf8_char_bytes: "scalar c \<Longrightarrow> x \<in> set (utf8_char c) \<Longrightarrow> x < 256"
  by (auto simp: utf8_char_def scalar_def split: if_splits)

lemma utf8_char_not_Nil: "utf8_char c \<noteq> []"
  by (simp add: utf8_char_def)

lemma base64_digits:
  fixes c :: nat
  shows "c div 4096 * 4096 + c div 64 mod 64 * 64 + c mod 64 = c"
    and "c div 262144 * 262144 + c div 4096 mod 64 * 4096 + c div 64 mod 64 * 64 + c mod 64 = c"
proof -
  have d: "c div 4096 = c div 64 div 64" "c div 262144 = c div 64 div 64 div 64"
    by (simp_all add: div_mult2_eq [symmetric])
  have s: "x div 64 * 64 + x mod 64 = x" for x :: nat by simp
  show "c div 4096 * 4096 + c div 64 mod 64 * 64 + c mod 64 = c"
    unfolding d using s [of c] s [of "c div 64"] by linarith
  show "c div 262144 * 262144 + c div 4096 mod 64 * 4096 + c div 64 mod 64 * 64 + c mod 64 = c"
    unfolding d using s [of c] s [of "c div 64"] s [of "c div 64 div 64"] by linarith
qed

lemma utf8_next_char:
  assumes "scalar c"
  shows "utf8_next (utf8_char c @ rest) = Some (c, length (utf8_char c))"
proof -
  consider "c < 0x80" | "0x80 \<le> c" "c < 0x800" | "0x800 \<le> c" "c < 0x10000"
    | "0x10000 \<le> c" "c < 0x110000"
    using assms unfolding scalar_def by linarith
  then show ?thesis
  proof cases
    case 1
    then show ?thesis by (simp add: utf8_char_def utf8_next_def)
  next
    case 2
    then have "c div 64 < 32" by auto
    then show ?thesis using 2 by (simp add: utf8_char_def utf8_next_def continuation_def)
  next
    case 3
    then have "c div 4096 < 16" by auto
    then show ?thesis
      using 3 assms base64_digits(1) [of c] by (simp add: utf8_char_def utf8_next_def continuation_def)
  next
    case 4
    then have "c div 262144 < 5" by auto
    then show ?thesis
      using 4 assms base64_digits(2) [of c] by (simp add: utf8_char_def utf8_next_def continuation_def)
  qed
qed

lemma utf8_points_encode:
  "list_all scalar t \<Longrightarrow> utf8_points (concat (map utf8_char t)) = Some t"
proof (induction t)
  case Nil
  then show ?case by (simp add: utf8_points.simps)
next
  case (Cons c t)
  then show ?case
    using utf8_next_char [of c "concat (map utf8_char t)"] utf8_char_not_Nil [of c]
    by (subst utf8_points.simps) simp
qed

lemma utf8_roundtrip:
  assumes "utf8_encode t = Some bs"
  shows "utf8_decode bs = Some t"
proof -
  have ok: "list_all scalar t" and bs: "bs = map of_nat (concat (map utf8_char t))"
    using assms by (auto simp: utf8_encode_def split: if_splits)
  have "unat (of_nat x :: byte) = x" if "x \<in> set (concat (map utf8_char t))" for x
    using that ok utf8_char_bytes by (auto simp: unat_of_nat list_all_iff)
  then have "map unat bs = concat (map utf8_char t)"
    unfolding bs map_map comp_def by (intro map_idI)
  then show ?thesis by (simp add: utf8_decode_def utf8_points_encode [OF ok])
qed

lemma utf8_encode_Nil: "utf8_encode t = Some [] \<longleftrightarrow> t = []"
  by (cases t) (auto simp: utf8_encode_def utf8_char_not_Nil)

end
