(* ===== verification/Notes.thy ===== *)
theory Notes
  imports Ordered_Dict Utf8 Codec
begin

text \<open>
  Free-text notes, \<^verbatim>\<open>reliability/notes.py\<close>: the splitter and the reassembler. Both caches are
  ordered dictionaries; a partial note's fragments are a dictionary from index to bytes.
\<close>

section \<open>Splitting\<close>

definition text_bytes_per_fragment :: "int \<Rightarrow> int" where
  "text_bytes_per_fragment max_payload_bytes = max_payload_bytes - int NOTE_HEADER_BYTES"

text \<open>\<^verbatim>\<open>[blob[i : i + n] for i in range(0, len(blob), n)]\<close>, for a positive \<^verbatim>\<open>n\<close>.\<close>

definition note_chunks :: "nat \<Rightarrow> byte list \<Rightarrow> byte list list" where
  "note_chunks n blob =
     map (\<lambda>j. take n (drop (j * n) blob)) [0..<(length blob + n - 1) div n]"

definition split_note ::
  "int \<Rightarrow> int \<Rightarrow> text_str \<Rightarrow> int \<Rightarrow> int \<Rightarrow> py_exn + message list" where
  "split_note task_id note_id t max_payload_bytes max_fragments =
     (if \<not> (0 < task_id \<and> task_id \<le> TASK_ID_MAX) then Inl ValueError
      else if \<not> (0 \<le> note_id \<and> note_id \<le> NOTE_ID_MAX) then Inl ValueError
      else if max_fragments < 1 then Inl ValueError
      else
        let per_fragment = text_bytes_per_fragment max_payload_bytes
        in if per_fragment < 1 then Inl ValueError
           else case utf8_encode t of
             None \<Rightarrow> Inl ValueError
           | Some blob \<Rightarrow>
               if blob = [] then Inl ValueError
               else
                 let chunks = note_chunks (nat per_fragment) blob
                 in if int (length chunks) > max_fragments then Inl NoteTooLong
                    else Inr (map (\<lambda>(index, chunk). Freeform 0 0 task_id note_id (int index)
                                    (int (length chunks)) chunk)
                                (zip [0..<length chunks] chunks)))"

section \<open>The reassembler's state\<close>

type_synonym fragment_key = "int \<times> int \<times> int"
type_synonym note_key = "int \<times> int"

record completed_note =
  cn_src :: int
  cn_task_id :: int
  cn_note_id :: int
  cn_text :: text_str
  cn_completed_at :: secs

record partial_note =
  pa_frag_count :: int
  pa_fragments :: "(int, byte list) odict"
  pa_expires_at :: secs

definition partial_complete :: "partial_note \<Rightarrow> bool" where
  "partial_complete p \<longleftrightarrow> int (length (pa_fragments p)) = pa_frag_count p"

record reassembler =
  ra_ttl :: secs
  ra_completed_ttl :: secs
  ra_max_partial :: int
  ra_max_completed :: int
  ra_max_fragments :: int
  ra_partial :: "(fragment_key, partial_note) odict"
  ra_completed :: "(note_key, completed_note \<times> secs) odict"
  ra_note_fragments :: nat
  ra_note_fragments_duplicate :: nat
  ra_note_fragments_refused :: nat
  ra_notes_complete :: nat
  ra_notes_abandoned :: nat
  ra_notes_evicted :: nat
  ra_notes_undecodable :: nat

definition notes_init :: "secs \<Rightarrow> secs \<Rightarrow> int \<Rightarrow> int \<Rightarrow> int \<Rightarrow> py_exn + reassembler" where
  "notes_init ttl completed_ttl max_partial max_completed max_fragments =
     (if ttl \<le> 0 \<or> completed_ttl \<le> 0 \<or> max_partial < 1 \<or> max_completed < 1 \<or> max_fragments < 1
      then Inl ValueError
      else Inr \<lparr>ra_ttl = ttl, ra_completed_ttl = completed_ttl, ra_max_partial = max_partial,
             ra_max_completed = max_completed, ra_max_fragments = max_fragments,
             ra_partial = [], ra_completed = [],
             ra_note_fragments = 0, ra_note_fragments_duplicate = 0,
             ra_note_fragments_refused = 0, ra_notes_complete = 0, ra_notes_abandoned = 0,
             ra_notes_evicted = 0, ra_notes_undecodable = 0\<rparr>)"

section \<open>Operations\<close>

definition notes_prune :: "reassembler \<Rightarrow> secs \<Rightarrow> reassembler" where
  "notes_prune r now =
     (let (ps, abandoned) = od_prune pa_expires_at now (ra_partial r) (ra_partial r);
          (cs, _) = od_prune snd now (ra_completed r) (ra_completed r)
      in r\<lparr>ra_partial := ps, ra_notes_abandoned := ra_notes_abandoned r + abandoned,
           ra_completed := cs\<rparr>)"

definition remember :: "reassembler \<Rightarrow> completed_note \<Rightarrow> secs \<Rightarrow> reassembler" where
  "remember r note now =
     (let key = (cn_src note, cn_task_id note);
          cs = od_move_to_end key (od_set key (note, now + ra_completed_ttl r) (ra_completed r));
          (cs1, _) = od_evict (nat (ra_max_completed r)) cs
      in r\<lparr>ra_completed := cs1\<rparr>)"

text \<open>\<^verbatim>\<open>b"".join(partial.fragments[i] for i in range(count))\<close>; a missing index is a \<^verbatim>\<open>KeyError\<close>.\<close>

fun join_fragments :: "(int, byte list) odict \<Rightarrow> int list \<Rightarrow> byte list option" where
  "join_fragments d [] = Some []"
| "join_fragments d (i # is) =
     (case (od_get d i, join_fragments d is) of (Some b, Some bs) \<Rightarrow> Some (b @ bs) | _ \<Rightarrow> None)"

text \<open>
  \<^verbatim>\<open>add\<close> in the order of the code: prune, refuse, find or start the partial, store the
  fragment and refresh its deadline, bound the table, and finish the note when it is whole.
\<close>

definition finish_note ::
  "reassembler \<Rightarrow> message \<Rightarrow> partial_note \<Rightarrow> secs \<Rightarrow> reassembler \<times> (py_exn + completed_note option)" where
  "finish_note r msg p now =
     (let key = (m_src msg, m_task_id msg, m_note_id msg)
      in if \<not> od_mem (ra_partial r) key then (r, Inl KeyError)
         else
           let r1 = r\<lparr>ra_partial := od_del key (ra_partial r)\<rparr>
           in case join_fragments (pa_fragments p) [0..pa_frag_count p - 1] of
                None \<Rightarrow> (r1, Inl KeyError)
              | Some blob \<Rightarrow>
                  (case utf8_decode blob of
                     None \<Rightarrow> (r1\<lparr>ra_notes_undecodable := ra_notes_undecodable r1 + 1\<rparr>, Inr None)
                   | Some t \<Rightarrow>
                       let note = \<lparr>cn_src = m_src msg, cn_task_id = m_task_id msg,
                                   cn_note_id = m_note_id msg, cn_text = t, cn_completed_at = now\<rparr>
                       in (remember (r1\<lparr>ra_notes_complete := ra_notes_complete r1 + 1\<rparr>) note now,
                           Inr (Some note))))"

definition store_fragment ::
  "reassembler \<Rightarrow> message \<Rightarrow> secs \<Rightarrow> reassembler \<times> partial_note" where
  "store_fragment r msg now =
     (let key = (m_src msg, m_task_id msg, m_note_id msg);
          found = od_get (ra_partial r) key;
          mismatch = (case found of Some p \<Rightarrow> pa_frag_count p \<noteq> m_frag_count msg | None \<Rightarrow> False);
          r1 = (if mismatch
                then r\<lparr>ra_note_fragments_refused := ra_note_fragments_refused r + 1\<rparr> else r);
          (p, r2) =
            (case (if mismatch then None else found) of
               None \<Rightarrow>
                 let p = \<lparr>pa_frag_count = m_frag_count msg, pa_fragments = [],
                          pa_expires_at = now + ra_ttl r1\<rparr>
                 in (p, r1\<lparr>ra_partial := od_set key p (ra_partial r1)\<rparr>)
             | Some p \<Rightarrow>
                 (p, if od_mem (pa_fragments p) (m_frag_index msg)
                     then r1\<lparr>ra_note_fragments_duplicate := ra_note_fragments_duplicate r1 + 1\<rparr>
                     else r1));
          p1 = p\<lparr>pa_fragments := od_set (m_frag_index msg) (m_text msg) (pa_fragments p),
                 pa_expires_at := now + ra_ttl r2\<rparr>
      in (r2\<lparr>ra_partial := od_move_to_end key (od_set key p1 (ra_partial r2))\<rparr>, p1))"

definition notes_add ::
  "reassembler \<Rightarrow> message \<Rightarrow> secs \<Rightarrow> reassembler \<times> (py_exn + completed_note option)" where
  "notes_add r0 msg now =
     (let r = notes_prune r0 now; count = m_frag_count msg; index = m_frag_index msg
      in if \<not> (1 \<le> count \<and> count \<le> ra_max_fragments r) \<or> \<not> (0 \<le> index \<and> index < count)
         then (r\<lparr>ra_note_fragments_refused := ra_note_fragments_refused r + 1\<rparr>, Inr None)
         else
           let (r1, p) = store_fragment (r\<lparr>ra_note_fragments := ra_note_fragments r + 1\<rparr>) msg now;
               (ps, n) = od_evict (nat (ra_max_partial r1)) (ra_partial r1);
               r2 = r1\<lparr>ra_partial := ps, ra_notes_evicted := ra_notes_evicted r1 + n\<rparr>
           in if \<not> partial_complete p then (r2, Inr None) else finish_note r2 msg p now)"

definition notes_completed ::
  "reassembler \<Rightarrow> int \<Rightarrow> int \<Rightarrow> secs \<Rightarrow> reassembler \<times> completed_note option" where
  "notes_completed r src task_id now =
     (let r1 = notes_prune r now
      in (r1, map_option fst (od_get (ra_completed r1) (src, task_id))))"

section \<open>Splitting loses nothing\<close>

lemma note_chunks_concat:
  assumes "0 < n"
  shows "concat (note_chunks n blob) = blob"
proof -
  have "concat (map (\<lambda>j. take n (drop (j * n) blob)) [0..<k]) = take (k * n) blob" for k
  proof (induction k)
    case (Suc k)
    have "take (k * n) blob @ take n (drop (k * n) blob) = take (k * n + n) blob"
      by (simp add: take_add)
    with Suc show ?case by (simp add: add.commute)
  qed simp
  moreover have "length blob \<le> (length blob + n - 1) div n * n"
  proof -
    have "length blob + n - 1 < (length blob + n - 1) div n * n + n"
      using assms by (metis div_mult_mod_eq mod_less_divisor add.commute nat_add_left_cancel_less)
    then show ?thesis using assms by linarith
  qed
  ultimately show ?thesis by (simp add: note_chunks_def)
qed

lemma note_chunks_length: "chunk \<in> set (note_chunks n blob) \<Longrightarrow> length chunk \<le> n"
  by (auto simp: note_chunks_def)

lemma note_chunks_nonempty: "0 < n \<Longrightarrow> blob \<noteq> [] \<Longrightarrow> 0 < length (note_chunks n blob)"
  by (cases blob) (auto simp: note_chunks_def div_greater_zero_iff)

lemma split_note_Inr:
  assumes "split_note task note t mpb mf = Inr frags"
  obtains blob per where "utf8_encode t = Some blob" "blob \<noteq> []" "per = nat (mpb - int NOTE_HEADER_BYTES)"
    "0 < per" "int (length (note_chunks per blob)) \<le> mf"
    "frags = map (\<lambda>(i, c). Freeform 0 0 task note (int i) (int (length (note_chunks per blob))) c)
      (zip [0..<length (note_chunks per blob)] (note_chunks per blob))"
    "0 < task" "task \<le> TASK_ID_MAX" "0 \<le> note" "note \<le> NOTE_ID_MAX"
  using assms
  by (auto simp: split_note_def Let_def text_bytes_per_fragment_def split: if_splits option.splits)

section \<open>The reassembler's invariant\<close>

text \<open>A partial note lies within its announced length and misses at least one fragment.\<close>

definition partial_ok :: "int \<Rightarrow> partial_note \<Rightarrow> bool" where
  "partial_ok maxf p \<longleftrightarrow> 1 \<le> pa_frag_count p \<and> pa_frag_count p \<le> maxf \<and> od_ok (pa_fragments p) \<and>
     fst ` set (pa_fragments p) \<subseteq> {0..<pa_frag_count p} \<and> \<not> partial_complete p"

definition notes_inv :: "reassembler \<Rightarrow> bool" where
  "notes_inv r \<longleftrightarrow> 0 < ra_ttl r \<and> 1 \<le> ra_max_partial r \<and> 1 \<le> ra_max_completed r \<and>
     od_ok (ra_partial r) \<and> length (ra_partial r) \<le> nat (ra_max_partial r) \<and>
     od_ok (ra_completed r) \<and> length (ra_completed r) \<le> nat (ra_max_completed r) \<and>
     (\<forall>(k, p) \<in> set (ra_partial r). partial_ok (ra_max_fragments r) p)"

definition notes_config :: "reassembler \<Rightarrow> secs \<times> secs \<times> int \<times> int \<times> int" where
  "notes_config r = (ra_ttl r, ra_completed_ttl r, ra_max_partial r, ra_max_completed r, ra_max_fragments r)"

lemma notes_inv_init: "notes_init a b c d e = Inr r \<Longrightarrow> notes_inv r"
  by (auto simp: notes_init_def notes_inv_def split: if_splits)

lemma notes_prune_lists:
  "od_ok (ra_partial r) \<Longrightarrow> ra_partial (notes_prune r now) =
    dropWhile (\<lambda>(_, p). pa_expires_at p \<le> now) (ra_partial r)"
  "od_ok (ra_completed r) \<Longrightarrow> ra_completed (notes_prune r now) =
    dropWhile (\<lambda>(_, e). snd e \<le> now) (ra_completed r)"
  by (auto simp: notes_prune_def od_prune_walk split: prod.splits)

lemma notes_prune_config [simp]:
  "ra_ttl (notes_prune r now) = ra_ttl r" "ra_completed_ttl (notes_prune r now) = ra_completed_ttl r"
  "ra_max_partial (notes_prune r now) = ra_max_partial r"
  "ra_max_completed (notes_prune r now) = ra_max_completed r"
  "ra_max_fragments (notes_prune r now) = ra_max_fragments r"
  by (simp_all add: notes_prune_def split: prod.splits)

lemma notes_inv_prune [inv_step]: "notes_inv r \<Longrightarrow> notes_inv (notes_prune r now)"
  using length_dropWhile_le [of "\<lambda>(_, p). pa_expires_at p \<le> now" "ra_partial r"]
    length_dropWhile_le [of "\<lambda>(_, e). snd e \<le> now" "ra_completed r"]
  by (fastforce simp: notes_inv_def notes_prune_lists od_ok_dropWhile dest!: set_dropWhileD)

text \<open>The partial note a fragment is stored in, and its table, as one formula.\<close>

definition target_partial :: "reassembler \<Rightarrow> message \<Rightarrow> secs \<Rightarrow> partial_note" where
  "target_partial r msg now =
     (case od_get (ra_partial r) (m_src msg, m_task_id msg, m_note_id msg) of
        Some p \<Rightarrow> if pa_frag_count p = m_frag_count msg then p
                  else \<lparr>pa_frag_count = m_frag_count msg, pa_fragments = [],
                        pa_expires_at = now + ra_ttl r\<rparr>
      | None \<Rightarrow> \<lparr>pa_frag_count = m_frag_count msg, pa_fragments = [],
                pa_expires_at = now + ra_ttl r\<rparr>)"

definition stored_partial :: "reassembler \<Rightarrow> message \<Rightarrow> secs \<Rightarrow> partial_note" where
  "stored_partial r msg now = (target_partial r msg now)
     \<lparr>pa_fragments := od_set (m_frag_index msg) (m_text msg) (pa_fragments (target_partial r msg now)),
      pa_expires_at := now + ra_ttl r\<rparr>"

lemma store_fragment_alt:
  assumes "od_ok (ra_partial r)"
  shows "snd (store_fragment r msg now) = stored_partial r msg now"
    and "ra_partial (fst (store_fragment r msg now)) =
      od_del (m_src msg, m_task_id msg, m_note_id msg) (ra_partial r) @
        [((m_src msg, m_task_id msg, m_note_id msg), stored_partial r msg now)]"
    and "ra_completed (fst (store_fragment r msg now)) = ra_completed r"
    and "notes_config (fst (store_fragment r msg now)) = notes_config r"
proof -
  let ?k = "(m_src msg, m_task_id msg, m_note_id msg)"
  show "snd (store_fragment r msg now) = stored_partial r msg now"
    "ra_partial (fst (store_fragment r msg now)) =
      od_del ?k (ra_partial r) @ [(?k, stored_partial r msg now)]"
    "ra_completed (fst (store_fragment r msg now)) = ra_completed r"
    "notes_config (fst (store_fragment r msg now)) = notes_config r"
    using assms
    by (auto simp: store_fragment_def Let_def stored_partial_def target_partial_def od_move_set
        od_ok_set od_del_set notes_config_def split: option.splits)
qed

lemma stored_partial_fits:
  assumes "notes_inv r" "1 \<le> m_frag_count msg" "m_frag_count msg \<le> ra_max_fragments r"
    "0 \<le> m_frag_index msg" "m_frag_index msg < m_frag_count msg"
  shows "pa_frag_count (stored_partial r msg now) = m_frag_count msg \<and>
    od_ok (pa_fragments (stored_partial r msg now)) \<and>
    fst ` set (pa_fragments (stored_partial r msg now)) \<subseteq> {0..<m_frag_count msg}"
proof -
  have "partial_ok (ra_max_fragments r) p"
    if "od_get (ra_partial r) (m_src msg, m_task_id msg, m_note_id msg) = Some p" for p
    using assms(1) od_get_mem [OF that] by (auto simp: notes_inv_def)
  then show ?thesis
    using assms
    by (auto simp: stored_partial_def target_partial_def partial_ok_def od_ok_set keys_od_set
        split: option.splits) force+
qed

text \<open>A table as long as its announced count has every fragment.\<close>

lemma join_complete:
  assumes "od_ok d" "fst ` set d \<subseteq> {0..<n}" "int (length d) = n"
  shows "join_fragments d [0..n - 1] = Some (concat (map (\<lambda>i. the (od_get d i)) [0..n - 1]))"
proof -
  have "card (fst ` set d) = length d"
    using assms(1) by (metis distinct_card length_map od_ok_def set_map)
  then have "fst ` set d = {0..<n}"
    using assms(2,3) by (intro card_subset_eq) auto
  then have all: "\<exists>b. od_get d i = Some b" if "i \<in> {0..<n}" for i
    using that od_get_None [of d i] by (auto simp: od_mem_def)
  have "join_fragments d is = Some (concat (map (\<lambda>i. the (od_get d i)) is))"
    if "set is \<subseteq> {0..<n}" for "is"
    using that
  proof (induction "is")
    case (Cons i "is")
    with all [of i] show ?case by auto
  qed simp
  then show ?thesis by (auto simp: subset_eq)
qed

definition msg_key3 :: "message \<Rightarrow> fragment_key" where
  "msg_key3 msg = (m_src msg, m_task_id msg, m_note_id msg)"

definition frag_valid :: "reassembler \<Rightarrow> message \<Rightarrow> bool" where
  "frag_valid r msg \<longleftrightarrow> 1 \<le> m_frag_count msg \<and> m_frag_count msg \<le> ra_max_fragments r \<and>
     0 \<le> m_frag_index msg \<and> m_frag_index msg < m_frag_count msg"

definition live :: "reassembler \<Rightarrow> secs \<Rightarrow> (fragment_key, partial_note) odict" where
  "live r now = dropWhile (\<lambda>(_, p). pa_expires_at p \<le> now) (ra_partial r)"

definition new_partial :: "reassembler \<Rightarrow> message \<Rightarrow> secs \<Rightarrow> partial_note" where
  "new_partial r msg now = stored_partial (notes_prune r now) msg now"

definition new_table :: "reassembler \<Rightarrow> message \<Rightarrow> secs \<Rightarrow> (fragment_key, partial_note) odict" where
  "new_table r msg now =
     (let d = od_del (msg_key3 msg) (live r now) @ [(msg_key3 msg, new_partial r msg now)]
      in drop (length d - nat (ra_max_partial r)) d)"

definition whole_text :: "reassembler \<Rightarrow> message \<Rightarrow> secs \<Rightarrow> byte list" where
  "whole_text r msg now =
     concat (map (\<lambda>i. the (od_get (pa_fragments (new_partial r msg now)) i)) [0..m_frag_count msg - 1])"

definition the_note :: "message \<Rightarrow> text_str \<Rightarrow> secs \<Rightarrow> completed_note" where
  "the_note msg t now = \<lparr>cn_src = m_src msg, cn_task_id = m_task_id msg, cn_note_id = m_note_id msg,
     cn_text = t, cn_completed_at = now\<rparr>"

lemma notes_add_invalid:
  assumes "\<not> frag_valid r msg"
  shows "snd (notes_add r msg now) = Inr None"
    and "ra_partial (fst (notes_add r msg now)) = ra_partial (notes_prune r now)"
    and "ra_completed (fst (notes_add r msg now)) = ra_completed (notes_prune r now)"
    and "notes_config (fst (notes_add r msg now)) = notes_config r"
  using assms by (auto simp: notes_add_def frag_valid_def Let_def notes_config_def)

lemma new_table_last:
  assumes "notes_inv r"
  obtains pre where "new_table r msg now = pre @ [(msg_key3 msg, new_partial r msg now)]"
    "length (new_table r msg now) \<le> nat (ra_max_partial r)" "od_ok (new_table r msg now)"
    "set pre \<subseteq> set (live r now)"
proof -
  let ?e = "od_del (msg_key3 msg) (live r now)"
  let ?d = "?e @ [(msg_key3 msg, new_partial r msg now)]"
  have l: "length (live r now) \<le> nat (ra_max_partial r)" "1 \<le> nat (ra_max_partial r)"
    using assms length_dropWhile_le [of "\<lambda>(_, p). pa_expires_at p \<le> now" "ra_partial r"]
    by (auto simp: notes_inv_def live_def)
  then have "length ?d - nat (ra_max_partial r) \<le> length ?e"
    using length_od_del [of "msg_key3 msg" "live r now"] by simp
  then have "new_table r msg now = drop (length ?d - nat (ra_max_partial r)) ?e @
      [(msg_key3 msg, new_partial r msg now)]"
    by (simp add: new_table_def Let_def)
  moreover have "od_ok ?d"
    using assms by (intro od_put_end) (simp add: live_def notes_inv_def od_ok_dropWhile)
  then have "od_ok (new_table r msg now)" unfolding new_table_def Let_def by (rule od_ok_drop)
  moreover have "set (drop (length ?d - nat (ra_max_partial r)) ?e) \<subseteq> set (live r now)"
    using set_od_del [of "msg_key3 msg" "live r now"] by (auto dest: in_set_dropD)
  ultimately show thesis
    using that l by (simp add: new_table_def Let_def)
qed

lemma remember_alt:
  assumes "od_ok (ra_completed r)" "1 \<le> ra_max_completed r"
    "length (ra_completed r) \<le> nat (ra_max_completed r)"
  shows "ra_partial (remember r n t) = ra_partial r" "notes_config (remember r n t) = notes_config r"
    "od_ok (ra_completed (remember r n t))"
    "length (ra_completed (remember r n t)) \<le> nat (ra_max_completed r)"
    "od_get (ra_completed (remember r n t)) (cn_src n, cn_task_id n) = Some (n, t + ra_completed_ttl r)"
proof -
  let ?k = "(cn_src n, cn_task_id n)"
  let ?d = "od_del ?k (ra_completed r) @ [(?k, (n, t + ra_completed_ttl r))]"
  have c: "ra_completed (remember r n t) = drop (length ?d - nat (ra_max_completed r)) ?d"
    using od_move_set [OF assms(1)] by (simp add: remember_def Let_def od_evict_drop)
  have "length ?d - nat (ra_max_completed r) \<le> length (od_del ?k (ra_completed r))"
    using assms(2,3) length_od_del [of ?k "ra_completed r"] by simp
  then have "(?k, (n, t + ra_completed_ttl r)) \<in> set (ra_completed (remember r n t))"
    by (simp add: c)
  moreover show ok: "od_ok (ra_completed (remember r n t))"
    unfolding c by (intro od_ok_drop od_put_end assms(1))
  ultimately show "od_get (ra_completed (remember r n t)) ?k = Some (n, t + ra_completed_ttl r)"
    by (simp add: od_get_iff)
  show "length (ra_completed (remember r n t)) \<le> nat (ra_max_completed r)"
    using assms(3) length_od_del [of ?k "ra_completed r"] by (simp add: c)
  show "ra_partial (remember r n t) = ra_partial r" "notes_config (remember r n t) = notes_config r"
    by (simp_all add: remember_def Let_def od_evict_drop notes_config_def)
qed

lemma new_partial_fits:
  assumes "notes_inv r" "frag_valid r msg"
  shows "pa_frag_count (new_partial r msg now) = m_frag_count msg"
    and "od_ok (pa_fragments (new_partial r msg now))"
    and "fst ` set (pa_fragments (new_partial r msg now)) \<subseteq> {0..<m_frag_count msg}"
  using stored_partial_fits [OF notes_inv_prune [OF assms(1)], of msg now] assms(2)
  by (auto simp: new_partial_def frag_valid_def)

lemma notes_add_valid:
  assumes "notes_inv r" "frag_valid r msg"
  shows "snd (notes_add r msg now) =
      (if partial_complete (new_partial r msg now)
       then Inr (map_option (\<lambda>t. the_note msg t now) (utf8_decode (whole_text r msg now)))
       else Inr None)"
    and "ra_partial (fst (notes_add r msg now)) =
      (if partial_complete (new_partial r msg now)
       then od_del (msg_key3 msg) (new_table r msg now) else new_table r msg now)"
    and "notes_config (fst (notes_add r msg now)) = notes_config r"
    and "od_ok (ra_completed (fst (notes_add r msg now))) \<and>
      length (ra_completed (fst (notes_add r msg now))) \<le> nat (ra_max_completed r)"
    and "partial_complete (new_partial r msg now) \<Longrightarrow> utf8_decode (whole_text r msg now) = Some t \<Longrightarrow>
      od_get (ra_completed (fst (notes_add r msg now))) (m_src msg, m_task_id msg) =
        Some (the_note msg t now, now + ra_completed_ttl r)"
proof -
  define rp where "rp = (notes_prune r now)\<lparr>ra_note_fragments := Suc (ra_note_fragments (notes_prune r now))\<rparr>"
  define rs where "rs = fst (store_fragment rp msg now)"
  define p where "p = new_partial r msg now"
  have inv: "notes_inv (notes_prune r now)" by (rule notes_inv_prune [OF assms(1)])
  then have ok: "od_ok (ra_partial rp)" by (simp add: rp_def notes_inv_def)
  have same: "stored_partial rp msg now = p"
    by (simp add: p_def new_partial_def rp_def stored_partial_def target_partial_def cong: option.case_cong if_cong)
  have lists: "ra_partial rp = live r now" "ra_completed rp = ra_completed (notes_prune r now)"
    using assms(1) by (simp_all add: rp_def notes_prune_lists notes_inv_def live_def)
  have sf: "store_fragment rp msg now = (rs, p)"
    using store_fragment_alt(1) [OF ok] same by (simp add: rs_def prod_eq_iff)
  have rs: "ra_partial rs = od_del (msg_key3 msg) (live r now) @ [(msg_key3 msg, p)]"
    "ra_completed rs = ra_completed (notes_prune r now)" "notes_config rs = notes_config r"
    using store_fragment_alt(2-4) [OF ok] same
    by (simp_all add: rs_def lists msg_key3_def) (simp add: rp_def notes_config_def)
  have maxs: "ra_max_partial rs = ra_max_partial r" "ra_max_completed rs = ra_max_completed r"
    "ra_completed_ttl rs = ra_completed_ttl r"
    using rs(3) by (simp_all add: notes_config_def)
  define r2 where "r2 = rs\<lparr>ra_partial := new_table r msg now,
    ra_notes_evicted := ra_notes_evicted rs + (length (ra_partial rs) - nat (ra_max_partial r))\<rparr>"
  have nt: "drop (length (ra_partial rs) - nat (ra_max_partial r)) (ra_partial rs) = new_table r msg now"
    by (simp only: rs(1) p_def new_table_def Let_def)
  have add: "notes_add r msg now = (if \<not> partial_complete p then (r2, Inr None) else finish_note r2 msg p now)"
    using assms(2) sf
    by (simp add: notes_add_def frag_valid_def Let_def rp_def [symmetric] od_evict_drop r2_def maxs nt)
  have r2: "ra_partial r2 = new_table r msg now" "ra_completed r2 = ra_completed (notes_prune r now)"
    "notes_config r2 = notes_config r"
    using rs by (simp_all add: r2_def notes_config_def)
  have comp: "od_ok (ra_completed r2)" "length (ra_completed r2) \<le> nat (ra_max_completed r2)"
    "1 \<le> ra_max_completed r2" "ra_max_completed r2 = ra_max_completed r"
    "ra_completed_ttl r2 = ra_completed_ttl r"
    using inv r2(2,3) by (simp_all add: notes_inv_def notes_config_def)
  have mem: "od_mem (ra_partial r2) (msg_key3 msg)"
    by (rule new_table_last [OF assms(1), of msg now]) (simp add: r2(1) od_mem_def)
  have join: "join_fragments (pa_fragments p) [0..pa_frag_count p - 1] = Some (whole_text r msg now)"
    if "partial_complete p"
    using join_complete [of "pa_fragments p" "pa_frag_count p"] new_partial_fits [OF assms] that
    by (simp add: whole_text_def p_def partial_complete_def)
  have fin: "finish_note r2 msg p now =
      (let r3 = r2\<lparr>ra_partial := od_del (msg_key3 msg) (new_table r msg now)\<rparr>
       in case utf8_decode (whole_text r msg now) of
            None \<Rightarrow> (r3\<lparr>ra_notes_undecodable := ra_notes_undecodable r3 + 1\<rparr>, Inr None)
          | Some t \<Rightarrow> (remember (r3\<lparr>ra_notes_complete := ra_notes_complete r3 + 1\<rparr>) (the_note msg t now) now,
                       Inr (Some (the_note msg t now))))" if "partial_complete p"
    using mem join [OF that]
    by (simp add: finish_note_def Let_def msg_key3_def [symmetric] r2(1) the_note_def cong: option.case_cong)
  note rem = remember_alt [of "r2\<lparr>ra_partial := x, ra_notes_complete := y\<rparr>" for x y]
  show "snd (notes_add r msg now) =
      (if partial_complete (new_partial r msg now)
       then Inr (map_option (\<lambda>t. the_note msg t now) (utf8_decode (whole_text r msg now)))
       else Inr None)"
    by (simp add: add fin p_def [symmetric] Let_def split: option.splits)
  show "ra_partial (fst (notes_add r msg now)) =
      (if partial_complete (new_partial r msg now)
       then od_del (msg_key3 msg) (new_table r msg now) else new_table r msg now)"
    using rem(1) comp by (simp add: add fin p_def [symmetric] r2 Let_def split: option.splits)
  show "notes_config (fst (notes_add r msg now)) = notes_config r"
    using rem(2) comp r2(3) by (auto simp: add fin Let_def notes_config_def split: option.splits)
  show "od_ok (ra_completed (fst (notes_add r msg now))) \<and>
      length (ra_completed (fst (notes_add r msg now))) \<le> nat (ra_max_completed r)"
    using rem(3,4) comp by (auto simp: add fin Let_def split: option.splits)
  show "partial_complete (new_partial r msg now) \<Longrightarrow> utf8_decode (whole_text r msg now) = Some t \<Longrightarrow>
      od_get (ra_completed (fst (notes_add r msg now))) (m_src msg, m_task_id msg) =
        Some (the_note msg t now, now + ra_completed_ttl r)"
    using rem(5) [of _ _ "the_note msg t now" now] comp
    by (simp add: add fin p_def [symmetric] Let_def the_note_def)
qed

section \<open>The invariant is kept\<close>

lemma notes_inv_add [inv_step]:
  assumes "notes_inv r"
  shows "notes_inv (fst (notes_add r msg now))"
proof (cases "frag_valid r msg")
  case False
  then show ?thesis
    using notes_inv_prune [OF assms, of now] notes_add_invalid [OF False, of now]
    by (simp add: notes_inv_def notes_config_def)
next
  case True
  note add = notes_add_valid [OF assms True, of now]
  obtain pre where t: "new_table r msg now = pre @ [(msg_key3 msg, new_partial r msg now)]"
    "length (new_table r msg now) \<le> nat (ra_max_partial r)" "od_ok (new_table r msg now)"
    "set pre \<subseteq> set (live r now)" by (rule new_table_last [OF assms])
  have ok: "partial_ok (ra_max_fragments r) p" if "(k, p) \<in> set (live r now)" for k p
    using that assms by (auto simp: live_def notes_inv_def dest!: set_dropWhileD)
  have new: "partial_ok (ra_max_fragments r) (new_partial r msg now)"
    if "\<not> partial_complete (new_partial r msg now)"
    using that new_partial_fits [OF assms True, of now] True by (simp add: partial_ok_def frag_valid_def)
  have last: "od_del (msg_key3 msg) (new_table r msg now) = pre"
    using t(1,3) od_del_absent [of pre "msg_key3 msg"]
    by (auto simp: od_ok_append od_del_append od_mem_def) (simp add: od_del_def)
  have "\<forall>(k, p) \<in> set (ra_partial (fst (notes_add r msg now))). partial_ok (ra_max_fragments r) p"
    using t(1,4) ok new last by (auto simp: add(2))
  moreover have "od_ok (ra_partial (fst (notes_add r msg now))) \<and>
      length (ra_partial (fst (notes_add r msg now))) \<le> nat (ra_max_partial r)"
    using t(1-3) last by (auto simp: add(2) od_ok_append)
  ultimately show ?thesis
    using add(3,4) assms by (simp add: notes_inv_def notes_config_def)
qed

lemma notes_config_add: "notes_inv r \<Longrightarrow> notes_config (fst (notes_add r msg now)) = notes_config r"
  by (cases "frag_valid r msg") (simp_all add: notes_add_valid notes_add_invalid)

lemma notes_add_never_raises: "notes_inv r \<Longrightarrow> \<exists>n. snd (notes_add r msg now) = Inr n"
  by (cases "frag_valid r msg") (simp_all add: notes_add_valid notes_add_invalid)

section \<open>Fragments in any order\<close>

text \<open>
  The reassembler holds exactly the fragments \<open>I\<close> of the \<open>n\<close>-fragment note \<open>key\<close>, whose
  pieces are \<open>ch\<close>, until time \<open>u\<close>.
\<close>

definition collecting ::
  "reassembler \<Rightarrow> fragment_key \<Rightarrow> int \<Rightarrow> (int \<Rightarrow> byte list) \<Rightarrow> int set \<Rightarrow> secs \<Rightarrow> bool" where
  "collecting r key n ch I u \<longleftrightarrow>
     (if I = {} then \<not> od_mem (ra_partial r) key
      else \<exists>pre p. ra_partial r = pre @ [(key, p)] \<and> pa_frag_count p = n \<and> u \<le> pa_expires_at p \<and>
        (\<forall>j. od_get (pa_fragments p) j = (if j \<in> I then Some (ch j) else None)))"

lemma collecting_new:
  assumes inv: "notes_inv r" and c: "collecting r key n ch I u" "I = {} \<or> t < u"
    and m: "msg_key3 m = key" "m_frag_count m = n" "m_frag_index m = i" "m_text m = ch i"
  shows "od_get (pa_fragments (new_partial r m t)) j = (if j \<in> insert i I then Some (ch j) else None)"
    and "pa_expires_at (new_partial r m t) = t + ra_ttl r"
proof -
  have get: "od_get (ra_partial (notes_prune r t)) key =
      (if I = {} then None else map_of (ra_partial r) key)"
  proof (cases "I = {}")
    case True
    then have "\<not> od_mem (live r t) key"
      using c(1) by (auto simp: collecting_def live_def od_mem_def dest!: set_dropWhileD)
    then show ?thesis
      using True inv by (simp add: notes_prune_lists notes_inv_def live_def od_get_None)
  next
    case False
    then obtain pre p where p: "ra_partial r = pre @ [(key, p)]" "u \<le> pa_expires_at p"
      using c(1) by (auto simp: collecting_def)
    obtain pre' where pre': "live r t = pre' @ [(key, p)]"
      using dropWhile_stop [of "\<lambda>(_, p). pa_expires_at p \<le> t" "(key, p)" pre "[]"] p False c(2)
      by (auto simp: live_def)
    have "od_ok (live r t)" "od_ok (ra_partial r)"
      using inv by (simp_all add: live_def notes_inv_def od_ok_dropWhile)
    then have "od_get (live r t) key = Some p" "od_get (ra_partial r) key = Some p"
      by (simp_all add: od_get_iff pre' p(1))
    then show ?thesis
      using False inv by (simp add: notes_prune_lists notes_inv_def live_def od_get_def)
  qed
  have "\<forall>j. od_get (pa_fragments (target_partial (notes_prune r t) m t)) j =
      (if j \<in> I then Some (ch j) else None)"
  proof (cases "I = {}")
    case True
    then show ?thesis using get m by (simp add: target_partial_def msg_key3_def od_get_def)
  next
    case False
    then obtain pre p where p: "ra_partial r = pre @ [(key, p)]" "pa_frag_count p = n"
      "\<forall>j. od_get (pa_fragments p) j = (if j \<in> I then Some (ch j) else None)"
      using c(1) by (auto simp: collecting_def)
    have "od_get (ra_partial r) key = Some p" using inv by (simp add: od_get_iff p(1) notes_inv_def)
    then show ?thesis
      using get m p False by (simp add: target_partial_def msg_key3_def od_get_def)
  qed
  then show "od_get (pa_fragments (new_partial r m t)) j = (if j \<in> insert i I then Some (ch j) else None)"
    by (simp add: new_partial_def stored_partial_def od_get_set m)
  show "pa_expires_at (new_partial r m t) = t + ra_ttl r"
    by (simp add: new_partial_def stored_partial_def)
qed

lemma keys_of_get: "od_ok d \<Longrightarrow> (\<And>j. od_get d j = (if j \<in> I then Some (f j) else None)) \<Longrightarrow>
    fst ` set d = I \<and> length d = card I"
proof -
  assume ok: "od_ok d" and g: "\<And>j. od_get d j = (if j \<in> I then Some (f j) else None)"
  have "x \<in> fst ` set d \<longleftrightarrow> x \<in> I" for x
    using od_get_None [of d x] g [of x] by (auto simp: od_mem_def split: if_splits)
  then have "fst ` set d = I" by blast
  moreover have "length d = card (fst ` set d)"
    using ok by (metis distinct_card length_map od_ok_def set_map)
  ultimately show ?thesis by simp
qed

lemma collecting_step:
  assumes inv: "notes_inv r" and c: "collecting r key n ch I u" "I = {} \<or> t < u" "I \<subseteq> {0..<n}"
    and m: "msg_key3 m = key" "m_frag_count m = n" "m_frag_index m = i" "m_text m = ch i"
    and i: "0 \<le> i" "i < n" "n \<le> ra_max_fragments r"
  shows "insert i I \<noteq> {0..<n} \<Longrightarrow> snd (notes_add r m t) = Inr None \<and>
      collecting (fst (notes_add r m t)) key n ch (insert i I) (t + ra_ttl r)"
    and "insert i I = {0..<n} \<Longrightarrow> snd (notes_add r m t) =
      Inr (map_option (\<lambda>s. the_note m s t) (utf8_decode (concat (map ch [0..n - 1]))))"
    and "insert i I = {0..<n} \<Longrightarrow> utf8_decode (concat (map ch [0..n - 1])) = Some s \<Longrightarrow>
      od_get (ra_completed (fst (notes_add r m t))) (m_src m, m_task_id m) =
        Some (the_note m s t, t + ra_completed_ttl r)"
proof -
  have v: "frag_valid r m" using m i by (simp add: frag_valid_def)
  let ?p = "new_partial r m t"
  note add = notes_add_valid [OF inv v, of t]
  note new = collecting_new [OF inv c(1,2) m]
  note fits = new_partial_fits [OF inv v, of t]
  have len: "length (pa_fragments ?p) = card (insert i I)"
    using keys_of_get [OF fits(2) new(1)] by simp
  have sub: "insert i I \<subseteq> {0..<n}" using c(3) i by auto
  have comp: "partial_complete ?p \<longleftrightarrow> insert i I = {0..<n}"
  proof
    assume "partial_complete ?p"
    then have "card (insert i I) = card {0..<n}" using len fits(1) m by (simp add: partial_complete_def)
    then show "insert i I = {0..<n}" using sub by (intro card_subset_eq) auto
  next
    assume "insert i I = {0..<n}"
    then show "partial_complete ?p" using len fits(1) m i by (simp add: partial_complete_def)
  qed
  have whole: "whole_text r m t = concat (map ch [0..n - 1])" if "insert i I = {0..<n}"
  proof -
    have "map (\<lambda>j. the (od_get (pa_fragments ?p) j)) [0..n - 1] = map ch [0..n - 1]"
      using that by (intro map_cong) (auto simp: new(1))
    then show ?thesis by (simp only: whole_text_def m)
  qed
  show "insert i I \<noteq> {0..<n} \<Longrightarrow> snd (notes_add r m t) = Inr None \<and>
      collecting (fst (notes_add r m t)) key n ch (insert i I) (t + ra_ttl r)"
  proof (rule new_table_last [OF inv, of m t])
    fix pre
    assume ne: "insert i I \<noteq> {0..<n}" and last: "new_table r m t = pre @ [(msg_key3 m, ?p)]"
    have "collecting (fst (notes_add r m t)) key n ch (insert i I) (t + ra_ttl r)"
      using ne comp last new fits(1) m by (simp add: collecting_def add(2))
    with ne comp show ?thesis by (simp add: add(1))
  qed
  show "insert i I = {0..<n} \<Longrightarrow> snd (notes_add r m t) =
      Inr (map_option (\<lambda>s. the_note m s t) (utf8_decode (concat (map ch [0..n - 1]))))"
    using comp whole by (simp add: add(1))
  show "insert i I = {0..<n} \<Longrightarrow> utf8_decode (concat (map ch [0..n - 1])) = Some s \<Longrightarrow>
      od_get (ra_completed (fst (notes_add r m t))) (m_src m, m_task_id m) =
        Some (the_note m s t, t + ra_completed_ttl r)"
    using comp whole by (intro add(5)) auto
qed

text \<open>Arrivals: fragment index, sequence number of the packet, time.\<close>

type_synonym arrival = "nat \<times> int \<times> secs"

definition arrived :: "int \<Rightarrow> message list \<Rightarrow> arrival \<Rightarrow> message \<times> secs" where
  "arrived src frags a = (case a of (i, q, t) \<Rightarrow> (set_header src q (frags ! i), t))"

definition notes_state :: "reassembler \<Rightarrow> (message \<times> secs) list \<Rightarrow> reassembler" where
  "notes_state = run (\<lambda>r (m, t). fst (notes_add r m t))"

definition notes_results :: "reassembler \<Rightarrow> (message \<times> secs) list \<Rightarrow> (py_exn + completed_note option) list" where
  "notes_results = emits (\<lambda>r (m, t). fst (notes_add r m t)) (\<lambda>r (m, t). [snd (notes_add r m t)])"

text \<open>Each arrival comes within the TTL of the one before it.\<close>

fun paced :: "secs \<Rightarrow> secs \<Rightarrow> secs list \<Rightarrow> bool" where
  "paced ttl u [] \<longleftrightarrow> True"
| "paced ttl u (t # ts) \<longleftrightarrow> t < u \<and> paced ttl (t + ttl) ts"

lemma notes_inv_run: "notes_inv r \<Longrightarrow> notes_inv (notes_state r xs)"
  unfolding notes_state_def by (rule run_invariant) (auto intro: notes_inv_add)

lemma notes_config_run: "notes_inv r \<Longrightarrow> notes_config (notes_state r xs) = notes_config r"
  unfolding notes_state_def
  by (induction xs arbitrary: r) (auto simp: notes_config_add notes_inv_add)

lemma config_fields:
  "notes_config r = notes_config r' \<Longrightarrow> ra_ttl r = ra_ttl r' \<and> ra_max_fragments r = ra_max_fragments r' \<and>
    ra_completed_ttl r = ra_completed_ttl r'"
  by (simp add: notes_config_def)

definition note_frags :: "int \<Rightarrow> int \<Rightarrow> byte list list \<Rightarrow> message list" where
  "note_frags task note chunks =
     map (\<lambda>(i, c). Freeform 0 0 task note (int i) (int (length chunks)) c)
       (zip [0..<length chunks] chunks)"

lemma arrived_frag:
  "i < length chunks \<Longrightarrow> arrived src (note_frags task note chunks) (i, q, t) =
    (Freeform src q task note (int i) (int (length chunks)) (chunks ! i), t)"
  by (simp add: arrived_def note_frags_def)

lemma collecting_run:
  assumes "notes_inv r" "collecting r (src, task, note) (int (length chunks)) (\<lambda>j. chunks ! nat j) I u"
    "I \<subseteq> {0..<int (length chunks)}" "int (length chunks) \<le> ra_max_fragments r"
    "\<forall>(i, q, t) \<in> set xs. i < length chunks" "paced (ra_ttl r) u (map (snd \<circ> snd) xs)"
    "\<forall>J. J = I \<union> int ` fst ` set xs \<longrightarrow> J \<noteq> {0..<int (length chunks)}"
  shows "notes_results r (map (arrived src (note_frags task note chunks)) xs) =
      replicate (length xs) (Inr None) \<and>
    (\<exists>u'. collecting (notes_state r (map (arrived src (note_frags task note chunks)) xs))
        (src, task, note) (int (length chunks)) (\<lambda>j. chunks ! nat j) (I \<union> int ` fst ` set xs) u' \<and>
      (\<forall>ts. paced (ra_ttl r) u (map (snd \<circ> snd) xs @ ts) \<longrightarrow> paced (ra_ttl r) u' ts))"
  using assms
proof (induction xs arbitrary: r I u)
  case Nil
  then show ?case by (auto simp: notes_results_def notes_state_def)
next
  case (Cons x xs)
  obtain i q t where x: "x = (i, q, t)" by (cases x)
  have i: "i < length chunks" and tu: "t < u" using Cons.prems(5,6) by (auto simp: x)
  let ?m = "Freeform src q task note (int i) (int (length chunks)) (chunks ! i)"
  let ?r = "fst (notes_add r ?m t)"
  have "I \<union> int ` fst ` set (x # xs) \<subseteq> {0..<int (length chunks)}"
    using Cons.prems(3,5) by auto
  with Cons.prems(7) have "insert (int i) I \<noteq> {0..<int (length chunks)}"
    by (auto simp: x)
  then have step: "snd (notes_add r ?m t) = Inr None"
    "collecting ?r (src, task, note) (int (length chunks)) (\<lambda>j. chunks ! nat j) (insert (int i) I) (t + ra_ttl r)"
    using collecting_step(1) [OF Cons.prems(1,2), of t ?m "int i"] Cons.prems(3,4) i tu
    by (auto simp: msg_key3_def)
  have inv: "notes_inv ?r" by (rule notes_inv_add [OF Cons.prems(1)])
  have cfg: "ra_ttl ?r = ra_ttl r" "ra_max_fragments ?r = ra_max_fragments r"
    using config_fields [OF notes_config_add [OF Cons.prems(1), of ?m t]] by auto
  have "insert (int i) I \<union> int ` fst ` set xs = I \<union> int ` fst ` set (x # xs)" by (auto simp: x)
  then show ?case
    using Cons.IH [OF inv step(2)] Cons.prems(3-7) step(1) i cfg
    by (simp add: x arrived_frag notes_results_def notes_state_def)
qed

lemma map_nth_upto: "map (\<lambda>j. xs ! nat j) [0..int (length xs) - 1] = xs"
  by (rule nth_equalityI) auto

lemma split_note_frags:
  assumes "split_note task note t mpb mf = Inr frags"
  shows "\<exists>blob per. utf8_encode t = Some blob \<and> blob \<noteq> [] \<and> per = nat (mpb - int NOTE_HEADER_BYTES) \<and>
    0 < per \<and> int (length (note_chunks per blob)) \<le> mf \<and>
    frags = note_frags task note (note_chunks per blob) \<and>
    0 < task \<and> task \<le> TASK_ID_MAX \<and> 0 \<le> note \<and> note \<le> NOTE_ID_MAX"
  by (rule split_note_Inr [OF assms]) (auto simp: note_frags_def)

lemma split_note_example: "split_note 7 1 [104, 105, 233] 12 8 =
    Inr [Freeform 0 0 7 1 0 2 [104, 105, 0xC3], Freeform 0 0 7 1 1 2 [0xA9]]"
proof -
  have "utf8_encode [104, 105, 233] = Some [104, 105, 0xC3, 0xA9]"
    by (simp add: utf8_encode_def utf8_char_def scalar_def)
  moreover have "note_chunks 3 [104, 105, 0xC3, 0xA9] = [[104, 105, 0xC3], [0xA9]]"
    by (simp add: note_chunks_def numeral_2_eq_2)
  moreover have "text_bytes_per_fragment 12 = 3"
    by (simp add: text_bytes_per_fragment_def NOTE_HEADER_BYTES_def message_size_def
        payload_format_def calcsize_def fld_def HEADER_BYTES_def)
  ultimately show ?thesis by (simp add: split_note_def wire_consts)
qed

section \<open>Properties\<close>

text \<open>
  A split note fits the link. The fragments number at most the cap, carry the
  indices 0..count-1 and the bytes of the UTF-8 text in order with nothing lost, and each
  of them, stamped with any legal sender and sequence number, encodes within the very
  payload budget the note was split for.
\<close>

lemma split_note_fits:
  assumes "split_note task note t mpb mf = Inr frags" and "mf \<le> 255"
    and "0 \<le> src" "src \<le> SRC_MAX" "0 \<le> q" "q \<le> SEQ_MAX"
  shows "int (length frags) \<le> mf \<and> utf8_encode t = Some (concat (map m_text frags)) \<and>
    (\<forall>i < length frags. m_frag_index (frags ! i) = int i \<and> m_frag_count (frags ! i) = int (length frags) \<and>
      (\<exists>data. encode (set_header src q (frags ! i)) mpb = Inr data))"
proof -
  obtain blob per where s: "utf8_encode t = Some blob" "blob \<noteq> []" "per = nat (mpb - int NOTE_HEADER_BYTES)"
    "0 < per" "int (length (note_chunks per blob)) \<le> mf"
    "frags = note_frags task note (note_chunks per blob)"
    "0 < task" "task \<le> TASK_ID_MAX" "0 \<le> note" "note \<le> NOTE_ID_MAX"
    using split_note_frags [OF assms(1)] by blast
  let ?ch = "note_chunks per blob"
  have len: "length frags = length ?ch" by (simp add: s(6) note_frags_def)
  have nth: "frags ! i = Freeform 0 0 task note (int i) (int (length ?ch)) (?ch ! i)"
    if "i < length ?ch" for i
    using that by (simp add: s(6) note_frags_def)
  have "map m_text frags = ?ch"
    by (rule nth_equalityI) (simp_all add: len nth)
  then have "concat (map m_text frags) = blob" using note_chunks_concat [OF s(4)] by simp
  moreover have "\<exists>data. encode (set_header src q (frags ! i)) mpb = Inr data" if i: "i < length ?ch" for i
  proof (rule encode_ok)
    have "length (?ch ! i) \<le> per" using note_chunks_length i by (meson nth_mem)
    then show "int (message_size (type_of (set_header src q (frags ! i))) +
        text_length (set_header src q (frags ! i))) \<le> mpb"
      using s(3,4) by (simp add: nth [OF i] NOTE_HEADER_BYTES_def)
    show "fields_ok (set_header src q (frags ! i))"
      using assms(2-) s(5,7-10) i by (simp add: nth [OF i] wire_consts)
  qed
  ultimately show ?thesis using s(1,5) nth len by simp
qed

lemma split_note_fits_witness:
  "\<exists>frags. split_note 7 1 [104, 105, 233] 12 8 = Inr frags \<and> length frags = 2 \<and>
     (\<exists>data. encode (set_header 3 9 (frags ! 1)) 12 = Inr data)"
  using split_note_fits [OF split_note_example, of 3 9] split_note_example
  by (auto simp: wire_consts)

text \<open>
  C26: A note is reassembled from its fragments in any order. Whatever else the receiver
  is collecting, if the fragments of a split note arrive, repeated or not, each within the
  TTL of the one before, then nothing is handed up until the last missing one arrives, and
  that one hands up exactly the text that was sent, once, and makes it available to the
  announcement that follows.
\<close>

theorem note_reassembled:
  assumes "notes_inv r" and "\<not> od_mem (ra_partial r) (src, task, note)"
    and "split_note task note t mpb mf = Inr frags" and "int (length frags) \<le> ra_max_fragments r"
    and "\<forall>(i, q, tm) \<in> set xs. i < length frags"
    and "paced (ra_ttl r) u (map (snd \<circ> snd) xs @ [now])"
    and "fst ` set xs = {0..<length frags} - {i}" and "i < length frags"
  shows "let ms = map (arrived src frags) (xs @ [(i, q, now)]);
      c = \<lparr>cn_src = src, cn_task_id = task, cn_note_id = note, cn_text = t, cn_completed_at = now\<rparr>
    in notes_results r ms = replicate (length xs) (Inr None) @ [Inr (Some c)] \<and>
       od_get (ra_completed (notes_state r ms)) (src, task) = Some (c, now + ra_completed_ttl r)"
proof -
  obtain blob per where s: "utf8_encode t = Some blob" "0 < per"
    "frags = note_frags task note (note_chunks per blob)"
    using split_note_frags [OF assms(3)] by blast
  let ?ch = "note_chunks per blob" and ?f = "arrived src frags"
  have len: "length frags = length ?ch" by (simp add: s(3) note_frags_def)
  let ?n = "int (length ?ch)" and ?g = "\<lambda>j. ?ch ! nat j"
  have I: "insert (int i) (int ` fst ` set xs) = {0..<?n}"
  proof -
    have "insert (int i) (int ` fst ` set xs) = int ` {0..<length frags}"
      using assms(7,8) by auto
    then show ?thesis by (simp add: len image_int_atLeastLessThan)
  qed
  have "int i \<notin> int ` fst ` set xs" using assms(7) by auto
  with I have ne: "int ` fst ` set xs \<noteq> {0..<?n}" by blast
  have "paced (ra_ttl r) u (map (snd \<circ> snd) xs)"
    using assms(6) by (induction xs arbitrary: u) auto
  then obtain u' where res: "notes_results r (map ?f xs) = replicate (length xs) (Inr None)"
    and col: "collecting (notes_state r (map ?f xs)) (src, task, note) ?n ?g (int ` fst ` set xs) u'"
    and pace: "\<forall>ts. paced (ra_ttl r) u (map (snd \<circ> snd) xs @ ts) \<longrightarrow> paced (ra_ttl r) u' ts"
    using collecting_run [of r src task "note" ?ch "{}" u xs] assms(1,2,4,5) ne
    by (auto simp: collecting_def [of _ _ _ _ "{}"] len s(3) [symmetric])
  let ?r = "notes_state r (map ?f xs)"
  let ?m = "Freeform src q task note (int i) ?n (?ch ! i)"
  let ?c = "\<lparr>cn_src = src, cn_task_id = task, cn_note_id = note, cn_text = t, cn_completed_at = now\<rparr>"
  have cfg: "ra_max_fragments ?r = ra_max_fragments r" "ra_completed_ttl ?r = ra_completed_ttl r"
    using config_fields [OF notes_config_run [OF assms(1)]] by auto
  have dec: "utf8_decode (concat (map ?g [0..?n - 1])) = Some t"
    using utf8_roundtrip [OF s(1)] note_chunks_concat [OF s(2)] by (simp only: map_nth_upto)
  have now: "int ` fst ` set xs = {} \<or> now < u'" using pace assms(6) by auto
  have sub: "int ` fst ` set xs \<subseteq> {0..<?n}" using I by auto
  have m: "msg_key3 ?m = (src, task, note)" "m_frag_count ?m = ?n" "m_frag_index ?m = int i"
    "m_text ?m = ?g (int i)" by (simp_all add: msg_key3_def)
  have r: "0 \<le> int i" "int i < ?n" "?n \<le> ra_max_fragments ?r" using assms(4,8) cfg len by auto
  note step = collecting_step [OF notes_inv_run [OF assms(1)] col now sub m r]
  have "snd (notes_add ?r ?m now) = Inr (Some ?c)"
    using step(2) [OF I] dec by (simp add: the_note_def)
  moreover have "od_get (ra_completed (fst (notes_add ?r ?m now))) (src, task) =
      Some (?c, now + ra_completed_ttl r)"
    using step(3) [OF I dec] by (simp add: the_note_def cfg)
  moreover have "?f (i, q, now) = (?m, now)"
  proof -
    have "i < length ?ch" using assms(8) len by simp
    from arrived_frag [OF this, of src task "note" q now] show ?thesis by (simp add: s(3))
  qed
  ultimately show ?thesis
    using res by (simp add: Let_def notes_results_def notes_state_def)
qed

theorem note_reassembled_witness:
  "\<exists>r frags. notes_init 30 60 16 32 8 = Inr r \<and> split_note 7 1 [104, 105, 233] 12 8 = Inr frags \<and>
    notes_results r (map (arrived 3 frags) [(1, 20, 0), (1, 20, 4), (0, 21, 25)]) =
      [Inr None, Inr None, Inr (Some \<lparr>cn_src = 3, cn_task_id = 7, cn_note_id = 1,
        cn_text = [104, 105, 233], cn_completed_at = 25\<rparr>)]"
proof -
  obtain r where r: "notes_init 30 60 16 32 8 = Inr r" by (simp add: notes_init_def)
  have fields: "ra_partial r = []" "ra_ttl r = 30" "ra_max_fragments r = 8"
    using r by (auto simp: notes_init_def)
  note s = split_note_example
  have len: "length [Freeform 0 0 7 1 0 2 [104, 105, 0xC3], Freeform 0 0 7 1 1 2 [0xA9]] = 2" by simp
  from note_reassembled [OF notes_inv_init [OF r] _ s, of 3 "[(1, 20, 0), (1, 20, 4)]" 5 25 0 21]
  have "notes_results r (map (arrived 3 [Freeform 0 0 7 1 0 2 [104, 105, 0xC3], Freeform 0 0 7 1 1 2 [0xA9]])
      ([(1, 20, 0), (1, 20, 4)] @ [(0, 21, 25)])) =
      replicate 2 (Inr None) @ [Inr (Some \<lparr>cn_src = 3, cn_task_id = 7, cn_note_id = 1,
        cn_text = [104, 105, 233], cn_completed_at = 25\<rparr>)]"
    by (simp add: fields od_mem_def Let_def numeral_2_eq_2 atLeastLessThanSuc) (auto simp: Let_def)
  with r s show ?thesis by (simp add: numeral_2_eq_2)
qed

text \<open>The fragments a table holds were all received, for that very note and length.\<close>

definition received_in :: "(message \<times> secs) list \<Rightarrow> fragment_key \<Rightarrow> int \<Rightarrow> int \<Rightarrow> byte list \<Rightarrow> bool" where
  "received_in ms k n j b \<longleftrightarrow>
     (\<exists>(m, t) \<in> set ms. msg_key3 m = k \<and> m_frag_count m = n \<and> m_frag_index m = j \<and> m_text m = b)"

definition all_received :: "(message \<times> secs) list \<Rightarrow> reassembler \<Rightarrow> bool" where
  "all_received ms r \<longleftrightarrow> (\<forall>k p j b. (k, p) \<in> set (ra_partial r) \<longrightarrow>
     (j, b) \<in> set (pa_fragments p) \<longrightarrow> received_in ms k (pa_frag_count p) j b)"

lemma received_mono: "received_in ms k n j b \<Longrightarrow> received_in (ms @ ns) k n j b"
  by (auto simp: received_in_def)

lemma new_partial_received:
  assumes "notes_inv r" "all_received ms r" "(j, b) \<in> set (pa_fragments (new_partial r m t))"
  shows "received_in (ms @ [(m, t)]) (msg_key3 m) (m_frag_count m) j b"
proof (cases "j = m_frag_index m \<and> b = m_text m")
  case True
  then show ?thesis by (simp add: received_in_def)
next
  case False
  then have "(j, b) \<in> set (pa_fragments (target_partial (notes_prune r t) m t))"
    using assms(3) set_od_set by (fastforce simp: new_partial_def stored_partial_def)
  then obtain p where p: "od_get (ra_partial (notes_prune r t)) (msg_key3 m) = Some p"
    "pa_frag_count p = m_frag_count m" "(j, b) \<in> set (pa_fragments p)"
    by (auto simp: target_partial_def msg_key3_def split: option.splits if_splits)
  have "(msg_key3 m, p) \<in> set (ra_partial r)"
    using od_get_mem [OF p(1)] assms(1)
    by (auto simp: notes_prune_lists notes_inv_def dest!: set_dropWhileD)
  with assms(2) p have "received_in ms (msg_key3 m) (m_frag_count m) j b"
    unfolding all_received_def by metis
  then show ?thesis by (rule received_mono)
qed

lemma all_received_add:
  assumes "notes_inv r" "all_received ms r"
  shows "all_received (ms @ [(m, t)]) (fst (notes_add r m t))"
proof -
  have old: "received_in (ms @ [(m, t)]) k (pa_frag_count p) j b"
    if "(k, p) \<in> set (ra_partial r)" "(j, b) \<in> set (pa_fragments p)" for k p j b
    using that assms(2) unfolding all_received_def by (blast intro: received_mono)
  show ?thesis
  proof (cases "frag_valid r m")
    case False
    then show ?thesis
      using assms(1) old
      by (auto simp: all_received_def notes_add_invalid notes_prune_lists notes_inv_def
          dest!: set_dropWhileD)
  next
    case True
    have "received_in (ms @ [(m, t)]) k (pa_frag_count p) j b"
      if "(k, p) \<in> set (new_table r m t)" "(j, b) \<in> set (pa_fragments p)" for k p j b
    proof (rule new_table_last [OF assms(1), of m t])
      fix pre
      assume "new_table r m t = pre @ [(msg_key3 m, new_partial r m t)]" "set pre \<subseteq> set (live r t)"
      then have "(k, p) \<in> set (ra_partial r) \<or> k = msg_key3 m \<and> p = new_partial r m t"
        using that(1) by (auto simp: live_def dest!: set_dropWhileD)
      then show ?thesis
        using old [OF _ that(2)] that(2) new_partial_received [OF assms, of j b m t]
          new_partial_fits(1) [OF assms(1) True] by metis
    qed
    then show ?thesis
      by (auto simp: all_received_def notes_add_valid(2) [OF assms(1) True] set_od_del)
  qed
qed

lemma all_received_run:
  "notes_inv r \<Longrightarrow> all_received ms r \<Longrightarrow> all_received (ms @ xs) (notes_state r xs)"
proof (induction xs arbitrary: r ms)
  case (Cons x xs)
  obtain m t where x: "x = (m, t)" by force
  from Cons.IH [OF notes_inv_add [OF Cons.prems(1)] all_received_add [OF Cons.prems], of m t]
  show ?case by (simp add: notes_state_def x)
qed (simp add: notes_state_def)

text \<open>
  The reassembler is bounded, total, and never invents text. From a fresh
  reassembler, after any sequence of fragments, valid or not: the partial and completed
  tables respect their caps, every partial note is within its announced length and still
  misses a fragment, and the next fragment raises nothing. A note it hands up is the
  decoding of one received fragment per index, all of the same sender, task, note id and
  announced length.
\<close>

lemma reassembler_sound:
  assumes "notes_init ttl cttl mp mc mf = Inr r0"
  shows "let r = notes_state r0 ms in
    int (length (ra_partial r)) \<le> mp \<and> int (length (ra_completed r)) \<le> mc \<and>
    (\<forall>(k, p) \<in> set (ra_partial r). int (length (pa_fragments p)) < pa_frag_count p \<and> pa_frag_count p \<le> mf) \<and>
    (case snd (notes_add r m now) of
       Inl e \<Rightarrow> False
     | Inr None \<Rightarrow> True
     | Inr (Some c) \<Rightarrow>
         \<exists>ch. utf8_decode (concat (map ch [0..m_frag_count m - 1])) = Some (cn_text c) \<and>
           (\<forall>j. 0 \<le> j \<and> j < m_frag_count m \<longrightarrow>
             received_in (ms @ [(m, now)]) (cn_src c, cn_task_id c, cn_note_id c) (m_frag_count m) j (ch j)))"
proof -
  let ?r = "notes_state r0 ms"
  have inv0: "notes_inv r0" and fields: "ra_max_partial r0 = mp" "ra_max_completed r0 = mc"
    "ra_max_fragments r0 = mf" "ra_partial r0 = []"
    using assms notes_inv_init by (auto simp: notes_init_def split: if_splits)
  have inv: "notes_inv ?r" by (rule notes_inv_run [OF inv0])
  have cfg: "ra_max_partial ?r = mp" "ra_max_completed ?r = mc" "ra_max_fragments ?r = mf"
    using notes_config_run [OF inv0] fields by (auto simp: notes_config_def)
  have rec: "all_received ms ?r"
    using all_received_run [OF inv0, of "[]" ms] fields by (simp add: all_received_def)
  have part: "int (length (pa_fragments p)) < pa_frag_count p \<and> pa_frag_count p \<le> mf"
    if "(k, p) \<in> set (ra_partial ?r)" for k p
  proof -
    have ok: "partial_ok mf p" using that inv cfg by (auto simp: notes_inv_def)
    then have "card (fst ` set (pa_fragments p)) \<le> card {0..<pa_frag_count p}"
      by (intro card_mono) (auto simp: partial_ok_def)
    moreover have "card (fst ` set (pa_fragments p)) = length (pa_fragments p)"
      using ok by (metis distinct_card length_map od_ok_def partial_ok_def set_map)
    ultimately show ?thesis using ok by (auto simp: partial_ok_def partial_complete_def)
  qed
  have up: "\<exists>ch. utf8_decode (concat (map ch [0..m_frag_count m - 1])) = Some (cn_text c) \<and>
      (\<forall>j. 0 \<le> j \<and> j < m_frag_count m \<longrightarrow>
        received_in (ms @ [(m, now)]) (cn_src c, cn_task_id c, cn_note_id c) (m_frag_count m) j (ch j))"
    if c: "snd (notes_add ?r m now) = Inr (Some c)" for c
  proof -
    have v: "frag_valid ?r m" using c notes_add_invalid(1) [of ?r m now] by auto
    let ?p = "new_partial ?r m now"
    have full: "partial_complete ?p" and dec: "utf8_decode (whole_text ?r m now) = Some (cn_text c)"
      and key: "(cn_src c, cn_task_id c, cn_note_id c) = msg_key3 m"
      using c by (auto simp: notes_add_valid(1) [OF inv v] the_note_def msg_key3_def
          split: if_splits)
    note fits = new_partial_fits [OF inv v, of now]
    have "fst ` set (pa_fragments ?p) = {0..<m_frag_count m}"
    proof (intro card_subset_eq fits(3))
      have "card (fst ` set (pa_fragments ?p)) = length (pa_fragments ?p)"
        using fits(2) by (metis distinct_card length_map od_ok_def set_map)
      then show "card (fst ` set (pa_fragments ?p)) = card {0..<m_frag_count m}"
        using full fits(1) by (simp add: partial_complete_def)
    qed simp
    then have "\<exists>b. od_get (pa_fragments ?p) j = Some b" if "0 \<le> j \<and> j < m_frag_count m" for j
      using that od_get_None [of "pa_fragments ?p" j] by (auto simp: od_mem_def)
    then have "received_in (ms @ [(m, now)]) (msg_key3 m) (m_frag_count m) j (the (od_get (pa_fragments ?p) j))"
      if "0 \<le> j \<and> j < m_frag_count m" for j
      using that new_partial_received [OF inv rec] od_get_mem by (metis option.sel)
    with dec key show ?thesis
      by (intro exI [of _ "\<lambda>j. the (od_get (pa_fragments ?p) j)"]) (simp add: whole_text_def)
  qed
  obtain n where n: "snd (notes_add ?r m now) = Inr n" using notes_add_never_raises [OF inv] by blast
  have "int (length (ra_partial ?r)) \<le> mp" "int (length (ra_completed ?r)) \<le> mc"
    using inv cfg by (auto simp: notes_inv_def)
  with part up n show ?thesis by (auto simp: Let_def split: option.splits)
qed

lemma reassembler_sound_witness:
  "\<exists>r0. notes_init 30 60 16 32 8 = Inr r0 \<and>
    int (length (ra_partial (notes_state r0 [(Freeform 3 1 7 1 0 2 [65], 0), (Freeform 3 2 7 2 9 2 [], 1)]))) \<le> 16"
proof -
  obtain r0 where "notes_init 30 60 16 32 8 = Inr r0" by (simp add: notes_init_def)
  with reassembler_sound [OF this, of "[(Freeform 3 1 7 1 0 2 [65], 0), (Freeform 3 2 7 2 9 2 [], 1)]"]
  show ?thesis by (simp add: Let_def)
qed


end
