(* ===== verification/Addressing.thy ===== *)
theory Addressing
  imports Vocabulary
begin

text \<open>
  The two tables of the reliability layer: who a message is for
  (\<^verbatim>\<open>reliability/addressing.py\<close>) and what goes first (\<^verbatim>\<open>reliability/priority.py\<close>).
\<close>

datatype mode = UNICAST | BROADCAST

definition addressee_field :: "message_type \<Rightarrow> (message \<Rightarrow> int) option" where
  "addressee_field cls = (if cls = GRANT then Some m_winner_id else None)"

definition addressing_of :: "message \<Rightarrow> mode" where
  "addressing_of msg = (if addressee_field (type_of msg) \<noteq> None then UNICAST else BROADCAST)"

definition is_unicast :: "message \<Rightarrow> bool" where
  "is_unicast msg \<longleftrightarrow> addressing_of msg = UNICAST"

definition addressee_of :: "message \<Rightarrow> int option" where
  "addressee_of msg =
     (case addressee_field (type_of msg) of None \<Rightarrow> None | Some f \<Rightarrow> Some (f msg))"

definition is_ack :: "message \<Rightarrow> bool" where
  "is_ack msg \<longleftrightarrow> type_of msg = ACK"

definition is_reliable :: "message \<Rightarrow> bool" where
  "is_reliable msg \<longleftrightarrow> \<not> is_ack msg \<and> is_unicast msg"

definition URGENT :: int where "URGENT = 0"
definition BULK :: int where "BULK = 1"

definition priority_of :: "message \<Rightarrow> int" where
  "priority_of msg = (if type_of msg \<in> {ACK, GRANT} then URGENT else BULK)"

lemma is_reliable_iff: "is_reliable msg \<longleftrightarrow> type_of msg = GRANT"
  by (auto simp: is_reliable_def is_ack_def is_unicast_def addressing_of_def addressee_field_def)

lemma is_unicast_iff: "is_unicast msg \<longleftrightarrow> type_of msg = GRANT"
  by (simp add: is_unicast_def addressing_of_def addressee_field_def)

lemma addressee_of_iff: "addressee_of msg = Some d \<longleftrightarrow> type_of msg = GRANT \<and> m_winner_id msg = d"
  by (auto simp: addressee_of_def addressee_field_def)

lemma type_GRANT: "type_of msg = GRANT \<longleftrightarrow> (\<exists>s q t w. msg = Grant s q t w)"
  by (cases msg) auto

lemma type_ACK: "type_of msg = ACK \<longleftrightarrow> (\<exists>s q a b. msg = Ack s q a b)"
  by (cases msg) auto

lemma type_FREEFORM: "type_of msg = FREEFORM \<longleftrightarrow> (\<exists>s q t n i c b. msg = Freeform s q t n i c b)"
  by (cases msg) auto

lemma set_header_simps [simp]:
  "type_of (set_header s q m) = type_of m" "m_src (set_header s q m) = s" "m_seq (set_header s q m) = q"
  "addressee_of (set_header s q m) = addressee_of m"
  "is_reliable (set_header s q m) = is_reliable m" "is_unicast (set_header s q m) = is_unicast m"
  "priority_of (set_header s q m) = priority_of m"
  by (cases m; simp add: addressee_of_def addressee_field_def is_reliable_iff is_unicast_iff priority_of_def)+

text \<open>
  Reliability follows addressing. A message owes an acknowledgement exactly when it
  names one addressee; no acknowledgement is itself acknowledged; and every reliable
  message, like every acknowledgement, goes out in the urgent class.
\<close>

lemma reliability_follows_addressing:
  "(is_reliable msg \<longleftrightarrow> (\<exists>d. addressee_of msg = Some d)) \<and>
   (is_reliable msg \<longleftrightarrow> addressing_of msg = UNICAST) \<and>
   \<not> (is_ack msg \<and> is_reliable msg) \<and>
   (priority_of msg = URGENT \<longleftrightarrow> is_reliable msg \<or> is_ack msg) \<and> (priority_of msg = URGENT \<or> priority_of msg = BULK)"
  by (auto simp: is_reliable_iff addressee_of_iff addressing_of_def addressee_field_def is_ack_def
      priority_of_def URGENT_def BULK_def)

end
