(* ===== verification/Session.thy ===== *)
theory Session
  imports Addressing Dedup Notes "HOL-Library.Multiset"
begin

unbundle bit_operations_syntax

text \<open>
  The reliability engine, \<^verbatim>\<open>ReliabilitySession\<close> of \<^verbatim>\<open>reliability/session.py\<close>. Every method is
  a function from the session's state to its new state and its result. The clock reading is
  an argument. What the session hands to its callbacks (the link, futures, the layer above)
  is appended to \<open>ss_log\<close>, oldest first. The link is a parameter of the state: \<open>ss_link n\<close>
  tells whether the \<open>n\<close>-th call of \<^verbatim>\<open>send_frame\<close> returns or raises. The code makes its
  callbacks after releasing the lock, so a callback that re-enters the session is one more
  operation after this one.
\<close>

section \<open>State\<close>

datatype outcome = DELIVERED | FAILED

datatype fut_state = F_PENDING | F_CANCELLED | F_RESOLVED outcome

datatype session_exn = ReliabilityErr | CodecErr codec_exn | PyErr py_exn

record reliability_params =
  rp_retransmit_timeout_sec :: secs
  rp_max_retries :: int
  rp_retransmit_backoff :: rat
  rp_max_retransmit_timeout_sec :: secs
  rp_dedup_ttl_sec :: secs
  rp_dedup_max_entries :: int
  rp_max_pending :: int
  rp_max_payload_bytes :: int
  rp_note_ttl_sec :: secs
  rp_note_completed_ttl_sec :: secs
  rp_max_note_fragments :: int

definition params_post_init :: "reliability_params \<Rightarrow> py_exn + reliability_params" where
  "params_post_init p =
     (if rp_retransmit_timeout_sec p \<le> 0 then Inl ValueError
      else if rp_max_retries p < 0 then Inl ValueError
      else if rp_retransmit_backoff p < 1 then Inl ValueError
      else if rp_max_retransmit_timeout_sec p < rp_retransmit_timeout_sec p then Inl ValueError
      else if rp_max_pending p < 1 then Inl ValueError
      else if rp_note_ttl_sec p \<le> 0 then Inl ValueError
      else if rp_note_completed_ttl_sec p \<le> 0 then Inl ValueError
      else if rp_max_note_fragments p < 1 then Inl ValueError
      else Inr p)"

definition default_params :: reliability_params where
  "default_params = \<lparr>rp_retransmit_timeout_sec = 3, rp_max_retries = 3, rp_retransmit_backoff = 3 / 2,
     rp_max_retransmit_timeout_sec = 10, rp_dedup_ttl_sec = 120, rp_dedup_max_entries = 512,
     rp_max_pending = 32, rp_max_payload_bytes = DEFAULT_MAX_PAYLOAD_BYTES, rp_note_ttl_sec = 30,
     rp_note_completed_ttl_sec = 60, rp_max_note_fragments = MAX_NOTE_FRAGMENTS\<rparr>"

record pending =
  pd_seq :: int
  pd_dst :: int
  pd_payload :: "byte list"
  pd_future :: nat
  pd_attempts :: int
  pd_deadline :: secs
  pd_kind :: message_type
  pd_priority :: int

datatype counter =
  Tx_broadcast | Tx_reliable | Tx_retransmits | Tx_acks | Tx_link_errors | Tx_delivered | Tx_failed
| Tx_rejected | Rx_frames | Rx_delivered | Rx_duplicates | Rx_acks | Rx_self | Rx_unknown_type
| Rx_reserved_type | Rx_malformed | Ack_unmatched | Ack_wrong_src

text \<open>
  The callbacks: a frame handed to the link (and whether it was taken), a future resolved,
  a message and a note handed up; \<open>InvalidState\<close> is the exception a future raises when it
  is resolved twice.
\<close>

datatype effect =
  Transmit "byte list" int bool
| Resolve nat outcome
| InvalidState nat
| Deliver message
| DeliverNote completed_note

record session =
  ss_node_id :: int
  ss_params :: reliability_params
  ss_link :: "nat \<Rightarrow> bool"
  ss_calls :: nat
  ss_next_seq :: int
  ss_pending :: "(int, pending) odict"
  ss_dedup :: dedup_cache
  ss_notes :: reassembler
  ss_counters :: "counter \<Rightarrow> nat"
  ss_futures :: "fut_state list"
  ss_log :: "effect list"

definition session_init ::
  "int \<Rightarrow> (nat \<Rightarrow> bool) \<Rightarrow> reliability_params \<Rightarrow> py_exn + session" where
  "session_init node_id link params =
     (if \<not> (ROBOT_ID_NONE < node_id \<and> node_id \<le> SRC_MAX) then Inl ValueError
      else case dedup_init (rp_dedup_ttl_sec params) (rp_dedup_max_entries params) of
        Inl e \<Rightarrow> Inl e
      | Inr dc \<Rightarrow>
          (case notes_init (rp_note_ttl_sec params) (rp_note_completed_ttl_sec params) 16 32
                  (rp_max_note_fragments params) of
             Inl e \<Rightarrow> Inl e
           | Inr notes \<Rightarrow>
               Inr \<lparr>ss_node_id = node_id, ss_params = params, ss_link = link, ss_calls = 0,
                 ss_next_seq = 0, ss_pending = [], ss_dedup = dc, ss_notes = notes,
                 ss_counters = (\<lambda>_. 0), ss_futures = [], ss_log = []\<rparr>))"

section \<open>Plumbing\<close>

definition bump :: "counter \<Rightarrow> session \<Rightarrow> session" where
  "bump c s = s\<lparr>ss_counters := (ss_counters s)(c := ss_counters s c + 1)\<rparr>"

definition emit :: "effect \<Rightarrow> session \<Rightarrow> session" where
  "emit e s = s\<lparr>ss_log := ss_log s @ [e]\<rparr>"

definition next_seq :: "session \<Rightarrow> session \<times> int" where
  "next_seq s = (s\<lparr>ss_next_seq := (ss_next_seq s + 1) AND SEQ_MAX\<rparr>, ss_next_seq s)"

definition transmit :: "session \<Rightarrow> byte list \<Rightarrow> int \<Rightarrow> bool \<Rightarrow> session \<times> bool" where
  "transmit s payload prio is_ack_frame =
     (let s1 = (if is_ack_frame then bump Tx_acks s else s);
          ok = ss_link s1 (ss_calls s1);
          s2 = emit (Transmit payload prio ok) (s1\<lparr>ss_calls := ss_calls s1 + 1\<rparr>)
      in if ok then (s2, True) else (bump Tx_link_errors s2, False))"

text \<open>
  \<^verbatim>\<open>set_running_or_notify_cancel\<close> is false for a future its owner cancelled, and raises for
  one that is already resolved.
\<close>

definition finish :: "session \<Rightarrow> pending \<Rightarrow> outcome \<Rightarrow> session" where
  "finish s p out =
     (case ss_futures s ! pd_future p of
        F_PENDING \<Rightarrow> emit (Resolve (pd_future p) out)
          (s\<lparr>ss_futures := (ss_futures s)[pd_future p := F_RESOLVED out]\<rparr>)
      | F_CANCELLED \<Rightarrow> s
      | F_RESOLVED _ \<Rightarrow> emit (InvalidState (pd_future p)) s)"

text \<open>The owner of a future cancels it.\<close>

definition cancel :: "session \<Rightarrow> nat \<Rightarrow> session" where
  "cancel s f =
     (if f < length (ss_futures s) \<and> ss_futures s ! f = F_PENDING
      then s\<lparr>ss_futures := (ss_futures s)[f := F_CANCELLED]\<rparr> else s)"

definition interval :: "reliability_params \<Rightarrow> int \<Rightarrow> secs" where
  "interval p attempts =
     min (rp_retransmit_timeout_sec p * rp_retransmit_backoff p ^ nat attempts)
       (rp_max_retransmit_timeout_sec p)"

section \<open>Outbound\<close>

definition send_reliable ::
  "session \<Rightarrow> int \<Rightarrow> message \<Rightarrow> secs \<Rightarrow> session \<times> (session_exn + nat)" where
  "send_reliable s dst msg now =
     (if is_ack msg then (s, Inl ReliabilityErr)
      else if \<not> is_reliable msg then (s, Inl ReliabilityErr)
      else if \<not> (1 \<le> dst \<and> dst \<le> SRC_MAX) then (s, Inl ReliabilityErr)
      else if addressee_of msg \<noteq> None \<and> addressee_of msg \<noteq> Some dst then (s, Inl ReliabilityErr)
      else
        let f = length (ss_futures s); s0 = s\<lparr>ss_futures := ss_futures s @ [F_PENDING]\<rparr>
        in if int (length (ss_pending s0)) \<ge> rp_max_pending (ss_params s0) then
             (emit (Resolve f FAILED)
                ((bump Tx_rejected s0)\<lparr>ss_futures := (ss_futures s0)[f := F_RESOLVED FAILED]\<rparr>), Inr f)
           else
             let (s1, seq) = next_seq s0; msg1 = set_header (ss_node_id s1) seq msg
             in case encode msg1 (rp_max_payload_bytes (ss_params s1)) of
                  Inl e \<Rightarrow> (s1, Inl (CodecErr e))
                | Inr payload \<Rightarrow>
                    let p = \<lparr>pd_seq = seq, pd_dst = dst, pd_payload = payload, pd_future = f,
                             pd_attempts = 0,
                             pd_deadline = now + rp_retransmit_timeout_sec (ss_params s1),
                             pd_kind = type_of msg1, pd_priority = priority_of msg1\<rparr>;
                        s2 = bump Tx_reliable (s1\<lparr>ss_pending := od_set seq p (ss_pending s1)\<rparr>)
                    in (fst (transmit s2 payload (priority_of msg1) False), Inr f))"

definition send_broadcast :: "session \<Rightarrow> message \<Rightarrow> session \<times> (session_exn + bool)" where
  "send_broadcast s msg =
     (if is_ack msg then (s, Inl ReliabilityErr)
      else if is_unicast msg then (s, Inl ReliabilityErr)
      else
        let (s1, seq) = next_seq s; msg1 = set_header (ss_node_id s1) seq msg
        in case encode msg1 (rp_max_payload_bytes (ss_params s1)) of
             Inl e \<Rightarrow> (s1, Inl (CodecErr e))
           | Inr payload \<Rightarrow>
               let (s2, ok) = transmit (bump Tx_broadcast s1) payload (priority_of msg1) False
               in (s2, Inr ok))"

fun broadcast_all :: "session \<Rightarrow> message list \<Rightarrow> session \<times> session_exn option" where
  "broadcast_all s [] = (s, None)"
| "broadcast_all s (m # ms) =
     (case send_broadcast s m of
        (s1, Inl e) \<Rightarrow> (s1, Some e)
      | (s1, Inr _) \<Rightarrow> broadcast_all s1 ms)"

definition send_note ::
  "session \<Rightarrow> int \<Rightarrow> text_str \<Rightarrow> int option \<Rightarrow> session \<times> (session_exn + nat)" where
  "send_note s task_id t note_id =
     (let n = (case note_id of None \<Rightarrow> ss_next_seq s AND 0xFF | Some n \<Rightarrow> n)
      in case split_note task_id n t (rp_max_payload_bytes (ss_params s))
                (rp_max_note_fragments (ss_params s)) of
           Inl e \<Rightarrow> (s, Inl (PyErr e))
         | Inr fragments \<Rightarrow>
             (case broadcast_all s fragments of
                (s1, Some e) \<Rightarrow> (s1, Inl e)
              | (s1, None) \<Rightarrow> (s1, Inr (length fragments))))"

section \<open>Inbound\<close>

definition match_ack :: "session \<Rightarrow> message \<Rightarrow> session \<times> pending option" where
  "match_ack s ack =
     (if m_ack_src ack \<noteq> ss_node_id s then (s, None)
      else case od_get (ss_pending s) (m_ack_seq ack) of
        None \<Rightarrow> (bump Ack_unmatched s, None)
      | Some p \<Rightarrow>
          if m_src ack \<noteq> pd_dst p then (bump Ack_wrong_src s, None)
          else (s\<lparr>ss_pending := od_del (m_ack_seq ack) (ss_pending s)\<rparr>, Some p))"

definition encode_ack :: "session \<Rightarrow> message \<Rightarrow> session \<times> (codec_exn + byte list)" where
  "encode_ack s msg =
     (let (s1, seq) = next_seq s
      in (s1, encode (Ack (ss_node_id s1) seq (m_src msg) (m_seq msg))
                (rp_max_payload_bytes (ss_params s1))))"

text \<open>The dedup filter and what passes it: a message up, or a fragment to the reassembler.\<close>

definition admit ::
  "session \<Rightarrow> message \<Rightarrow> secs \<Rightarrow> session \<times> (py_exn + message option \<times> completed_note option)" where
  "admit s msg now =
     (let (dc, new) = first_sight (ss_dedup s) (m_src msg, m_seq msg) now; s1 = s\<lparr>ss_dedup := dc\<rparr>
      in if \<not> new then (bump Rx_duplicates s1, Inr (None, None))
         else if type_of msg = FREEFORM then
           (case notes_add (ss_notes s1) msg now of
              (notes, Inl e) \<Rightarrow> (s1\<lparr>ss_notes := notes\<rparr>, Inl e)
            | (notes, Inr n) \<Rightarrow> (s1\<lparr>ss_notes := notes\<rparr>, Inr (None, n)))
         else (bump Rx_delivered s1, Inr (Some msg, None)))"

definition emit_up :: "message option \<times> completed_note option \<Rightarrow> session \<Rightarrow> session" where
  "emit_up up s =
     (let s1 = (case fst up of None \<Rightarrow> s | Some m \<Rightarrow> emit (Deliver m) s)
      in case snd up of None \<Rightarrow> s1 | Some n \<Rightarrow> emit (DeliverNote n) s1)"

definition on_message :: "session \<Rightarrow> message \<Rightarrow> secs \<Rightarrow> session \<times> session_exn option" where
  "on_message s msg now =
     (if is_ack msg then
        (case match_ack (bump Rx_acks s) msg of
           (s1, None) \<Rightarrow> (s1, None)
         | (s1, Some p) \<Rightarrow> (finish (bump Tx_delivered s1) p DELIVERED, None))
      else if m_src msg = ss_node_id s then (bump Rx_self s, None)
      else
        let (s1, ack) =
          (if is_reliable msg \<and> addressee_of msg = Some (ss_node_id s)
           then (case encode_ack s msg of
                   (s1, Inl e) \<Rightarrow> (s1, Inl e) | (s1, Inr b) \<Rightarrow> (s1, Inr (Some b)))
           else (s, Inr None))
        in case ack of
             Inl e \<Rightarrow> (s1, Some (CodecErr e))
           | Inr ack_payload \<Rightarrow>
               (case admit s1 msg now of
                  (s2, Inl e) \<Rightarrow> (s2, Some (PyErr e))
                | (s2, Inr up) \<Rightarrow>
                    let s3 = (case ack_payload of
                                None \<Rightarrow> s2 | Some b \<Rightarrow> fst (transmit s2 b URGENT True))
                    in (emit_up up s3, None)))"

definition on_frame :: "session \<Rightarrow> byte list \<Rightarrow> secs \<Rightarrow> session \<times> session_exn option" where
  "on_frame s payload now =
     (let s0 = bump Rx_frames s
      in case decode payload of
           Inl UnknownMessageType \<Rightarrow> (bump Rx_unknown_type s0, None)
         | Inl ReservedMessageType \<Rightarrow> (bump Rx_reserved_type s0, None)
         | Inl _ \<Rightarrow> (bump Rx_malformed s0, None)
         | Inr msg \<Rightarrow> on_message s0 msg now)"

section \<open>Retransmission\<close>

text \<open>
  The sweep over a snapshot of the pending table, with the lists of retransmissions and of
  expired sends it collects.
\<close>

fun sweep ::
  "secs \<Rightarrow> (int \<times> pending) list \<Rightarrow> session \<Rightarrow> session \<times> (byte list \<times> int) list \<times> pending list" where
  "sweep now [] s = (s, [], [])"
| "sweep now ((seq, p) # items) s =
     (if pd_deadline p > now then sweep now items s
      else if pd_attempts p \<ge> rp_max_retries (ss_params s) then
        (case sweep now items (bump Tx_failed (s\<lparr>ss_pending := od_del seq (ss_pending s)\<rparr>)) of
           (s1, rt, ex) \<Rightarrow> (s1, rt, p # ex))
      else
        let p1 = p\<lparr>pd_attempts := pd_attempts p + 1,
                   pd_deadline := now + interval (ss_params s) (pd_attempts p + 1)\<rparr>
        in (case sweep now items
                   (bump Tx_retransmits (s\<lparr>ss_pending := od_set seq p1 (ss_pending s)\<rparr>)) of
              (s1, rt, ex) \<Rightarrow> (s1, (pd_payload p, pd_priority p) # rt, ex)))"

definition tick :: "session \<Rightarrow> secs \<Rightarrow> session" where
  "tick s now =
     (let (s1, rt, ex) = sweep now (ss_pending s) s;
          s2 = s1\<lparr>ss_dedup := fst (dedup_prune (ss_dedup s1) now),
                  ss_notes := notes_prune (ss_notes s1) now\<rparr>;
          s3 = foldl (\<lambda>s (payload, prio). fst (transmit s payload prio False)) s2 rt
      in foldl (\<lambda>s p. finish s p FAILED) s3 ex)"

definition session_completed_note :: "session \<Rightarrow> int \<Rightarrow> int \<Rightarrow> secs \<Rightarrow> session \<times> completed_note option" where
  "session_completed_note s src task_id now =
     (let (notes, c) = notes_completed (ss_notes s) src task_id now in (s\<lparr>ss_notes := notes\<rparr>, c))"

definition session_pending :: "session \<Rightarrow> nat" where
  "session_pending s = length (ss_pending s)"

section \<open>What the plumbing leaves alone\<close>

lemma bump_simps [simp]:
  "ss_node_id (bump c s) = ss_node_id s" "ss_params (bump c s) = ss_params s"
  "ss_link (bump c s) = ss_link s" "ss_calls (bump c s) = ss_calls s"
  "ss_next_seq (bump c s) = ss_next_seq s" "ss_pending (bump c s) = ss_pending s"
  "ss_dedup (bump c s) = ss_dedup s" "ss_notes (bump c s) = ss_notes s"
  "ss_futures (bump c s) = ss_futures s" "ss_log (bump c s) = ss_log s"
  by (simp_all add: bump_def)

lemma emit_simps [simp]:
  "ss_node_id (emit e s) = ss_node_id s" "ss_params (emit e s) = ss_params s"
  "ss_next_seq (emit e s) = ss_next_seq s" "ss_pending (emit e s) = ss_pending s"
  "ss_dedup (emit e s) = ss_dedup s" "ss_notes (emit e s) = ss_notes s"
  "ss_futures (emit e s) = ss_futures s" "ss_log (emit e s) = ss_log s @ [e]"
  "ss_counters (emit e s) = ss_counters s"
  by (simp_all add: emit_def)

lemma transmit_simps [simp]:
  "ss_node_id (fst (transmit s b q a)) = ss_node_id s" "ss_params (fst (transmit s b q a)) = ss_params s"
  "ss_next_seq (fst (transmit s b q a)) = ss_next_seq s" "ss_pending (fst (transmit s b q a)) = ss_pending s"
  "ss_dedup (fst (transmit s b q a)) = ss_dedup s" "ss_notes (fst (transmit s b q a)) = ss_notes s"
  "ss_futures (fst (transmit s b q a)) = ss_futures s"
  by (simp_all add: transmit_def Let_def)

lemma transmit_log:
  "ss_log (fst (transmit s b q a)) = ss_log s @ [Transmit b q (snd (transmit s b q a))]"
  by (simp add: transmit_def Let_def)

lemma finish_simps [simp]:
  "ss_node_id (finish s p out) = ss_node_id s" "ss_params (finish s p out) = ss_params s"
  "ss_next_seq (finish s p out) = ss_next_seq s" "ss_pending (finish s p out) = ss_pending s"
  "ss_dedup (finish s p out) = ss_dedup s" "ss_notes (finish s p out) = ss_notes s"
  by (simp_all add: finish_def split: fut_state.splits)

lemma emit_up_simps [simp]:
  "ss_node_id (emit_up u s) = ss_node_id s" "ss_params (emit_up u s) = ss_params s"
  "ss_next_seq (emit_up u s) = ss_next_seq s" "ss_pending (emit_up u s) = ss_pending s"
  "ss_dedup (emit_up u s) = ss_dedup s" "ss_notes (emit_up u s) = ss_notes s"
  "ss_futures (emit_up u s) = ss_futures s"
  by (simp_all add: emit_up_def Let_def split: option.splits)

lemma and_seq_max: "x AND SEQ_MAX = x mod 65536"
proof -
  have "(x :: int) AND SEQ_MAX = x AND mask 16" by (simp add: SEQ_MAX_def mask_eq_exp_minus_1)
  also have "\<dots> = x mod 2 ^ 16" by (simp only: take_bit_eq_mask [symmetric] take_bit_eq_mod)
  finally show ?thesis by simp
qed

section \<open>Futures\<close>

fun resolves :: "effect list \<Rightarrow> (nat \<times> outcome) list" where
  "resolves [] = []"
| "resolves (Resolve f out # es) = (f, out) # resolves es"
| "resolves (_ # es) = resolves es"

lemma resolves_append [simp]: "resolves (xs @ ys) = resolves xs @ resolves ys"
  by (induction xs rule: resolves.induct) auto

text \<open>
  The log and the futures agree, no future is resolved twice, and every send still in the
  table (or in \<open>ps\<close>, those taken out of it and not finished yet) owns an unresolved future
  of its own.
\<close>

definition fut_inv :: "session \<Rightarrow> pending list \<Rightarrow> bool" where
  "fut_inv s ps \<longleftrightarrow>
     (\<forall>f out. (f, out) \<in> set (resolves (ss_log s)) \<longleftrightarrow>
        f < length (ss_futures s) \<and> ss_futures s ! f = F_RESOLVED out) \<and>
     distinct (map fst (resolves (ss_log s))) \<and>
     (\<forall>f. InvalidState f \<notin> set (ss_log s)) \<and>
     distinct (map pd_future (map snd (ss_pending s) @ ps)) \<and>
     (\<forall>p \<in> set (map snd (ss_pending s) @ ps). pd_future p < length (ss_futures s) \<and>
        (\<forall>out. ss_futures s ! pd_future p \<noteq> F_RESOLVED out))"

lemma fut_inv_quiet:
  "fut_inv s ps \<Longrightarrow> ss_pending s' = ss_pending s \<Longrightarrow> ss_futures s' = ss_futures s \<Longrightarrow>
    ss_log s' = ss_log s @ es \<Longrightarrow> resolves es = [] \<Longrightarrow> (\<forall>f. InvalidState f \<notin> set es) \<Longrightarrow> fut_inv s' ps"
  by (simp add: fut_inv_def)

lemma fut_inv_bump [simp]: "fut_inv (bump c s) ps = fut_inv s ps"
  by (simp add: fut_inv_def)

lemma fut_inv_transmit: "fut_inv s ps \<Longrightarrow> fut_inv (fst (transmit s b q a)) ps"
  by (rule fut_inv_quiet [where es = "[Transmit b q (snd (transmit s b q a))]"]) (simp_all add: transmit_log)

lemma fut_inv_emit_up: "fut_inv s ps \<Longrightarrow> fut_inv (emit_up u s) ps"
  by (auto simp: fut_inv_def emit_up_def Let_def split: option.splits)

lemma fut_inv_finish:
  assumes "fut_inv s (p # ps)"
  shows "fut_inv (finish s p out) ps"
proof -
  let ?f = "pd_future p"
  have f: "?f < length (ss_futures s)" "\<And>o'. ss_futures s ! ?f \<noteq> F_RESOLVED o'"
    using assms by (auto simp: fut_inv_def)
  have others: "\<forall>p' \<in> set (map snd (ss_pending s) @ ps). pd_future p' \<noteq> ?f"
  proof -
    have "distinct (map pd_future (map snd (ss_pending s) @ p # ps))"
      using assms by (simp only: fut_inv_def)
    then have "?f \<notin> pd_future ` set (map snd (ss_pending s) @ ps)"
      by (simp only: map_append list.map distinct_append) auto
    then show ?thesis by (metis imageI)
  qed
  show ?thesis
  proof (cases "ss_futures s ! ?f")
    case F_PENDING
    let ?s = "finish s p out"
    have fin: "ss_futures ?s = (ss_futures s)[?f := F_RESOLVED out]" "ss_pending ?s = ss_pending s"
      "ss_log ?s = ss_log s @ [Resolve ?f out]"
      using F_PENDING by (simp_all add: finish_def)
    have new: "?f \<notin> fst ` set (resolves (ss_log s))"
      using assms f by (auto simp: fut_inv_def)
    have old: "\<forall>g o'. (g, o') \<in> set (resolves (ss_log s)) \<longleftrightarrow>
        g < length (ss_futures s) \<and> ss_futures s ! g = F_RESOLVED o'"
      using assms by (simp add: fut_inv_def)
    have "(g, o') \<in> set (resolves (ss_log ?s)) \<longleftrightarrow>
        g < length (ss_futures ?s) \<and> ss_futures ?s ! g = F_RESOLVED o'" for g o'
      using old new f(1) by (cases "g = ?f") (force simp: fin)+
    moreover have "distinct (map fst (resolves (ss_log ?s)))" "\<forall>f. InvalidState f \<notin> set (ss_log ?s)"
      "distinct (map pd_future (map snd (ss_pending ?s) @ ps))"
      using assms new by (simp_all add: fin fut_inv_def)
    moreover have "pd_future p' < length (ss_futures ?s) \<and> (\<forall>o'. ss_futures ?s ! pd_future p' \<noteq> F_RESOLVED o')"
      if "p' \<in> set (map snd (ss_pending ?s) @ ps)" for p'
    proof -
      have "pd_future p' \<noteq> ?f" "p' \<in> set (map snd (ss_pending s) @ p # ps)"
        using that others by (auto simp: fin)
      then show ?thesis using assms by (auto simp: fut_inv_def fin)
    qed
    ultimately show ?thesis unfolding fut_inv_def by blast
  next
    case F_CANCELLED
    then show ?thesis using assms by (auto simp: fut_inv_def finish_def)
  next
    case (F_RESOLVED x)
    then show ?thesis using f by simp
  qed
qed

lemma fut_inv_cancel: "fut_inv s ps \<Longrightarrow> fut_inv (cancel s f) ps"
  by (auto simp: fut_inv_def cancel_def nth_list_update)

section \<open>The pending table\<close>

text \<open>A pending send: its packet is the grant it says, addressed to the robot it says.\<close>

definition pending_ok :: "session \<Rightarrow> int \<Rightarrow> pending \<Rightarrow> bool" where
  "pending_ok s q p \<longleftrightarrow> pd_seq p = q \<and> 0 \<le> q \<and> q \<le> SEQ_MAX \<and> 1 \<le> pd_dst p \<and> pd_dst p \<le> SRC_MAX \<and>
     0 \<le> pd_attempts p \<and> pd_attempts p \<le> rp_max_retries (ss_params s) \<and>
     (\<exists>task. decode (pd_payload p) = Inr (Grant (ss_node_id s) q task (pd_dst p)))"

definition pend_inv :: "session \<Rightarrow> bool" where
  "pend_inv s \<longleftrightarrow> od_ok (ss_pending s) \<and> int (length (ss_pending s)) \<le> rp_max_pending (ss_params s) \<and>
     (\<forall>(q, p) \<in> set (ss_pending s). pending_ok s q p)"

definition config_inv :: "session \<Rightarrow> bool" where
  "config_inv s \<longleftrightarrow> 1 \<le> ss_node_id s \<and> ss_node_id s \<le> SRC_MAX \<and> 0 \<le> ss_next_seq s \<and>
     ss_next_seq s \<le> SEQ_MAX \<and> params_post_init (ss_params s) = Inr (ss_params s) \<and>
     dedup_inv (ss_dedup s) \<and> notes_inv (ss_notes s)"

definition sess_inv :: "session \<Rightarrow> bool" where
  "sess_inv s \<longleftrightarrow> config_inv s \<and> pend_inv s \<and> fut_inv s []"

lemma pend_inv_frame:
  "pend_inv s \<Longrightarrow> ss_pending s' = ss_pending s \<Longrightarrow> ss_params s' = ss_params s \<Longrightarrow>
    ss_node_id s' = ss_node_id s \<Longrightarrow> pend_inv s'"
  by (simp add: pend_inv_def pending_ok_def)

lemma sess_inv_init:
  assumes "session_init node link params = Inr s" "params_post_init params = Inr params"
  shows "sess_inv s"
  using assms
  by (auto simp: session_init_def sess_inv_def config_inv_def pend_inv_def fut_inv_def
      ROBOT_ID_NONE_def wire_consts params_post_init_def dest!: dedup_inv_init notes_inv_init
      split: if_splits sum.splits)

section \<open>Every operation keeps the invariant\<close>

lemma seq_range: "0 \<le> (x + 1) AND SEQ_MAX \<and> (x + 1) AND SEQ_MAX \<le> SEQ_MAX"
  by (simp add: and_seq_max) (simp add: SEQ_MAX_def)

lemma config_inv_frame:
  "config_inv s \<Longrightarrow> ss_node_id s' = ss_node_id s \<Longrightarrow> ss_params s' = ss_params s \<Longrightarrow>
    0 \<le> ss_next_seq s' \<and> ss_next_seq s' \<le> SEQ_MAX \<Longrightarrow> dedup_inv (ss_dedup s') \<Longrightarrow> notes_inv (ss_notes s') \<Longrightarrow>
    config_inv s'"
  by (simp add: config_inv_def)

lemma sess_inv_quiet:
  assumes "sess_inv s" "ss_node_id s' = ss_node_id s" "ss_params s' = ss_params s"
    "0 \<le> ss_next_seq s' \<and> ss_next_seq s' \<le> SEQ_MAX" "dedup_inv (ss_dedup s')" "notes_inv (ss_notes s')"
    "ss_pending s' = ss_pending s" "ss_futures s' = ss_futures s"
    "ss_log s' = ss_log s @ es" "resolves es = []" "\<forall>f. InvalidState f \<notin> set es"
  shows "sess_inv s'"
  using assms config_inv_frame [of s s'] pend_inv_frame [of s s'] fut_inv_quiet [of s "[]" s' es]
  by (simp add: sess_inv_def)

lemma sess_inv_parts:
  "sess_inv s \<Longrightarrow> 0 \<le> ss_next_seq s \<and> ss_next_seq s \<le> SEQ_MAX \<and> dedup_inv (ss_dedup s) \<and> notes_inv (ss_notes s)
    \<and> 1 \<le> ss_node_id s \<and> ss_node_id s \<le> SRC_MAX"
  by (simp add: sess_inv_def config_inv_def)

lemma sess_inv_transmit: "sess_inv s \<Longrightarrow> sess_inv (fst (transmit s b q a))"
  by (rule sess_inv_quiet [where s = s and es = "[Transmit b q (snd (transmit s b q a))]"])
    (simp_all add: transmit_log sess_inv_parts)

lemma sess_inv_bump [simp]: "sess_inv (bump c s) = sess_inv s"
  by (simp add: sess_inv_def config_inv_def pend_inv_def pending_ok_def)

lemma sess_inv_next_seq: "sess_inv s \<Longrightarrow> sess_inv (fst (next_seq s))"
  by (rule sess_inv_quiet [where s = s and es = "[]"]) (simp_all add: next_seq_def sess_inv_parts seq_range)

lemma next_seq_simps [simp]:
  "ss_node_id (fst (next_seq s)) = ss_node_id s" "ss_params (fst (next_seq s)) = ss_params s"
  "ss_pending (fst (next_seq s)) = ss_pending s" "ss_dedup (fst (next_seq s)) = ss_dedup s"
  "ss_notes (fst (next_seq s)) = ss_notes s" "ss_futures (fst (next_seq s)) = ss_futures s"
  "ss_log (fst (next_seq s)) = ss_log s" "snd (next_seq s) = ss_next_seq s"
  by (simp_all add: next_seq_def)

lemma fut_inv_new:
  "fut_inv s ps \<Longrightarrow> fut_inv (s\<lparr>ss_futures := ss_futures s @ [F_PENDING]\<rparr>) ps"
  by (auto simp: fut_inv_def nth_append less_Suc_eq)

lemma distinct_od_set:
  "distinct (map (g \<circ> snd) d) \<Longrightarrow> g p \<notin> (g \<circ> snd) ` set d \<Longrightarrow> distinct (map (g \<circ> snd) (od_set k p d))"
proof (induction d)
  case (Cons x d)
  have "(g \<circ> snd) ` set (od_set k p d) \<subseteq> insert (g p) ((g \<circ> snd) ` set d)"
    using set_od_set [of k p d] by auto
  with Cons show ?case by (cases x) auto
qed simp

text \<open>A new send: fresh future, fresh entry.\<close>

lemma fut_inv_add:
  assumes "fut_inv s []" "pd_future p = length (ss_futures s)"
  shows "fut_inv (s\<lparr>ss_futures := ss_futures s @ [F_PENDING], ss_pending := od_set q p (ss_pending s)\<rparr>) []"
proof -
  let ?s = "s\<lparr>ss_futures := ss_futures s @ [F_PENDING]\<rparr>"
  have new: "fut_inv ?s []" by (rule fut_inv_new [OF assms(1)])
  have "pd_future p \<notin> (pd_future \<circ> snd) ` set (ss_pending s)"
    using assms by (force simp: fut_inv_def)
  then have "distinct (map (pd_future \<circ> snd) (od_set q p (ss_pending s)))"
    using assms(1) by (intro distinct_od_set) (simp_all add: fut_inv_def)
  moreover have "pd_future p' < length (ss_futures ?s) \<and> (\<forall>o'. ss_futures ?s ! pd_future p' \<noteq> F_RESOLVED o')"
    if "p' \<in> snd ` set (od_set q p (ss_pending s))" for p'
  proof (cases "p' = p")
    case True
    then show ?thesis by (simp add: assms(2))
  next
    case False
    then have "p' \<in> set (map snd (ss_pending ?s) @ [])"
      using that set_od_set [of q p "ss_pending s"] by force
    then show ?thesis using new by (auto simp: fut_inv_def)
  qed
  ultimately show ?thesis using new by (simp add: fut_inv_def)
qed

lemma grant_payload:
  assumes "encode (Grant s q t d) maxb = Inr b"
  shows "decode b = Inr (Grant s q t d)" "fields_ok (Grant s q t d)"
  using decode_encode(1) [OF assms] encode_Inr [OF assms] by (simp_all add: names_place_def targeted_types)

lemma reliable_grant:
  "is_reliable msg \<Longrightarrow> addressee_of msg = None \<or> addressee_of msg = Some dst \<Longrightarrow>
    \<exists>s q t. msg = Grant s q t dst"
  by (cases msg) (auto simp: is_reliable_iff addressee_of_def addressee_field_def)

lemma sess_inv_send_reliable [inv_step]:
  assumes inv: "sess_inv s"
  shows "sess_inv (fst (send_reliable s dst msg now))"
proof (cases "is_reliable msg \<and> 1 \<le> dst \<and> dst \<le> SRC_MAX \<and> (addressee_of msg = None \<or> addressee_of msg = Some dst)")
  case False
  then have "fst (send_reliable s dst msg now) = s" by (auto simp: send_reliable_def)
  with inv show ?thesis by simp
next
  case ok: True
  then obtain s' q' t where msg: "msg = Grant s' q' t dst" using reliable_grant by blast
  let ?f = "length (ss_futures s)"
  let ?s0 = "s\<lparr>ss_futures := ss_futures s @ [F_PENDING]\<rparr>"
  let ?s1 = "fst (next_seq ?s0)" and ?q = "ss_next_seq s"
  have f0: "fut_inv ?s0 []" using inv by (simp add: sess_inv_def fut_inv_new)
  have inv0: "sess_inv ?s0"
    using inv f0 config_inv_frame [of s ?s0] pend_inv_frame [of s ?s0] by (simp add: sess_inv_def config_inv_def)
  have notack: "\<not> is_ack msg" "is_reliable msg" "addressee_of msg = Some dst" "1 \<le> dst" "dst \<le> SRC_MAX"
    using ok by (simp_all add: msg is_ack_def addressee_of_def addressee_field_def)
  show ?thesis
  proof (cases "int (length (ss_pending s)) \<ge> rp_max_pending (ss_params s)")
    case True
    let ?p = "\<lparr>pd_seq = 0, pd_dst = 0, pd_payload = [], pd_future = ?f, pd_attempts = 0,
      pd_deadline = 0, pd_kind = GRANT, pd_priority = 0\<rparr>"
    have "fut_inv (bump Tx_rejected ?s0) [?p]"
      using f0 inv by (auto simp: fut_inv_def sess_inv_def)
    from fut_inv_finish [OF this, of FAILED]
    have "fut_inv (emit (Resolve ?f FAILED)
        ((bump Tx_rejected ?s0)\<lparr>ss_futures := (ss_futures ?s0)[?f := F_RESOLVED FAILED]\<rparr>)) []"
      by (simp add: finish_def)
    then show ?thesis
      using inv0 notack True
      by (simp add: send_reliable_def Let_def sess_inv_def config_inv_def pend_inv_def pending_ok_def)
  next
    case False
    show ?thesis
    proof (cases "encode (set_header (ss_node_id s) ?q msg) (rp_max_payload_bytes (ss_params s))")
      case (Inl e)
      then show ?thesis
        using sess_inv_next_seq [OF inv0] notack False
        by (simp add: send_reliable_def Let_def split_beta)
    next
      case (Inr b)
      let ?p = "\<lparr>pd_seq = ?q, pd_dst = dst, pd_payload = b, pd_future = ?f, pd_attempts = 0,
        pd_deadline = now + rp_retransmit_timeout_sec (ss_params s), pd_kind = type_of msg,
        pd_priority = priority_of msg\<rparr>"
      let ?s2 = "bump Tx_reliable (?s1\<lparr>ss_pending := od_set ?q ?p (ss_pending s)\<rparr>)"
      have b: "decode b = Inr (Grant (ss_node_id s) ?q t dst)"
        using grant_payload(1) Inr by (simp add: msg)
      have "fut_inv ?s2 []"
        using fut_inv_add [of s ?p ?q] inv by (simp add: sess_inv_def fut_inv_def)
      moreover have "pending_ok ?s2 ?q ?p"
        using ok b inv by (simp add: pending_ok_def sess_inv_def config_inv_def params_post_init_def
            split: if_splits)
      then have "pend_inv ?s2"
        using inv False set_od_set [of ?q ?p "ss_pending s"]
        by (fastforce simp: pend_inv_def sess_inv_def od_ok_set length_od_set pending_ok_def)
      moreover have "config_inv ?s2"
        using inv sess_inv_next_seq [OF inv0] by (simp add: sess_inv_def config_inv_def)
      ultimately have "sess_inv ?s2" by (simp add: sess_inv_def)
      from sess_inv_transmit [OF this] show ?thesis
        using notack False Inr by (simp add: send_reliable_def Let_def split_beta)
    qed
  qed
qed

lemma sess_inv_send_broadcast [inv_step]:
  assumes "sess_inv s"
  shows "sess_inv (fst (send_broadcast s msg))"
  using sess_inv_next_seq [OF assms] sess_inv_transmit
  by (auto simp: send_broadcast_def Let_def split_beta assms split: sum.splits)

lemma sess_inv_broadcast_all: "sess_inv s \<Longrightarrow> sess_inv (fst (broadcast_all s ms))"
proof (induction ms arbitrary: s)
  case (Cons m ms)
  then show ?case
    using sess_inv_send_broadcast [OF Cons.prems, of m] by (auto split: prod.splits sum.splits) 
qed simp

lemma sess_inv_send_note [inv_step]: "sess_inv s \<Longrightarrow> sess_inv (fst (send_note s task t nid))"
  using sess_inv_broadcast_all [of s]
  by (auto simp: send_note_def Let_def split: sum.splits prod.splits option.splits) (metis fst_conv)+

text \<open>The futures the session still owes an answer.\<close>

definition owned :: "session \<Rightarrow> pending list \<Rightarrow> nat list" where
  "owned s ps = map pd_future (map snd (ss_pending s) @ ps)"

lemma fut_inv_owned:
  "fut_inv s ps \<longleftrightarrow>
     (\<forall>f out. (f, out) \<in> set (resolves (ss_log s)) \<longleftrightarrow>
        f < length (ss_futures s) \<and> ss_futures s ! f = F_RESOLVED out) \<and>
     distinct (map fst (resolves (ss_log s))) \<and>
     (\<forall>f. InvalidState f \<notin> set (ss_log s)) \<and> distinct (owned s ps) \<and>
     (\<forall>f \<in> set (owned s ps). f < length (ss_futures s) \<and> (\<forall>out. ss_futures s ! f \<noteq> F_RESOLVED out))"
  by (auto simp: fut_inv_def owned_def)

lemma fut_inv_cong:
  assumes "fut_inv s ps" "mset (owned s' ps') = mset (owned s ps)"
    "ss_futures s' = ss_futures s" "ss_log s' = ss_log s"
  shows "fut_inv s' ps'"
  using assms mset_eq_imp_distinct_iff [OF assms(2)] mset_eq_setD [OF assms(2)]
  unfolding fut_inv_owned by metis

lemma od_get_split:
  assumes "od_ok d" "od_get d k = Some v"
  obtains a b where "d = a @ (k, v) # b" "od_del k d = a @ b"
proof -
  obtain a b where d: "d = a @ (k, v) # b"
    using od_get_mem [OF assms(2)] by (meson split_list)
  have "\<not> od_mem a k" "\<not> od_mem b k"
    using assms(1) by (auto simp: d od_ok_def od_mem_def)
  then have "od_del k d = a @ b"
    using od_del_absent [of a k] od_del_absent [of b k] by (simp add: d od_del_append) (simp add: od_del_def)
  with d that show thesis by blast
qed

lemma od_set_split:
  assumes "od_ok (a @ (k, v) # b)"
  shows "od_set k w (a @ (k, v) # b) = a @ (k, w) # b"
  using assms by (induction a) (auto simp: od_ok_def)

text \<open>Removing an entry puts its future in hand; updating it in place changes no future.\<close>

lemma fut_inv_take:
  assumes "fut_inv s ps" "od_ok (ss_pending s)" "od_get (ss_pending s) q = Some p"
  shows "fut_inv (s\<lparr>ss_pending := od_del q (ss_pending s)\<rparr>) (p # ps)"
proof (rule od_get_split [OF assms(2,3)])
  fix a b assume "ss_pending s = a @ (q, p) # b" "od_del q (ss_pending s) = a @ b"
  then show ?thesis by (intro fut_inv_cong [OF assms(1)]) (simp_all add: owned_def)
qed

lemma fut_inv_update:
  assumes "fut_inv s ps" "od_ok (ss_pending s)" "od_get (ss_pending s) q = Some p"
    "pd_future p' = pd_future p"
  shows "fut_inv (s\<lparr>ss_pending := od_set q p' (ss_pending s)\<rparr>) ps"
proof (rule od_get_split [OF assms(2,3)])
  fix a b assume d: "ss_pending s = a @ (q, p) # b"
  then have "od_set q p' (ss_pending s) = a @ (q, p') # b" using assms(2) by (simp add: od_set_split)
  with d assms(4) show ?thesis by (intro fut_inv_cong [OF assms(1)]) (simp_all add: owned_def)
qed

lemma pend_inv_del: "pend_inv s \<Longrightarrow> pend_inv (s\<lparr>ss_pending := od_del q (ss_pending s)\<rparr>)"
  using length_od_del [of q "ss_pending s"]
  by (force simp: pend_inv_def od_ok_del set_od_del pending_ok_def)

section \<open>Inbound frames\<close>

definition sinv :: "session \<Rightarrow> pending list \<Rightarrow> bool" where
  "sinv s ps \<longleftrightarrow> config_inv s \<and> pend_inv s \<and> fut_inv s ps"

lemma sinv_Nil: "sess_inv s = sinv s []"
  by (simp add: sess_inv_def sinv_def)

lemma sinv_bump [simp]: "sinv (bump c s) ps = sinv s ps"
  by (simp add: sinv_def config_inv_def pend_inv_def pending_ok_def)

lemma sinv_finish: "sinv s (p # ps) \<Longrightarrow> sinv (finish s p out) ps"
  using fut_inv_finish [of s p ps out]
  by (simp add: sinv_def config_inv_def pend_inv_def pending_ok_def)

lemma sinv_transmit: "sinv s ps \<Longrightarrow> sinv (fst (transmit s b q a)) ps"
  using fut_inv_transmit [of s ps b q a]
  by (simp add: sinv_def config_inv_def pend_inv_def pending_ok_def)

lemma match_ack_Some:
  assumes "sinv s []" "match_ack s ack = (s', Some p)"
  shows "sinv s' [p]" "m_ack_src ack = ss_node_id s" "od_get (ss_pending s) (m_ack_seq ack) = Some p"
    "m_src ack = pd_dst p" "s' = s\<lparr>ss_pending := od_del (m_ack_seq ack) (ss_pending s)\<rparr>"
proof -
  show *: "m_ack_src ack = ss_node_id s" "od_get (ss_pending s) (m_ack_seq ack) = Some p"
    "m_src ack = pd_dst p" "s' = s\<lparr>ss_pending := od_del (m_ack_seq ack) (ss_pending s)\<rparr>"
    using assms(2) by (auto simp: match_ack_def split: if_splits option.splits)
  have "od_ok (ss_pending s)" using assms(1) by (simp add: sinv_def pend_inv_def)
  then show "sinv s' [p]"
    using fut_inv_take [of s "[]" "m_ack_seq ack" p] pend_inv_del [of s "m_ack_seq ack"] assms(1) *(2)
    by (simp add: *(4) sinv_def config_inv_def)
qed

lemma match_ack_None:
  "sinv s [] \<Longrightarrow> match_ack s ack = (s', None) \<Longrightarrow> sinv s' []"
  by (auto simp: match_ack_def split: if_splits option.splits)

lemma admit_alt:
  "admit s m t =
    (let s1 = s\<lparr>ss_dedup := fst (first_sight (ss_dedup s) (m_src m, m_seq m) t)\<rparr>;
         added = notes_add (ss_notes s) m t
     in if \<not> snd (first_sight (ss_dedup s) (m_src m, m_seq m) t) then (bump Rx_duplicates s1, Inr (None, None))
        else if type_of m = FREEFORM
             then (s1\<lparr>ss_notes := fst added\<rparr>,
                   case snd added of Inl e \<Rightarrow> Inl e | Inr n \<Rightarrow> Inr (None, n))
             else (bump Rx_delivered s1, Inr (Some m, None)))"
proof -
  obtain dc new where f: "first_sight (ss_dedup s) (m_src m, m_seq m) t = (dc, new)" by force
  obtain n r where a: "notes_add (ss_notes s) m t = (n, r)" by force
  show ?thesis by (cases r; cases new; cases "type_of m = FREEFORM") (simp_all add: admit_def f a)
qed

lemma admit_frame:
  "ss_node_id (fst (admit s m t)) = ss_node_id s" "ss_params (fst (admit s m t)) = ss_params s"
  "ss_next_seq (fst (admit s m t)) = ss_next_seq s" "ss_pending (fst (admit s m t)) = ss_pending s"
  "ss_futures (fst (admit s m t)) = ss_futures s" "ss_log (fst (admit s m t)) = ss_log s"
  "ss_dedup (fst (admit s m t)) = fst (first_sight (ss_dedup s) (m_src m, m_seq m) t)"
  "ss_notes (fst (admit s m t)) = ss_notes s \<or> ss_notes (fst (admit s m t)) = fst (notes_add (ss_notes s) m t)"
  by (simp_all add: admit_alt Let_def)

lemma sess_inv_admit:
  assumes "sess_inv s"
  shows "sess_inv (fst (admit s m t))"
proof (rule sess_inv_quiet [where s = s and es = "[]"])
  show "dedup_inv (ss_dedup (fst (admit s m t)))"
    using sess_inv_parts [OF assms] by (simp add: admit_frame dedup_inv_sight)
  show "notes_inv (ss_notes (fst (admit s m t)))"
    using sess_inv_parts [OF assms] admit_frame(8) [of s m t] notes_inv_add [of "ss_notes s" m t] by auto
qed (use assms sess_inv_parts [OF assms] in \<open>simp_all add: admit_frame(1-7)\<close>)

lemma sess_inv_emit_up: "sess_inv s \<Longrightarrow> sess_inv (emit_up u s)"
  using fut_inv_emit_up [of s "[]" u]
  by (simp add: sess_inv_def config_inv_def pend_inv_def pending_ok_def)

lemma encode_ack_state: "fst (encode_ack s m) = fst (next_seq s)"
  by (simp add: encode_ack_def Let_def split_beta)

lemma sess_inv_on_message:
  assumes "sess_inv s"
  shows "sess_inv (fst (on_message s m t))"
proof (cases "is_ack m")
  case True
  have s: "sinv (bump Rx_acks s) []" using assms by (simp add: sinv_Nil)
  obtain s1 r where r: "match_ack (bump Rx_acks s) m = (s1, r)" by force
  show ?thesis
  proof (cases r)
    case None
    then show ?thesis using match_ack_None [OF s] r True by (simp add: on_message_def sinv_Nil)
  next
    case (Some p)
    then have "sinv (bump Tx_delivered s1) [p]" using match_ack_Some(1) [OF s] r by simp
    then show ?thesis using sinv_finish r Some True by (simp add: on_message_def sinv_Nil)
  qed
next
  case False
  have enc: "sess_inv (fst (encode_ack s m))" using sess_inv_next_seq [OF assms] by (simp add: encode_ack_state)
  have up: "sess_inv (fst (admit s' m t))" "sess_inv (emit_up u (fst (admit s' m t)))"
    "sess_inv (emit_up u (fst (transmit (fst (admit s' m t)) b URGENT True)))" if "sess_inv s'" for s' u b
    using that by (auto intro: sess_inv_admit sess_inv_emit_up sess_inv_transmit)
  show ?thesis
    using False assms enc up [OF assms] up [OF enc]
    by (auto simp: on_message_def Let_def split: sum.splits prod.splits option.splits)
qed

lemma sess_inv_on_frame [inv_step]: "sess_inv s \<Longrightarrow> sess_inv (fst (on_frame s b t))"
  using sess_inv_on_message [of "bump Rx_frames s"]
  by (auto simp: on_frame_def Let_def split: sum.splits codec_exn.splits)

section \<open>The retransmission sweep\<close>

lemma sinv_sweep:
  assumes "sinv s ps" "sweep now items s = (s1, rt, ex)" "od_ok items"
    "\<forall>(q, p) \<in> set items. od_get (ss_pending s) q = Some p"
  shows "sinv s1 (ps @ ex)"
  using assms
proof (induction items arbitrary: s ps s1 rt ex)
  case (Cons x items)
  obtain q p where x: "x = (q, p)" by force
  have od: "od_ok (ss_pending s)" using Cons.prems(1) by (simp add: sinv_def pend_inv_def)
  have q: "od_get (ss_pending s) q = Some p" using Cons.prems(4) by (simp add: x)
  have ok: "pending_ok s q p"
    using Cons.prems(1) od_get_mem [OF q] by (auto simp: sinv_def pend_inv_def)
  have rest: "\<forall>(q', p') \<in> set items. q' \<noteq> q \<and> od_get (ss_pending s) q' = Some p'"
    using Cons.prems(3,4) by (auto simp: x od_ok_def) force
  have items: "od_ok items" using Cons.prems(3) by (simp add: od_ok_def)
  consider "pd_deadline p > now" | "\<not> pd_deadline p > now" "pd_attempts p \<ge> rp_max_retries (ss_params s)"
    | "\<not> pd_deadline p > now" "\<not> pd_attempts p \<ge> rp_max_retries (ss_params s)" by blast
  then show ?case
  proof cases
    case 1
    then show ?thesis using Cons.IH [OF Cons.prems(1) _ items] Cons.prems(2) rest by (auto simp: x)
  next
    case 2
    let ?s = "bump Tx_failed (s\<lparr>ss_pending := od_del q (ss_pending s)\<rparr>)"
    obtain ex' where ex: "ex = p # ex'" and sw: "sweep now items ?s = (s1, rt, ex')"
      using Cons.prems(2) 2 by (auto simp: x split: prod.splits)
    have "sinv (s\<lparr>ss_pending := od_del q (ss_pending s)\<rparr>) (p # ps)"
      using fut_inv_take [OF _ od q] pend_inv_del [of s q] Cons.prems(1)
      by (simp add: sinv_def config_inv_def)
    then have "sinv ?s (p # ps)" by simp
    from Cons.IH [OF this sw items] have "sinv s1 ((p # ps) @ ex')"
      using rest by (force simp: od_get_del)
    then show ?thesis
      using fut_inv_cong [of s1 "(p # ps) @ ex'" s1 "ps @ ex"] by (simp add: sinv_def owned_def ex)
  next
    case 3
    let ?p = "p\<lparr>pd_attempts := pd_attempts p + 1,
      pd_deadline := now + interval (ss_params s) (pd_attempts p + 1)\<rparr>"
    let ?s = "bump Tx_retransmits (s\<lparr>ss_pending := od_set q ?p (ss_pending s)\<rparr>)"
    obtain rt' where sw: "sweep now items ?s = (s1, rt', ex)"
      using Cons.prems(2) 3 by (auto simp: x split: prod.splits)
    have "pending_ok ?s q ?p" using ok 3 by (simp add: pending_ok_def)
    moreover have "od_mem (ss_pending s) q" using q od_get_None [of "ss_pending s" q] by auto
    ultimately have "pend_inv ?s"
      using Cons.prems(1) set_od_set [of q ?p "ss_pending s"] od
      by (fastforce simp: sinv_def pend_inv_def od_ok_set length_od_set pending_ok_def)
    then have "sinv ?s ps"
      using fut_inv_update [OF _ od q, of ps ?p] Cons.prems(1) by (simp add: sinv_def config_inv_def)
    from Cons.IH [OF this sw items] show ?thesis using rest by (force simp: od_get_set)
  qed
qed simp

lemma sinv_transmits: "sinv s ps \<Longrightarrow> sinv (foldl (\<lambda>s (b, q). fst (transmit s b q False)) s rt) ps"
  by (induction rt arbitrary: s) (auto simp: sinv_transmit)

lemma sinv_finishes: "sinv s ex \<Longrightarrow> sinv (foldl (\<lambda>s p. finish s p FAILED) s ex) []"
  by (induction ex arbitrary: s) (auto simp: sinv_finish)

lemma sess_inv_tick [inv_step]:
  assumes "sess_inv s"
  shows "sess_inv (tick s now)"
proof -
  obtain s1 rt ex where sw: "sweep now (ss_pending s) s = (s1, rt, ex)" by (metis prod_cases3)
  have od: "od_ok (ss_pending s)" using assms by (simp add: sess_inv_def pend_inv_def)
  have "sinv s1 ([] @ ex)"
    using sinv_sweep [OF assms [unfolded sinv_Nil] sw od] od od_get_iff by fastforce
  then have "sinv (s1\<lparr>ss_dedup := fst (dedup_prune (ss_dedup s1) now),
      ss_notes := notes_prune (ss_notes s1) now\<rparr>) ex"
    by (simp add: sinv_def config_inv_def pend_inv_def pending_ok_def fut_inv_def dedup_inv_prune notes_inv_prune)
  then show ?thesis
    unfolding sinv_Nil by (simp add: tick_def sw sinv_transmits sinv_finishes)
qed

lemma sess_inv_cancel [inv_step]: "sess_inv s \<Longrightarrow> sess_inv (cancel s f)"
  using fut_inv_cancel [of s "[]" f]
  by (simp add: sess_inv_def config_inv_def pend_inv_def pending_ok_def cancel_def)

lemma sess_inv_completed [inv_step]: "sess_inv s \<Longrightarrow> sess_inv (fst (session_completed_note s src task now))"
  by (rule sess_inv_quiet [where s = s and es = "[]"])
    (simp_all add: session_completed_note_def notes_completed_def Let_def sess_inv_parts notes_inv_prune)

section \<open>What a tick does\<close>

definition expired_now :: "reliability_params \<Rightarrow> secs \<Rightarrow> pending \<Rightarrow> bool" where
  "expired_now prm now p \<longleftrightarrow> pd_deadline p \<le> now \<and> rp_max_retries prm \<le> pd_attempts p"

definition retry_now :: "reliability_params \<Rightarrow> secs \<Rightarrow> pending \<Rightarrow> bool" where
  "retry_now prm now p \<longleftrightarrow> pd_deadline p \<le> now \<and> pd_attempts p < rp_max_retries prm"

definition retried :: "reliability_params \<Rightarrow> secs \<Rightarrow> pending \<Rightarrow> pending" where
  "retried prm now p = p\<lparr>pd_attempts := pd_attempts p + 1,
     pd_deadline := now + interval prm (pd_attempts p + 1)\<rparr>"

definition aged :: "reliability_params \<Rightarrow> secs \<Rightarrow> pending \<Rightarrow> pending option" where
  "aged prm now p = (if expired_now prm now p then None
     else if retry_now prm now p then Some (retried prm now p) else Some p)"

lemma sweep_spec:
  assumes "sweep now items s = (s1, rt, ex)" "od_ok items"
    "\<forall>(q, p) \<in> set items. od_get (ss_pending s) q = Some p"
  shows "rt = map (\<lambda>(q, p). (pd_payload p, pd_priority p)) (filter (retry_now (ss_params s) now \<circ> snd) items)"
    and "ex = map snd (filter (expired_now (ss_params s) now \<circ> snd) items)"
    and "ss_futures s1 = ss_futures s" and "ss_log s1 = ss_log s" and "ss_params s1 = ss_params s"
    and "od_get (ss_pending s1) j = (case od_get items j of
           Some p \<Rightarrow> aged (ss_params s) now p | None \<Rightarrow> od_get (ss_pending s) j)"
proof -
  have "rt = map (\<lambda>(q, p). (pd_payload p, pd_priority p)) (filter (retry_now (ss_params s) now \<circ> snd) items) \<and>
      ex = map snd (filter (expired_now (ss_params s) now \<circ> snd) items) \<and>
      ss_futures s1 = ss_futures s \<and> ss_log s1 = ss_log s \<and> ss_params s1 = ss_params s \<and>
      (\<forall>j. od_get (ss_pending s1) j = (case od_get items j of
         Some p \<Rightarrow> aged (ss_params s) now p | None \<Rightarrow> od_get (ss_pending s) j))"
    using assms
  proof (induction items arbitrary: s s1 rt ex)
    case Nil
    then show ?case by (auto simp: od_get_def)
  next
    case (Cons x items)
    obtain q p where x: "x = (q, p)" by force
    have q: "od_get (ss_pending s) q = Some p" using Cons.prems(3) by (simp add: x)
    have rest: "\<forall>(q', p') \<in> set items. q' \<noteq> q \<and> od_get (ss_pending s) q' = Some p'"
      using Cons.prems(2,3) by (auto simp: x od_ok_def) force
    have items: "od_ok items" using Cons.prems(2) by (simp add: od_ok_def)
    have absent: "od_get items q = None"
      using Cons.prems(2) by (simp add: x od_get_None od_mem_def od_ok_def)
    have get: "od_get ((q, p) # items) j = (if j = q then Some p else od_get items j)" for j
      by (auto simp: od_get_def)
    consider "pd_deadline p > now" | "expired_now (ss_params s) now p" | "retry_now (ss_params s) now p"
      by (auto simp: expired_now_def retry_now_def) linarith
    then show ?case
    proof cases
      case 1
      then have n: "\<not> expired_now (ss_params s) now p" "\<not> retry_now (ss_params s) now p"
        by (auto simp: expired_now_def retry_now_def)
      have "sweep now items s = (s1, rt, ex)" using Cons.prems(1) 1 by (simp add: x)
      moreover have "\<forall>(q', p') \<in> set items. od_get (ss_pending s) q' = Some p'"
        using rest by auto
      ultimately show ?thesis
        using Cons.IH [of s s1 rt ex] items n q absent by (auto simp: get aged_def x)
    next
      case 2
      let ?s = "bump Tx_failed (s\<lparr>ss_pending := od_del q (ss_pending s)\<rparr>)"
      have n: "\<not> retry_now (ss_params s) now p" using 2 by (auto simp: expired_now_def retry_now_def)
      obtain ex' where ex: "ex = p # ex'" and sw: "sweep now items ?s = (s1, rt, ex')"
        using Cons.prems(1) 2 by (auto simp: x expired_now_def split: prod.splits if_splits)
      have "\<forall>(q', p') \<in> set items. od_get (ss_pending ?s) q' = Some p'"
        using rest by (auto simp: od_get_del)
      from Cons.IH [OF sw items this] absent 2 n show ?thesis
        by (auto simp: get ex aged_def od_get_del x split: option.splits)
    next
      case 3
      let ?p = "retried (ss_params s) now p"
      let ?s = "bump Tx_retransmits (s\<lparr>ss_pending := od_set q ?p (ss_pending s)\<rparr>)"
      have n: "\<not> expired_now (ss_params s) now p" using 3 by (auto simp: expired_now_def retry_now_def)
      obtain rt' where rt: "rt = (pd_payload p, pd_priority p) # rt'"
        and sw: "sweep now items ?s = (s1, rt', ex)"
        using Cons.prems(1) 3 by (auto simp: x retry_now_def retried_def split: prod.splits if_splits)
      have "\<forall>(q', p') \<in> set items. od_get (ss_pending ?s) q' = Some p'"
        using rest by (auto simp: od_get_set)
      from Cons.IH [OF sw items this] absent 3 n show ?thesis
        by (auto simp: get rt aged_def od_get_set x split: option.splits)
    qed
  qed
  then show "rt = map (\<lambda>(q, p). (pd_payload p, pd_priority p)) (filter (retry_now (ss_params s) now \<circ> snd) items)"
    "ex = map snd (filter (expired_now (ss_params s) now \<circ> snd) items)"
    "ss_futures s1 = ss_futures s" "ss_log s1 = ss_log s" "ss_params s1 = ss_params s"
    "od_get (ss_pending s1) j = (case od_get items j of
       Some p \<Rightarrow> aged (ss_params s) now p | None \<Rightarrow> od_get (ss_pending s) j)"
    by auto
qed

text \<open>How often a packet was handed to the link.\<close>

fun sent_times :: "byte list \<Rightarrow> effect list \<Rightarrow> nat" where
  "sent_times b [] = 0"
| "sent_times b (Transmit b' q ok # es) = (if b' = b then 1 else 0) + sent_times b es"
| "sent_times b (_ # es) = sent_times b es"

lemma sent_times_append [simp]: "sent_times b (xs @ ys) = sent_times b xs + sent_times b ys"
  by (induction b xs rule: sent_times.induct) auto

lemma transmits_spec:
  "ss_futures (foldl (\<lambda>s (b, q). fst (transmit s b q False)) s rt) = ss_futures s"
  "ss_pending (foldl (\<lambda>s (b, q). fst (transmit s b q False)) s rt) = ss_pending s"
  "sent_times c (ss_log (foldl (\<lambda>s (b, q). fst (transmit s b q False)) s rt)) =
    sent_times c (ss_log s) + length (filter (\<lambda>(b, q). b = c) rt)"
  by (induction rt arbitrary: s) (auto simp: transmit_log)

lemma finishes_spec:
  "ss_pending (foldl (\<lambda>s p. finish s p FAILED) s ex) = ss_pending s"
  "sent_times c (ss_log (foldl (\<lambda>s p. finish s p FAILED) s ex)) = sent_times c (ss_log s)"
  "\<forall>p \<in> set ex. pd_future p < length (ss_futures s) \<Longrightarrow>
    ss_futures (foldl (\<lambda>s p. finish s p FAILED) s ex) ! f =
      (if f \<in> pd_future ` set ex \<and> ss_futures s ! f = F_PENDING then F_RESOLVED FAILED else ss_futures s ! f)"
proof (induction ex arbitrary: s)
  case (Cons p ex)
  { case 1 show ?case using Cons.IH(1) by simp }
  { case 2 show ?case using Cons.IH(2) by (simp add: finish_def split: fut_state.splits) }
  { case 3
    then have "\<forall>p' \<in> set ex. pd_future p' < length (ss_futures (finish s p FAILED))"
      by (auto simp: finish_def split: fut_state.splits)
    from Cons.IH(3) [OF this] 3 show ?case
      by (auto simp: finish_def nth_list_update split: fut_state.splits) }
qed auto

lemma tick_pending:
  assumes "sess_inv s"
  shows "od_get (ss_pending (tick s now)) q =
    (case od_get (ss_pending s) q of None \<Rightarrow> None | Some p \<Rightarrow> aged (ss_params s) now p)"
proof -
  obtain s1 rt ex where sw: "sweep now (ss_pending s) s = (s1, rt, ex)" by (metis prod_cases3)
  have od: "od_ok (ss_pending s)" using assms by (simp add: sess_inv_def pend_inv_def)
  then have get: "\<forall>(q, p) \<in> set (ss_pending s). od_get (ss_pending s) q = Some p"
    using od_get_iff by fastforce
  show ?thesis
    using sweep_spec(6) [OF sw od get, of q]
    by (simp add: tick_def sw finishes_spec transmits_spec split: option.splits)
qed

lemma tick_frame [simp]:
  "ss_params (tick s now) = ss_params s" "ss_node_id (tick s now) = ss_node_id s"
proof -
  obtain s1 rt ex where sw: "sweep now (ss_pending s) s = (s1, rt, ex)" by (metis prod_cases3)
  have a: "ss_params s1 = ss_params s \<and> ss_node_id s1 = ss_node_id s"
    if "sweep now items s = (s1, rt, ex)" for items s s1 rt ex
    using that by (induction items arbitrary: s s1 rt ex) (fastforce split: if_splits prod.splits)+
  have b: "ss_params (foldl (\<lambda>s (b, q). fst (transmit s b q False)) s rt) = ss_params s"
    "ss_node_id (foldl (\<lambda>s (b, q). fst (transmit s b q False)) s rt) = ss_node_id s" for s rt
    by (induction rt arbitrary: s) auto
  have c: "ss_params (foldl (\<lambda>s p. finish s p FAILED) s ex) = ss_params s"
    "ss_node_id (foldl (\<lambda>s p. finish s p FAILED) s ex) = ss_node_id s" for s ex
    by (induction ex arbitrary: s) auto
  show "ss_params (tick s now) = ss_params s" "ss_node_id (tick s now) = ss_node_id s"
    using a [OF sw] by (simp_all add: tick_def sw b c)
qed

text \<open>Different pending sends have different packets.\<close>

lemma payload_unique:
  assumes "sess_inv s" "(q, p) \<in> set (ss_pending s)" "(q', p') \<in> set (ss_pending s)"
    "pd_payload p' = pd_payload p"
  shows "q' = q \<and> p' = p"
proof -
  have "pending_ok s q p" "pending_ok s q' p'" "od_ok (ss_pending s)"
    using assms by (auto simp: sess_inv_def pend_inv_def)
  then have "q' = q" using assms(4) by (auto simp: pending_ok_def)
  then show ?thesis using assms(2,3) \<open>od_ok _\<close> by (metis od_get_iff option.inject)
qed

lemma filter_single:
  assumes "distinct xs" "x \<in> set xs" "\<forall>y \<in> set xs. P y \<longleftrightarrow> y = x \<and> Q"
  shows "length (filter P xs) = (if Q then 1 else 0)"
proof -
  have "filter P xs = filter (\<lambda>y. y = x \<and> Q) xs" using assms(3) by (intro filter_cong) auto
  moreover have "length (filter (\<lambda>y. y = x) xs) = 1"
    using assms(1,2) by (induction xs) (auto simp: filter_empty_conv)
  ultimately show ?thesis by auto
qed

lemma tick_entry:
  assumes inv: "sess_inv s" and q: "od_get (ss_pending s) q = Some p"
  shows "sent_times (pd_payload p) (ss_log (tick s now)) =
      sent_times (pd_payload p) (ss_log s) + (if retry_now (ss_params s) now p then 1 else 0)"
    and "ss_futures (tick s now) ! pd_future p =
      (if expired_now (ss_params s) now p \<and> ss_futures s ! pd_future p = F_PENDING then F_RESOLVED FAILED
       else ss_futures s ! pd_future p)"
proof -
  obtain s1 rt ex where sw: "sweep now (ss_pending s) s = (s1, rt, ex)" by (metis prod_cases3)
  have od: "od_ok (ss_pending s)" using inv by (simp add: sess_inv_def pend_inv_def)
  then have get: "\<forall>(q, p) \<in> set (ss_pending s). od_get (ss_pending s) q = Some p"
    using od_get_iff by fastforce
  note spec = sweep_spec [OF sw od get]
  have mem: "(q, p) \<in> set (ss_pending s)" using od_get_mem [OF q] .
  have d: "distinct (ss_pending s)" using od by (simp add: od_ok_def distinct_map)
  have "length (filter (\<lambda>x. retry_now (ss_params s) now (snd x) \<and> pd_payload (snd x) = pd_payload p) (ss_pending s))
      = (if retry_now (ss_params s) now p then 1 else 0)"
  proof (intro filter_single [OF d mem] ballI)
    fix y assume y: "y \<in> set (ss_pending s)"
    obtain q' p' where y': "y = (q', p')" by force
    show "(retry_now (ss_params s) now (snd y) \<and> pd_payload (snd y) = pd_payload p) \<longleftrightarrow>
        (y = (q, p) \<and> retry_now (ss_params s) now p)"
      using payload_unique [OF inv mem, of q' p'] y by (auto simp: y')
  qed
  then have rt: "length (filter (\<lambda>(b, q). b = pd_payload p) rt) = (if retry_now (ss_params s) now p then 1 else 0)"
    by (simp add: spec(1) filter_map comp_def split_beta conj_commute)
  show "sent_times (pd_payload p) (ss_log (tick s now)) =
      sent_times (pd_payload p) (ss_log s) + (if retry_now (ss_params s) now p then 1 else 0)"
    using rt spec(4) by (simp add: tick_def sw finishes_spec transmits_spec)
  have futs: "\<forall>p \<in> set ex. pd_future p < length (ss_futures s)"
    using inv by (auto simp: spec(2) sess_inv_def fut_inv_def)
  have "pd_future p \<in> pd_future ` set ex \<longleftrightarrow> expired_now (ss_params s) now p"
  proof
    assume "pd_future p \<in> pd_future ` set ex"
    then obtain x where x: "x \<in> set (ss_pending s)" "expired_now (ss_params s) now (snd x)"
      "pd_future (snd x) = pd_future p" by (auto simp: spec(2))
    have "inj_on (pd_future \<circ> snd) (set (ss_pending s))"
      using inv by (simp add: sess_inv_def fut_inv_def distinct_map)
    from inj_onD [OF this _ x(1) mem] x(3) have "x = (q, p)" by simp
    with x show "expired_now (ss_params s) now p" by simp
  qed (use mem in \<open>force simp: spec(2)\<close>)
  then show "ss_futures (tick s now) ! pd_future p =
      (if expired_now (ss_params s) now p \<and> ss_futures s ! pd_future p = F_PENDING then F_RESOLVED FAILED
       else ss_futures s ! pd_future p)"
    using futs spec(3) by (simp add: tick_def sw finishes_spec transmits_spec)
qed

section \<open>Histories\<close>

datatype session_op =
  SendReliable int message secs
| SendBroadcast message
| SendNote int text_str "int option"
| OnFrame "byte list" secs
| Tick secs
| CancelFuture nat
| CompletedNote int int secs

fun session_step :: "session \<Rightarrow> session_op \<Rightarrow> session" where
  "session_step s (SendReliable dst m now) = fst (send_reliable s dst m now)"
| "session_step s (SendBroadcast m) = fst (send_broadcast s m)"
| "session_step s (SendNote task t nid) = fst (send_note s task t nid)"
| "session_step s (OnFrame b now) = fst (on_frame s b now)"
| "session_step s (Tick now) = tick s now"
| "session_step s (CancelFuture f) = cancel s f"
| "session_step s (CompletedNote src task now) = fst (session_completed_note s src task now)"

lemma sess_inv_step: "sess_inv s \<Longrightarrow> sess_inv (session_step s x)"
  by (cases x) (simp_all add: inv_step)

lemma sess_inv_run: "sess_inv s \<Longrightarrow> sess_inv (run session_step s xs)"
  by (rule run_invariant) (auto intro: sess_inv_step)

lemma broadcast_frame [simp]:
  "ss_params (fst (send_broadcast s m)) = ss_params s" "ss_node_id (fst (send_broadcast s m)) = ss_node_id s"
  by (auto simp: send_broadcast_def Let_def split_beta split: sum.splits)

lemma broadcast_all_frame [simp]:
  "ss_params (fst (broadcast_all s ms)) = ss_params s" "ss_node_id (fst (broadcast_all s ms)) = ss_node_id s"
proof (induction ms arbitrary: s)
  case (Cons m ms)
  { case 1 show ?case
      using Cons.IH broadcast_frame [of s m] by (cases "send_broadcast s m"; cases "snd (send_broadcast s m)") auto }
  { case 2 show ?case
      using Cons.IH broadcast_frame [of s m] by (cases "send_broadcast s m"; cases "snd (send_broadcast s m)") auto }
qed auto

lemma send_note_state:
  "fst (send_note s task t nid) = s \<or> (\<exists>ms. fst (send_note s task t nid) = fst (broadcast_all s ms))"
  by (auto simp: send_note_def Let_def split: sum.splits prod.splits option.splits) (metis fst_conv)+

lemma reliable_frame [simp]:
  "ss_params (fst (send_reliable s d m t)) = ss_params s" "ss_node_id (fst (send_reliable s d m t)) = ss_node_id s"
  by (auto simp: send_reliable_def Let_def split_beta split: sum.splits)

lemma match_ack_frame:
  "ss_params (fst (match_ack s a)) = ss_params s" "ss_node_id (fst (match_ack s a)) = ss_node_id s"
  by (auto simp: match_ack_def split: option.splits)

lemma encode_ack_frame [simp]:
  "ss_params (fst (encode_ack s m)) = ss_params s" "ss_node_id (fst (encode_ack s m)) = ss_node_id s"
  by (simp_all add: encode_ack_state)

lemma on_message_frame:
  "ss_params (fst (on_message s m t)) = ss_params s \<and> ss_node_id (fst (on_message s m t)) = ss_node_id s"
proof (cases "is_ack m")
  case True
  then show ?thesis
    using match_ack_frame [of "bump Rx_acks s" m]
    by (auto simp: on_message_def split: prod.splits option.splits)
next
  case False
  obtain s1 r where e: "encode_ack s m = (s1, r)" by force
  have s1: "ss_params s1 = ss_params s" "ss_node_id s1 = ss_node_id s"
    using encode_ack_frame [of s m] by (simp_all add: e)
  show ?thesis
    using False s1 admit_frame(1,2) [of s m t] admit_frame(1,2) [of s1 m t]
    by (auto simp: on_message_def Let_def e split: sum.splits prod.splits option.splits)
qed

lemma step_frame: "ss_params (session_step s x) = ss_params s \<and> ss_node_id (session_step s x) = ss_node_id s"
proof (cases x)
  case (SendNote task t nid)
  then show ?thesis using send_note_state [of s task t nid] by auto
next
  case (OnFrame b now)
  then show ?thesis
    using on_message_frame [of "bump Rx_frames s"]
    by (auto simp: on_frame_def Let_def split: sum.splits codec_exn.splits)
qed (simp_all add: cancel_def session_completed_note_def split_beta)

lemma run_frame:
  "ss_params (run session_step s xs) = ss_params s \<and> ss_node_id (run session_step s xs) = ss_node_id s"
  by (induction xs arbitrary: s) (simp_all add: step_frame)

section \<open>A campaign ends\<close>

text \<open>Tick times that leave each retransmission the longest wait the parameters allow.\<close>

fun spaced :: "secs \<Rightarrow> secs \<Rightarrow> secs list \<Rightarrow> bool" where
  "spaced gap u [] \<longleftrightarrow> True"
| "spaced gap u (t # ts) \<longleftrightarrow> u \<le> t \<and> spaced gap (t + gap) ts"

lemma spaced_mono: "spaced gap u ts \<Longrightarrow> u' \<le> u \<Longrightarrow> spaced gap u' ts"
  by (cases ts) auto

lemma campaign:
  assumes "sess_inv s" "od_get (ss_pending s) q = Some p" "ss_futures s ! pd_future p = F_PENDING"
    "spaced (rp_max_retransmit_timeout_sec (ss_params s)) (pd_deadline p) ts"
    "int (length ts) = rp_max_retries (ss_params s) - pd_attempts p + 1"
  shows "ss_futures (foldl tick s ts) ! pd_future p = F_RESOLVED FAILED \<and>
    od_get (ss_pending (foldl tick s ts)) q = None \<and>
    sent_times (pd_payload p) (ss_log (foldl tick s ts)) =
      sent_times (pd_payload p) (ss_log s) + nat (rp_max_retries (ss_params s) - pd_attempts p)"
  using assms
proof (induction "nat (rp_max_retries (ss_params s) - pd_attempts p)" arbitrary: s p ts)
  case 0
  have "pending_ok s q p"
    using 0(2,3) od_get_mem by (fastforce simp: sess_inv_def pend_inv_def)
  then have att: "pd_attempts p = rp_max_retries (ss_params s)"
    using 0(1) by (simp add: pending_ok_def)
  with 0(6) obtain t where ts: "ts = [t]" by (auto simp: length_Suc_conv)
  have "expired_now (ss_params s) t p" "\<not> retry_now (ss_params s) t p"
    using 0(5) att by (simp_all add: ts expired_now_def retry_now_def)
  then show ?case
    using tick_entry [OF 0(2,3), of t] tick_pending [OF 0(2), of t q] 0(3,4) att
    by (simp add: ts aged_def)
next
  case (Suc n)
  have att: "pd_attempts p < rp_max_retries (ss_params s)" using Suc(2) by simp
  with Suc(7) obtain t ts' where ts: "ts = t # ts'" by (cases ts) auto
  have t: "pd_deadline p \<le> t" "spaced (rp_max_retransmit_timeout_sec (ss_params s))
      (t + rp_max_retransmit_timeout_sec (ss_params s)) ts'"
    using Suc(6) by (simp_all add: ts)
  let ?s = "tick s t" and ?p = "retried (ss_params s) t p"
  have due: "retry_now (ss_params s) t p" "\<not> expired_now (ss_params s) t p"
    using att t(1) by (simp_all add: retry_now_def expired_now_def)
  have p: "od_get (ss_pending ?s) q = Some ?p"
    using tick_pending [OF Suc(3), of t q] Suc(4) due by (simp add: aged_def)
  have f: "ss_futures ?s ! pd_future ?p = F_PENDING"
    using tick_entry(2) [OF Suc(3,4), of t] Suc(5) due by (simp add: retried_def)
  have sp: "spaced (rp_max_retransmit_timeout_sec (ss_params ?s)) (pd_deadline ?p) ts'"
    unfolding tick_frame using t(2) by (rule spaced_mono) (simp add: retried_def interval_def)
  have len: "int (length ts') = rp_max_retries (ss_params ?s) - pd_attempts ?p + 1"
    using Suc(7) by (simp add: ts retried_def)
  have n: "n = nat (rp_max_retries (ss_params ?s) - pd_attempts ?p)"
    using Suc(2) by (simp add: retried_def)
  have same: "pd_payload ?p = pd_payload p" "pd_future ?p = pd_future p"
    "pd_attempts ?p = pd_attempts p + 1" by (simp_all add: retried_def)
  from Suc(1) [OF n sess_inv_tick [OF Suc(3)] p f sp len] show ?case
    using tick_entry(1) [OF Suc(3,4), of t] due att by (simp add: ts same)
qed

section \<open>What an inbound frame does\<close>

lemma ack_encodes:
  assumes "sess_inv s" "0 \<le> m_src m" "m_src m \<le> SRC_MAX" "0 \<le> m_seq m" "m_seq m \<le> SEQ_MAX"
    "7 \<le> rp_max_payload_bytes (ss_params s)"
  obtains b where "encode_ack s m = (fst (next_seq s), Inr b)"
    "decode b = Inr (Ack (ss_node_id s) (ss_next_seq s) (m_src m) (m_seq m))"
proof -
  let ?a = "Ack (ss_node_id s) (ss_next_seq s) (m_src m) (m_seq m)"
  have "int (message_size ACK) = 7"
    by (simp add: message_size_def payload_format_def calcsize_def fld_def HEADER_BYTES_def)
  then obtain b where b: "encode ?a (rp_max_payload_bytes (ss_params s)) = Inr b"
    using encode_ok [of ?a "rp_max_payload_bytes (ss_params s)"] assms sess_inv_parts [OF assms(1)] by auto
  have "decode b = Inr ?a"
    using decode_encode(1) [OF b] by (simp add: names_place_def targeted_types)
  with b that show thesis by (simp add: encode_ack_def Let_def split_beta)
qed

lemma decoded_header:
  assumes "decode b = Inr m"
  shows "0 \<le> m_src m \<and> m_src m \<le> SRC_MAX \<and> 0 \<le> m_seq m \<and> m_seq m \<le> SEQ_MAX"
  using fields_ok_header encode_Inr [OF encode_decode [OF assms]] by fastforce

lemma admit_never_raises: "sess_inv s \<Longrightarrow> \<exists>up. snd (admit s m t) = Inr up"
  using notes_add_never_raises [of "ss_notes s" m t]
  by (auto simp: admit_alt Let_def sess_inv_parts)

lemma on_message_never_raises:
  assumes "sess_inv s" "decode b = Inr m" "7 \<le> rp_max_payload_bytes (ss_params s)"
  shows "snd (on_message s m t) = None"
proof -
  obtain a where a: "encode_ack s m = (fst (next_seq s), Inr a)"
    using ack_encodes [OF assms(1), of m] decoded_header [OF assms(2)] assms(3) by metis
  obtain u where u: "snd (admit (fst (next_seq s)) m t) = Inr u"
    using admit_never_raises [OF sess_inv_next_seq [OF assms(1)]] by blast
  obtain v where v: "snd (admit s m t) = Inr v"
    using admit_never_raises [OF assms(1)] by blast
  show ?thesis
    using a u v by (auto simp: on_message_def Let_def split: prod.splits option.splits sum.splits)
qed

definition reachable_session :: "int \<Rightarrow> (nat \<Rightarrow> bool) \<Rightarrow> reliability_params \<Rightarrow> session \<Rightarrow> bool" where
  "reachable_session node link params s \<longleftrightarrow> params_post_init params = Inr params \<and>
     (\<exists>s0 ops. session_init node link params = Inr s0 \<and> s = run session_step s0 ops)"

lemma reachable_inv:
  assumes "reachable_session node link params s"
  shows "sess_inv s \<and> ss_params s = params \<and> ss_node_id s = node"
proof -
  obtain s0 ops where s: "session_init node link params = Inr s0" "s = run session_step s0 ops"
    "params_post_init params = Inr params" using assms by (auto simp: reachable_session_def)
  have "ss_params s0 = params" "ss_node_id s0 = node"
    using s(1) by (auto simp: session_init_def split: if_splits sum.splits)
  with sess_inv_run [OF sess_inv_init [OF s(1,3)], of ops] run_frame [of s0 ops] show ?thesis
    by (simp add: s(2))
qed

lemma reachable_step:
  assumes "reachable_session node link params s"
  shows "reachable_session node link params (session_step s x)"
proof -
  obtain s0 ops where "session_init node link params = Inr s0" "s = run session_step s0 ops"
    "params_post_init params = Inr params" using assms by (auto simp: reachable_session_def)
  then show ?thesis
    unfolding reachable_session_def by (metis run.simps run_append)
qed

lemma init_example: "\<exists>s. session_init 1 link default_params = Inr s \<and> ss_node_id s = 1 \<and>
    ss_params s = default_params \<and> ss_next_seq s = 0 \<and> ss_pending s = [] \<and> ss_futures s = [] \<and> ss_log s = [] \<and>
    dc_seen (ss_dedup s) = []"
  by (simp add: session_init_def default_params_def dedup_init_def notes_init_def ROBOT_ID_NONE_def
      wire_consts MAX_NOTE_FRAGMENTS_def)

lemma default_params_ok: "params_post_init default_params = Inr default_params"
  by (simp add: params_post_init_def default_params_def MAX_NOTE_FRAGMENTS_def)

lemma init_reachable: "session_init 1 link default_params = Inr s \<Longrightarrow> reachable_session 1 link default_params s"
  unfolding reachable_session_def using default_params_ok by (metis run.simps(1))

lemma resolves_emit_up [simp]: "resolves (ss_log (emit_up u s)) = resolves (ss_log s)"
  by (simp add: emit_up_def Let_def split: option.splits)

lemma resolves_transmit [simp]: "resolves (ss_log (fst (transmit s b q a))) = resolves (ss_log s)"
  by (simp add: transmit_log)

lemma resolves_on_data:
  assumes "\<not> is_ack m"
  shows "resolves (ss_log (fst (on_message s m t))) = resolves (ss_log s)"
proof -
  obtain s1 r where e: "encode_ack s m = (s1, r)" by force
  have "ss_log s1 = ss_log s" using encode_ack_state [of s m] by (simp add: e)
  then show ?thesis
    using assms admit_frame(6) [of s m t] admit_frame(6) [of s1 m t]
    by (auto simp: on_message_def Let_def e split: sum.splits prod.splits option.splits)
qed

lemma on_frame_decoded:
  "decode b = Inr m \<Longrightarrow> on_frame s b now = on_message (bump Rx_frames s) m now"
  "decode b = Inl e \<Longrightarrow> ss_log (fst (on_frame s b now)) = ss_log s \<and> ss_pending (fst (on_frame s b now)) = ss_pending s
    \<and> snd (on_frame s b now) = None"
  by (auto simp: on_frame_def Let_def split: codec_exn.splits)

text \<open>The pending send an inbound acknowledgement confirms.\<close>

definition confirms :: "session \<Rightarrow> byte list \<Rightarrow> nat \<Rightarrow> bool" where
  "confirms s b f \<longleftrightarrow> (\<exists>a q seq p. decode b = Inr (Ack a q (ss_node_id s) seq) \<and>
     od_get (ss_pending s) seq = Some p \<and> pd_dst p = a \<and> pd_future p = f \<and> ss_futures s ! f = F_PENDING)"

lemma on_frame_resolves:
  assumes "sess_inv s"
  shows "(\<exists>f. confirms s b f \<and> resolves (ss_log (fst (on_frame s b now))) = resolves (ss_log s) @ [(f, DELIVERED)]) \<or>
    (\<forall>f. \<not> confirms s b f) \<and> resolves (ss_log (fst (on_frame s b now))) = resolves (ss_log s)"
proof (cases "decode b")
  case (Inl e)
  then show ?thesis using on_frame_decoded(2) [OF Inl] by (simp add: confirms_def)
next
  case (Inr m)
  show ?thesis
  proof (cases "is_ack m")
    case False
    then have "\<not> confirms s b f" for f by (auto simp: confirms_def Inr is_ack_def)
    with False show ?thesis by (simp add: on_frame_decoded(1) [OF Inr] resolves_on_data)
  next
    case True
    then obtain a q asrc aseq where m: "m = Ack a q asrc aseq" by (auto simp: is_ack_def type_ACK)
    let ?s = "bump Rx_acks (bump Rx_frames s)"
    have inv: "sinv ?s []" using assms by (simp add: sinv_Nil)
    obtain s1 r where r: "match_ack ?s m = (s1, r)" by force
    show ?thesis
    proof (cases r)
      case None
      have "ss_log s1 = ss_log s"
        using r None by (auto simp: match_ack_def split: if_splits option.splits)
      moreover have "\<not> confirms s b f" for f
        using r None by (auto simp: confirms_def Inr m match_ack_def split: if_splits option.splits)
      ultimately show ?thesis
        using True r None by (simp add: on_frame_decoded(1) [OF Inr] on_message_def)
    next
      case (Some p)
      note k = match_ack_Some [OF inv r [unfolded Some]]
      have f: "ss_futures s ! pd_future p \<noteq> F_RESOLVED out" for out
        using k(1) by (simp add: k(5) sinv_def fut_inv_def)
      have e: "fst (on_frame s b now) = finish (bump Tx_delivered s1) p DELIVERED"
        using True r Some by (simp add: on_frame_decoded(1) [OF Inr] on_message_def)
      have conf: "confirms s b g \<longleftrightarrow> g = pd_future p \<and> ss_futures s ! g = F_PENDING" for g
        using k(2-4) by (auto simp: confirms_def Inr m)
      show ?thesis
        unfolding e conf using f by (cases "ss_futures s ! pd_future p") (auto simp: finish_def k(5))
    qed
  qed
qed

section \<open>Properties\<close>



text \<open>
  C13: \<^verbatim>\<open>DELIVERED\<close> means the addressee acknowledged. In a reachable session an inbound frame
  resolves at most one future, always as \<^verbatim>\<open>DELIVERED\<close>, and it does so exactly when it is an
  acknowledgement to this node, sent by the robot the pending send was addressed to, of that
  send's sequence number, and the owner has not cancelled. An acknowledgement overheard,
  unmatched, or from a third robot resolves nothing.
\<close>

theorem delivered_iff_acknowledged:
  assumes "reachable_session node link params s"
  shows "(\<exists>f. (\<exists>a q seq p. decode b = Inr (Ack a q node seq) \<and> od_get (ss_pending s) seq = Some p \<and>
        pd_dst p = a \<and> pd_future p = f \<and> ss_futures s ! f = F_PENDING) \<and>
      resolves (ss_log (fst (on_frame s b now))) = resolves (ss_log s) @ [(f, DELIVERED)]) \<or>
    (\<nexists>a q seq p. decode b = Inr (Ack a q node seq) \<and> od_get (ss_pending s) seq = Some p \<and>
        pd_dst p = a \<and> ss_futures s ! pd_future p = F_PENDING) \<and>
      resolves (ss_log (fst (on_frame s b now))) = resolves (ss_log s)"
proof -
  have inv: "sess_inv s" and node: "ss_node_id s = node" using reachable_inv [OF assms] by auto
  from on_frame_resolves [OF inv, of b now] show ?thesis
    unfolding confirms_def node by blast
qed

theorem delivered_iff_acknowledged_witness:
  "\<exists>s. session_init 1 (\<lambda>_. True) default_params = Inr s \<and>
    resolves (ss_log (fst (on_frame s [5, 2, 0, 9, 1, 0, 0] 4))) = []"
proof -
  obtain s where s: "session_init 1 (\<lambda>_. True) default_params = Inr s" "ss_log s = []" "ss_pending s = []"
    using init_example by blast
  from delivered_iff_acknowledged [OF init_reachable [OF s(1)], of "[5, 2, 0, 9, 1, 0, 0]" 4]
  show ?thesis using s by (auto simp: od_get_def)
qed

text \<open>
  C17: A reliable send always ends. Take any pending send whose future is open, and tick
  the session, without an acknowledgement, once at or after its deadline and then each time at
  least the maximum interval later: after its remaining retransmissions, exactly
  \<^verbatim>\<open>max_retries\<close> minus those used and no more, its future is resolved \<^verbatim>\<open>FAILED\<close> and the
  send has left the table.
\<close>

theorem reliable_send_ends:
  assumes "reachable_session node link params s" and "od_get (ss_pending s) q = Some p"
    and "ss_futures s ! pd_future p = F_PENDING"
    and "spaced (rp_max_retransmit_timeout_sec params) (pd_deadline p) ts"
    and "int (length ts) = rp_max_retries params - pd_attempts p + 1"
  shows "ss_futures (foldl tick s ts) ! pd_future p = F_RESOLVED FAILED \<and>
    od_get (ss_pending (foldl tick s ts)) q = None \<and>
    int (sent_times (pd_payload p) (ss_log (foldl tick s ts))) =
      int (sent_times (pd_payload p) (ss_log s)) + (rp_max_retries params - pd_attempts p)"
proof -
  have inv: "sess_inv s" and prm: "ss_params s = params" using reachable_inv [OF assms(1)] by auto
  have "pd_attempts p \<le> rp_max_retries params"
    using inv od_get_mem [OF assms(2)] prm by (auto simp: sess_inv_def pend_inv_def pending_ok_def)
  with campaign [OF inv assms(2,3) assms(4,5) [folded prm]] prm show ?thesis by simp
qed

theorem reliable_send_ends_witness:
  "\<exists>s0 s p. session_init 1 (\<lambda>_. True) default_params = Inr s0 \<and>
    s = session_step s0 (SendReliable 2 (Grant 0 0 7 2) 0) \<and> od_get (ss_pending s) 0 = Some p \<and>
    ss_futures (foldl tick s [3, 13, 23, 33]) ! pd_future p = F_RESOLVED FAILED"
proof -
  obtain s0 where s0: "session_init 1 (\<lambda>_. True) default_params = Inr s0" "ss_node_id s0 = 1"
    "ss_params s0 = default_params" "ss_next_seq s0 = 0" "ss_pending s0 = []" "ss_futures s0 = []"
    using init_example by blast
  let ?s = "session_step s0 (SendReliable 2 (Grant 0 0 7 2) 0)"
  obtain b where b: "encode (Grant 1 0 7 2) 50 = Inr b"
    using encode_ok [of "Grant 1 0 7 2" 50]
    by (auto simp: wire_consts message_size_def payload_format_def calcsize_def fld_def)
  let ?p = "\<lparr>pd_seq = 0, pd_dst = 2, pd_payload = b, pd_future = 0, pd_attempts = 0, pd_deadline = 3,
    pd_kind = GRANT, pd_priority = URGENT\<rparr>"
  have s: "ss_pending ?s = [(0, ?p)]" "ss_futures ?s = [F_PENDING]"
    using s0 b by (simp_all add: send_reliable_def is_ack_def is_reliable_iff wire_consts
        addressee_of_def addressee_field_def Let_def split_beta default_params_def
        DEFAULT_MAX_PAYLOAD_BYTES_def priority_of_def)
  have "ss_futures (foldl tick ?s [3, 13, 23, 33]) ! pd_future ?p = F_RESOLVED FAILED"
    using reliable_send_ends [OF reachable_step [OF init_reachable [OF s0(1)]], of "SendReliable 2 (Grant 0 0 7 2) 0" 0 ?p
        "[3, 13, 23, 33]"] s
    by (simp add: od_get_def default_params_def)
  with s0(1) s show ?thesis
    by (intro exI [of _ s0] exI [of _ ?s] exI [of _ ?p]) (simp add: od_get_def)
qed

text \<open>
  C24: Every copy of a grant is acknowledged, only the first is delivered. When a reachable
  session (whose payload budget holds an acknowledgement) receives a grant addressed to it, it
  hands the link one urgent acknowledgement of exactly that source and sequence number,
  whether or not it has seen the grant before, and it hands the grant up if and only if the
  duplicate filter has not seen it.
\<close>

theorem grant_acknowledged_delivered_once:
  assumes "reachable_session node link params s" and "7 \<le> rp_max_payload_bytes params"
    and "decode b = Inr (Grant src q task node)" and "src \<noteq> node"
  shows "snd (on_frame s b now) = None \<and>
    (\<exists>ack ok. decode ack = Inr (Ack node (ss_next_seq s) src q) \<and>
      ss_log (fst (on_frame s b now)) = ss_log s @ [Transmit ack URGENT ok] @
        (if snd (first_sight (ss_dedup s) (src, q) now) then [Deliver (Grant src q task node)] else []))"
proof -
  let ?m = "Grant src q task node" and ?s = "bump Rx_frames s"
  have inv: "sess_inv ?s" and cfg: "ss_node_id s = node" "ss_params s = params"
    using reachable_inv [OF assms(1)] by auto
  obtain a where a: "encode_ack ?s ?m = (fst (next_seq ?s), Inr a)"
    "decode a = Inr (Ack node (ss_next_seq s) src q)"
    using ack_encodes [OF inv, of ?m] decoded_header [OF assms(3)] assms(2) cfg by (auto simp: cfg)
  have rel: "\<not> is_ack ?m" "is_reliable ?m" "addressee_of ?m = Some node"
    by (simp_all add: is_ack_def is_reliable_iff addressee_of_def addressee_field_def)
  let ?s1 = "fst (next_seq ?s)" and ?new = "snd (first_sight (ss_dedup s) (src, q) now)"
  have ad: "snd (admit ?s1 ?m now) = Inr (if ?new then Some ?m else None, None)"
    "ss_log (fst (admit ?s1 ?m now)) = ss_log s"
    by (simp_all add: admit_frame(6)) (simp add: admit_alt Let_def)
  obtain s2 where s2: "admit ?s1 ?m now = (s2, Inr (if ?new then Some ?m else None, None))"
    using ad(1) by (cases "admit ?s1 ?m now") simp
  have "on_frame s b now =
      (emit_up (if ?new then Some ?m else None, None) (fst (transmit s2 a URGENT True)), None)"
    using a(1) rel assms(4) cfg s2
    by (simp add: on_frame_decoded(1) [OF assms(3)] on_message_def Let_def)
  then show ?thesis
    using a(2) ad(2) s2
    by (intro conjI exI [of _ a] exI [of _ "snd (transmit s2 a URGENT True)"])
      (simp_all add: emit_up_def transmit_log)
qed

theorem grant_acknowledged_delivered_once_witness:
  "\<exists>s. session_init 1 (\<lambda>_. True) default_params = Inr s \<and>
    snd (on_frame s [4, 2, 0, 9, 0, 7, 1] 4) = None \<and>
    Deliver (Grant 2 9 7 1) \<in> set (ss_log (fst (on_frame s [4, 2, 0, 9, 0, 7, 1] 4)))"
proof -
  obtain s where s: "session_init 1 (\<lambda>_. True) default_params = Inr s" "dc_seen (ss_dedup s) = []"
    using init_example by blast
  have "decode [4, 2, 0, 9, 0, 7, 1] = Inr (Grant 2 9 7 1)" by code_simp
  moreover have "snd (first_sight (ss_dedup s) (2, 9) 4)"
    using s(2) by (simp add: first_sight_def dedup_prune_def od_mem_def Let_def split_beta)
  ultimately show ?thesis
    using grant_acknowledged_delivered_once [OF init_reachable [OF s(1)], of "[4, 2, 0, 9, 0, 7, 1]" 2 9 7 4] s
    by (auto simp: default_params_def DEFAULT_MAX_PAYLOAD_BYTES_def)
qed

text \<open>
  No frame takes the node down. A reachable session whose payload budget holds an
  acknowledgement (seven bytes) raises nothing on any bytes off the link, and remains a
  reachable session.
\<close>

lemma on_frame_never_raises:
  assumes "reachable_session node link params s" and "7 \<le> rp_max_payload_bytes params"
  shows "snd (on_frame s b now) = None \<and> reachable_session node link params (fst (on_frame s b now))"
proof -
  have inv: "sess_inv s" and cfg: "ss_params s = params" using reachable_inv [OF assms(1)] by auto
  have "snd (on_frame s b now) = None"
  proof (cases "decode b")
    case (Inl e)
    then show ?thesis by (simp add: on_frame_decoded(2))
  next
    case (Inr m)
    then show ?thesis
      using on_message_never_raises [of "bump Rx_frames s" b m now] inv cfg assms(2)
      by (simp add: on_frame_decoded(1))
  qed
  with reachable_step [OF assms(1), of "OnFrame b now"] show ?thesis by simp
qed

lemma on_frame_never_raises_witness:
  "\<exists>s. session_init 1 (\<lambda>_. True) default_params = Inr s \<and> snd (on_frame s [6, 1, 2, 3, 4, 5] 0) = None"
proof -
  obtain s where s: "session_init 1 (\<lambda>_. True) default_params = Inr s" using init_example by blast
  from on_frame_never_raises [OF init_reachable [OF s], of "[6, 1, 2, 3, 4, 5]" 0] s show ?thesis
    by (auto simp: default_params_def DEFAULT_MAX_PAYLOAD_BYTES_def)
qed

text \<open>
  The bound in the previous property is needed. The parameters are accepted with a
  six-byte payload budget, which \<^verbatim>\<open>ReliabilityParams\<close> does not check, and then \<^verbatim>\<open>on_frame\<close>, which
  says it never raises, raises \<^verbatim>\<open>PayloadTooLarge\<close> on any grant for this robot, because the
  acknowledgement does not fit.
\<close>

lemma on_frame_small_budget_raises:
  "\<exists>s. params_post_init (default_params\<lparr>rp_max_payload_bytes := 6\<rparr>) =
      Inr (default_params\<lparr>rp_max_payload_bytes := 6\<rparr>) \<and>
    session_init 1 (\<lambda>_. True) (default_params\<lparr>rp_max_payload_bytes := 6\<rparr>) = Inr s \<and>
    snd (on_frame s [4, 2, 0, 9, 0, 7, 1] 4) = Some (CodecErr PayloadTooLarge)"
proof -
  let ?prm = "default_params\<lparr>rp_max_payload_bytes := 6\<rparr>"
  obtain s where s: "session_init 1 (\<lambda>_. True) ?prm = Inr s" "ss_node_id s = 1" "ss_params s = ?prm"
    "ss_next_seq s = 0"
    by (simp add: session_init_def default_params_def dedup_init_def notes_init_def ROBOT_ID_NONE_def
        wire_consts MAX_NOTE_FRAGMENTS_def)
  have d: "decode [4, 2, 0, 9, 0, 7, 1] = Inr (Grant 2 9 7 1)" by code_simp
  have "encode (Ack 1 0 2 9) 6 = Inl PayloadTooLarge" by code_simp
  then have "snd (encode_ack (bump Rx_frames s) (Grant 2 9 7 1)) = Inl PayloadTooLarge"
    using s by (simp add: encode_ack_def Let_def split_beta)
  then have "snd (on_frame s [4, 2, 0, 9, 0, 7, 1] 4) = Some (CodecErr PayloadTooLarge)"
    using s by (auto simp: on_frame_decoded(1) [OF d] on_message_def Let_def is_ack_def is_reliable_iff
        addressee_of_def addressee_field_def split: prod.splits)
  moreover have "params_post_init ?prm = Inr ?prm"
    by (simp add: params_post_init_def default_params_def MAX_NOTE_FRAGMENTS_def)
  ultimately show ?thesis using s by auto
qed


end
