(* ===== verification/Tasks.thy ===== *)
theory Tasks
  imports Codec Notes
begin

text \<open>
  The nouns of the coordination layer: tasks, peers, fitness, mission deltas
  (\<^verbatim>\<open>vocabulary/model.py\<close>) and the closed unions of actions and bid revisions that the
  reasoning step may answer with (\<^verbatim>\<open>vocabulary/schema.py\<close>). The free text for logs and
  prompts (\<^verbatim>\<open>detail\<close>, \<^verbatim>\<open>reason\<close>) is left out, except the note that crosses the radio. \<^verbatim>\<open>Task.payload\<close>, the opaque handle
  of the mission node, is a number nothing here looks at.
\<close>

section \<open>Tasks\<close>

record task =
  tk_id :: int
  tk_caps :: int
  tk_location :: target
  tk_priority :: int
  tk_payload :: "nat option"

definition Task :: "int \<Rightarrow> int \<Rightarrow> target \<Rightarrow> int \<Rightarrow> nat option \<Rightarrow> py_exn + task" where
  "Task task_id caps location priority payload =
     (if \<not> (TASK_NONE < task_id \<and> task_id \<le> TASK_ID_MAX) then Inl ValueError
      else if \<not> (0 \<le> caps \<and> caps < 2 ^ nat CAP_MASK_BITS) then Inl ValueError
      else if \<not> (0 \<le> priority \<and> priority \<le> PRIORITY_MAX) then Inl ValueError
      else Inr \<lparr>tk_id = task_id, tk_caps = caps, tk_location = location,
                tk_priority = priority, tk_payload = payload\<rparr>)"

definition delegable :: "task \<Rightarrow> bool" where
  "delegable t \<longleftrightarrow> placed (tk_location t)"

datatype task_state = OURS | ANNOUNCED | GRANTED | TRANSFERRED | RELINQUISHED

section \<open>Peers\<close>

record peer_record =
  pr_robot_id :: int
  pr_cap_mask :: int
  pr_location :: "target option"
  pr_battery :: int
  pr_current_task :: int
  pr_last_seen :: secs

definition PeerRecord :: "int \<Rightarrow> peer_record" where
  "PeerRecord robot_id = \<lparr>pr_robot_id = robot_id, pr_cap_mask = 0, pr_location = None,
     pr_battery = 0, pr_current_task = TASK_NONE, pr_last_seen = 0\<rparr>"

definition idle :: "peer_record \<Rightarrow> bool" where
  "idle p \<longleftrightarrow> pr_current_task p = TASK_NONE"

section \<open>Fitness and mission deltas\<close>

record fitness =
  ft_feasible :: bool
  ft_cost :: int
  ft_eta_s :: int

definition infeasible_fitness :: fitness where
  "infeasible_fitness = \<lparr>ft_feasible = False, ft_cost = 0, ft_eta_s = 0\<rparr>"

text \<open>
  The sentences \<^verbatim>\<open>MissionDelta.cause\<close> is built from, one constructor each.
\<close>

datatype cause =
  Announced_to_fleet | Transferred_to int | Dropped_undelegable | Held_after_failure
| Escalated_to_operator | Add_task | Won_auction_from int

record mission_delta =
  md_removed :: "task list"
  md_added :: "task list"
  md_cause :: cause
  md_note :: text_str

section \<open>What an anomaly may lead to\<close>

datatype local_disposition = DROP | HOLD | REQUEST_HUMAN

datatype reason_code =
  UNSPECIFIED | TASK_FAILED | BATTERY_LOW | UNREACHABLE | CAPABILITY_MISSING | OPERATOR_REQUEST | TIMEOUT

fun reason_int :: "reason_code \<Rightarrow> int" where
  "reason_int UNSPECIFIED = 0" | "reason_int TASK_FAILED = 1" | "reason_int BATTERY_LOW = 2"
| "reason_int UNREACHABLE = 3" | "reason_int CAPABILITY_MISSING = 4"
| "reason_int OPERATOR_REQUEST = 5" | "reason_int TIMEOUT = 6"

datatype action =
  ReDelegate (ac_task: task) (ac_reason_code: int) (ac_fallback: local_disposition) (ac_note: text_str)
| AddTask (ac_task: task) (ac_reason_code: int)
| DropTask (ac_task: task) (ac_disposition: local_disposition) (ac_reason_code: int)

text \<open>
  An interpreter is a model behind a parser: it may raise, answer with something that is no
  action, or answer with one of the three. \<^verbatim>\<open>validate_action\<close> lets only the last through.
\<close>

datatype 'a answer = Raises | Foreign | Answer 'a

definition validate_action :: "action answer \<Rightarrow> py_exn + action" where
  "validate_action x = (case x of Answer a \<Rightarrow> Inr a | _ \<Rightarrow> Inl TypeError)"

record anomaly_context =
  ax_task :: "task option"
  ax_reason_code :: int
  ax_peers :: "peer_record list"
  ax_battery :: int
  ax_location :: "target option"
  ax_at :: secs

section \<open>What a note may lead to\<close>

datatype bid_revision = KeepBid | ReviseBid (rv_cost_delta: int) | WithdrawBid

definition validate_revision :: "bid_revision answer \<Rightarrow> py_exn + bid_revision" where
  "validate_revision x = (case x of Answer a \<Rightarrow> Inr a | _ \<Rightarrow> Inl TypeError)"

record note_context =
  nc_text :: text_str
  nc_task_id :: int
  nc_src :: int
  nc_task :: "task option"
  nc_cost :: "int option"
  nc_eta_s :: "rat option"
  nc_feasible :: "bool option"
  nc_at :: secs

text \<open>Tasks as their constructor leaves them; locations come from \<open>Target\<close>.\<close>

definition task_wf :: "task \<Rightarrow> bool" where
  "task_wf t \<longleftrightarrow> TASK_NONE < tk_id t \<and> tk_id t \<le> TASK_ID_MAX \<and> 0 \<le> tk_caps t \<and>
     tk_caps t < 2 ^ nat CAP_MASK_BITS \<and> 0 \<le> tk_priority t \<and> tk_priority t \<le> PRIORITY_MAX \<and>
     target_wf (tk_location t)"

lemma Task_wf: "Task i c l p x = Inr t \<Longrightarrow> target_wf l \<Longrightarrow> task_wf t"
  by (auto simp: Task_def task_wf_def split: if_splits)

lemma Task_fields:
  "Task i c l p x = Inr t \<Longrightarrow>
    tk_id t = i \<and> tk_caps t = c \<and> tk_location t = l \<and> tk_priority t = p \<and> tk_payload t = x"
  by (auto simp: Task_def split: if_splits)

end
