(* ===== verification/Registry.thy ===== *)
theory Registry
  imports Tasks
begin

text \<open>
  The peer table, \<^verbatim>\<open>PeerRegistry\<close> of \<^verbatim>\<open>engine/registry.py\<close>: HEARTBEATs in, one row per peer,
  rows dropped by age. The table is a Python dictionary, hence an association list in order
  of first appearance. The \<^verbatim>\<open>on_change\<close> callback only logs and is not modelled.
\<close>

definition DEFAULT_PEER_TIMEOUT_SEC :: secs where "DEFAULT_PEER_TIMEOUT_SEC = 30"

record registry =
  rg_timeout_sec :: secs
  rg_peers :: "(int, peer_record) odict"
  rg_observed :: nat
  rg_appeared :: nat
  rg_aged_out :: nat

definition registry_init :: "secs \<Rightarrow> py_exn + registry" where
  "registry_init timeout_sec =
     (if timeout_sec \<le> 0 then Inl ValueError
      else Inr \<lparr>rg_timeout_sec = timeout_sec, rg_peers = [], rg_observed = 0, rg_appeared = 0,
                rg_aged_out = 0\<rparr>)"

text \<open>
  \<^verbatim>\<open>observe\<close> mutates the row in place: when the heartbeat names no place, \<^verbatim>\<open>target_of\<close> raises
  with the capability mask already written.
\<close>

definition observe :: "registry \<Rightarrow> message \<Rightarrow> secs \<Rightarrow> registry \<times> py_exn option" where
  "observe g hb now =
     (let robot_id = m_src hb;
          known = od_get (rg_peers g) robot_id;
          g1 = (if known = None then g\<lparr>rg_appeared := rg_appeared g + 1\<rparr> else g);
          p = (case known of None \<Rightarrow> PeerRecord robot_id | Some p \<Rightarrow> p)\<lparr>pr_cap_mask := m_cap_mask hb\<rparr>
      in case target_of hb of
           Inl e \<Rightarrow> (g1\<lparr>rg_peers := od_set robot_id p (rg_peers g)\<rparr>, Some e)
         | Inr loc \<Rightarrow>
             (g1\<lparr>rg_peers := od_set robot_id
                  (p\<lparr>pr_location := Some loc, pr_battery := m_battery hb,
                      pr_current_task := m_cur_task hb, pr_last_seen := now\<rparr>) (rg_peers g),
                 rg_observed := rg_observed g + 1\<rparr>, None))"

definition silent :: "registry \<Rightarrow> secs \<Rightarrow> peer_record \<Rightarrow> bool" where
  "silent g now p \<longleftrightarrow> now - pr_last_seen p > rg_timeout_sec g"

definition drop_peer :: "registry \<Rightarrow> peer_record \<Rightarrow> registry" where
  "drop_peer g p = g\<lparr>rg_peers := od_del (pr_robot_id p) (rg_peers g), rg_aged_out := rg_aged_out g + 1\<rparr>"

definition age_out :: "registry \<Rightarrow> secs \<Rightarrow> registry \<times> peer_record list" where
  "age_out g now =
     (let gone = filter (silent g now) (map snd (rg_peers g)) in (foldl drop_peer g gone, gone))"

definition registry_get :: "registry \<Rightarrow> int \<Rightarrow> peer_record option" where
  "registry_get g robot_id = od_get (rg_peers g) robot_id"

definition registry_contains :: "registry \<Rightarrow> int \<Rightarrow> bool" where
  "registry_contains g robot_id = od_mem (rg_peers g) robot_id"

definition peers :: "registry \<Rightarrow> peer_record list" where
  "peers g = map snd (rg_peers g)"

definition registry_ids :: "registry \<Rightarrow> int list" where
  "registry_ids g = sort (map fst (rg_peers g))"

definition capable :: "registry \<Rightarrow> int \<Rightarrow> peer_record list" where
  "capable g required = filter (\<lambda>p. has_capabilities (pr_cap_mask p) required) (map snd (rg_peers g))"

section \<open>The table is keyed by the robot\<close>

definition registry_ok :: "registry \<Rightarrow> bool" where
  "registry_ok g \<longleftrightarrow> od_ok (rg_peers g) \<and> (\<forall>(k, p) \<in> set (rg_peers g). pr_robot_id p = k) \<and>
     length (rg_peers g) + rg_aged_out g = rg_appeared g"

lemma registry_init_ok: "registry_init t = Inr g \<Longrightarrow> registry_ok g"
  by (auto simp: registry_init_def registry_ok_def split: if_splits)

lemma PeerRecord_id [simp]: "pr_robot_id (PeerRecord i) = i"
  by (simp add: PeerRecord_def)

lemma od_set_all:
  assumes "\<forall>(k, v) \<in> set d. P k v" and "P k v"
  shows "\<forall>(k, v) \<in> set (od_set k v d). P k v"
  using assms set_od_set [of k v d] by blast

lemma od_get_all: "od_get d k = Some v \<Longrightarrow> \<forall>(k, v) \<in> set d. P k v \<Longrightarrow> P k v"
  by (auto dest: od_get_mem)

lemma observe_shape:
  obtains p where "pr_robot_id p = m_src hb \<or> od_get (rg_peers g) (m_src hb) \<noteq> None"
    "\<And>q. od_get (rg_peers g) (m_src hb) = Some q \<Longrightarrow> pr_robot_id p = pr_robot_id q"
    "rg_peers (fst (observe g hb now)) = od_set (m_src hb) p (rg_peers g)"
    "rg_aged_out (fst (observe g hb now)) = rg_aged_out g"
    "rg_timeout_sec (fst (observe g hb now)) = rg_timeout_sec g"
    "rg_appeared (fst (observe g hb now)) =
       (if od_mem (rg_peers g) (m_src hb) then rg_appeared g else rg_appeared g + 1)"
proof (cases "target_of hb")
  case (Inl e)
  then show ?thesis
    by (intro that [of "(case od_get (rg_peers g) (m_src hb) of
        None \<Rightarrow> PeerRecord (m_src hb) | Some p \<Rightarrow> p)\<lparr>pr_cap_mask := m_cap_mask hb\<rparr>"])
      (auto simp: observe_def Let_def od_get_None [symmetric] split: option.splits)
next
  case (Inr loc)
  then show ?thesis
    by (intro that [of "(case od_get (rg_peers g) (m_src hb) of
        None \<Rightarrow> PeerRecord (m_src hb) | Some p \<Rightarrow> p)\<lparr>pr_cap_mask := m_cap_mask hb,
          pr_location := Some loc, pr_battery := m_battery hb, pr_current_task := m_cur_task hb,
          pr_last_seen := now\<rparr>"])
      (auto simp: observe_def Let_def od_get_None [symmetric] split: option.splits)
qed

lemma registry_ok_observe [inv_step]:
  assumes "registry_ok g"
  shows "registry_ok (fst (observe g hb now))"
proof (rule observe_shape [of hb g now])
  fix p
  assume p: "pr_robot_id p = m_src hb \<or> od_get (rg_peers g) (m_src hb) \<noteq> None"
    "\<And>q. od_get (rg_peers g) (m_src hb) = Some q \<Longrightarrow> pr_robot_id p = pr_robot_id q"
    and obs: "rg_peers (fst (observe g hb now)) = od_set (m_src hb) p (rg_peers g)"
    "rg_aged_out (fst (observe g hb now)) = rg_aged_out g"
    "rg_appeared (fst (observe g hb now)) =
       (if od_mem (rg_peers g) (m_src hb) then rg_appeared g else rg_appeared g + 1)"
  have keyed: "\<forall>(k, p) \<in> set (rg_peers g). pr_robot_id p = k"
    using assms by (simp add: registry_ok_def)
  have "pr_robot_id p = m_src hb"
    using p od_get_all [OF _ keyed] by fastforce
  then have "\<forall>(k, p) \<in> set (od_set (m_src hb) p (rg_peers g)). pr_robot_id p = k"
    using keyed by (intro od_set_all) auto
  with assms obs show ?thesis
    by (auto simp: registry_ok_def od_ok_set length_od_set)
qed

lemma drop_peer_simps [simp]:
  "rg_timeout_sec (drop_peer g p) = rg_timeout_sec g" "rg_appeared (drop_peer g p) = rg_appeared g"
  "rg_observed (drop_peer g p) = rg_observed g" "rg_aged_out (drop_peer g p) = Suc (rg_aged_out g)"
  "rg_peers (drop_peer g p) = od_del (pr_robot_id p) (rg_peers g)"
  by (simp_all add: drop_peer_def)

lemma drop_peers [simp]:
  "rg_timeout_sec (foldl drop_peer g ps) = rg_timeout_sec g"
  "rg_appeared (foldl drop_peer g ps) = rg_appeared g"
  "rg_observed (foldl drop_peer g ps) = rg_observed g"
  "rg_aged_out (foldl drop_peer g ps) = rg_aged_out g + length ps"
  by (induction ps arbitrary: g) simp_all

lemma drop_peers_rows:
  "rg_peers (foldl drop_peer g ps) = filter (\<lambda>x. fst x \<notin> pr_robot_id ` set ps) (rg_peers g)"
proof (induction ps arbitrary: g)
  case (Cons p ps)
  show ?case by (simp add: Cons od_del_def) (rule filter_cong; auto)
qed simp

lemma age_out_simps [simp]:
  "rg_timeout_sec (fst (age_out g now)) = rg_timeout_sec g"
  "snd (age_out g now) = filter (silent g now) (peers g)"
  by (simp_all add: age_out_def peers_def Let_def)

text \<open>What \<^verbatim>\<open>age_out\<close> leaves is exactly the rows that are not silent.\<close>

lemma age_out_peers:
  assumes "registry_ok g"
  shows "rg_peers (fst (age_out g now)) = filter (\<lambda>x. \<not> silent g now (snd x)) (rg_peers g)"
proof -
  have "fst x \<notin> pr_robot_id ` set (filter (silent g now) (map snd (rg_peers g))) \<longleftrightarrow> \<not> silent g now (snd x)"
    if x: "x \<in> set (rg_peers g)" for x
  proof -
    have "y = x" if "y \<in> set (rg_peers g)" "pr_robot_id (snd y) = fst x" for y
    proof -
      have "fst y = fst x" using that assms by (auto simp: registry_ok_def case_prod_beta)
      with that x assms have "snd y = snd x"
        using eq_key_imp_eq_value [of "rg_peers g" "fst x" "snd y" "snd x"]
        by (simp add: registry_ok_def od_ok_def) (metis prod.collapse)
      with \<open>fst y = fst x\<close> show ?thesis by (simp add: prod_eq_iff)
    qed
    moreover have "pr_robot_id (snd x) = fst x"
      using assms x by (auto simp: registry_ok_def case_prod_beta)
    ultimately show ?thesis using x by (auto simp: image_iff)
  qed
  then show ?thesis
    unfolding age_out_def Let_def fst_conv drop_peers_rows by (rule filter_cong [OF refl])
qed

lemma registry_ok_age_out [inv_step]:
  assumes "registry_ok g"
  shows "registry_ok (fst (age_out g now))"
proof -
  have "length (filter (\<lambda>x. \<not> silent g now (snd x)) (rg_peers g)) + length (filter (silent g now) (map snd (rg_peers g)))
      = length (rg_peers g)"
    using sum_length_filter_compl [of "\<lambda>x. silent g now (snd x)" "rg_peers g"]
    by (simp add: filter_map comp_def)
  moreover have "rg_aged_out (fst (age_out g now)) =
      rg_aged_out g + length (filter (silent g now) (map snd (rg_peers g)))"
    "rg_appeared (fst (age_out g now)) = rg_appeared g"
    by (simp_all add: age_out_def Let_def)
  ultimately show ?thesis
    using assms age_out_peers [OF assms, of now]
    by (auto simp: registry_ok_def od_ok_def distinct_map_filter)
qed

section \<open>Runs\<close>

datatype registry_op = Observe message secs | AgeOut secs

fun registry_step :: "registry \<Rightarrow> registry_op \<Rightarrow> registry" where
  "registry_step g (Observe hb now) = fst (observe g hb now)"
| "registry_step g (AgeOut now) = fst (age_out g now)"

lemma registry_ok_step: "registry_ok g \<Longrightarrow> registry_ok (registry_step g op)"
  by (cases op) (simp_all add: inv_step)

lemma registry_ok_run: "registry_ok g \<Longrightarrow> registry_ok (run registry_step g ops)"
  by (rule run_invariant) (rule registry_ok_step)

section \<open>The table against the history of heartbeats\<close>

text \<open>
  The specification: of each robot the latest heartbeat and when it came. \<open>row\<close> is the entry
  it makes, and \<open>in_order\<close> holds of histories whose clock does not run backwards and whose
  heartbeats name places (as decoded ones do).
\<close>

fun latest :: "registry_op list \<Rightarrow> int \<Rightarrow> (message \<times> secs) option" where
  "latest [] r = None"
| "latest (Observe hb t # ops) r =
     (case latest ops r of Some x \<Rightarrow> Some x | None \<Rightarrow> if m_src hb = r then Some (hb, t) else None)"
| "latest (AgeOut t # ops) r = latest ops r"

definition heartbeat_place :: "message \<Rightarrow> target option" where
  "heartbeat_place hb = (case target_of hb of Inr loc \<Rightarrow> Some loc | Inl _ \<Rightarrow> None)"

definition row :: "message \<Rightarrow> secs \<Rightarrow> peer_record" where
  "row hb t = \<lparr>pr_robot_id = m_src hb, pr_cap_mask = m_cap_mask hb, pr_location = heartbeat_place hb,
     pr_battery = m_battery hb, pr_current_task = m_cur_task hb, pr_last_seen = t\<rparr>"

fun op_time :: "registry_op \<Rightarrow> secs" where
  "op_time (Observe _ t) = t" | "op_time (AgeOut t) = t"

fun places_ok :: "registry_op \<Rightarrow> bool" where
  "places_ok (Observe hb _) = (heartbeat_place hb \<noteq> None)" | "places_ok (AgeOut _) = True"

definition in_order :: "registry_op list \<Rightarrow> bool" where
  "in_order ops \<longleftrightarrow> sorted (map op_time ops) \<and> list_all places_ok ops"

lemma latest_snoc:
  "latest (ops @ [op]) r =
     (case op of Observe hb t \<Rightarrow> if m_src hb = r then Some (hb, t) else latest ops r
      | AgeOut t \<Rightarrow> latest ops r)"
  by (induction ops r rule: latest.induct) (auto split: registry_op.splits option.splits)

lemma latest_mem: "latest ops r = Some (hb, t) \<Longrightarrow> Observe hb t \<in> set ops \<and> m_src hb = r"
  by (induction ops r rule: latest.induct) (auto split: option.splits if_splits)

definition tracked :: "registry \<Rightarrow> registry_op list \<Rightarrow> int \<Rightarrow> bool" where
  "tracked g ops r \<longleftrightarrow>
     (case od_get (rg_peers g) r of
        Some p \<Rightarrow> (\<exists>hb t. latest ops r = Some (hb, t) \<and> p = row hb t)
      | None \<Rightarrow> (\<forall>hb t. latest ops r = Some (hb, t) \<longrightarrow>
                   (\<exists>op \<in> set ops. op_time op - t > rg_timeout_sec g)))"

definition tracks :: "registry \<Rightarrow> registry_op list \<Rightarrow> bool" where
  "tracks g ops \<longleftrightarrow> registry_ok g \<and> (\<forall>r. tracked g ops r)"

lemma observe_row:
  assumes "heartbeat_place hb \<noteq> None" and "registry_ok g"
  shows "od_get (rg_peers (fst (observe g hb t))) r =
           (if r = m_src hb then Some (row hb t) else od_get (rg_peers g) r)"
    and "rg_timeout_sec (fst (observe g hb t)) = rg_timeout_sec g"
proof -
  obtain loc where loc: "target_of hb = Inr loc"
    using assms(1) by (auto simp: heartbeat_place_def split: sum.splits)
  have "pr_robot_id p = m_src hb" if "od_get (rg_peers g) (m_src hb) = Some p" for p
    using od_get_all [OF that, of "\<lambda>k p. pr_robot_id p = k"] assms(2) by (simp add: registry_ok_def)
  then show "od_get (rg_peers (fst (observe g hb t))) r =
           (if r = m_src hb then Some (row hb t) else od_get (rg_peers g) r)"
    using loc
    by (auto simp: observe_def Let_def od_get_set row_def heartbeat_place_def PeerRecord_def
        split: option.splits)
  show "rg_timeout_sec (fst (observe g hb t)) = rg_timeout_sec g"
    using loc by (auto simp: observe_def Let_def)
qed

lemma od_get_filter:
  assumes "od_ok d"
  shows "od_get (filter (\<lambda>x. P (snd x)) d) k =
    (case od_get d k of Some v \<Rightarrow> if P v then Some v else None | None \<Rightarrow> None)"
  using assms
proof (induction d)
  case (Cons x d)
  then show ?case
    by (cases x) (auto simp: od_get_def od_ok_def map_of_eq_None_iff split: option.splits)
qed (simp add: od_get_def)

lemma age_out_get:
  assumes "registry_ok g"
  shows "od_get (rg_peers (fst (age_out g now))) r =
      (case od_get (rg_peers g) r of None \<Rightarrow> None | Some p \<Rightarrow> if \<not> silent g now p then Some p else None)"
  using od_get_filter [of "rg_peers g" "\<lambda>p. \<not> silent g now p" r] assms
  by (auto simp: age_out_peers registry_ok_def split: option.splits)

lemma tracked_observe:
  assumes "tracked g ops r" and "registry_ok g" and "heartbeat_place hb \<noteq> None"
  shows "tracked (fst (observe g hb t)) (ops @ [Observe hb t]) r"
proof (cases "r = m_src hb")
  case True
  then show ?thesis
    by (simp add: tracked_def observe_row [OF assms(3,2)] latest_snoc)
next
  case False
  then show ?thesis
    using assms(1)
    by (auto simp: tracked_def observe_row [OF assms(3,2)] latest_snoc split: option.splits)
qed

lemma tracked_age_out:
  assumes "tracked g ops r" and "registry_ok g" and "in_order (ops @ [AgeOut now])"
  shows "tracked (fst (age_out g now)) (ops @ [AgeOut now]) r"
proof -
  note get = age_out_get [OF assms(2), of now r]
  show ?thesis
  proof (cases "od_get (rg_peers g) r")
    case None
    then show ?thesis using assms(1) get by (auto simp: tracked_def latest_snoc)
  next
    case (Some p)
    then obtain hb t where "latest ops r = Some (hb, t)" "p = row hb t"
      using assms(1) by (auto simp: tracked_def)
    then show ?thesis using Some get
      by (auto simp: tracked_def latest_snoc silent_def row_def)
  qed
qed

lemma tracks_step:
  assumes "tracks g ops" and "in_order (ops @ [op])"
  shows "tracks (registry_step g op) (ops @ [op])"
  using assms
  by (cases op) (auto simp: tracks_def in_order_def inv_step tracked_observe
      intro: tracked_age_out)

lemma tracks_run:
  assumes "registry_init t = Inr g" and "in_order ops"
  shows "tracks (run registry_step g ops) ops \<and> rg_timeout_sec (run registry_step g ops) = t"
  using assms(2)
proof (induction ops rule: rev_induct)
  case Nil
  have "registry_ok g" using assms(1) registry_init_ok by blast
  then show ?case using assms(1)
    by (auto simp: tracks_def tracked_def registry_init_def od_get_def split: if_splits)
next
  case (snoc op ops)
  then have "in_order ops" by (auto simp: in_order_def sorted_append)
  with snoc have IH: "tracks (run registry_step g ops) ops"
    "rg_timeout_sec (run registry_step g ops) = t" by auto
  have "rg_timeout_sec (registry_step (run registry_step g ops) op) = t"
  proof (cases op)
    case (Observe hb s)
    then show ?thesis
      using IH snoc.prems observe_row(2) [of hb "run registry_step g ops" s]
      by (simp add: in_order_def tracks_def)
  qed (simp add: IH)
  with tracks_step [OF IH(1) snoc.prems] show ?case by simp
qed

lemma live_row:
  assumes "registry_init timeout = Inr g0" and "in_order (ops @ [AgeOut now])"
  shows "od_get (rg_peers (run registry_step g0 (ops @ [AgeOut now]))) r =
      (case latest ops r of
         Some (hb, t) \<Rightarrow> if now - t \<le> timeout then Some (row hb t) else None
       | None \<Rightarrow> None)"
proof -
  let ?g = "run registry_step g0 ops"
  have ops: "in_order ops" and le: "\<And>op. op \<in> set ops \<Longrightarrow> op_time op \<le> now"
    using assms(2) by (auto simp: in_order_def sorted_append)
  from tracks_run [OF assms(1) ops] have tr: "tracked ?g ops r" "registry_ok ?g" "rg_timeout_sec ?g = timeout"
    by (auto simp: tracks_def)
  note get = age_out_get [OF tr(2), of now r]
  show ?thesis
  proof (cases "od_get (rg_peers ?g) r")
    case None
    have "\<not> now - t \<le> timeout" if l: "latest ops r = Some (hb, t)" for hb t
    proof -
      obtain op where "op \<in> set ops" "op_time op - t > timeout"
        using None l tr(1,3) by (auto simp: tracked_def)
      with le show ?thesis by fastforce
    qed
    with None get show ?thesis by (auto split: option.splits)
  next
    case (Some p)
    then obtain hb t where "latest ops r = Some (hb, t)" "p = row hb t"
      using tr(1) by (auto simp: tracked_def)
    with Some get tr(3) show ?thesis by (auto simp: silent_def row_def)
  qed
qed

lemma capable_iff:
  assumes "registry_ok g"
  shows "p \<in> set (capable g required) \<longleftrightarrow>
    registry_get g (pr_robot_id p) = Some p \<and> has_capabilities (pr_cap_mask p) required"
proof -
  have "p \<in> snd ` set (rg_peers g) \<longleftrightarrow> (pr_robot_id p, p) \<in> set (rg_peers g)"
    using assms by (force simp: registry_ok_def)
  then show ?thesis
    using assms by (auto simp: capable_def registry_get_def registry_ok_def od_get_iff)
qed

text \<open>
  C32: The registry is the set of robots still heard from. After any history of heartbeats and
  age-outs in clock order that ends with an age-out, the table holds exactly the robots whose
  latest heartbeat is no older than the timeout, each with what that heartbeat said; the
  capable peers are exactly those whose latest advertised mask covers the requirement.
\<close>

theorem registry_tracks_liveness:
  assumes "registry_init timeout = Inr g0" and "in_order (ops @ [AgeOut now])"
    and "g = run registry_step g0 (ops @ [AgeOut now])"
  shows "(\<forall>r. registry_get g r =
      (case latest ops r of
         Some (hb, t) \<Rightarrow> if now - t \<le> timeout then Some (row hb t) else None
       | None \<Rightarrow> None)) \<and>
    (\<forall>p required. p \<in> set (capable g required) \<longleftrightarrow>
      (\<exists>hb t. latest ops (pr_robot_id p) = Some (hb, t) \<and> now - t \<le> timeout \<and> p = row hb t \<and>
        has_capabilities (m_cap_mask hb) required))"
proof -
  have get: "registry_get g r = (case latest ops r of
      Some (hb, t) \<Rightarrow> if now - t \<le> timeout then Some (row hb t) else None | None \<Rightarrow> None)" for r
    using live_row [OF assms(1,2)] assms(3) by (simp add: registry_get_def)
  have "p \<in> set (capable g required) \<longleftrightarrow>
      registry_get g (pr_robot_id p) = Some p \<and> has_capabilities (pr_cap_mask p) required" for p required
    using capable_iff registry_ok_run [OF registry_init_ok [OF assms(1)]] assms(3) by blast
  then show ?thesis
    using get by (auto simp: row_def split: option.splits if_splits)
qed

theorem registry_tracks_liveness_witness:
  "\<exists>g0. registry_init 30 = Inr g0 \<and>
    registry_get (run registry_step g0 ([Observe (Heartbeat 3 0 5 0 0 0 80 0) 1, Observe (Heartbeat 4 0 5 0 0 0 80 0) 20]
      @ [AgeOut 40])) 4 \<noteq> None \<and>
    registry_get (run registry_step g0 ([Observe (Heartbeat 3 0 5 0 0 0 80 0) 1, Observe (Heartbeat 4 0 5 0 0 0 80 0) 20]
      @ [AgeOut 40])) 3 = None"
proof -
  let ?ops = "[Observe (Heartbeat 3 0 5 0 0 0 80 0) 1, Observe (Heartbeat 4 0 5 0 0 0 80 0) 20]"
  obtain g0 where g0: "registry_init 30 = Inr g0" by (simp add: registry_init_def)
  have "in_order (?ops @ [AgeOut 40])"
    by (simp add: in_order_def heartbeat_place_def target_of_def Target_def TargetKind_def
        word_in_range_def TARGET_WORD_MIN_def TARGET_WORD_MAX_def)
  from registry_tracks_liveness [OF g0 this refl] g0 show ?thesis by simp
qed


end
