(* ===== verification/Auction.thy ===== *)
theory Auction
  imports Tasks "HOL-Library.Product_Lexorder"
begin

text \<open>
  The owner's side of one auction, \<^verbatim>\<open>Auction\<close> of \<^verbatim>\<open>engine/auction.py\<close>: the bids that arrived,
  when to stop waiting, and who won. \<open>None\<close> for the next announcement is the code's
  \<^verbatim>\<open>float("inf")\<close>.
\<close>

record received_bid =
  rb_bidder_id :: int
  rb_task_id :: int
  rb_cost :: int
  rb_eta_s :: int
  rb_feasible :: bool
  rb_at :: secs

definition rank :: "received_bid \<Rightarrow> int \<times> int \<times> int" where
  "rank b = (rb_cost b, rb_eta_s b, rb_bidder_id b)"

record auction =
  au_task :: task
  au_expected_bidders :: "int set"
  au_opened_at :: secs
  au_closes_at :: secs
  au_announcements :: nat
  au_next_announce_at :: "secs option"
  au_bids :: "(int, received_bid) odict"

definition received_of :: "message \<Rightarrow> secs \<Rightarrow> received_bid" where
  "received_of bid now = \<lparr>rb_bidder_id = m_src bid, rb_task_id = m_task_id bid, rb_cost = m_cost bid,
     rb_eta_s = m_eta_s bid, rb_feasible = m_feasible bid, rb_at = now\<rparr>"

definition record_bid :: "auction \<Rightarrow> message \<Rightarrow> secs \<Rightarrow> auction \<times> bool" where
  "record_bid a bid now =
     (if m_task_id bid \<noteq> tk_id (au_task a) then (a, False)
      else case od_get (au_bids a) (m_src bid) of
        Some previous \<Rightarrow>
          if rb_at previous > now then (a, False)
          else (a\<lparr>au_bids := od_set (m_src bid) (received_of bid now) (au_bids a)\<rparr>, True)
      | None \<Rightarrow> (a\<lparr>au_bids := od_set (m_src bid) (received_of bid now) (au_bids a)\<rparr>, True))"

definition forget :: "auction \<Rightarrow> int \<Rightarrow> auction" where
  "forget a robot_id =
     a\<lparr>au_bids := od_del robot_id (au_bids a),
       au_expected_bidders := au_expected_bidders a - {robot_id}\<rparr>"

definition heard_from_everyone :: "auction \<Rightarrow> bool" where
  "heard_from_everyone a \<longleftrightarrow>
     au_expected_bidders a \<noteq> {} \<and> au_expected_bidders a \<subseteq> set (map fst (au_bids a))"

definition should_close :: "auction \<Rightarrow> secs \<Rightarrow> bool" where
  "should_close a now \<longleftrightarrow> now \<ge> au_closes_at a \<or> heard_from_everyone a"

definition winner :: "auction \<Rightarrow> received_bid option" where
  "winner a =
     (case filter rb_feasible (map snd (au_bids a)) of
        [] \<Rightarrow> None
      | viable \<Rightarrow> Some (arg_min_list rank viable))"

definition bids_ranked :: "auction \<Rightarrow> received_bid list" where
  "bids_ranked a = sort_key rank (map snd (au_bids a))"

definition feasible_bids :: "auction \<Rightarrow> received_bid list" where
  "feasible_bids a = filter rb_feasible (bids_ranked a)"

section \<open>Bids are keyed by the bidder\<close>

definition auction_ok :: "auction \<Rightarrow> bool" where
  "auction_ok a \<longleftrightarrow> od_ok (au_bids a) \<and>
     (\<forall>(k, b) \<in> set (au_bids a). rb_bidder_id b = k \<and> rb_task_id b = tk_id (au_task a))"

lemma auction_ok_record [inv_step]: "auction_ok a \<Longrightarrow> auction_ok (fst (record_bid a bid now))"
  by (auto simp: record_bid_def auction_ok_def od_ok_set received_of_def
      split: option.splits dest: set_od_set [THEN subsetD])

lemma auction_ok_forget [inv_step]: "auction_ok a \<Longrightarrow> auction_ok (forget a r)"
  by (auto simp: forget_def auction_ok_def od_ok_del set_od_del)

lemma record_bid_task [simp]:
  "au_task (fst (record_bid a bid now)) = au_task a"
  "au_closes_at (fst (record_bid a bid now)) = au_closes_at a"
  "au_expected_bidders (fst (record_bid a bid now)) = au_expected_bidders a"
  by (auto simp: record_bid_def split: option.splits)

lemma forget_simps [simp]:
  "au_task (forget a r) = au_task a" "au_closes_at (forget a r) = au_closes_at a"
  "au_bids (forget a r) = od_del r (au_bids a)"
  by (simp_all add: forget_def)

lemma arg_min_list_le: "xs \<noteq> [] \<Longrightarrow> x \<in> set xs \<Longrightarrow> f (arg_min_list f xs) \<le> (f x :: 'b :: linorder)"
proof (induction xs rule: induct_list012)
  case (3 y z zs)
  then show ?case by (auto simp: Let_def)
qed simp_all

lemma arg_min_list_mem: "xs \<noteq> [] \<Longrightarrow> arg_min_list (f :: 'a \<Rightarrow> 'b :: linorder) xs \<in> set xs"
proof (induction xs rule: induct_list012)
  case (3 y z zs)
  then show ?case by (auto simp: Let_def)
qed simp_all

lemma winner_None: "winner a = None \<longleftrightarrow> (\<forall>b \<in> snd ` set (au_bids a). \<not> rb_feasible b)"
proof -
  have "winner a = None \<longleftrightarrow> filter rb_feasible (map snd (au_bids a)) = []"
    by (simp add: winner_def split: list.splits)
  then show ?thesis by (auto simp: filter_empty_conv)
qed

lemma winner_SomeD:
  assumes "winner a = Some w"
  shows "w \<in> snd ` set (au_bids a)" "rb_feasible w"
    "\<And>b. b \<in> snd ` set (au_bids a) \<Longrightarrow> rb_feasible b \<Longrightarrow> rank w \<le> rank b"
proof -
  let ?v = "filter rb_feasible (map snd (au_bids a))"
  from assms have "?v \<noteq> []" and w: "w = arg_min_list rank ?v"
    by (auto simp: winner_def split: list.splits)
  then have "w \<in> set ?v" using arg_min_list_mem by blast
  then show "w \<in> snd ` set (au_bids a)" "rb_feasible w" by auto
  show "rank w \<le> rank b" if "b \<in> snd ` set (au_bids a)" "rb_feasible b" for b
    using that \<open>?v \<noteq> []\<close> arg_min_list_le [of ?v b rank] unfolding w by auto
qed

lemma winner_iff:
  assumes "auction_ok a"
  shows "winner a = Some w \<longleftrightarrow> w \<in> snd ` set (au_bids a) \<and> rb_feasible w \<and>
    (\<forall>b \<in> snd ` set (au_bids a). rb_feasible b \<longrightarrow> rank w \<le> rank b)"
    (is "?L \<longleftrightarrow> ?R")
proof
  assume ?L then show ?R using winner_SomeD by blast
next
  assume R: ?R
  then obtain v where v: "winner a = Some v"
    by (cases "winner a") (auto simp: winner_None)
  with R winner_SomeD [OF v] have "rank v = rank w" by (meson antisym)
  then have "rb_bidder_id v = rb_bidder_id w" by (simp add: rank_def)
  moreover have "od_get (au_bids a) (rb_bidder_id x) = Some x" if "x \<in> snd ` set (au_bids a)" for x
    using that assms by (fastforce simp: auction_ok_def od_get_iff)
  ultimately have "v = w" using winner_SomeD(1) [OF v] R by (metis option.inject)
  with v show ?L by simp
qed

lemma winner_keyed: "auction_ok a \<Longrightarrow> winner a = Some w \<Longrightarrow> od_get (au_bids a) (rb_bidder_id w) = Some w"
  using winner_SomeD(1) [of a w] by (fastforce simp: auction_ok_def od_get_iff)

section \<open>Arbitration\<close>

datatype auction_op = Record message secs | Forget int

fun auction_step :: "auction \<Rightarrow> auction_op \<Rightarrow> auction" where
  "auction_step a (Record bid now) = fst (record_bid a bid now)"
| "auction_step a (Forget r) = forget a r"

text \<open>
  The specification of the bid table is a map from bidders to standing offers: an offer for
  this task replaces the bidder's last one, a forgotten bidder has none.
\<close>

fun offer_step :: "int \<Rightarrow> (int \<rightharpoonup> received_bid) \<Rightarrow> auction_op \<Rightarrow> (int \<rightharpoonup> received_bid)" where
  "offer_step task_id m (Record bid now) =
     (if m_task_id bid = task_id then m(m_src bid \<mapsto> received_of bid now) else m)"
| "offer_step task_id m (Forget r) = m(r := None)"

definition standing :: "int \<Rightarrow> auction_op list \<Rightarrow> int \<rightharpoonup> received_bid" where
  "standing task_id ops = run (offer_step task_id) Map.empty ops"

fun bid_times :: "auction_op list \<Rightarrow> secs list" where
  "bid_times [] = []"
| "bid_times (Record _ t # ops) = t # bid_times ops"
| "bid_times (Forget _ # ops) = bid_times ops"

lemma bid_times_append [simp]: "bid_times (xs @ ys) = bid_times xs @ bid_times ys"
  by (induction xs rule: bid_times.induct) simp_all

lemma auction_refines:
  assumes "au_bids a0 = []" and "sorted (bid_times ops)"
  shows "auction_ok (run auction_step a0 ops) \<and> au_task (run auction_step a0 ops) = au_task a0 \<and>
    od_get (au_bids (run auction_step a0 ops)) = standing (tk_id (au_task a0)) ops \<and>
    (\<forall>(k, b) \<in> set (au_bids (run auction_step a0 ops)). rb_at b \<in> set (bid_times ops))"
  using assms(2)
proof (induction ops rule: rev_induct)
  case Nil
  then show ?case using assms(1) by (auto simp: auction_ok_def standing_def od_get_def)
next
  case (snoc op ops)
  let ?a = "run auction_step a0 ops"
  have IH: "auction_ok ?a" "au_task ?a = au_task a0"
    "od_get (au_bids ?a) = standing (tk_id (au_task a0)) ops"
    "\<forall>(k, b) \<in> set (au_bids ?a). rb_at b \<in> set (bid_times ops)"
    using snoc by (auto simp: sorted_append)
  show ?case
  proof (cases op)
    case (Record bid t)
    have "rb_at b \<le> t" if "od_get (au_bids ?a) r = Some b" for r b
      using that IH(4) od_get_mem [OF that] snoc.prems by (auto simp: Record sorted_append)
    then have rec: "fst (record_bid ?a bid t) =
        (if m_task_id bid = tk_id (au_task a0)
         then ?a\<lparr>au_bids := od_set (m_src bid) (received_of bid t) (au_bids ?a)\<rparr> else ?a)"
      using IH(2) by (auto simp: record_bid_def not_less [symmetric] split: option.splits)
    have "auction_ok (fst (record_bid ?a bid t))" using IH(1) by (simp add: inv_step)
    moreover have "od_get (au_bids (fst (record_bid ?a bid t))) = standing (tk_id (au_task a0)) (ops @ [op])"
      using IH(3) by (auto simp: rec Record standing_def od_get_set fun_eq_iff)
    moreover have "\<forall>(k, b) \<in> set (au_bids (fst (record_bid ?a bid t))). rb_at b \<in> set (bid_times (ops @ [op]))"
      using IH(4) by (auto simp: rec Record received_of_def dest!: set_od_set [THEN subsetD])
    ultimately show ?thesis using IH(2) by (simp add: Record)
  next
    case (Forget r)
    then show ?thesis
      using IH by (auto simp: inv_step standing_def od_get_del fun_eq_iff set_od_del)
  qed
qed

text \<open>
  C29: Arbitration depends on the standing offers only. Whatever bids arrived and whichever
  bidders were dropped, the winner is the feasible standing offer of lowest cost, then ETA,
  then robot id: there is one exactly when some standing offer is feasible, it is unique, and
  so every robot that knows the same offers, in whatever order they reached it, names the same
  winner.
\<close>

theorem winner_is_best_standing_offer:
  assumes "au_bids a0 = []" and "sorted (bid_times ops)"
    and "m = standing (tk_id (au_task a0)) ops" and "a = run auction_step a0 ops"
  shows "(winner a = Some w \<longleftrightarrow>
      (m (rb_bidder_id w) = Some w \<and> rb_feasible w \<and>
       (\<forall>r b. m r = Some b \<longrightarrow> rb_feasible b \<longrightarrow> rank w \<le> rank b))) \<and>
    (winner a = None \<longleftrightarrow> (\<forall>r b. m r = Some b \<longrightarrow> \<not> rb_feasible b))"
proof -
  have ref: "auction_ok a" "od_get (au_bids a) = m"
    using auction_refines [OF assms(1,2)] assms(3,4) by auto
  have mem: "b \<in> snd ` set (au_bids a) \<longleftrightarrow> (\<exists>r. m r = Some b)" for b
    using ref by (force simp: auction_ok_def od_get_iff simp flip: ref(2))
  have key: "m r = Some b \<Longrightarrow> m (rb_bidder_id b) = Some b" for r b
    using ref by (fastforce simp: auction_ok_def od_get_iff simp flip: ref(2))
  show ?thesis
    unfolding winner_iff [OF ref(1), of w] winner_None [of a] Ball_def mem using key by metis
qed

theorem winner_is_best_standing_offer_witness:
  "let a0 = \<lparr>au_task = \<lparr>tk_id = 7, tk_caps = 0, tk_location = \<lparr>tg_kind = TREE, tg_a = 3, tg_b = 0\<rparr>,
        tk_priority = 0, tk_payload = None\<rparr>, au_expected_bidders = {}, au_opened_at = 0, au_closes_at = 5,
        au_announcements = 1, au_next_announce_at = None, au_bids = []\<rparr>;
       ops = [Record (Bid 2 0 7 8 True 90) 1, Record (Bid 3 0 7 8 True 40) 2, Record (Bid 4 0 7 4 True 40) 3,
              Record (Bid 5 0 7 0 False 0) 4]
   in winner (run auction_step a0 ops) = Some (received_of (Bid 4 0 7 4 True 40) 3)"
proof -
  define a0 where "a0 = \<lparr>au_task = \<lparr>tk_id = 7, tk_caps = 0, tk_location = \<lparr>tg_kind = TREE, tg_a = 3, tg_b = 0\<rparr>,
        tk_priority = 0, tk_payload = None\<rparr>, au_expected_bidders = {}, au_opened_at = 0, au_closes_at = 5,
        au_announcements = 1, au_next_announce_at = None, au_bids = []\<rparr>"
  define ops where "ops = [Record (Bid 2 0 7 8 True 90) 1, Record (Bid 3 0 7 8 True 40) 2,
      Record (Bid 4 0 7 4 True 40) 3, Record (Bid 5 0 7 0 False 0) 4]"
  have "standing 7 ops = [2 \<mapsto> received_of (Bid 2 0 7 8 True 90) 1, 3 \<mapsto> received_of (Bid 3 0 7 8 True 40) 2,
      4 \<mapsto> received_of (Bid 4 0 7 4 True 40) 3, 5 \<mapsto> received_of (Bid 5 0 7 0 False 0) 4]"
    by (simp add: standing_def ops_def)
  then have "winner (run auction_step a0 ops) = Some (received_of (Bid 4 0 7 4 True 40) 3)"
    using winner_is_best_standing_offer [of a0 ops _ _ "received_of (Bid 4 0 7 4 True 40) 3"]
    by (auto simp: a0_def ops_def received_of_def rank_def less_eq_prod_def split: if_splits)
  then show ?thesis by (simp only: a0_def ops_def Let_def)
qed

end
