(* ===== verification/Bidding.thy ===== *)
theory Bidding
  imports Auction
begin

text \<open>
  The bidder's side of an auction (\<^verbatim>\<open>engine/bidding.py\<close>): fitness, the backoff a bid waits
  for, and the comparison by which an overheard bid suppresses ours. Floats are exact
  rationals. A draw of the random number generator is an argument: \<open>uniform lo hi x\<close> is
  \<^verbatim>\<open>random.uniform(lo, hi)\<close> when \<^verbatim>\<open>random.random()\<close> returned \<open>x\<close>.
\<close>

definition DEFAULT_MAX_BACKOFF_SEC :: secs where "DEFAULT_MAX_BACKOFF_SEC = 2"
definition DEFAULT_JITTER_FRACTION :: rat where "DEFAULT_JITTER_FRACTION = 5 / 100"

definition uniform :: "rat \<Rightarrow> rat \<Rightarrow> rat \<Rightarrow> rat" where
  "uniform lo hi x = lo + (hi - lo) * x"

definition backoff_for :: "int \<Rightarrow> secs \<Rightarrow> rat \<Rightarrow> rat \<Rightarrow> secs" where
  "backoff_for cost max_backoff_sec jitter_fraction x =
     (let fraction = of_int (min (max cost 0) COST_MAX) / of_int COST_MAX;
          delay = max_backoff_sec * fraction
      in if jitter_fraction \<noteq> 0 then delay + uniform 0 (max_backoff_sec * jitter_fraction) x else delay)"

definition quantized_eta :: "rat \<Rightarrow> int" where
  "quantized_eta eta_sec =
     (let eta = max 0 eta_sec;
          quantized = py_round (eta / of_int ETA_RESOLUTION_S) * ETA_RESOLUTION_S
      in min quantized ETA_MAX_S)"

definition default_fitness :: "task \<Rightarrow> rat \<Rightarrow> int \<Rightarrow> bool \<Rightarrow> rat \<Rightarrow> fitness" where
  "default_fitness t eta_sec battery busy max_eta_sec =
     (let travel = min (max eta_sec 0 / max_eta_sec) 1;
          load = (if busy then 35 / 100 else 0);
          headroom = max 0 (min battery 100);
          depletion = (if headroom \<ge> 50 then 0 else of_int (50 - headroom) / 50);
          score = 55 / 100 * travel + load + 35 / 100 * depletion;
          cost = py_round (min score 1 * of_int COST_MAX)
      in \<lparr>ft_feasible = True, ft_cost = cost, ft_eta_s = quantized_eta eta_sec\<rparr>)"

record pending_bid =
  pb_task_id :: int
  pb_task :: task
  pb_announcer_id :: int
  pb_fitness :: fitness
  pb_send_at :: secs
  pb_created_at :: secs
  pb_sent_at :: "secs option"
  pb_deliberative :: bool
  pb_note :: text_str

definition outranked_by :: "pending_bid \<Rightarrow> int \<Rightarrow> int \<Rightarrow> int \<Rightarrow> int \<Rightarrow> bool" where
  "outranked_by p cost eta_s bidder_id our_id \<longleftrightarrow>
     (cost, eta_s, bidder_id) < (ft_cost (pb_fitness p), ft_eta_s (pb_fitness p), our_id)"

section \<open>Rounding\<close>

lemma py_round_bounds: "x - 1/2 \<le> of_int (py_round x)" "of_int (py_round x) \<le> x + 1/2"
proof -
  define f where "f = \<lfloor>x\<rfloor>"
  have "of_int f \<le> x" "x < of_int f + 1" unfolding f_def by linarith+
  then show "x - 1/2 \<le> of_int (py_round x)" "of_int (py_round x) \<le> x + 1/2"
    by (auto simp: py_round_def Let_def f_def [symmetric])
qed

lemma py_round_int [simp]: "py_round (of_int i) = i"
  by (simp add: py_round_def)

lemma py_round_mono: "x \<le> y \<Longrightarrow> py_round x \<le> py_round y"
proof -
  assume xy: "x \<le> y"
  show ?thesis
  proof (cases "\<lfloor>x\<rfloor> = \<lfloor>y\<rfloor>")
    case True
    then show ?thesis using xy by (auto simp: py_round_def Let_def)
  next
    case False
    then have "\<lfloor>x\<rfloor> + 1 \<le> \<lfloor>y\<rfloor>" using floor_mono [OF xy] by linarith
    moreover have "py_round x \<le> \<lfloor>x\<rfloor> + 1" "\<lfloor>y\<rfloor> \<le> py_round y"
      by (auto simp: py_round_def Let_def)
    ultimately show ?thesis by linarith
  qed
qed

lemma py_round_within: "of_int a \<le> x \<Longrightarrow> x \<le> of_int b \<Longrightarrow> a \<le> py_round x \<and> py_round x \<le> b"
  using py_round_mono [of "of_int a" x] py_round_mono [of x "of_int b"] by simp

section \<open>Fitness\<close>

text \<open>What the wire can carry exactly.\<close>

definition fitness_ok :: "fitness \<Rightarrow> bool" where
  "fitness_ok f \<longleftrightarrow> 0 \<le> ft_cost f \<and> ft_cost f \<le> COST_MAX \<and> 0 \<le> ft_eta_s f \<and>
     ft_eta_s f \<le> ETA_MAX_S \<and> ETA_RESOLUTION_S dvd ft_eta_s f"

lemma quantized_eta_ok:
  "0 \<le> quantized_eta e" "quantized_eta e \<le> ETA_MAX_S" "ETA_RESOLUTION_S dvd quantized_eta e"
proof -
  have "0 \<le> py_round (max 0 e / 4)"
    using py_round_mono [of 0 "max 0 e / 4"] py_round_int [of 0] by simp
  then show "0 \<le> quantized_eta e" "quantized_eta e \<le> ETA_MAX_S" "ETA_RESOLUTION_S dvd quantized_eta e"
    by (auto simp: quantized_eta_def Let_def ETA_MAX_S_def ETA_RESOLUTION_S_def min_def)
qed

lemma quantized_eta_fixed:
  assumes "0 \<le> e" "e \<le> ETA_MAX_S" "ETA_RESOLUTION_S dvd e"
  shows "quantized_eta (of_int e) = e"
proof -
  obtain k where k: "e = 4 * k" using assms(3) by (auto simp: ETA_RESOLUTION_S_def)
  then have "of_int e / 4 = (of_int k :: rat)" by simp
  with k assms show ?thesis
    by (simp add: quantized_eta_def ETA_RESOLUTION_S_def max_def)
qed

lemma quantized_eta_mono: "x \<le> y \<Longrightarrow> quantized_eta x \<le> quantized_eta y"
proof -
  assume "x \<le> y"
  then have "py_round (max 0 x / 4) \<le> py_round (max 0 y / 4)"
    by (intro py_round_mono divide_right_mono) auto
  then show ?thesis by (auto simp: quantized_eta_def Let_def ETA_RESOLUTION_S_def min_def)
qed

definition depletion :: "int \<Rightarrow> rat" where
  "depletion battery =
     (if max 0 (min battery 100) \<ge> 50 then 0 else of_int (50 - max 0 (min battery 100)) / 50)"

definition fitness_score :: "rat \<Rightarrow> int \<Rightarrow> bool \<Rightarrow> rat \<Rightarrow> rat" where
  "fitness_score eta_sec battery busy max_eta_sec =
     55 / 100 * min (max eta_sec 0 / max_eta_sec) 1 + (if busy then 35 / 100 else 0) +
     35 / 100 * depletion battery"

lemma default_fitness_alt:
  "default_fitness t e b busy m =
     \<lparr>ft_feasible = True, ft_cost = py_round (min (fitness_score e b busy m) 1 * of_int COST_MAX),
      ft_eta_s = quantized_eta e\<rparr>"
  by (simp add: default_fitness_def fitness_score_def depletion_def Let_def)

lemma depletion_nonneg: "0 \<le> depletion b"
  by (auto simp: depletion_def)

lemma depletion_mono: "b' \<le> b \<Longrightarrow> depletion b \<le> depletion b'"
  by (auto simp: depletion_def max_def min_def split: if_splits)

lemma fitness_score_nonneg: "0 < m \<Longrightarrow> 0 \<le> fitness_score e b busy m"
  using depletion_nonneg [of b]
  by (auto simp: fitness_score_def intro!: add_nonneg_nonneg mult_nonneg_nonneg divide_nonneg_nonneg)

lemma default_fitness_ok: "0 < m \<Longrightarrow> fitness_ok (default_fitness t e b busy m)"
proof -
  assume "0 < m"
  then have "0 \<le> min (fitness_score e b busy m) 1 * of_int COST_MAX"
    "min (fitness_score e b busy m) 1 * of_int COST_MAX \<le> of_int COST_MAX"
    using fitness_score_nonneg [of m e b busy] by (auto simp: COST_MAX_def)
  from py_round_within [of 0, OF _ this(2)] this(1) show ?thesis
    by (simp add: fitness_ok_def default_fitness_alt quantized_eta_ok)
qed

lemma fitness_score_mono:
  assumes "0 < m" "e \<le> e'" "b' \<le> b" "busy \<longrightarrow> busy'"
  shows "fitness_score e b busy m \<le> fitness_score e' b' busy' m"
proof -
  have "max e 0 / m \<le> max e' 0 / m" using assms(1,2) by (intro divide_right_mono) auto
  then have "min (max e 0 / m) 1 \<le> min (max e' 0 / m) 1" by (auto simp: min_def)
  then have "55 / 100 * min (max e 0 / m) 1 \<le> 55 / 100 * min (max e' 0 / m) 1" by linarith
  moreover have "(if busy then 35 / 100 else 0) \<le> (if busy' then 35 / 100 else (0 :: rat))"
    using assms(4) by simp
  moreover have "35 / 100 * depletion b \<le> 35 / 100 * depletion b'"
    using depletion_mono [OF assms(3)] by linarith
  ultimately show ?thesis unfolding fitness_score_def by linarith
qed

text \<open>
  The stock fitness stays in the range the wire carries and points the right way. Its
  cost is 0..255 and its ETA a multiple of 4 up to 1020, and a robot that is farther away,
  lower on battery or busier never bids a lower cost, nor one farther away a lower ETA.
\<close>

lemma default_fitness_in_range_and_monotone:
  assumes "0 < max_eta" and "eta \<le> eta'" and "battery' \<le> battery" and "busy \<longrightarrow> busy'"
  shows "fitness_ok (default_fitness t eta battery busy max_eta) \<and>
    ft_feasible (default_fitness t eta battery busy max_eta) \<and>
    ft_cost (default_fitness t eta battery busy max_eta) \<le> ft_cost (default_fitness t' eta' battery' busy' max_eta) \<and>
    ft_eta_s (default_fitness t eta battery busy max_eta) \<le> ft_eta_s (default_fitness t' eta' battery' busy' max_eta)"
proof -
  have "min (fitness_score eta battery busy max_eta) 1 * of_int COST_MAX
      \<le> min (fitness_score eta' battery' busy' max_eta) 1 * of_int COST_MAX"
    using fitness_score_mono [OF assms] by (intro mult_right_mono) (auto simp: min_def COST_MAX_def)
  from py_round_mono [OF this] show ?thesis
    using default_fitness_ok [OF assms(1)] quantized_eta_mono [OF assms(2)]
    by (simp add: default_fitness_alt)
qed

lemma default_fitness_in_range_and_monotone_witness:
  "\<forall>t. ft_cost (default_fitness t 100 90 False 1020) \<le> ft_cost (default_fitness t 400 20 True 1020)"
  using default_fitness_in_range_and_monotone [of 1020 100 400 20 90 False True] by simp

section \<open>Suppression\<close>

text \<open>
  The bid a pending bid goes out as (\<^verbatim>\<open>CoordinatorSession._transmit_bid\<close>); the session below
  stamps source and sequence number.
\<close>

definition bid_message :: "pending_bid \<Rightarrow> message" where
  "bid_message p =
     Bid 0 0 (pb_task_id p) (quantized_eta (of_int (ft_eta_s (pb_fitness p))))
       (ft_feasible (pb_fitness p))
       (if ft_feasible (pb_fitness p) then min (ft_cost (pb_fitness p)) COST_MAX else COST_MAX)"

lemma record_new_bid:
  assumes "auction_ok a" and "m_task_id bid = tk_id (au_task a)"
    and "od_get (au_bids a) (m_src bid) = None"
  shows "auction_ok (fst (record_bid a bid now))"
    and "snd ` set (au_bids (fst (record_bid a bid now))) = insert (received_of bid now) (snd ` set (au_bids a))"
proof -
  show "auction_ok (fst (record_bid a bid now))" using assms(1) by (rule auction_ok_record)
  have "au_bids (fst (record_bid a bid now)) = au_bids a @ [(m_src bid, received_of bid now)]"
    using assms od_get_None [of "au_bids a" "m_src bid"] by (simp add: record_bid_def od_set_fresh)
  then show "snd ` set (au_bids (fst (record_bid a bid now))) = insert (received_of bid now) (snd ` set (au_bids a))"
    by simp
qed

text \<open>Adding an offer that a standing feasible one outranks changes no winner.\<close>

lemma winner_insert_outranked:
  assumes "auction_ok a" "auction_ok a'" and "snd ` set (au_bids a') = insert b (snd ` set (au_bids a))"
    and "r \<in> snd ` set (au_bids a)" "rb_feasible r" "rank r < rank b"
  shows "winner a' = winner a"
proof -
  obtain w where w: "winner a = Some w"
    using assms(4,5) by (cases "winner a") (auto simp: winner_None)
  have "rank w < rank b" using winner_SomeD(3) [OF w assms(4,5)] assms(6) by simp
  then have "winner a' = Some w"
    using winner_SomeD [OF w] unfolding winner_iff [OF assms(2)] assms(3) by auto
  with w show ?thesis by simp
qed

lemma fitness_on_wire:
  assumes "fitness_ok (pb_fitness p)" and "ft_feasible (pb_fitness p)"
    and "encode (set_header our_id seq (bid_message p)) maxb = Inr data"
  shows "decode data = Inr (Bid our_id seq (pb_task_id p) (ft_eta_s (pb_fitness p)) True (ft_cost (pb_fitness p)))"
proof -
  have eta: "quantized_eta (of_int (ft_eta_s (pb_fitness p))) = ft_eta_s (pb_fitness p)"
    using assms(1) by (intro quantized_eta_fixed) (auto simp: fitness_ok_def)
  obtain k where k: "ft_eta_s (pb_fitness p) = 4 * k"
    using assms(1) by (auto simp: fitness_ok_def ETA_RESOLUTION_S_def)
  have "(4 * k * 2 + 4) div 8 * 4 = 4 * k" by presburger
  with eta k show ?thesis
    using decode_encode(1) [OF assms(3)] assms(1,2)
    by (simp add: bid_message_def names_place_def targeted_types fitness_ok_def ETA_RESOLUTION_S_def)
qed

text \<open>
  C30: Suppressing a bid never changes who wins. Take a robot whose pending bid has a feasible
  fitness in the range the wire carries (as the stock fitness always has), and suppose it overhears a
  feasible bid of another robot that outranks it. Then in any auction for the task where that bid
  stands and ours has not arrived, hearing ours, in the bytes we would have sent, would leave
  the winner unchanged: the bidders' comparison and the announcer's are the same order.
\<close>

theorem suppression_preserves_winner:
  assumes "fitness_ok (pb_fitness p)" and "ft_feasible (pb_fitness p)"
    and "outranked_by p (m_cost rival) (m_eta_s rival) (m_src rival) our_id"
    and "rival = Bid r rseq (pb_task_id p) reta True rcost"
    and "auction_ok a" and "tk_id (au_task a) = pb_task_id p"
    and "od_get (au_bids a) r = Some (received_of rival t)" and "od_get (au_bids a) our_id = None"
    and "encode (set_header our_id seq (bid_message p)) maxb = Inr data"
    and "decode data = Inr ours"
  shows "winner (fst (record_bid a ours now)) = winner a"
proof -
  have ours: "ours = Bid our_id seq (pb_task_id p) (ft_eta_s (pb_fitness p)) True (ft_cost (pb_fitness p))"
    using fitness_on_wire [OF assms(1,2,9)] assms(10) by simp
  have "received_of rival t \<in> snd ` set (au_bids a)"
    using od_get_mem [OF assms(7)] by force
  moreover have "rank (received_of rival t) < rank (received_of ours now)"
    using assms(3) by (simp add: ours assms(4) outranked_by_def rank_def received_of_def)
  ultimately show ?thesis
    using record_new_bid [OF assms(5), of ours now] assms(6,8)
    by (intro winner_insert_outranked [OF assms(5), of _ "received_of ours now" "received_of rival t"])
      (simp_all add: ours assms(4) received_of_def)
qed

theorem suppression_preserves_winner_witness:
  "\<exists>p a. outranked_by p 40 8 3 2 \<and>
     (\<exists>data ours. encode (set_header 2 1 (bid_message p)) 50 = Inr data \<and> decode data = Inr ours \<and>
       winner (fst (record_bid a ours 3)) = winner a)"
proof -
  let ?t = "\<lparr>tk_id = 7, tk_caps = 0, tk_location = \<lparr>tg_kind = TREE, tg_a = 3, tg_b = 0\<rparr>,
        tk_priority = 0, tk_payload = None\<rparr>"
  let ?rival = "Bid 3 0 7 8 True 40"
  let ?p = "\<lparr>pb_task_id = 7, pb_task = ?t, pb_announcer_id = 1,
      pb_fitness = \<lparr>ft_feasible = True, ft_cost = 90, ft_eta_s = 8\<rparr>, pb_send_at = 2, pb_created_at = 1,
      pb_sent_at = None, pb_deliberative = False, pb_note = []\<rparr>"
  let ?a = "\<lparr>au_task = ?t, au_expected_bidders = {}, au_opened_at = 0, au_closes_at = 5,
        au_announcements = 1, au_next_announce_at = None, au_bids = [(3, received_of ?rival 2)]\<rparr>"
  have p: "fitness_ok (pb_fitness ?p)" "outranked_by ?p 40 8 3 2" "auction_ok ?a"
    by (simp_all add: fitness_ok_def wire_consts outranked_by_def auction_ok_def od_ok_def received_of_def)
  have "quantized_eta (of_int 8) = 8"
    by (rule quantized_eta_fixed) (simp_all add: wire_consts)
  then have m: "set_header 2 1 (bid_message ?p) = Bid 2 1 7 8 True 90"
    by (simp add: bid_message_def wire_consts)
  obtain data where d: "encode (set_header 2 1 (bid_message ?p)) 50 = Inr data"
    using encode_ok [of "Bid 2 1 7 8 True 90" 50] unfolding m
    by (auto simp: wire_consts message_size_def payload_format_def calcsize_def fld_def)
  obtain ours where o: "decode data = Inr ours"
    using fitness_on_wire [OF p(1) _ d] by simp
  have "winner (fst (record_bid ?a ours 3)) = winner ?a"
    by (rule suppression_preserves_winner [OF p(1) _ _ refl p(3) _ _ _ d o, where rseq = 0 and r = 3 and reta = 8 and rcost = 40 and t = 2])
      (use p(2) in \<open>simp_all add: od_get_def\<close>)
  with p(2) d o show ?thesis by blast
qed

end
