(* ===== verification/Coordinator_Params.thy ===== *)
theory Coordinator_Params
  imports Bidding Registry
begin

text \<open>
  The tunables of the contract net (\<^verbatim>\<open>CoordinatorParams\<close> of \<^verbatim>\<open>engine/coordinator.py\<close>), the
  relationships their constructor enforces, and what those relationships are for.
\<close>

record coordinator_params =
  cp_announce_window_sec :: secs
  cp_announce_repeat_sec :: secs
  cp_bid_max_backoff_sec :: secs
  cp_bid_jitter_fraction :: rat
  cp_note_window_multiplier :: rat
  cp_note_backoff_multiplier :: rat
  cp_bid_memory_sec :: secs
  cp_max_delegation_attempts :: int
  cp_redelegation_cooldown_sec :: secs
  cp_peer_timeout_sec :: secs
  cp_heartbeat_period_sec :: secs
  cp_settled_retention_sec :: secs
  cp_max_open_auctions :: int

definition default_coordinator_params :: coordinator_params where
  "default_coordinator_params = \<lparr>cp_announce_window_sec = 5, cp_announce_repeat_sec = 2,
     cp_bid_max_backoff_sec = DEFAULT_MAX_BACKOFF_SEC, cp_bid_jitter_fraction = DEFAULT_JITTER_FRACTION,
     cp_note_window_multiplier = 9, cp_note_backoff_multiplier = 10, cp_bid_memory_sec = 60,
     cp_max_delegation_attempts = 2, cp_redelegation_cooldown_sec = 30,
     cp_peer_timeout_sec = DEFAULT_PEER_TIMEOUT_SEC, cp_heartbeat_period_sec = 10,
     cp_settled_retention_sec = 300, cp_max_open_auctions = 8\<rparr>"

definition note_announce_window_sec :: "coordinator_params \<Rightarrow> secs" where
  "note_announce_window_sec p = cp_announce_window_sec p * cp_note_window_multiplier p"

definition note_bid_max_backoff_sec :: "coordinator_params \<Rightarrow> secs" where
  "note_bid_max_backoff_sec p = cp_bid_max_backoff_sec p * cp_note_backoff_multiplier p"

definition coordinator_params_post_init :: "coordinator_params \<Rightarrow> py_exn + coordinator_params" where
  "coordinator_params_post_init p =
     (if cp_announce_window_sec p \<le> 0 then Inl ValueError
      else if cp_bid_max_backoff_sec p < 0 then Inl ValueError
      else if \<not> (0 \<le> cp_bid_jitter_fraction p \<and> cp_bid_jitter_fraction p < 1) then Inl ValueError
      else if cp_bid_max_backoff_sec p * (1 + cp_bid_jitter_fraction p) \<ge> cp_announce_window_sec p
        then Inl ValueError
      else if cp_note_window_multiplier p < 1 then Inl ValueError
      else if cp_note_backoff_multiplier p < 1 then Inl ValueError
      else if note_bid_max_backoff_sec p * (1 + cp_bid_jitter_fraction p) \<ge> note_announce_window_sec p
        then Inl ValueError
      else if cp_max_delegation_attempts p < 1 then Inl ValueError
      else if cp_bid_memory_sec p \<le> cp_announce_window_sec p then Inl ValueError
      else Inr p)"

text \<open>\<^verbatim>\<open>make_backoff\<close>, bound to the fast or the deliberative clock.\<close>

definition backoff :: "coordinator_params \<Rightarrow> bool \<Rightarrow> int \<Rightarrow> rat \<Rightarrow> secs" where
  "backoff p deliberative cost x =
     backoff_for cost
       (if deliberative then note_bid_max_backoff_sec p else cp_bid_max_backoff_sec p)
       (cp_bid_jitter_fraction p) x"

definition window :: "coordinator_params \<Rightarrow> bool \<Rightarrow> secs" where
  "window p deliberative =
     (if deliberative then note_announce_window_sec p else cp_announce_window_sec p)"

section \<open>Backoff against the window\<close>

definition cost_fraction :: "int \<Rightarrow> rat" where
  "cost_fraction cost = of_int (min (max cost 0) COST_MAX) / of_int COST_MAX"

lemma cost_fraction_range: "0 \<le> cost_fraction c" "cost_fraction c \<le> 1"
  by (simp_all add: cost_fraction_def COST_MAX_def)

lemma cost_fraction_mono: "c \<le> d \<Longrightarrow> cost_fraction c \<le> cost_fraction d"
  unfolding cost_fraction_def by (intro divide_right_mono) (auto simp: COST_MAX_def)

lemma backoff_for_alt: "backoff_for c m j x = m * (cost_fraction c + j * x)"
  by (simp add: backoff_for_def cost_fraction_def uniform_def Let_def algebra_simps)

lemma backoff_for_bounds:
  assumes "0 \<le> m" "0 \<le> j" "0 \<le> x" "x < 1"
  shows "0 \<le> backoff_for c m j x" "backoff_for c m j x \<le> m * (1 + j)"
proof -
  have jx: "0 \<le> j * x" "j * x \<le> j" using assms by (auto simp: mult_left_le)
  then show "0 \<le> backoff_for c m j x"
    using assms(1) cost_fraction_range(1) [of c] by (simp add: backoff_for_alt)
  show "backoff_for c m j x \<le> m * (1 + j)"
    unfolding backoff_for_alt using assms(1) cost_fraction_range(2) [of c] jx
    by (intro mult_left_mono) auto
qed

text \<open>
  With accepted parameters the fitness ordering decides the auction. On the fast and on the
  deliberative clock alike, every bid, however bad its cost and whatever the jitter, is sent
  after a nonnegative wait and strictly before an auction of that kind opened at the same
  instant closes; a lower cost never waits longer under the same draw; and between bids whose costs differ by more
  than the jitter can hide, the better one goes first whatever the two draws.
\<close>

lemma backoff_inside_window:
  assumes "coordinator_params_post_init p = Inr p'" and "0 \<le> x" and "x < 1" and "0 \<le> y" and "y < 1"
  shows "0 \<le> backoff p d cost x \<and> backoff p d cost x < window p d \<and>
    (cost \<le> cost' \<longrightarrow> backoff p d cost x \<le> backoff p d cost' x) \<and>
    (0 \<le> cost \<longrightarrow> cost' \<le> COST_MAX \<longrightarrow>
       of_int (cost' - cost) \<ge> of_int COST_MAX * cp_bid_jitter_fraction p \<longrightarrow>
       backoff p d cost x \<le> backoff p d cost' y)"
proof -
  let ?m = "if d then note_bid_max_backoff_sec p else cp_bid_max_backoff_sec p"
  let ?j = "cp_bid_jitter_fraction p"
  have ok: "0 \<le> cp_bid_max_backoff_sec p" "0 \<le> ?j" "1 \<le> cp_note_backoff_multiplier p"
    "cp_bid_max_backoff_sec p * (1 + ?j) < cp_announce_window_sec p"
    "note_bid_max_backoff_sec p * (1 + ?j) < note_announce_window_sec p"
    using assms(1) by (auto simp: coordinator_params_post_init_def split: if_splits)
  then have m: "0 \<le> ?m" "?m * (1 + ?j) < window p d"
    by (auto simp: window_def note_bid_max_backoff_sec_def)
  have mono: "backoff p d cost x \<le> backoff p d cost' x" if "cost \<le> cost'"
    using m(1) cost_fraction_mono [OF that]
    by (simp add: backoff_def backoff_for_alt mult_left_mono del: if_split)
  have apart: "backoff p d cost x \<le> backoff p d cost' y"
    if c: "0 \<le> cost" "cost' \<le> COST_MAX" "of_int (cost' - cost) \<ge> of_int COST_MAX * ?j"
  proof -
    have "0 \<le> of_int COST_MAX * ?j"
      using ok(2) by (intro mult_nonneg_nonneg) (simp_all add: COST_MAX_def)
    then have "0 \<le> (of_int (cost' - cost) :: rat)" using c(3) by (rule order_trans)
    then have "cost \<le> cost'" by simp
    then have "cost_fraction cost' - cost_fraction cost = of_int (cost' - cost) / of_int COST_MAX"
      using c(1,2) by (simp add: cost_fraction_def diff_divide_distrib)
    also have "\<dots> \<ge> ?j" using c(3) by (simp add: COST_MAX_def field_simps)
    finally have "cost_fraction cost + ?j \<le> cost_fraction cost'" by simp
    moreover have "?j * x \<le> ?j" "0 \<le> ?j * y" using ok(2) assms by (auto simp: mult_left_le)
    ultimately show ?thesis
      unfolding backoff_def backoff_for_alt using m(1) by (intro mult_left_mono) linarith+
  qed
  have "0 \<le> backoff p d cost x" "backoff p d cost x \<le> ?m * (1 + ?j)"
    unfolding backoff_def by (rule backoff_for_bounds [OF m(1) ok(2) assms(2,3)])+
  then have "0 \<le> backoff p d cost x \<and> backoff p d cost x < window p d"
    using m(2) by (metis order.strict_trans1)
  then show ?thesis using mono apart by blast
qed

lemma backoff_inside_window_witness:
  "backoff default_coordinator_params True 255 (9/10) < 45 \<and>
   backoff default_coordinator_params False 10 (9/10) \<le> backoff default_coordinator_params False 100 0"
proof -
  have "coordinator_params_post_init default_coordinator_params = Inr default_coordinator_params"
    by (simp add: coordinator_params_post_init_def default_coordinator_params_def
        note_bid_max_backoff_sec_def note_announce_window_sec_def DEFAULT_MAX_BACKOFF_SEC_def
        DEFAULT_JITTER_FRACTION_def)
  note * = backoff_inside_window [OF this, of "9/10" 0]
  show ?thesis
    using *[of True 255 255] *[of False 10 100]
    by (simp add: window_def note_announce_window_sec_def default_coordinator_params_def
        DEFAULT_JITTER_FRACTION_def COST_MAX_def)
qed

end
