(* ===== verification/Coordinator.thy ===== *)
theory Coordinator
  imports Coordinator_Params Session
begin

text \<open>
  The contract net (\<^verbatim>\<open>CoordinatorSession\<close> of \<^verbatim>\<open>engine/coordinator.py\<close>), both roles. Every method is
  a function from the state to the new state and, where it can raise, the exception that
  leaves it; the clock reading is an argument.

  The ports (reliability layer, navigation, mission node, interpreter, replanner, preemption
  flag, random numbers) are external: \<open>ports\<close> holds one function per question, whose first
  argument is the number of port calls made so far, so that a port may answer each call
  differently. What is asked of them is appended to \<open>co_log\<close>. Ports do not call back into the
  coordinator, except that a reliability layer may hand back a future that is already resolved.
  The code's \<^verbatim>\<open>_safe\<close> turns a raising query into its default; a query that returns \<open>None\<close> in
  the model is one that raised. A fitness function that raises is not modelled.

  A task record is mutated in place through references the code keeps; every such record sits
  in \<^verbatim>\<open>_tasks\<close> under its task id while it is mutated, so the model updates the table at that id.
\<close>

section \<open>State\<close>

record owned_task =
  ow_task :: task
  ow_state :: task_state
  ow_auction :: "auction option"
  ow_fallback :: local_disposition
  ow_reason_code :: int
  ow_note :: text_str
  ow_delegation_attempts :: int
  ow_granted_to :: "int option"
  ow_excluded_bidders :: "int set"
  ow_last_announced_at :: "secs option"
  ow_settled_at :: "secs option"
  ow_in_mission :: bool

definition OwnedTask :: "task \<Rightarrow> owned_task" where
  "OwnedTask t = \<lparr>ow_task = t, ow_state = OURS, ow_auction = None, ow_fallback = HOLD,
     ow_reason_code = reason_int UNSPECIFIED, ow_note = [], ow_delegation_attempts = 0,
     ow_granted_to = None, ow_excluded_bidders = {}, ow_last_announced_at = None,
     ow_settled_at = None, ow_in_mission = True\<rparr>"

definition ours :: "owned_task \<Rightarrow> bool" where
  "ours r \<longleftrightarrow> ow_state r = OURS \<or> ow_state r = ANNOUNCED \<or> ow_state r = GRANTED"

text \<open>
  The exceptions that can leave a method: a port's, a bad value's, and Python's recursion limit.
\<close>

datatype coord_exn = PortError | BadValue py_exn | RecursionError

text \<open>What \<^verbatim>\<open>send_reliable\<close> may do: raise, return an open future, or one already resolved.\<close>

datatype send_answer = Refused | Accepted | Resolved outcome

datatype coord_counter =
  Anomalies | Interpret_failed | Announced_n | Re_announced | Delegation_refused | Auctions_won
| Auctions_no_bid | Grants_sent | Grants_delivered | Grants_failed | Tasks_transferred
| Tasks_absorbed | Tasks_dropped | Tasks_held | Escalated_to_human | Bids_considered
| Bids_incapable | Bids_sent | Bids_infeasible | Bids_suppressed | Bids_lost | Grants_unmatched
| Replans | Replans_rejected | Heartbeats_sent | Preemptions_requested | Rx_ignored | Notes_sent
| Notes_received | Notes_before_announce | Notes_after_announce | Notes_orphaned | Notes_too_late
| Note_interpret_failed | Bids_kept_after_note | Bids_revised_by_note | Bids_withdrawn_by_note

text \<open>
  The log. \<open>GrantSent f w t a\<close>: the GRANT of task \<open>t\<close> to robot \<open>w\<close>, with future number \<open>f\<close>;
  \<open>GrantReported f out\<close>: the reliability layer resolved that future.
\<close>

datatype port_call =
  Broadcast message bool
| GrantSent nat int int send_answer
| GrantReported nat outcome
| NoteSent int text_str "nat option"
| Absorb task
| Release task
| MarkTransferred task
| Replanned mission_delta "bool answer"
| YieldRequested int
| YieldCleared

record ports =
  pt_send_broadcast :: "nat \<Rightarrow> message \<Rightarrow> bool"
  pt_send_reliable :: "nat \<Rightarrow> int \<Rightarrow> message \<Rightarrow> send_answer"
  pt_send_note :: "nat \<Rightarrow> int \<Rightarrow> text_str \<Rightarrow> nat option"
  pt_completed_note :: "nat \<Rightarrow> int \<Rightarrow> int \<Rightarrow> completed_note option"
  pt_can_reach :: "nat \<Rightarrow> target \<Rightarrow> bool option"
  pt_eta :: "nat \<Rightarrow> target \<Rightarrow> rat option"
  pt_current_location :: "nat \<Rightarrow> target option"
  pt_can_absorb :: "nat \<Rightarrow> task \<Rightarrow> bool option"
  pt_current_task_id :: "nat \<Rightarrow> int option"
  pt_battery_percent :: "nat \<Rightarrow> int option"
  pt_interpret_anomaly :: "nat \<Rightarrow> anomaly_context \<Rightarrow> action answer"
  pt_replan_and_verify :: "nat \<Rightarrow> mission_delta \<Rightarrow> bool answer"
  pt_fitness :: "task \<Rightarrow> rat \<Rightarrow> int \<Rightarrow> bool \<Rightarrow> fitness"
  pt_random :: "nat \<Rightarrow> rat"

record coord =
  co_node_id :: int
  co_params :: coordinator_params
  co_cap_mask :: int
  co_registry :: registry
  co_tasks :: "(int, owned_task) odict"
  co_bids :: "(int, pending_bid) odict"
  co_next_heartbeat_at :: secs
  co_note_requests :: "note_context list"
  co_counters :: "coord_counter \<Rightarrow> nat"
  co_calls :: nat
  co_futures :: nat
  co_grants :: "(nat, int \<times> int) odict"
  co_log :: "port_call list"

definition coord_init :: "int \<Rightarrow> int list \<Rightarrow> coordinator_params \<Rightarrow> py_exn + coord" where
  "coord_init node_id capabilities params =
     (if \<not> (0 < node_id \<and> node_id \<le> 255) then Inl ValueError
      else case (if capabilities = [] then Inr 0 else cap_mask capabilities) of
        Inl e \<Rightarrow> Inl e
      | Inr m \<Rightarrow>
          (case registry_init (cp_peer_timeout_sec params) of
             Inl e \<Rightarrow> Inl e
           | Inr g \<Rightarrow>
               Inr \<lparr>co_node_id = node_id, co_params = params, co_cap_mask = m, co_registry = g,
                 co_tasks = [], co_bids = [], co_next_heartbeat_at = 0, co_note_requests = [],
                 co_counters = (\<lambda>_. 0), co_calls = 0, co_futures = 0, co_grants = [], co_log = []\<rparr>))"

section \<open>Plumbing\<close>

definition count :: "coord_counter \<Rightarrow> coord \<Rightarrow> coord" where
  "count c s = s\<lparr>co_counters := (co_counters s)(c := co_counters s c + 1)\<rparr>"

definition called :: "coord \<Rightarrow> coord" where
  "called s = s\<lparr>co_calls := co_calls s + 1\<rparr>"

definition note_call :: "port_call \<Rightarrow> coord \<Rightarrow> coord" where
  "note_call c s = s\<lparr>co_calls := co_calls s + 1, co_log := co_log s @ [c]\<rparr>"

definition task_of :: "coord \<Rightarrow> int \<Rightarrow> owned_task option" where
  "task_of s tid = od_get (co_tasks s) tid"

definition upd_task :: "int \<Rightarrow> (owned_task \<Rightarrow> owned_task) \<Rightarrow> coord \<Rightarrow> coord" where
  "upd_task tid f s =
     (case task_of s tid of
        None \<Rightarrow> s
      | Some r \<Rightarrow> s\<lparr>co_tasks := od_set tid (f r) (co_tasks s)\<rparr>)"

definition put_task :: "task \<Rightarrow> coord \<Rightarrow> coord" where
  "put_task t s = s\<lparr>co_tasks := od_set (tk_id t) (OwnedTask t) (co_tasks s)\<rparr>"

definition auction_of :: "coord \<Rightarrow> int \<Rightarrow> auction option" where
  "auction_of s tid = (case task_of s tid of None \<Rightarrow> None | Some r \<Rightarrow> ow_auction r)"

definition send_broadcast_port :: "ports \<Rightarrow> message \<Rightarrow> coord \<Rightarrow> coord \<times> coord_exn option" where
  "send_broadcast_port P m s =
     (let ok = pt_send_broadcast P (co_calls s) m
      in (note_call (Broadcast m ok) s, if ok then None else Some PortError))"

definition request_yield :: "int \<Rightarrow> coord \<Rightarrow> coord" where
  "request_yield tid s = note_call (YieldRequested tid) (count Preemptions_requested s)"

definition replan :: "ports \<Rightarrow> mission_delta \<Rightarrow> coord \<Rightarrow> coord \<times> bool option" where
  "replan P delta s =
     (let s1 = count Replans s;
          answer = pt_replan_and_verify P (co_calls s1) delta;
          s2 = note_call (Replanned delta answer) s1
      in case answer of
           Raises \<Rightarrow> (count Replans_rejected s2, None)
         | Foreign \<Rightarrow> (s2, None)
         | Answer accepted \<Rightarrow> (if accepted then s2 else count Replans_rejected s2, Some accepted))"

definition leave_mission :: "ports \<Rightarrow> int \<Rightarrow> cause \<Rightarrow> coord \<Rightarrow> coord" where
  "leave_mission P tid cause s =
     (case task_of s tid of
        None \<Rightarrow> s
      | Some r \<Rightarrow>
          if \<not> ow_in_mission r then s
          else fst (replan P \<lparr>md_removed = [ow_task r], md_added = [], md_cause = cause, md_note = []\<rparr>
                     (upd_task tid (\<lambda>r. r\<lparr>ow_in_mission := False\<rparr>) s)))"

definition rejoin_mission :: "ports \<Rightarrow> int \<Rightarrow> cause \<Rightarrow> coord \<Rightarrow> coord" where
  "rejoin_mission P tid cause s =
     (case task_of s tid of
        None \<Rightarrow> s
      | Some r \<Rightarrow>
          if ow_in_mission r then s
          else fst (replan P \<lparr>md_removed = [], md_added = [ow_task r], md_cause = cause, md_note = []\<rparr>
                     (upd_task tid (\<lambda>r. r\<lparr>ow_in_mission := True\<rparr>) s)))"

section \<open>Giving up locally\<close>

definition dispose_locally :: "ports \<Rightarrow> int \<Rightarrow> local_disposition \<Rightarrow> secs \<Rightarrow> coord \<Rightarrow> coord" where
  "dispose_locally P tid disposition now s =
     (let s1 = upd_task tid (\<lambda>r. r\<lparr>ow_auction := None\<rparr>) s
      in case disposition of
           DROP \<Rightarrow>
             let s2 = count Tasks_dropped
                        (upd_task tid (\<lambda>r. r\<lparr>ow_state := RELINQUISHED, ow_settled_at := Some now\<rparr>) s1);
                 s3 = (case task_of s2 tid of None \<Rightarrow> s2 | Some r \<Rightarrow> note_call (Release (ow_task r)) s2)
             in leave_mission P tid Dropped_undelegable (request_yield tid s3)
         | HOLD \<Rightarrow>
             rejoin_mission P tid Held_after_failure
               (count Tasks_held (upd_task tid (\<lambda>r. r\<lparr>ow_state := OURS\<rparr>) s1))
         | REQUEST_HUMAN \<Rightarrow>
             rejoin_mission P tid Escalated_to_operator
               (request_yield tid
                 (count Escalated_to_human (upd_task tid (\<lambda>r. r\<lparr>ow_state := OURS\<rparr>) s1))))"

text \<open>With the record's own fallback.\<close>

definition fall_back :: "ports \<Rightarrow> int \<Rightarrow> secs \<Rightarrow> coord \<Rightarrow> coord" where
  "fall_back P tid now s =
     (case task_of s tid of None \<Rightarrow> s | Some r \<Rightarrow> dispose_locally P tid (ow_fallback r) now s)"

section \<open>Announcing\<close>

definition emit_note :: "ports \<Rightarrow> int \<Rightarrow> coord \<Rightarrow> coord \<times> bool" where
  "emit_note P tid s =
     (case task_of s tid of
        None \<Rightarrow> (s, False)
      | Some r \<Rightarrow>
          if ow_note r = [] then (s, False)
          else let answer = pt_send_note P (co_calls s) tid (ow_note r);
                   s1 = note_call (NoteSent tid (ow_note r) answer) s
               in case answer of None \<Rightarrow> (s1, False) | Some fragments \<Rightarrow> (count Notes_sent s1, True))"

definition announce_message :: "owned_task \<Rightarrow> message" where
  "announce_message r =
     (let (kind, a, b) = target_fields (tk_location (ow_task r))
      in TaskAnnounce 0 0 (tk_id (ow_task r)) (tk_caps (ow_task r)) kind a b
           (tk_priority (ow_task r)) (ow_reason_code r))"

definition emit_announce :: "ports \<Rightarrow> int \<Rightarrow> secs \<Rightarrow> coord \<Rightarrow> coord \<times> coord_exn option" where
  "emit_announce P tid now s =
     (case task_of s tid of
        None \<Rightarrow> (s, None)
      | Some r \<Rightarrow>
          (case send_broadcast_port P (announce_message r) s of
             (s1, Some e) \<Rightarrow> (s1, Some e)
           | (s1, None) \<Rightarrow>
               (upd_task tid (\<lambda>r. r\<lparr>ow_auction := map_option (\<lambda>a.
                    a\<lparr>au_announcements := au_announcements a + 1,
                      au_next_announce_at :=
                        (if cp_announce_repeat_sec (co_params s1) > 0
                         then Some (now + cp_announce_repeat_sec (co_params s1)) else None)\<rparr>)
                    (ow_auction r)\<rparr>) s1, None)))"

definition new_auction :: "coord \<Rightarrow> owned_task \<Rightarrow> bool \<Rightarrow> secs \<Rightarrow> auction" where
  "new_auction s r sent_note now =
     \<lparr>au_task = ow_task r,
       au_expected_bidders =
         set (map pr_robot_id (capable (co_registry s) (tk_caps (ow_task r)))) - ow_excluded_bidders r,
       au_opened_at = now, au_closes_at = now + window (co_params s) sent_note, au_announcements = 0,
       au_next_announce_at = Some (now + cp_announce_repeat_sec (co_params s)), au_bids = []\<rparr>"

definition announce :: "ports \<Rightarrow> int \<Rightarrow> secs \<Rightarrow> coord \<Rightarrow> coord \<times> coord_exn option" where
  "announce P tid now s =
     (let s1 = upd_task tid (\<lambda>r. r\<lparr>ow_state := ANNOUNCED,
                 ow_delegation_attempts := ow_delegation_attempts r + 1,
                 ow_last_announced_at := Some now\<rparr>) s;
          (s2, sent_note) = emit_note P tid s1;
          s3 = upd_task tid (\<lambda>r. r\<lparr>ow_auction := Some (new_auction s2 r sent_note now)\<rparr>) s2
      in case emit_announce P tid now s3 of
           (s4, Some e) \<Rightarrow> (s4, Some e)
         | (s4, None) \<Rightarrow>
             (leave_mission P tid Announced_to_fleet (request_yield tid (count Announced_n s4)), None))"

definition no_viable_bid :: "ports \<Rightarrow> int \<Rightarrow> secs \<Rightarrow> coord \<Rightarrow> coord" where
  "no_viable_bid P tid now s =
     fall_back P tid now
       (count Auctions_no_bid (upd_task tid (\<lambda>r. r\<lparr>ow_auction := None, ow_state := OURS\<rparr>) s))"

section \<open>Granting\<close>

definition grant_delivered :: "ports \<Rightarrow> int \<Rightarrow> int \<Rightarrow> secs \<Rightarrow> coord \<Rightarrow> coord" where
  "grant_delivered P tid winner_id now s =
     (let s1 = count Tasks_transferred (count Grants_delivered
                 (upd_task tid (\<lambda>r. r\<lparr>ow_state := TRANSFERRED, ow_auction := None,
                    ow_settled_at := Some now\<rparr>) s));
          s2 = (case task_of s1 tid of
                  None \<Rightarrow> s1 | Some r \<Rightarrow> note_call (MarkTransferred (ow_task r)) s1)
      in leave_mission P tid (Transferred_to winner_id) (request_yield tid s2))"

text \<open>The end of \<^verbatim>\<open>_grant_failed\<close>: nobody left to offer it to.\<close>

definition retry_or_give_up :: "ports \<Rightarrow> int \<Rightarrow> secs \<Rightarrow> coord \<Rightarrow> coord \<times> coord_exn option" where
  "retry_or_give_up P tid now s =
     (let s1 = upd_task tid (\<lambda>r. r\<lparr>ow_auction := None\<rparr>) s
      in case task_of s1 tid of
           None \<Rightarrow> (s1, None)
         | Some r \<Rightarrow>
             if ow_delegation_attempts r < cp_max_delegation_attempts (co_params s1)
             then announce P tid now (upd_task tid (\<lambda>r. r\<lparr>ow_last_announced_at := None\<rparr>) s1)
             else (fall_back P tid now s1, None))"

definition grant_sent :: "int \<Rightarrow> int \<Rightarrow> send_answer \<Rightarrow> coord \<Rightarrow> coord" where
  "grant_sent tid winner_id answer s =
     (let s1 = note_call (GrantSent (co_futures s) winner_id tid answer) s
      in case answer of
           Refused \<Rightarrow> s1
         | Accepted \<Rightarrow>
             count Grants_sent (s1\<lparr>co_futures := co_futures s + 1,
               co_grants := od_set (co_futures s) (tid, winner_id) (co_grants s1)\<rparr>)
         | Resolved out \<Rightarrow>
             count Grants_sent (s1\<lparr>co_futures := co_futures s + 1,
               co_log := co_log s1 @ [GrantReported (co_futures s) out]\<rparr>))"

definition award :: "int \<Rightarrow> int \<Rightarrow> coord \<Rightarrow> coord" where
  "award tid winner_id s =
     count Auctions_won
       (upd_task tid (\<lambda>r. r\<lparr>ow_state := GRANTED, ow_granted_to := Some winner_id\<rparr>) s)"

definition unaward :: "int \<Rightarrow> int \<Rightarrow> coord \<Rightarrow> coord" where
  "unaward tid winner_id s =
     count Grants_failed
       (upd_task tid (\<lambda>r. r\<lparr>ow_state := OURS, ow_granted_to := None,
          ow_excluded_bidders := insert winner_id (ow_excluded_bidders r),
          ow_auction := map_option (\<lambda>a. forget a winner_id) (ow_auction r)\<rparr>) s)"

text \<open>
  \<^verbatim>\<open>_maybe_close\<close>, \<^verbatim>\<open>_grant\<close>, \<^verbatim>\<open>_on_grant_outcome\<close> and \<^verbatim>\<open>_grant_failed\<close> call each other: a refused
  grant, and one whose future is already resolved when the callback is added, is handled on the
  spot. An exception out of a done-callback is logged by the future and goes no further. The
  three bodies take the recursive call as their first argument.
\<close>

type_synonym close_fn = "ports \<Rightarrow> int \<Rightarrow> secs \<Rightarrow> coord \<Rightarrow> coord \<times> coord_exn option"

definition grant_failed_with :: "close_fn \<Rightarrow> ports \<Rightarrow> int \<Rightarrow> int \<Rightarrow> secs \<Rightarrow> coord \<Rightarrow> coord \<times> coord_exn option" where
  "grant_failed_with close P tid winner_id now s =
     (let s1 = unaward tid winner_id s
      in case auction_of s1 tid of
           None \<Rightarrow> retry_or_give_up P tid now s1
         | Some a \<Rightarrow>
             (case winner a of
                None \<Rightarrow> retry_or_give_up P tid now s1
              | Some runner_up \<Rightarrow>
                  close P tid now (upd_task tid (\<lambda>r. r\<lparr>ow_state := ANNOUNCED\<rparr>) s1)))"

definition on_grant_outcome_with :: "close_fn \<Rightarrow> ports \<Rightarrow> int \<Rightarrow> int \<Rightarrow> outcome \<Rightarrow> secs \<Rightarrow> coord \<Rightarrow> coord \<times> coord_exn option" where
  "on_grant_outcome_with close P tid winner_id out now s =
     (case task_of s tid of
        None \<Rightarrow> (count Rx_ignored s, None)
      | Some r \<Rightarrow>
          if ow_state r \<noteq> GRANTED then (count Rx_ignored s, None)
          else if out = DELIVERED then (grant_delivered P tid winner_id now s, None)
          else grant_failed_with close P tid winner_id now s)"

definition grant_with :: "close_fn \<Rightarrow> ports \<Rightarrow> int \<Rightarrow> int \<Rightarrow> secs \<Rightarrow> coord \<Rightarrow> coord \<times> coord_exn option" where
  "grant_with close P tid winner_id now s =
     (let s1 = award tid winner_id s;
          answer = pt_send_reliable P (co_calls s1) winner_id (Grant 0 0 tid winner_id)
      in case answer of
           Refused \<Rightarrow> grant_failed_with close P tid winner_id now (grant_sent tid winner_id Refused s1)
         | Accepted \<Rightarrow> (grant_sent tid winner_id Accepted s1, None)
         | Resolved out \<Rightarrow>
             (fst (on_grant_outcome_with close P tid winner_id out now
                     (grant_sent tid winner_id (Resolved out) s1)), None))"

definition maybe_close_with :: "close_fn \<Rightarrow> close_fn" where
  "maybe_close_with close P tid now s =
     (case auction_of s tid of
        None \<Rightarrow> (s, None)
      | Some a \<Rightarrow>
          if \<not> should_close a now then (s, None)
          else case winner a of
                 None \<Rightarrow> (no_viable_bid P tid now s, None)
               | Some w \<Rightarrow> grant_with close P tid (rb_bidder_id w) now s)"

text \<open>
  The recursion, to a depth. Every failed grant removes its bidder's bid, so one level more
  than there are bids is enough (\<open>maybe_close_eq\<close>).
\<close>

primrec maybe_close_n :: "nat \<Rightarrow> close_fn" where
  "maybe_close_n 0 = (\<lambda>P tid now s. (s, Some RecursionError))"
| "maybe_close_n (Suc n) = maybe_close_with (maybe_close_n n)"

definition all_bids :: "coord \<Rightarrow> int \<Rightarrow> nat" where
  "all_bids s tid = (case auction_of s tid of None \<Rightarrow> 0 | Some a \<Rightarrow> length (au_bids a))"

definition maybe_close :: close_fn where
  "maybe_close P tid now s = maybe_close_n (Suc (all_bids s tid)) P tid now s"

definition grant :: "ports \<Rightarrow> int \<Rightarrow> int \<Rightarrow> secs \<Rightarrow> coord \<Rightarrow> coord \<times> coord_exn option" where
  "grant = grant_with maybe_close"

definition on_grant_outcome :: "ports \<Rightarrow> int \<Rightarrow> int \<Rightarrow> outcome \<Rightarrow> secs \<Rightarrow> coord \<Rightarrow> coord \<times> coord_exn option" where
  "on_grant_outcome = on_grant_outcome_with maybe_close"

definition grant_failed :: "ports \<Rightarrow> int \<Rightarrow> int \<Rightarrow> secs \<Rightarrow> coord \<Rightarrow> coord \<times> coord_exn option" where
  "grant_failed = grant_failed_with maybe_close"

text \<open>
  A future of ours resolves, on the reliability layer's thread. \<open>co_grants\<close> holds the futures
  still open, with the task and the winner their callbacks were bound to.
\<close>

definition grant_resolved :: "ports \<Rightarrow> nat \<Rightarrow> outcome \<Rightarrow> secs \<Rightarrow> coord \<Rightarrow> coord" where
  "grant_resolved P fid out now s =
     (case od_get (co_grants s) fid of
        None \<Rightarrow> s
      | Some (tid, winner_id) \<Rightarrow>
          fst (on_grant_outcome P tid winner_id out now
            (s\<lparr>co_grants := od_del fid (co_grants s),
               co_log := co_log s @ [GrantReported fid out]\<rparr>)))"

section \<open>Owning and delegating\<close>

definition own :: "task \<Rightarrow> coord \<Rightarrow> coord" where
  "own t s =
     (case task_of s (tk_id t) of
        Some existing \<Rightarrow> if ours existing then s else put_task t s
      | None \<Rightarrow> put_task t s)"

definition open_auctions :: "coord \<Rightarrow> nat" where
  "open_auctions s = length (filter (\<lambda>(_, r). ow_state r = ANNOUNCED) (co_tasks s))"

definition begin_delegation ::
  "ports \<Rightarrow> task \<Rightarrow> int \<Rightarrow> local_disposition \<Rightarrow> text_str \<Rightarrow> secs \<Rightarrow> coord \<Rightarrow> coord \<times> coord_exn option" where
  "begin_delegation P t reason_code fallback txt now s =
     (let tid = tk_id t;
          s0 = (if task_of s tid = None then put_task t s else s);
          s1 = upd_task tid (\<lambda>r. r\<lparr>ow_fallback := fallback, ow_reason_code := reason_code,
                 ow_note := txt\<rparr>) s0
      in case task_of s1 tid of
           None \<Rightarrow> (s1, None)
         | Some r \<Rightarrow>
             if ow_state r = ANNOUNCED \<or> ow_state r = GRANTED then (s1, None)
             else if \<not> delegable (ow_task r) then
               (dispose_locally P tid (ow_fallback r) now (count Delegation_refused s1), None)
             else if (case ow_last_announced_at r of
                        None \<Rightarrow> False
                      | Some t0 \<Rightarrow> now - t0 < cp_redelegation_cooldown_sec (co_params s1)) then
               (dispose_locally P tid (ow_fallback r) now (count Delegation_refused s1), None)
             else if int (open_auctions s1) \<ge> cp_max_open_auctions (co_params s1) then
               (dispose_locally P tid (ow_fallback r) now (count Delegation_refused s1), None)
             else announce P tid now s1)"

section \<open>Taking work on, and anomalies\<close>

text \<open>
  \<^verbatim>\<open>_take_on\<close> hands work whose replan was rejected to \<^verbatim>\<open>report_infeasible\<close>, whose interpreter may
  answer by adding a task, which takes it on again. Nothing in the code bounds this; the
  bodies take the recursive call as an argument, and \<open>take_on\<close> takes the depth the interpreter's
  stack allows.
\<close>

type_synonym take_fn = "task \<Rightarrow> cause \<Rightarrow> text_str \<Rightarrow> secs \<Rightarrow> coord \<Rightarrow> coord \<times> coord_exn option"

definition apply_action :: "take_fn \<Rightarrow> ports \<Rightarrow> action \<Rightarrow> secs \<Rightarrow> coord \<Rightarrow> coord \<times> coord_exn option" where
  "apply_action taker P a now s =
     (case a of
        ReDelegate t reason fallback txt \<Rightarrow> begin_delegation P t reason fallback txt now s
      | AddTask t _ \<Rightarrow> taker t Add_task [] now s
      | DropTask t disposition _ \<Rightarrow>
          (dispose_locally P (tk_id t) disposition now
             (if task_of s (tk_id t) = None then put_task t s else s), None))"

definition anomaly_context_of :: "ports \<Rightarrow> task option \<Rightarrow> int \<Rightarrow> secs \<Rightarrow> coord \<Rightarrow> coord \<times> anomaly_context" where
  "anomaly_context_of P t reason_code now s =
     (let battery = (case pt_battery_percent P (co_calls s) of None \<Rightarrow> 0 | Some b \<Rightarrow> b);
          s1 = called s;
          location = pt_current_location P (co_calls s1)
      in (called s1, \<lparr>ax_task = t, ax_reason_code = reason_code, ax_peers = peers (co_registry s),
            ax_battery = battery, ax_location = location, ax_at = now\<rparr>))"

definition report_infeasible_with ::
  "take_fn \<Rightarrow> ports \<Rightarrow> task option \<Rightarrow> int \<Rightarrow> action answer option \<Rightarrow> secs \<Rightarrow> coord \<Rightarrow>
     coord \<times> coord_exn option \<times> action option" where
  "report_infeasible_with taker P t reason_code given now s =
     (let s1 = count Anomalies s;
          s2 = (case t of
                  None \<Rightarrow> s1
                | Some t \<Rightarrow> if task_of s1 (tk_id t) = None then put_task t s1 else s1);
          (s3, answer) =
            (case given of
               Some answer \<Rightarrow> (s2, answer)
             | None \<Rightarrow>
                 let (s3, context) = anomaly_context_of P t reason_code now s2
                 in (called s3, pt_interpret_anomaly P (co_calls s3) context))
      in case validate_action answer of
           Inl _ \<Rightarrow> (count Interpret_failed s3, None, None)
         | Inr a \<Rightarrow>
             (case apply_action taker P a now s3 of
                (s4, Some e) \<Rightarrow> (s4, Some e, None)
              | (s4, None) \<Rightarrow> (s4, None, Some a)))"

primrec take_on :: "nat \<Rightarrow> ports \<Rightarrow> take_fn" where
  "take_on 0 P = (\<lambda>t cause txt now s. (s, Some RecursionError))"
| "take_on (Suc depth) P = (\<lambda>t cause txt now s.
     if (case task_of s (tk_id t) of None \<Rightarrow> False | Some r \<Rightarrow> ours r) then (s, None)
     else
       let s1 = request_yield (tk_id t) (count Tasks_absorbed (note_call (Absorb t) (put_task t s)));
           (s2, result) = replan P \<lparr>md_removed = [], md_added = [t], md_cause = cause, md_note = txt\<rparr> s1
       in if result = Some False then
            let s3 = note_call (Release t) s2;
                s4 = s3\<lparr>co_tasks := od_del (tk_id t) (co_tasks s3)\<rparr>;
                (s5, e, _) = report_infeasible_with (take_on depth P) P (Some t)
                               (reason_int TASK_FAILED) None now s4
            in (s5, e)
          else (s2, None))"

definition report_infeasible ::
  "nat \<Rightarrow> ports \<Rightarrow> task option \<Rightarrow> int \<Rightarrow> action answer option \<Rightarrow> secs \<Rightarrow> coord \<Rightarrow>
     coord \<times> coord_exn option \<times> action option" where
  "report_infeasible depth P = report_infeasible_with (take_on depth P) P"

section \<open>Bidding\<close>

definition assess :: "ports \<Rightarrow> task \<Rightarrow> coord \<Rightarrow> coord \<times> fitness" where
  "assess P t s =
     (let s1 = called s
      in if pt_can_reach P (co_calls s) (tk_location t) \<noteq> Some True then (s1, infeasible_fitness)
         else let s2 = called s1
         in if pt_can_absorb P (co_calls s1) t \<noteq> Some True then (s2, infeasible_fitness)
         else let s3 = called s2
         in case pt_eta P (co_calls s2) (tk_location t) of
              None \<Rightarrow> (s3, infeasible_fitness)
            | Some eta \<Rightarrow>
                let s4 = called s3;
                    current = (case pt_current_task_id P (co_calls s3) of None \<Rightarrow> TASK_NONE | Some c \<Rightarrow> c);
                    s5 = called s4;
                    battery = (case pt_battery_percent P (co_calls s4) of None \<Rightarrow> 0 | Some b \<Rightarrow> b)
                in (s5, pt_fitness P t eta battery (current \<noteq> TASK_NONE)))"

definition note_for :: "ports \<Rightarrow> int \<Rightarrow> int \<Rightarrow> coord \<Rightarrow> coord \<times> completed_note option" where
  "note_for P src task_id s = (called s, pt_completed_note P (co_calls s) src task_id)"

definition request_interpretation :: "completed_note \<Rightarrow> pending_bid \<Rightarrow> secs \<Rightarrow> coord \<Rightarrow> coord" where
  "request_interpretation n p now s =
     s\<lparr>co_note_requests := co_note_requests s @
         [\<lparr>nc_text = cn_text n, nc_task_id = cn_task_id n, nc_src = cn_src n, nc_task = Some (pb_task p),
           nc_cost = Some (ft_cost (pb_fitness p)), nc_eta_s = Some (of_int (ft_eta_s (pb_fitness p))),
           nc_feasible = Some (ft_feasible (pb_fitness p)), nc_at = now\<rparr>]\<rparr>"

definition put_bid :: "pending_bid \<Rightarrow> coord \<Rightarrow> coord" where
  "put_bid p s = s\<lparr>co_bids := od_set (pb_task_id p) p (co_bids s)\<rparr>"

definition del_bid :: "int \<Rightarrow> coord \<Rightarrow> coord" where
  "del_bid task_id s = s\<lparr>co_bids := od_del task_id (co_bids s)\<rparr>"

definition on_announce :: "ports \<Rightarrow> message \<Rightarrow> secs \<Rightarrow> coord \<Rightarrow> coord \<times> coord_exn option" where
  "on_announce P ann now s =
     (let task_id = m_task_id ann
      in if od_mem (co_bids s) task_id then (s, None)
         else if (case task_of s task_id of None \<Rightarrow> False | Some r \<Rightarrow> ours r)
           then (count Rx_ignored s, None)
         else let s1 = count Bids_considered s
         in if \<not> has_capabilities (co_cap_mask s1) (m_req_cap_mask ann)
            then (count Bids_incapable s1, None)
         else case target_of ann of
           Inl e \<Rightarrow> (s1, Some (BadValue e))
         | Inr loc \<Rightarrow>
             (case Task task_id (m_req_cap_mask ann) loc (m_priority ann) None of
                Inl e \<Rightarrow> (s1, Some (BadValue e))
              | Inr t \<Rightarrow>
                  let (s2, fitness) = assess P t s1;
                      cost = (if ft_feasible fitness then ft_cost fitness else COST_MAX);
                      (s3, n) = note_for P (m_src ann) task_id s2;
                      deliberative = (n \<noteq> None);
                      s4 = called s3;
                      pending = \<lparr>pb_task_id = task_id, pb_task = t, pb_announcer_id = m_src ann,
                        pb_fitness = fitness,
                        pb_send_at = now + backoff (co_params s3) deliberative cost (pt_random P (co_calls s3)),
                        pb_created_at = now, pb_sent_at = None, pb_deliberative = deliberative,
                        pb_note = (case n of None \<Rightarrow> [] | Some n \<Rightarrow> cn_text n)\<rparr>;
                      s5 = put_bid pending s4
                  in case n of
                       None \<Rightarrow> (s5, None)
                     | Some n \<Rightarrow>
                         (request_interpretation n pending now (count Notes_before_announce s5), None)))"

definition on_note :: "completed_note \<Rightarrow> secs \<Rightarrow> coord \<Rightarrow> coord" where
  "on_note n now s =
     (let s1 = count Notes_received s
      in if cn_src n = co_node_id s1 then count Rx_ignored s1
         else case od_get (co_bids s1) (cn_task_id n) of
           None \<Rightarrow> count Notes_orphaned s1
         | Some pending \<Rightarrow>
             if pb_sent_at pending \<noteq> None then count Notes_too_late s1
             else request_interpretation n pending now (count Notes_after_announce s1))"

definition take_note_requests :: "coord \<Rightarrow> coord \<times> note_context list" where
  "take_note_requests s = (s\<lparr>co_note_requests := []\<rparr>, co_note_requests s)"

definition revise_bid ::
  "ports \<Rightarrow> int \<Rightarrow> bid_revision answer \<Rightarrow> secs \<Rightarrow> coord \<Rightarrow> coord \<times> bid_revision option" where
  "revise_bid P task_id answer now s =
     (case validate_revision answer of
        Inl _ \<Rightarrow> (count Note_interpret_failed s, None)
      | Inr revision \<Rightarrow>
          (case od_get (co_bids s) task_id of
             None \<Rightarrow> (count Notes_too_late s, None)
           | Some pending \<Rightarrow>
               if pb_sent_at pending \<noteq> None then (count Notes_too_late s, None)
               else case revision of
                 KeepBid \<Rightarrow> (count Bids_kept_after_note s, Some revision)
               | WithdrawBid \<Rightarrow> (count Bids_withdrawn_by_note (del_bid task_id s), Some revision)
               | ReviseBid delta \<Rightarrow>
                   let cost = max 0 (min (ft_cost (pb_fitness pending) + delta) COST_MAX);
                       s1 = called s;
                       pending1 = pending\<lparr>pb_fitness := (pb_fitness pending)\<lparr>ft_cost := cost\<rparr>,
                         pb_send_at := max now (pb_created_at pending +
                           backoff (co_params s) (pb_deliberative pending) cost (pt_random P (co_calls s)))\<rparr>
                   in (count Bids_revised_by_note (put_bid pending1 s1), Some revision)))"

definition consider_suppression :: "pending_bid \<Rightarrow> message \<Rightarrow> coord \<Rightarrow> coord" where
  "consider_suppression pending rival s =
     (if \<not> ft_feasible (pb_fitness pending) then s
      else if \<not> m_feasible rival then s
      else if \<not> outranked_by pending (m_cost rival) (m_eta_s rival) (m_src rival) (co_node_id s) then s
      else count Bids_suppressed (del_bid (pb_task_id pending) s))"

definition transmit_bid :: "ports \<Rightarrow> pending_bid \<Rightarrow> secs \<Rightarrow> coord \<Rightarrow> coord \<times> coord_exn option" where
  "transmit_bid P pending now s =
     (case send_broadcast_port P (bid_message pending) s of
        (s1, Some e) \<Rightarrow> (s1, Some e)
      | (s1, None) \<Rightarrow>
          let s2 = count Bids_sent (put_bid (pending\<lparr>pb_sent_at := Some now\<rparr>) s1)
          in (if ft_feasible (pb_fitness pending) then s2 else count Bids_infeasible s2, None))"

section \<open>Inbound messages\<close>

definition bidder_on_bid :: "message \<Rightarrow> coord \<Rightarrow> coord" where
  "bidder_on_bid bid s =
     (case od_get (co_bids s) (m_task_id bid) of
        None \<Rightarrow> s
      | Some pending \<Rightarrow> if pb_sent_at pending = None then consider_suppression pending bid s else s)"

definition on_bid :: "ports \<Rightarrow> message \<Rightarrow> secs \<Rightarrow> coord \<Rightarrow> coord \<times> coord_exn option" where
  "on_bid P bid now s =
     (let tid = m_task_id bid
      in case task_of s tid of
           None \<Rightarrow> (bidder_on_bid bid s, None)
         | Some r \<Rightarrow>
             (case ow_auction r of
                None \<Rightarrow> (bidder_on_bid bid s, None)
              | Some a \<Rightarrow>
                  if ow_state r \<noteq> ANNOUNCED then (bidder_on_bid bid s, None)
                  else if m_src bid \<in> ow_excluded_bidders r then (count Rx_ignored s, None)
                  else if snd (record_bid a bid now) then
                    maybe_close P tid now
                      (upd_task tid (\<lambda>r. r\<lparr>ow_auction := Some (fst (record_bid a bid now))\<rparr>) s)
                  else (bidder_on_bid bid s, None)))"

definition on_grant :: "nat \<Rightarrow> ports \<Rightarrow> message \<Rightarrow> secs \<Rightarrow> coord \<Rightarrow> coord \<times> coord_exn option" where
  "on_grant depth P g now s =
     (let task_id = m_task_id g
      in if m_winner_id g \<noteq> co_node_id s then
           (if od_mem (co_bids s) task_id then count Bids_lost (del_bid task_id s) else s, None)
         else case od_get (co_bids s) task_id of
           None \<Rightarrow> (count Grants_unmatched s, None)
         | Some pending \<Rightarrow>
             take_on depth P (pb_task pending) (Won_auction_from (m_src g)) (pb_note pending) now
               (del_bid task_id s))"

definition dispatch :: "nat \<Rightarrow> ports \<Rightarrow> message \<Rightarrow> secs \<Rightarrow> coord \<Rightarrow> coord \<times> coord_exn option" where
  "dispatch depth P msg now s =
     (if m_src msg = co_node_id s then (count Rx_ignored s, None)
      else case type_of msg of
        HEARTBEAT \<Rightarrow>
          (case observe (co_registry s) msg now of
             (g, None) \<Rightarrow> (s\<lparr>co_registry := g\<rparr>, None)
           | (g, Some e) \<Rightarrow> (s\<lparr>co_registry := g\<rparr>, Some (BadValue e)))
      | TASK_ANNOUNCE \<Rightarrow> on_announce P msg now s
      | BID \<Rightarrow> on_bid P msg now s
      | GRANT \<Rightarrow> on_grant depth P msg now s
      | _ \<Rightarrow> (count Rx_ignored s, None))"

text \<open>\<^verbatim>\<open>on_message\<close> catches every exception; what the handler did before raising stays done.\<close>

definition coord_on_message :: "nat \<Rightarrow> ports \<Rightarrow> message \<Rightarrow> secs \<Rightarrow> coord \<Rightarrow> coord" where
  "coord_on_message depth P msg now s = fst (dispatch depth P msg now s)"

section \<open>Time\<close>

text \<open>Statement sequencing: an exception ends the sequence.\<close>

fun each :: "('a \<Rightarrow> coord \<Rightarrow> coord \<times> coord_exn option) \<Rightarrow> 'a list \<Rightarrow> coord \<Rightarrow> coord \<times> coord_exn option" where
  "each f [] s = (s, None)"
| "each f (x # xs) s = (case f x s of (s1, Some e) \<Rightarrow> (s1, Some e) | (s1, None) \<Rightarrow> each f xs s1)"

definition forget_bidder :: "int \<Rightarrow> coord \<Rightarrow> coord" where
  "forget_bidder robot_id s =
     s\<lparr>co_tasks := map (\<lambda>(tid, r). (tid, r\<lparr>ow_auction :=
         map_option (\<lambda>a. forget a robot_id) (ow_auction r)\<rparr>)) (co_tasks s)\<rparr>"

definition age_peers :: "secs \<Rightarrow> coord \<Rightarrow> coord" where
  "age_peers now s =
     (let (g, gone) = age_out (co_registry s) now
      in foldl (\<lambda>s p. forget_bidder (pr_robot_id p) s) (s\<lparr>co_registry := g\<rparr>) gone)"

definition run_auction :: "ports \<Rightarrow> secs \<Rightarrow> int \<Rightarrow> coord \<Rightarrow> coord \<times> coord_exn option" where
  "run_auction P now tid s =
     (case task_of s tid of
        None \<Rightarrow> (s, None)
      | Some r \<Rightarrow>
          (case ow_auction r of
             None \<Rightarrow> (s, None)
           | Some a \<Rightarrow>
               if ow_state r \<noteq> ANNOUNCED then (s, None)
               else if (case au_next_announce_at a of None \<Rightarrow> False | Some t \<Rightarrow> now \<ge> t) \<and>
                       now < au_closes_at a then
                 (case emit_announce P tid now s of
                    (s1, Some e) \<Rightarrow> (s1, Some e)
                  | (s1, None) \<Rightarrow> maybe_close P tid now (count Re_announced s1))
               else maybe_close P tid now s))"

definition run_auctions :: "ports \<Rightarrow> secs \<Rightarrow> coord \<Rightarrow> coord \<times> coord_exn option" where
  "run_auctions P now s = each (run_auction P now) (map fst (co_tasks s)) s"

definition send_due_bid :: "ports \<Rightarrow> secs \<Rightarrow> pending_bid \<Rightarrow> coord \<Rightarrow> coord \<times> coord_exn option" where
  "send_due_bid P now pending s =
     (if pb_sent_at pending = None \<and> now \<ge> pb_send_at pending then transmit_bid P pending now s
      else (s, None))"

definition send_due_bids :: "ports \<Rightarrow> secs \<Rightarrow> coord \<Rightarrow> coord \<times> coord_exn option" where
  "send_due_bids P now s = each (send_due_bid P now) (map snd (co_bids s)) s"

definition heartbeat_message :: "int \<Rightarrow> target \<Rightarrow> int \<Rightarrow> int \<Rightarrow> message" where
  "heartbeat_message cap here battery cur_task =
     (let (kind, a, b) = target_fields here
      in Heartbeat 0 0 cap kind a b (max 0 (min battery 100)) cur_task)"

definition maybe_heartbeat :: "ports \<Rightarrow> secs \<Rightarrow> coord \<Rightarrow> coord \<times> coord_exn option" where
  "maybe_heartbeat P now s =
     (if cp_heartbeat_period_sec (co_params s) \<le> 0 \<or> now < co_next_heartbeat_at s then (s, None)
      else
        let s1 = s\<lparr>co_next_heartbeat_at := now + cp_heartbeat_period_sec (co_params s)\<rparr>;
            here = (case pt_current_location P (co_calls s1) of
                      Some here \<Rightarrow> here | None \<Rightarrow> \<lparr>tg_kind = NONE, tg_a = 0, tg_b = 0\<rparr>);
            s2 = called s1;
            battery = (case pt_battery_percent P (co_calls s2) of None \<Rightarrow> 0 | Some b \<Rightarrow> b);
            s3 = called s2;
            cur_task = (case pt_current_task_id P (co_calls s3) of None \<Rightarrow> TASK_NONE | Some c \<Rightarrow> c);
            s4 = called s3
        in case send_broadcast_port P (heartbeat_message (co_cap_mask s) here battery cur_task) s4 of
             (s5, Some e) \<Rightarrow> (s5, Some e)
           | (s5, None) \<Rightarrow> (count Heartbeats_sent s5, None))"

definition settled_long_ago :: "coord \<Rightarrow> secs \<Rightarrow> owned_task \<Rightarrow> bool" where
  "settled_long_ago s now r \<longleftrightarrow>
     (case ow_settled_at r of
        None \<Rightarrow> False | Some t \<Rightarrow> now - t > cp_settled_retention_sec (co_params s))"

definition prune :: "secs \<Rightarrow> coord \<Rightarrow> coord" where
  "prune now s =
     s\<lparr>co_tasks := filter (\<lambda>(_, r). \<not> settled_long_ago s now r) (co_tasks s),
       co_bids := filter (\<lambda>(_, p). \<not> now - pb_created_at p > cp_bid_memory_sec (co_params s)) (co_bids s)\<rparr>"

definition coord_tick :: "ports \<Rightarrow> secs \<Rightarrow> coord \<Rightarrow> coord \<times> coord_exn option" where
  "coord_tick P now s =
     (case run_auctions P now (age_peers now s) of
        (s1, Some e) \<Rightarrow> (s1, Some e)
      | (s1, None) \<Rightarrow>
          (case send_due_bids P now s1 of
             (s2, Some e) \<Rightarrow> (s2, Some e)
           | (s2, None) \<Rightarrow>
               (case maybe_heartbeat P now s2 of
                  (s3, Some e) \<Rightarrow> (s3, Some e)
                | (s3, None) \<Rightarrow> (prune now s3, None))))"

definition clear_preemption :: "coord \<Rightarrow> coord" where
  "clear_preemption s = note_call YieldCleared s"

section \<open>Introspection\<close>

definition state_of :: "coord \<Rightarrow> int \<Rightarrow> task_state option" where
  "state_of s tid = map_option ow_state (task_of s tid)"

definition owned_tasks :: "coord \<Rightarrow> owned_task list" where
  "owned_tasks s = filter ours (map snd (co_tasks s))"

definition pending_bids :: "coord \<Rightarrow> pending_bid list" where
  "pending_bids s = filter (\<lambda>p. pb_sent_at p = None) (map snd (co_bids s))"

section \<open>Runs\<close>

datatype coord_op =
  OnMessage message secs
| OnNote completed_note secs
| GrantResolved nat outcome secs
| Own task
| ReportInfeasible "task option" int "action answer option" secs
| ReviseBidOp int "bid_revision answer" secs
| TakeNoteRequests
| Tick secs
| ClearPreemption

fun coord_step :: "nat \<Rightarrow> ports \<Rightarrow> coord \<Rightarrow> coord_op \<Rightarrow> coord" where
  "coord_step depth P s (OnMessage msg now) = coord_on_message depth P msg now s"
| "coord_step depth P s (OnNote n now) = on_note n now s"
| "coord_step depth P s (GrantResolved fid out now) = grant_resolved P fid out now s"
| "coord_step depth P s (Own t) = own t s"
| "coord_step depth P s (ReportInfeasible t code given now) =
     fst (report_infeasible depth P t code given now s)"
| "coord_step depth P s (ReviseBidOp task_id answer now) = fst (revise_bid P task_id answer now s)"
| "coord_step depth P s TakeNoteRequests = fst (take_note_requests s)"
| "coord_step depth P s (Tick now) = fst (coord_tick P now s)"
| "coord_step depth P s ClearPreemption = clear_preemption s"

end
