(* ===== verification/Coordinator_Inv.thy ===== *)
theory Coordinator_Inv
  imports Coordinator
begin

text \<open>
  The invariant of the contract net and its preservation: a task is another robot's only after
  a delivered GRANT, a granted task always awaits a report, tasks under auction have an auction,
  and our mission holds a task exactly while we intend to execute it.
\<close>

section \<open>What the plumbing changes\<close>

lemma count_simps [simp]:
  "co_node_id (count c s) = co_node_id s" "co_params (count c s) = co_params s"
  "co_cap_mask (count c s) = co_cap_mask s" "co_registry (count c s) = co_registry s"
  "co_tasks (count c s) = co_tasks s" "co_bids (count c s) = co_bids s"
  "co_next_heartbeat_at (count c s) = co_next_heartbeat_at s"
  "co_note_requests (count c s) = co_note_requests s" "co_calls (count c s) = co_calls s"
  "co_futures (count c s) = co_futures s" "co_grants (count c s) = co_grants s"
  "co_log (count c s) = co_log s"
  by (simp_all add: count_def)

lemma called_simps [simp]:
  "co_node_id (called s) = co_node_id s" "co_params (called s) = co_params s"
  "co_cap_mask (called s) = co_cap_mask s" "co_registry (called s) = co_registry s"
  "co_tasks (called s) = co_tasks s" "co_bids (called s) = co_bids s"
  "co_next_heartbeat_at (called s) = co_next_heartbeat_at s"
  "co_note_requests (called s) = co_note_requests s" "co_counters (called s) = co_counters s"
  "co_futures (called s) = co_futures s" "co_grants (called s) = co_grants s"
  "co_log (called s) = co_log s"
  by (simp_all add: called_def)

lemma note_call_simps [simp]:
  "co_node_id (note_call c s) = co_node_id s" "co_params (note_call c s) = co_params s"
  "co_cap_mask (note_call c s) = co_cap_mask s" "co_registry (note_call c s) = co_registry s"
  "co_tasks (note_call c s) = co_tasks s" "co_bids (note_call c s) = co_bids s"
  "co_next_heartbeat_at (note_call c s) = co_next_heartbeat_at s"
  "co_note_requests (note_call c s) = co_note_requests s" "co_counters (note_call c s) = co_counters s"
  "co_futures (note_call c s) = co_futures s" "co_grants (note_call c s) = co_grants s"
  "co_log (note_call c s) = co_log s @ [c]"
  by (simp_all add: note_call_def)

lemma upd_task_simps [simp]:
  "co_node_id (upd_task tid f s) = co_node_id s" "co_params (upd_task tid f s) = co_params s"
  "co_cap_mask (upd_task tid f s) = co_cap_mask s" "co_registry (upd_task tid f s) = co_registry s"
  "co_bids (upd_task tid f s) = co_bids s"
  "co_next_heartbeat_at (upd_task tid f s) = co_next_heartbeat_at s"
  "co_note_requests (upd_task tid f s) = co_note_requests s"
  "co_counters (upd_task tid f s) = co_counters s" "co_calls (upd_task tid f s) = co_calls s"
  "co_futures (upd_task tid f s) = co_futures s" "co_grants (upd_task tid f s) = co_grants s"
  "co_log (upd_task tid f s) = co_log s"
  by (auto simp: upd_task_def split: option.splits)

lemma put_task_simps [simp]:
  "co_node_id (put_task t s) = co_node_id s" "co_params (put_task t s) = co_params s"
  "co_cap_mask (put_task t s) = co_cap_mask s" "co_registry (put_task t s) = co_registry s"
  "co_bids (put_task t s) = co_bids s" "co_calls (put_task t s) = co_calls s"
  "co_next_heartbeat_at (put_task t s) = co_next_heartbeat_at s"
  "co_note_requests (put_task t s) = co_note_requests s" "co_counters (put_task t s) = co_counters s"
  "co_futures (put_task t s) = co_futures s" "co_grants (put_task t s) = co_grants s"
  "co_log (put_task t s) = co_log s"
  by (simp_all add: put_task_def)

lemma task_of_upd [simp]:
  "task_of (upd_task tid f s) j = (if j = tid then map_option f (task_of s tid) else task_of s j)"
  by (auto simp: upd_task_def task_of_def od_get_set split: option.splits)

lemma task_of_plumbing [simp]:
  "task_of (count c s) j = task_of s j" "task_of (called s) j = task_of s j"
  "task_of (note_call e s) j = task_of s j"
  "task_of (put_task t s) j = (if j = tk_id t then Some (OwnedTask t) else task_of s j)"
  by (simp_all add: task_of_def put_task_def od_get_set)

lemma keys_od_set_mem: "od_get d k \<noteq> None \<Longrightarrow> map fst (od_set k v d) = map fst d"
  by (induction d) (auto simp: od_get_def split: if_splits)

lemma upd_task_keys [simp]: "map fst (co_tasks (upd_task tid f s)) = map fst (co_tasks s)"
  by (auto simp: upd_task_def task_of_def keys_od_set_mem split: option.splits)

section \<open>The invariant\<close>

definition broadcasts_succeed :: "ports \<Rightarrow> bool" where
  "broadcasts_succeed P \<longleftrightarrow> (\<forall>n m. pt_send_broadcast P n m)"

text \<open>A GRANT of the task was accepted by the reliability layer and reported delivered.\<close>

definition confirmed :: "port_call list \<Rightarrow> int \<Rightarrow> bool" where
  "confirmed evs tid \<longleftrightarrow>
     (\<exists>fid w a. GrantSent fid w tid a \<in> set evs \<and> a \<noteq> Refused \<and> GrantReported fid DELIVERED \<in> set evs)"

definition awaits_report :: "coord \<Rightarrow> int \<Rightarrow> int \<Rightarrow> bool" where
  "awaits_report s tid w \<longleftrightarrow> (\<exists>fid. od_get (co_grants s) fid = Some (tid, w))"

definition record_ok :: "int \<Rightarrow> owned_task \<Rightarrow> bool" where
  "record_ok tid r \<longleftrightarrow> tk_id (ow_task r) = tid \<and>
     (\<forall>a. ow_auction r = Some a \<longrightarrow> auction_ok a \<and> au_task a = ow_task r)"

definition stage_ok :: "ports \<Rightarrow> coord \<Rightarrow> int \<Rightarrow> owned_task \<Rightarrow> bool" where
  "stage_ok P s tid r \<longleftrightarrow>
     (ow_auction r \<noteq> None \<longleftrightarrow> ow_state r = ANNOUNCED \<or> ow_state r = GRANTED) \<and>
     (ow_state r = GRANTED \<longrightarrow> (\<exists>w. ow_granted_to r = Some w \<and> awaits_report s tid w)) \<and>
     (ow_state r = TRANSFERRED \<longrightarrow> confirmed (co_log s) tid) \<and>
     (broadcasts_succeed P \<longrightarrow> (ow_in_mission r \<longleftrightarrow> ow_state r = OURS))"

text \<open>The futures: numbered in order, each sent once, open until it is reported, reported once.\<close>

definition futures_ok :: "coord \<Rightarrow> bool" where
  "futures_ok s \<longleftrightarrow>
     (\<forall>fid tid w. od_get (co_grants s) fid = Some (tid, w) \<longrightarrow> GrantSent fid w tid Accepted \<in> set (co_log s)) \<and>
     (\<forall>fid w t a. GrantSent fid w t a \<in> set (co_log s) \<longrightarrow> a \<noteq> Refused \<longrightarrow> fid < co_futures s) \<and>
     (\<forall>fid w t a w' t' a'. GrantSent fid w t a \<in> set (co_log s) \<longrightarrow> GrantSent fid w' t' a' \<in> set (co_log s) \<longrightarrow>
        a \<noteq> Refused \<longrightarrow> a' \<noteq> Refused \<longrightarrow> w = w' \<and> t = t') \<and>
     (\<forall>fid out. GrantReported fid out \<in> set (co_log s) \<longrightarrow> fid < co_futures s \<and> od_get (co_grants s) fid = None) \<and>
     (\<forall>fid out out'. GrantReported fid out \<in> set (co_log s) \<longrightarrow> GrantReported fid out' \<in> set (co_log s) \<longrightarrow> out = out') \<and>
     (\<forall>t. MarkTransferred t \<in> set (co_log s) \<longrightarrow> confirmed (co_log s) (tk_id t))"

definition tables_ok :: "coord \<Rightarrow> bool" where
  "tables_ok s \<longleftrightarrow> od_ok (co_tasks s) \<and> od_ok (co_bids s) \<and> registry_ok (co_registry s) \<and>
     (\<forall>k p. od_get (co_bids s) k = Some p \<longrightarrow> pb_task_id p = k \<and> tk_id (pb_task p) = k) \<and> futures_ok s"

definition coord_inv :: "ports \<Rightarrow> coord \<Rightarrow> bool" where
  "coord_inv P s \<longleftrightarrow> tables_ok s \<and>
     (\<forall>tid r. task_of s tid = Some r \<longrightarrow> record_ok tid r \<and> stage_ok P s tid r)"

text \<open>In the middle of an operation on one task, the others are in order.\<close>

definition inv_but :: "ports \<Rightarrow> int \<Rightarrow> coord \<Rightarrow> bool" where
  "inv_but P tid s \<longleftrightarrow> tables_ok s \<and>
     (\<forall>j r. task_of s j = Some r \<longrightarrow> record_ok j r \<and> (j = tid \<or> stage_ok P s j r))"

lemma coord_inv_but: "coord_inv P s \<Longrightarrow> inv_but P tid s"
  by (simp add: coord_inv_def inv_but_def)

lemma confirmed_mono: "confirmed evs tid \<Longrightarrow> set evs \<subseteq> set evs' \<Longrightarrow> confirmed evs' tid"
  unfolding confirmed_def by blast

section \<open>Steps that touch one task\<close>

definition unsettled :: "coord \<Rightarrow> int \<Rightarrow> bool" where
  "unsettled s tid \<longleftrightarrow> (\<exists>r. task_of s tid = Some r \<and> ours r \<and> ow_settled_at r = None)"

definition parted_with :: "port_call list \<Rightarrow> int \<Rightarrow> bool" where
  "parted_with es tid \<longleftrightarrow> (\<exists>t. (MarkTransferred t \<in> set es \<or> Release t \<in> set es) \<and> tk_id t = tid)"

text \<open>
  \<open>task_frame tid s s'\<close>: between the two states only the record of \<open>tid\<close> changed, the log grew and
  open futures stayed open. \<open>keeps\<close>: a task that was ours still is, unless the log says that we
  parted with it.
\<close>

definition task_frame :: "int \<Rightarrow> coord \<Rightarrow> coord \<Rightarrow> bool" where
  "task_frame tid s s' \<longleftrightarrow>
     map fst (co_tasks s') = map fst (co_tasks s) \<and> (\<forall>j. j \<noteq> tid \<longrightarrow> task_of s' j = task_of s j) \<and>
     co_bids s' = co_bids s \<and> co_registry s' = co_registry s \<and> co_params s' = co_params s \<and>
     co_node_id s' = co_node_id s \<and> co_cap_mask s' = co_cap_mask s \<and>
     (\<forall>fid x. od_get (co_grants s) fid = Some x \<longrightarrow> od_get (co_grants s') fid = Some x) \<and>
     (futures_ok s \<longrightarrow> futures_ok s') \<and> prefix (co_log s) (co_log s')"

definition keeps :: "int \<Rightarrow> coord \<Rightarrow> coord \<Rightarrow> bool" where
  "keeps tid s s' \<longleftrightarrow> (unsettled s tid \<longrightarrow>
     unsettled s' tid \<or> parted_with (drop (length (co_log s)) (co_log s')) tid)"

lemma frame_refl: "task_frame tid s s"
  by (simp add: task_frame_def)

lemma frame_trans: "task_frame tid s s1 \<Longrightarrow> task_frame tid s1 s2 \<Longrightarrow> task_frame tid s s2"
  by (auto simp: task_frame_def intro: prefix_order.trans)

lemma parted_mono: "parted_with es tid \<Longrightarrow> set es \<subseteq> set es' \<Longrightarrow> parted_with es' tid"
  unfolding parted_with_def by blast

lemma keeps_trans:
  assumes "keeps tid s s1" "keeps tid s1 s2" "prefix (co_log s) (co_log s1)" "prefix (co_log s1) (co_log s2)"
  shows "keeps tid s s2"
proof -
  obtain es1 es2 where "co_log s1 = co_log s @ es1" "co_log s2 = co_log s1 @ es2"
    using assms(3,4) by (auto simp: prefix_def)
  then show ?thesis
    using assms(1,2) parted_mono [of _ tid "es1 @ es2"] by (auto simp: keeps_def)
qed

fun plain :: "port_call \<Rightarrow> bool" where
  "plain (GrantSent _ _ _ _) = False" | "plain (GrantReported _ _) = False"
| "plain (MarkTransferred _) = False" | "plain _ = True"

lemma confirmed_plain: "plain c \<Longrightarrow> confirmed (evs @ [c]) tid \<longleftrightarrow> confirmed evs tid"
  by (cases c) (auto simp: confirmed_def)

lemma futures_ok_cong:
  "co_grants s' = co_grants s \<Longrightarrow> co_log s' = co_log s \<Longrightarrow> co_futures s' = co_futures s \<Longrightarrow>
    futures_ok s' \<longleftrightarrow> futures_ok s"
  by (simp add: futures_ok_def)

lemma futures_ok_plain:
  assumes "plain c" and "futures_ok s"
  shows "futures_ok (note_call c s)"
proof -
  have "GrantSent f w t a \<in> set (co_log s @ [c]) \<longleftrightarrow> GrantSent f w t a \<in> set (co_log s)"
    "GrantReported f out \<in> set (co_log s @ [c]) \<longleftrightarrow> GrantReported f out \<in> set (co_log s)"
    "MarkTransferred t' \<in> set (co_log s @ [c]) \<longleftrightarrow> MarkTransferred t' \<in> set (co_log s)" for f w t a out t'
    using assms(1) by auto
  with assms(2) show ?thesis
    unfolding futures_ok_def note_call_simps confirmed_plain [OF assms(1)] by simp
qed

named_theorems frames "one more step within the task_frame of one task"

lemma frame_count [frames]: "task_frame tid s s1 \<Longrightarrow> task_frame tid s (count c s1)"
  by (simp add: task_frame_def futures_ok_cong [of "count c s1" s1])

lemma frame_called [frames]: "task_frame tid s s1 \<Longrightarrow> task_frame tid s (called s1)"
  by (simp add: task_frame_def futures_ok_cong [of "called s1" s1])

lemma frame_note_call [frames]: "task_frame tid s s1 \<Longrightarrow> plain c \<Longrightarrow> task_frame tid s (note_call c s1)"
  by (auto simp: task_frame_def futures_ok_plain intro: prefix_order.trans)

lemma frame_upd_task [frames]: "task_frame tid s s1 \<Longrightarrow> task_frame tid s (upd_task tid f s1)"
  by (simp add: task_frame_def futures_ok_cong [of "upd_task tid f s1" s1])

lemma frame_request_yield [frames]: "task_frame tid s s1 \<Longrightarrow> task_frame tid s (request_yield t s1)"
  by (simp add: request_yield_def frames)

lemma frame_replan [frames]: "task_frame tid s s1 \<Longrightarrow> task_frame tid s (fst (replan P d s1))"
  by (simp add: replan_def Let_def frames split: answer.splits)

lemma frame_leave [frames]: "task_frame tid s s1 \<Longrightarrow> task_frame tid s (leave_mission P tid c s1)"
  by (simp add: leave_mission_def frames split: option.splits)

lemma frame_rejoin [frames]: "task_frame tid s s1 \<Longrightarrow> task_frame tid s (rejoin_mission P tid c s1)"
  by (simp add: rejoin_mission_def frames split: option.splits)

lemma task_of_request_yield [simp]: "task_of (request_yield t s) j = task_of s j"
  by (simp add: request_yield_def)

lemma task_of_replan [simp]: "task_of (fst (replan P d s)) j = task_of s j"
  by (simp add: replan_def Let_def split: answer.splits)

lemma task_of_leave [simp]:
  "task_of (leave_mission P tid c s) j =
     (if j = tid then map_option (\<lambda>r. r\<lparr>ow_in_mission := False\<rparr>) (task_of s tid) else task_of s j)"
  by (auto simp: leave_mission_def split: option.splits)

lemma task_of_rejoin [simp]:
  "task_of (rejoin_mission P tid c s) j =
     (if j = tid then map_option (\<lambda>r. r\<lparr>ow_in_mission := True\<rparr>) (task_of s tid) else task_of s j)"
  by (auto simp: rejoin_mission_def split: option.splits)

text \<open>The last step of an operation on one task.\<close>

lemma stage_ok_mono:
  assumes "stage_ok P s j r" and "task_frame tid s s'"
  shows "stage_ok P s' j r"
proof -
  have "confirmed (co_log s) j \<longrightarrow> confirmed (co_log s') j"
    using assms(2) confirmed_mono set_mono_prefix by (metis task_frame_def)
  moreover have "awaits_report s j w \<longrightarrow> awaits_report s' j w" for w
    using assms(2) unfolding task_frame_def awaits_report_def by blast
  ultimately show ?thesis using assms(1) unfolding stage_ok_def by blast
qed

lemma tables_ok_frame: "tables_ok s \<Longrightarrow> task_frame tid s s' \<Longrightarrow> tables_ok s'"
  by (simp add: tables_ok_def task_frame_def od_ok_def)

lemma other_ok_frame:
  assumes "inv_but P tid s" and "task_frame tid s s'" and "task_of s' j = Some r" and "j \<noteq> tid"
  shows "record_ok j r" "stage_ok P s' j r"
proof -
  have "task_of s j = Some r" using assms(2-4) by (simp add: task_frame_def)
  with assms(1,4) have "record_ok j r" "stage_ok P s j r" by (auto simp: inv_but_def)
  with assms(2) show "record_ok j r" "stage_ok P s' j r" by (simp_all add: stage_ok_mono)
qed

lemma inv_by_frame:
  assumes "inv_but P tid s" and "task_frame tid s s'"
    and "\<And>r. task_of s' tid = Some r \<Longrightarrow> record_ok tid r \<and> stage_ok P s' tid r"
  shows "coord_inv P s'"
  using assms other_ok_frame [OF assms(1,2)] tables_ok_frame [OF _ assms(2)]
  unfolding coord_inv_def inv_but_def by metis

lemma inv_but_by_frame:
  assumes "inv_but P tid s" and "task_frame tid s s'"
    and "\<And>r. task_of s' tid = Some r \<Longrightarrow> record_ok tid r"
  shows "inv_but P tid s'"
  using assms other_ok_frame [OF assms(1,2)] tables_ok_frame [OF _ assms(2)]
  unfolding inv_but_def by metis

section \<open>Disposing, announcing, granting\<close>

definition disposed :: "local_disposition \<Rightarrow> secs \<Rightarrow> owned_task \<Rightarrow> owned_task" where
  "disposed d now r =
     (case d of
        DROP \<Rightarrow> r\<lparr>ow_auction := None, ow_state := RELINQUISHED, ow_settled_at := Some now, ow_in_mission := False\<rparr>
      | _ \<Rightarrow> r\<lparr>ow_auction := None, ow_state := OURS, ow_in_mission := True\<rparr>)"

lemma task_of_dispose [simp]:
  "task_of (dispose_locally P tid d now s) j =
     (if j = tid then map_option (disposed d now) (task_of s tid) else task_of s j)"
  by (cases "task_of s tid"; cases d) (auto simp: dispose_locally_def disposed_def Let_def)

lemma frame_dispose [frames]: "task_frame tid s s1 \<Longrightarrow> task_frame tid s (dispose_locally P tid d now s1)"
  by (cases d) (auto simp: dispose_locally_def Let_def frames split: option.splits)

lemma frame_log: "task_frame tid s s' \<Longrightarrow> set (co_log s) \<subseteq> set (co_log s')"
  by (simp add: task_frame_def set_mono_prefix)

lemma keeps_parted:
  assumes "co_log s1 = co_log s" "task_of s1 tid = Some r" "task_frame tid (note_call c s1) s'"
    and "c = Release (ow_task r) \<or> c = MarkTransferred (ow_task r)" "tk_id (ow_task r) = tid"
  shows "keeps tid s s'"
proof -
  have "prefix (co_log s @ [c]) (co_log s')" using assms(1,3) by (simp add: task_frame_def)
  then have "c \<in> set (drop (length (co_log s)) (co_log s'))" by (auto simp: prefix_def)
  with assms(4,5) show ?thesis by (auto simp: keeps_def parted_with_def)
qed

lemma keeps_dispose:
  assumes "\<And>r. task_of s tid = Some r \<Longrightarrow> record_ok tid r"
  shows "keeps tid s (dispose_locally P tid d now s)"
proof (cases "task_of s tid")
  case None
  then show ?thesis by (simp add: keeps_def unsettled_def)
next
  case (Some r)
  show ?thesis
  proof (cases "d = DROP")
    case True
    let ?s2 = "count Tasks_dropped (upd_task tid (\<lambda>r. r\<lparr>ow_state := RELINQUISHED, ow_settled_at := Some now\<rparr>)
        (upd_task tid (\<lambda>r. r\<lparr>ow_auction := None\<rparr>) s))"
    let ?r = "r\<lparr>ow_auction := None, ow_state := RELINQUISHED, ow_settled_at := Some now\<rparr>"
    have "task_of ?s2 tid = Some ?r" using Some by simp
    moreover have "task_frame tid (note_call (Release (ow_task ?r)) ?s2) (dispose_locally P tid d now s)"
      using Some True by (simp add: dispose_locally_def Let_def frames frame_refl)
    ultimately show ?thesis
      using assms [OF Some] by (intro keeps_parted [where c = "Release (ow_task ?r)" and r = ?r and ?s1.0 = ?s2]) (auto simp: record_ok_def)
  next
    case False
    with Some show ?thesis
      by (cases d) (auto simp: keeps_def unsettled_def disposed_def ours_def)
  qed
qed

lemma dispose_inv:
  assumes "inv_but P tid s"
  shows "coord_inv P (dispose_locally P tid d now s)"
  using assms
  by (intro inv_by_frame [OF assms frame_dispose [OF frame_refl]])
    (cases d; auto simp: disposed_def inv_but_def record_ok_def stage_ok_def)

lemma task_of_fall_back [simp]:
  "task_of (fall_back P tid now s) j =
     (if j = tid then map_option (\<lambda>r. disposed (ow_fallback r) now r) (task_of s tid) else task_of s j)"
  by (auto simp: fall_back_def split: option.splits)

lemma frame_fall_back [frames]: "task_frame tid s s1 \<Longrightarrow> task_frame tid s (fall_back P tid now s1)"
  by (simp add: fall_back_def frames split: option.splits)

lemma keeps_refl: "keeps tid s s"
  by (simp add: keeps_def)

lemma keeps_fall_back:
  assumes "\<And>r. task_of s tid = Some r \<Longrightarrow> record_ok tid r"
  shows "keeps tid s (fall_back P tid now s)"
proof -
  have "keeps tid s (dispose_locally P tid d now s)" for d
    by (rule keeps_dispose) (rule assms)
  then show ?thesis by (cases "task_of s tid") (simp_all add: fall_back_def keeps_refl)
qed

lemma fall_back_inv:
  assumes "inv_but P tid s" and "task_of s tid \<noteq> None"
  shows "coord_inv P (fall_back P tid now s)"
  using assms dispose_inv [OF assms(1)] by (auto simp: fall_back_def)

lemma co_log_request_yield [simp]: "co_log (request_yield t s) = co_log s @ [YieldRequested t]"
  by (simp add: request_yield_def)

text \<open>Announcing.\<close>

lemma emit_note_task [simp]: "task_of (fst (emit_note P tid s)) j = task_of s j"
  by (simp add: emit_note_def Let_def split: option.splits)

lemma frame_emit_note [frames]: "task_frame tid s s1 \<Longrightarrow> task_frame tid s (fst (emit_note P tid s1))"
  by (simp add: emit_note_def Let_def frames split: option.splits)

lemma task_of_emit_announce:
  assumes "task_of s tid = Some r" and "ow_auction r = Some a"
  shows "\<exists>b. task_of (fst (emit_announce P tid now s)) tid = Some (r\<lparr>ow_auction := Some b\<rparr>) \<and>
    au_bids b = au_bids a \<and> au_task b = au_task a \<and> au_closes_at b = au_closes_at a \<and>
    au_expected_bidders b = au_expected_bidders a"
proof (cases "pt_send_broadcast P (co_calls s) (announce_message r)")
  case True
  let ?b = "a\<lparr>au_announcements := au_announcements a + 1, au_next_announce_at :=
      (if cp_announce_repeat_sec (co_params s) > 0
       then Some (now + cp_announce_repeat_sec (co_params s)) else None)\<rparr>"
  show ?thesis
    by (rule exI [of _ ?b])
      (use True assms in \<open>simp add: emit_announce_def send_broadcast_port_def Let_def\<close>)
next
  case False
  show ?thesis
    by (rule exI [of _ a])
      (use False assms in \<open>simp add: emit_announce_def send_broadcast_port_def Let_def\<close>)
qed

lemma frame_emit_announce [frames]:
  "task_frame tid s s1 \<Longrightarrow> task_frame tid s (fst (emit_announce P tid now s1))"
  by (simp add: emit_announce_def send_broadcast_port_def Let_def frames split: option.splits)

lemma emit_announce_succeeds: "broadcasts_succeed P \<Longrightarrow> snd (emit_announce P tid now s) = None"
  by (simp add: emit_announce_def send_broadcast_port_def Let_def broadcasts_succeed_def split: option.splits)

lemma auction_ok_cong:
  "au_bids b = au_bids a \<Longrightarrow> au_task b = au_task a \<Longrightarrow> auction_ok b \<longleftrightarrow> auction_ok a"
  by (simp add: auction_ok_def)

lemma frame_announce [frames]: "task_frame tid s s1 \<Longrightarrow> task_frame tid s (fst (announce P tid now s1))"
proof -
  assume *: "task_frame tid s s1"
  let ?e = "emit_note P tid (upd_task tid (\<lambda>r. r\<lparr>ow_state := ANNOUNCED,
                 ow_delegation_attempts := ow_delegation_attempts r + 1,
                 ow_last_announced_at := Some now\<rparr>) s1)"
  let ?em = "emit_announce P tid now (upd_task tid
      (\<lambda>r. r\<lparr>ow_auction := Some (new_auction (fst ?e) r (snd ?e) now)\<rparr>) (fst ?e))"
  have "task_frame tid s (fst ?em)" by (intro frames *)
  then show ?thesis
    by (cases "snd ?em") (simp_all add: announce_def Let_def split_beta frames)
qed

lemma task_of_announce:
  assumes "task_of s tid = Some r"
  obtains a m where "task_of (fst (announce P tid now s)) tid =
      Some (r\<lparr>ow_state := ANNOUNCED, ow_delegation_attempts := ow_delegation_attempts r + 1,
        ow_last_announced_at := Some now, ow_auction := Some a, ow_in_mission := m\<rparr>)"
    "au_task a = ow_task r" "au_bids a = []" "broadcasts_succeed P \<Longrightarrow> \<not> m"
proof -
  let ?r1 = "r\<lparr>ow_state := ANNOUNCED, ow_delegation_attempts := ow_delegation_attempts r + 1,
        ow_last_announced_at := Some now\<rparr>"
  let ?e = "emit_note P tid (upd_task tid (\<lambda>r. r\<lparr>ow_state := ANNOUNCED,
                 ow_delegation_attempts := ow_delegation_attempts r + 1,
                 ow_last_announced_at := Some now\<rparr>) s)"
  let ?s3 = "upd_task tid (\<lambda>r. r\<lparr>ow_auction := Some (new_auction (fst ?e) r (snd ?e) now)\<rparr>) (fst ?e)"
  have s3: "task_of ?s3 tid = Some (?r1\<lparr>ow_auction := Some (new_auction (fst ?e) ?r1 (snd ?e) now)\<rparr>)"
    using assms by simp
  obtain a where a: "task_of (fst (emit_announce P tid now ?s3)) tid = Some (?r1\<lparr>ow_auction := Some a\<rparr>)"
    "au_bids a = []" "au_task a = ow_task r"
    using task_of_emit_announce [OF s3, of _ P now] by (fastforce simp: new_auction_def)
  show thesis
  proof (cases "snd (emit_announce P tid now ?s3)")
    case None
    then have "task_of (fst (announce P tid now s)) tid = Some (?r1\<lparr>ow_auction := Some a, ow_in_mission := False\<rparr>)"
      using a by (simp add: announce_def Let_def split_beta)
    with a that show thesis by simp
  next
    case (Some e)
    then have "task_of (fst (announce P tid now s)) tid = Some (?r1\<lparr>ow_auction := Some a, ow_in_mission := ow_in_mission r\<rparr>)"
      using a by (simp add: announce_def Let_def split_beta)
    moreover have "\<not> broadcasts_succeed P" using Some emit_announce_succeeds [of P tid now ?s3] by auto
    ultimately show thesis
      using a by (intro that [where a = a and m = "ow_in_mission r"]) simp_all
  qed
qed

lemma announce_inv:
  assumes "inv_but P tid s" and "task_of s tid = Some r"
  shows "coord_inv P (fst (announce P tid now s))"
proof (rule task_of_announce [OF assms(2), of P now])
  fix a m
  assume *: "task_of (fst (announce P tid now s)) tid =
      Some (r\<lparr>ow_state := ANNOUNCED, ow_delegation_attempts := ow_delegation_attempts r + 1,
        ow_last_announced_at := Some now, ow_auction := Some a, ow_in_mission := m\<rparr>)"
    "au_task a = ow_task r" "au_bids a = []" "broadcasts_succeed P \<Longrightarrow> \<not> m"
  show ?thesis
    using assms * by (intro inv_by_frame [OF assms(1) frame_announce [OF frame_refl]])
      (auto simp: inv_but_def record_ok_def stage_ok_def auction_ok_def)
qed

lemma keeps_announce: "keeps tid s (fst (announce P tid now s))"
proof (cases "task_of s tid")
  case (Some r)
  show ?thesis
    by (rule task_of_announce [OF Some, of P now])
      (use Some in \<open>auto simp: keeps_def unsettled_def ours_def\<close>)
qed (simp add: keeps_def unsettled_def)

section \<open>Grants\<close>

lemma grant_sent_log:
  "co_log (grant_sent tid w answer s) = co_log s @ GrantSent (co_futures s) w tid answer #
     (case answer of Resolved out \<Rightarrow> [GrantReported (co_futures s) out] | _ \<Rightarrow> [])"
  "co_futures (grant_sent tid w answer s) = (if answer = Refused then co_futures s else co_futures s + 1)"
  "co_grants (grant_sent tid w answer s) =
     (if answer = Accepted then od_set (co_futures s) (tid, w) (co_grants s) else co_grants s)"
  "co_tasks (grant_sent tid w answer s) = co_tasks s" "co_bids (grant_sent tid w answer s) = co_bids s"
  "co_registry (grant_sent tid w answer s) = co_registry s" "co_params (grant_sent tid w answer s) = co_params s"
  "co_node_id (grant_sent tid w answer s) = co_node_id s" "co_cap_mask (grant_sent tid w answer s) = co_cap_mask s"
  by (cases answer; simp add: grant_sent_def Let_def)+

lemma task_of_grant_sent [simp]: "task_of (grant_sent tid w answer s) j = task_of s j"
  by (simp add: task_of_def grant_sent_log)

lemma task_of_award [simp]:
  "task_of (award tid w s) j = (if j = tid then
      map_option (\<lambda>r. r\<lparr>ow_state := GRANTED, ow_granted_to := Some w\<rparr>) (task_of s tid) else task_of s j)"
  "task_of (unaward tid w s) j = (if j = tid then
      map_option (\<lambda>r. r\<lparr>ow_state := OURS, ow_granted_to := None,
          ow_excluded_bidders := insert w (ow_excluded_bidders r),
          ow_auction := map_option (\<lambda>a. forget a w) (ow_auction r)\<rparr>) (task_of s tid) else task_of s j)"
  by (simp_all add: award_def unaward_def)

lemma frame_award [frames]:
  "task_frame tid s s1 \<Longrightarrow> task_frame tid s (award tid w s1)" "task_frame tid s s1 \<Longrightarrow> task_frame tid s (unaward tid w s1)"
  by (simp_all add: award_def unaward_def frames)

lemma futures_fresh: "futures_ok s \<Longrightarrow> od_get (co_grants s) (co_futures s) = None"
  by (cases "od_get (co_grants s) (co_futures s)") (fastforce simp: futures_ok_def)+

lemma confirmed_append: "confirmed evs tid \<Longrightarrow> confirmed (evs @ es) tid"
  by (rule confirmed_mono) auto

lemma futures_ok_grant_sent:
  assumes "futures_ok s"
  shows "futures_ok (grant_sent tid w answer s)"
proof -
  have sent: "a = Refused \<or> fid < co_futures s" if "GrantSent fid w t a \<in> set (co_log s)" for fid w t a
    using assms that unfolding futures_ok_def by blast
  have reported: "fid < co_futures s \<and> od_get (co_grants s) fid = None" if "GrantReported fid out \<in> set (co_log s)" for fid out
    using assms that unfolding futures_ok_def by blast
  note * = assms [unfolded futures_ok_def]
  show ?thesis
    unfolding futures_ok_def
  proof (intro conjI allI impI)
    fix fid t v
    assume "od_get (co_grants (grant_sent tid w answer s)) fid = Some (t, v)"
    then show "GrantSent fid v t Accepted \<in> set (co_log (grant_sent tid w answer s))"
      using * by (auto simp: grant_sent_log od_get_set split: if_splits)
  next
    fix fid v t a
    assume "GrantSent fid v t a \<in> set (co_log (grant_sent tid w answer s))" "a \<noteq> Refused"
    then show "fid < co_futures (grant_sent tid w answer s)"
      using sent [of fid v t a] by (auto simp: grant_sent_log split: send_answer.splits)
  next
    fix fid v t a v' t' a'
    assume "GrantSent fid v t a \<in> set (co_log (grant_sent tid w answer s))" "a \<noteq> Refused"
      "GrantSent fid v' t' a' \<in> set (co_log (grant_sent tid w answer s))" "a' \<noteq> Refused"
    then have "(GrantSent fid v t a \<in> set (co_log s) \<or> fid = co_futures s \<and> v = w \<and> t = tid) \<and>
        (GrantSent fid v' t' a' \<in> set (co_log s) \<or> fid = co_futures s \<and> v' = w \<and> t' = tid)"
      by (auto simp: grant_sent_log split: send_answer.splits)
    moreover have "v = v' \<and> t = t'" if "GrantSent fid v t a \<in> set (co_log s)" "GrantSent fid v' t' a' \<in> set (co_log s)"
      using * that \<open>a \<noteq> Refused\<close> \<open>a' \<noteq> Refused\<close> by blast
    ultimately show "v = v'" "t = t'"
      using sent [of fid v t a] sent [of fid v' t' a'] \<open>a \<noteq> Refused\<close> \<open>a' \<noteq> Refused\<close> by auto
  next
    fix fid out
    assume "GrantReported fid out \<in> set (co_log (grant_sent tid w answer s))"
    then have "GrantReported fid out \<in> set (co_log s) \<or> fid = co_futures s \<and> answer = Resolved out"
      by (auto simp: grant_sent_log split: send_answer.splits)
    then show "fid < co_futures (grant_sent tid w answer s)"
      "od_get (co_grants (grant_sent tid w answer s)) fid = None"
      using reported [of fid out] futures_fresh [OF assms] by (auto simp: grant_sent_log od_get_set)
  next
    fix fid out out'
    assume "GrantReported fid out \<in> set (co_log (grant_sent tid w answer s))"
      "GrantReported fid out' \<in> set (co_log (grant_sent tid w answer s))"
    then have "(GrantReported fid out \<in> set (co_log s) \<or> fid = co_futures s \<and> answer = Resolved out) \<and>
        (GrantReported fid out' \<in> set (co_log s) \<or> fid = co_futures s \<and> answer = Resolved out')"
      by (auto simp: grant_sent_log split: send_answer.splits)
    moreover have "out = out'" if "GrantReported fid out \<in> set (co_log s)" "GrantReported fid out' \<in> set (co_log s)"
      using * that by blast
    ultimately show "out = out'"
      using reported [of fid out] reported [of fid out'] by auto
  next
    fix t
    assume "MarkTransferred t \<in> set (co_log (grant_sent tid w answer s))"
    then have "MarkTransferred t \<in> set (co_log s)" by (auto simp: grant_sent_log split: send_answer.splits)
    then have "confirmed (co_log s) (tk_id t)" using * by blast
    then show "confirmed (co_log (grant_sent tid w answer s)) (tk_id t)"
      unfolding grant_sent_log by (rule confirmed_append)
  qed
qed

lemma frame_grant_sent [frames]:
  assumes "task_frame tid s s1" and "futures_ok s1"
  shows "task_frame tid s (grant_sent tid w answer s1)"
proof -
  have "od_get (co_grants (grant_sent tid w answer s1)) fid = Some x"
    if "od_get (co_grants s1) fid = Some x" for fid x
    using that futures_fresh [OF assms(2)] by (auto simp: grant_sent_log od_get_set)
  moreover have "prefix (co_log s1) (co_log (grant_sent tid w answer s1))"
    by (simp add: grant_sent_log)
  ultimately show ?thesis
    using assms futures_ok_grant_sent [OF assms(2), of tid w answer]
    by (auto simp: task_frame_def grant_sent_log intro: prefix_order.trans)
qed

lemma futures_ok_frame: "task_frame tid s s' \<Longrightarrow> futures_ok s \<Longrightarrow> futures_ok s'"
  by (simp add: task_frame_def)

text \<open>Marking a task transferred is in order once its GRANT is confirmed.\<close>

lemma futures_ok_mark:
  assumes "futures_ok s" and "confirmed (co_log s) (tk_id t)"
  shows "futures_ok (note_call (MarkTransferred t) s)"
proof -
  have "confirmed (co_log s @ [MarkTransferred t]) j" if "confirmed (co_log s) j" for j
    using that by (rule confirmed_append)
  with assms show ?thesis
    unfolding futures_ok_def by auto
qed

lemma frame_mark [frames]:
  "task_frame tid s s1 \<Longrightarrow> confirmed (co_log s1) (tk_id t) \<Longrightarrow> task_frame tid s (note_call (MarkTransferred t) s1)"
  by (auto simp: task_frame_def futures_ok_mark intro: prefix_order.trans)

definition delivered_record :: "secs \<Rightarrow> owned_task \<Rightarrow> owned_task" where
  "delivered_record now r = r\<lparr>ow_state := TRANSFERRED, ow_auction := None,
     ow_settled_at := Some now, ow_in_mission := False\<rparr>"

lemma task_of_grant_delivered [simp]:
  "task_of (grant_delivered P tid w now s) j =
     (if j = tid then map_option (delivered_record now) (task_of s tid) else task_of s j)"
  by (cases "task_of s tid") (simp_all add: grant_delivered_def delivered_record_def Let_def)

lemma grant_delivered_frame:
  assumes "confirmed (co_log s) tid" and "\<And>r. task_of s tid = Some r \<Longrightarrow> record_ok tid r"
  shows "task_frame tid s (grant_delivered P tid w now s)" and "keeps tid s (grant_delivered P tid w now s)"
proof -
  let ?s1 = "count Tasks_transferred (count Grants_delivered (upd_task tid (\<lambda>r. r\<lparr>ow_state := TRANSFERRED,
      ow_auction := None, ow_settled_at := Some now\<rparr>) s))"
  have "task_frame tid s (grant_delivered P tid w now s) \<and> keeps tid s (grant_delivered P tid w now s)"
  proof (cases "task_of s tid")
    case None
    then show ?thesis
      by (simp add: grant_delivered_def Let_def frames frame_refl keeps_def unsettled_def)
  next
    case (Some r)
    then have id: "tk_id (ow_task r) = tid" using assms(2) by (auto simp: record_ok_def)
    let ?r = "r\<lparr>ow_state := TRANSFERRED, ow_auction := None, ow_settled_at := Some now\<rparr>"
    have "task_frame tid s (grant_delivered P tid w now s)"
      using Some assms(1) id by (simp add: grant_delivered_def Let_def frames frame_refl)
    moreover have "task_frame tid (note_call (MarkTransferred (ow_task ?r)) ?s1) (grant_delivered P tid w now s)"
      using Some by (simp add: grant_delivered_def Let_def frames frame_refl)
    ultimately show ?thesis
      using Some id keeps_parted [of ?s1 s tid ?r "MarkTransferred (ow_task ?r)" "grant_delivered P tid w now s"] by simp
  qed
  then show "task_frame tid s (grant_delivered P tid w now s)" "keeps tid s (grant_delivered P tid w now s)" by auto
qed

lemma grant_delivered_inv:
  assumes "inv_but P tid s" and "confirmed (co_log s) tid"
  shows "coord_inv P (grant_delivered P tid w now s)"
proof -
  have ok: "record_ok tid r" if "task_of s tid = Some r" for r
    using assms(1) that by (simp add: inv_but_def)
  note fr = grant_delivered_frame(1) [OF assms(2) ok, of P w now]
  have "confirmed (co_log (grant_delivered P tid w now s)) tid"
    using fr assms(2) confirmed_mono frame_log by blast
  then show ?thesis
    using ok by (intro inv_by_frame [OF assms(1) fr])
      (auto simp: delivered_record_def record_ok_def stage_ok_def)
qed

lemma retry_frame [frames]: "task_frame tid s s1 \<Longrightarrow> task_frame tid s (fst (retry_or_give_up P tid now s1))"
  by (auto simp: retry_or_give_up_def Let_def frames split: option.splits)

lemma retry_inv:
  assumes "inv_but P tid s" and "task_of s tid = Some r"
  shows "coord_inv P (fst (retry_or_give_up P tid now s))"
proof -
  let ?s1 = "upd_task tid (\<lambda>r. r\<lparr>ow_auction := None\<rparr>) s"
  have 1: "inv_but P tid ?s1"
    using assms by (intro inv_but_by_frame [OF assms(1) frame_upd_task [OF frame_refl]])
      (auto simp: inv_but_def record_ok_def)
  have 2: "inv_but P tid (upd_task tid (\<lambda>r. r\<lparr>ow_last_announced_at := None\<rparr>) ?s1)"
    using assms by (intro inv_but_by_frame [OF 1 frame_upd_task [OF frame_refl]])
      (auto simp: inv_but_def record_ok_def)
  show ?thesis
    using assms(2) announce_inv [OF 2] fall_back_inv [OF 1]
    by (simp add: retry_or_give_up_def Let_def)
qed

lemma keeps_upd:
  assumes "\<And>r. ours r \<Longrightarrow> ow_settled_at r = None \<Longrightarrow> ours (f r) \<and> ow_settled_at (f r) = None"
  shows "keeps tid s (upd_task tid f s)"
  using assms by (auto simp: keeps_def unsettled_def)

lemma keeps_retry:
  assumes "\<And>r. task_of s tid = Some r \<Longrightarrow> record_ok tid r"
  shows "keeps tid s (fst (retry_or_give_up P tid now s))"
proof -
  let ?s1 = "upd_task tid (\<lambda>r. r\<lparr>ow_auction := None\<rparr>) s"
  let ?s2 = "upd_task tid (\<lambda>r. r\<lparr>ow_last_announced_at := None\<rparr>) ?s1"
  have 1: "keeps tid s ?s1" by (rule keeps_upd) (simp add: ours_def)
  have 2: "keeps tid ?s1 ?s2" by (rule keeps_upd) (simp add: ours_def)
  have fr: "task_frame tid s ?s1" "task_frame tid ?s1 ?s2" "task_frame tid ?s2 (fst (announce P tid now ?s2))"
    "task_frame tid ?s1 (fall_back P tid now ?s1)"
    by (simp_all add: frames frame_refl)
  then have pre: "prefix (co_log s) (co_log ?s1)" "prefix (co_log ?s1) (co_log ?s2)"
    "prefix (co_log ?s2) (co_log (fst (announce P tid now ?s2)))"
    "prefix (co_log ?s1) (co_log (fall_back P tid now ?s1))" by (simp_all add: task_frame_def)
  have a: "keeps tid s (fst (announce P tid now ?s2))"
    by (rule keeps_trans [OF keeps_trans [OF 1 2 pre(1,2)] keeps_announce prefix_order.trans [OF pre(1,2)] pre(3)])
  have "record_ok tid r" if "task_of ?s1 tid = Some r" for r
    using assms that by (auto simp: record_ok_def)
  from keeps_trans [OF 1 keeps_fall_back [OF this] pre(1,4)] have b: "keeps tid s (fall_back P tid now ?s1)" .
  show ?thesis
    using a b 1 by (simp add: retry_or_give_up_def Let_def split: option.splits)
qed


section \<open>The arbitration loop\<close>

definition settles :: "ports \<Rightarrow> int \<Rightarrow> coord \<Rightarrow> coord \<Rightarrow> bool" where
  "settles P tid s s' \<longleftrightarrow> coord_inv P s' \<and> task_frame tid s s' \<and> keeps tid s s'"

definition good_close :: "ports \<Rightarrow> close_fn \<Rightarrow> bool" where
  "good_close P close \<longleftrightarrow> (\<forall>tid now s. coord_inv P s \<longrightarrow> settles P tid s (fst (close P tid now s)))"

lemma frame_prefix: "task_frame tid s s' \<Longrightarrow> prefix (co_log s) (co_log s')"
  by (simp add: task_frame_def)

lemma settles_from:
  assumes "task_frame tid s s1" "keeps tid s s1" "settles P tid s1 s'"
  shows "settles P tid s s'"
proof -
  have s': "coord_inv P s'" "task_frame tid s1 s'" "keeps tid s1 s'" using assms(3) by (simp_all add: settles_def)
  show ?thesis unfolding settles_def
    by (intro conjI s'(1) frame_trans [OF assms(1) s'(2)] keeps_trans [OF assms(2) s'(3) frame_prefix [OF assms(1)] frame_prefix [OF s'(2)]])
qed

lemma settles_retry:
  assumes "inv_but P tid s" and "task_of s tid = Some r"
  shows "settles P tid s (fst (retry_or_give_up P tid now s))"
  using retry_inv [OF assms, of now] retry_frame [OF frame_refl] keeps_retry [of s tid P now] assms(1)
  by (auto simp: settles_def inv_but_def)

lemma inv_but_unaward:
  assumes "inv_but P tid s"
  shows "inv_but P tid (unaward tid w s)"
  using assms
  by (intro inv_but_by_frame [OF assms frame_award(2) [OF frame_refl]])
    (auto simp: inv_but_def record_ok_def inv_step)

lemma keeps_unaward: "keeps tid s (unaward tid w s)"
  by (auto simp: keeps_def unsettled_def ours_def)

lemma settles_grant_failed:
  assumes "inv_but P tid s" and "task_of s tid = Some r"
    and "broadcasts_succeed P \<Longrightarrow> \<not> ow_in_mission r" and "good_close P close"
  shows "settles P tid s (fst (grant_failed_with close P tid w now s))"
proof -
  let ?s1 = "unaward tid w s" and ?s2 = "upd_task tid (\<lambda>r. r\<lparr>ow_state := ANNOUNCED\<rparr>) (unaward tid w s)"
  have s1: "inv_but P tid ?s1" by (rule inv_but_unaward [OF assms(1)])
  have fr: "task_frame tid s ?s1" "task_frame tid ?s1 ?s2" by (simp_all add: frames frame_refl)
  obtain r1 where r1: "task_of ?s1 tid = Some r1" "ow_in_mission r1 = ow_in_mission r"
    using assms(2) by simp
  have a1: "auction_of ?s1 tid = ow_auction r1" using r1(1) by (simp only: auction_of_def option.case)
  from settles_retry [OF s1 r1(1)] have retry: "settles P tid s (fst (retry_or_give_up P tid now ?s1))"
    by (rule settles_from [OF fr(1) keeps_unaward])
  have "settles P tid s (fst (close P tid now ?s2))" if "ow_auction r1 = Some a" for a
  proof -
    have r2: "task_of ?s2 tid = Some (r1\<lparr>ow_state := ANNOUNCED\<rparr>)"
      by (simp only: task_of_upd r1(1) refl if_True option.map)
    have ok1: "record_ok tid r1" using s1 r1(1) unfolding inv_but_def by blast
    have "record_ok tid (r1\<lparr>ow_state := ANNOUNCED\<rparr>) \<and> stage_ok P ?s2 tid (r1\<lparr>ow_state := ANNOUNCED\<rparr>)"
      using ok1 that assms(3) r1(2) by (auto simp: record_ok_def stage_ok_def)
    then have "coord_inv P ?s2"
      by (intro inv_by_frame [OF s1 fr(2)]) (simp only: r2 option.inject)
    then have "settles P tid ?s2 (fst (close P tid now ?s2))" using assms(4) by (simp add: good_close_def)
    moreover have "keeps tid ?s1 ?s2" by (rule keeps_upd) (simp add: ours_def)
    ultimately show ?thesis
      using settles_from fr keeps_unaward by metis
  qed
  with retry a1 show ?thesis
    by (simp add: grant_failed_with_def Let_def split: option.splits)
qed

lemma settles_grant_outcome:
  assumes "inv_but P tid s"
    and "\<And>r. task_of s tid = Some r \<Longrightarrow> ow_state r \<noteq> GRANTED \<Longrightarrow> stage_ok P s tid r"
    and "\<And>r. task_of s tid = Some r \<Longrightarrow> ow_state r = GRANTED \<Longrightarrow> broadcasts_succeed P \<Longrightarrow> \<not> ow_in_mission r"
    and "out = DELIVERED \<Longrightarrow> confirmed (co_log s) tid" and "good_close P close"
  shows "settles P tid s (fst (on_grant_outcome_with close P tid w out now s))"
proof -
  have quiet: "settles P tid s (count Rx_ignored s)"
    if "\<And>r. task_of s tid = Some r \<Longrightarrow> ow_state r \<noteq> GRANTED"
  proof -
    have fr: "task_frame tid s (count Rx_ignored s)" by (simp add: frames frame_refl)
    have "coord_inv P (count Rx_ignored s)"
      using assms(1,2) that
      by (intro inv_by_frame [OF assms(1) fr]) (auto simp: inv_but_def intro!: stage_ok_mono [OF _ fr])
    with fr show ?thesis by (simp add: settles_def keeps_def unsettled_def)
  qed
  show ?thesis
  proof (cases "task_of s tid")
    case None
    then show ?thesis using quiet by (simp add: on_grant_outcome_with_def)
  next
    case (Some r)
    show ?thesis
    proof (cases "ow_state r = GRANTED")
      case True
      have "settles P tid s (grant_delivered P tid w now s)" if "out = DELIVERED"
        using grant_delivered_inv [OF assms(1), of w now] grant_delivered_frame [of s tid P w now]
          assms(1,4) that by (simp add: settles_def inv_but_def)
      moreover have "settles P tid s (fst (grant_failed_with close P tid w now s))"
        using settles_grant_failed [OF assms(1) Some _ assms(5)] assms(3) [OF Some True] by blast
      ultimately show ?thesis using Some True by (simp add: on_grant_outcome_with_def)
    next
      case False
      then show ?thesis using Some quiet by (simp add: on_grant_outcome_with_def)
    qed
  qed
qed

lemma settles_grant:
  assumes "coord_inv P s" and "auction_of s tid = Some a" and "good_close P close"
  shows "settles P tid s (fst (grant_with close P tid w now s))"
proof -
  obtain r where r: "task_of s tid = Some r" "ow_auction r = Some a"
    using assms(2) by (auto simp: auction_of_def split: option.splits)
  have st: "record_ok tid r" "stage_ok P s tid r" using assms(1) r(1) by (auto simp: coord_inv_def)
  then have aw: "broadcasts_succeed P \<Longrightarrow> \<not> ow_in_mission r" "ours r"
    using r(2) by (auto simp: stage_ok_def ours_def)
  let ?s1 = "award tid w s"
  let ?r1 = "r\<lparr>ow_state := GRANTED, ow_granted_to := Some w\<rparr>"
  have fo: "futures_ok s" "futures_ok ?s1"
    using assms(1) futures_ok_frame [OF frame_award(1) [OF frame_refl]] by (auto simp: coord_inv_def tables_ok_def)
  have fr: "task_frame tid s (grant_sent tid w answer ?s1)" for answer
    using fo by (simp add: frames frame_refl)
  have r1: "task_of (grant_sent tid w answer ?s1) tid = Some ?r1" for answer
    using r(1) by simp
  have but: "inv_but P tid (grant_sent tid w answer ?s1)" for answer
    using st(1) r1 by (intro inv_but_by_frame [OF coord_inv_but [OF assms(1)] fr]) (auto simp: record_ok_def)
  have keep: "keeps tid s (grant_sent tid w answer ?s1)" for answer
    using r(1) by (auto simp: keeps_def unsettled_def ours_def)
  have refused: "settles P tid s (fst (grant_failed_with close P tid w now (grant_sent tid w Refused ?s1)))"
    using settles_grant_failed [OF but r1 _ assms(3)] aw(1) by (intro settles_from [OF fr keep]) auto
  have accepted: "settles P tid s (grant_sent tid w Accepted ?s1)"
  proof -
    have "awaits_report (grant_sent tid w Accepted ?s1) tid w"
      by (auto simp: awaits_report_def grant_sent_log od_get_set)
    then have "coord_inv P (grant_sent tid w Accepted ?s1)"
      using r1 st aw r(2) by (intro inv_by_frame [OF coord_inv_but [OF assms(1)] fr])
        (auto simp: record_ok_def stage_ok_def)
    with fr keep show ?thesis by (simp add: settles_def)
  qed
  have resolved: "settles P tid s (fst (on_grant_outcome_with close P tid w out now (grant_sent tid w (Resolved out) ?s1)))" for out
  proof (rule settles_from [OF fr keep], rule settles_grant_outcome [OF but _ _ _ assms(3)])
    assume "out = DELIVERED"
    then show "confirmed (co_log (grant_sent tid w (Resolved out) ?s1)) tid"
      by (fastforce simp: confirmed_def grant_sent_log)
  qed (use r1 aw in auto)
  show ?thesis
    using refused accepted resolved by (simp add: grant_with_def Let_def split: send_answer.splits)
qed

lemma settles_no_viable:
  assumes "coord_inv P s" and "task_of s tid = Some r"
  shows "settles P tid s (no_viable_bid P tid now s)"
proof -
  let ?s1 = "count Auctions_no_bid (upd_task tid (\<lambda>r. r\<lparr>ow_auction := None, ow_state := OURS\<rparr>) s)"
  have fr: "task_frame tid s ?s1" by (simp add: frames frame_refl)
  have 1: "inv_but P tid ?s1"
    using assms by (intro inv_but_by_frame [OF coord_inv_but [OF assms(1)] fr])
      (auto simp: coord_inv_def record_ok_def)
  have "settles P tid ?s1 (fall_back P tid now ?s1)"
    using fall_back_inv [OF 1] frame_fall_back [OF frame_refl] keeps_fall_back [of ?s1 tid P now] 1 assms(2)
    by (auto simp: settles_def inv_but_def)
  moreover have "keeps tid s ?s1" by (auto simp: keeps_def unsettled_def ours_def)
  ultimately show ?thesis unfolding no_viable_bid_def by (rule settles_from [OF fr, rotated])
qed

lemma settles_refl: "coord_inv P s \<Longrightarrow> settles P tid s s"
  by (simp add: settles_def frame_refl keeps_refl)

lemma good_maybe_close_with: "good_close P close \<Longrightarrow> good_close P (maybe_close_with close)"
  unfolding good_close_def [of P "maybe_close_with close"]
proof (intro allI impI)
  fix tid now s
  assume *: "good_close P close" "coord_inv P s"
  show "settles P tid s (fst (maybe_close_with close P tid now s))"
  proof (cases "auction_of s tid")
    case (Some a)
    then obtain r where "task_of s tid = Some r" by (auto simp: auction_of_def split: option.splits)
    then show ?thesis
      using * Some settles_refl settles_no_viable settles_grant
      by (simp add: maybe_close_with_def split: option.splits)
  qed (simp add: maybe_close_with_def * settles_refl)
qed

lemma good_maybe_close_n: "good_close P (maybe_close_n n)"
proof (induction n)
  case 0
  then show ?case by (simp add: good_close_def settles_refl)
qed (simp add: good_maybe_close_with)

lemma good_maybe_close: "good_close P maybe_close"
  using good_maybe_close_n unfolding good_close_def maybe_close_def by blast

lemma settles_maybe_close: "coord_inv P s \<Longrightarrow> settles P tid s (fst (maybe_close P tid now s))"
  using good_maybe_close by (simp add: good_close_def)

section \<open>Every operation\<close>

definition kept :: "coord \<Rightarrow> coord \<Rightarrow> bool" where
  "kept s s' \<longleftrightarrow> prefix (co_log s) (co_log s') \<and>
     (\<forall>tid. unsettled s tid \<longrightarrow>
        unsettled s' tid \<or> parted_with (drop (length (co_log s)) (co_log s')) tid)"

definition evolves :: "ports \<Rightarrow> coord \<Rightarrow> coord \<Rightarrow> bool" where
  "evolves P s s' \<longleftrightarrow> coord_inv P s' \<and> kept s s'"

lemma kept_refl: "kept s s"
  by (simp add: kept_def)

lemma kept_trans:
  assumes "kept s s1" "kept s1 s2"
  shows "kept s s2"
proof -
  obtain es1 es2 where "co_log s1 = co_log s @ es1" "co_log s2 = co_log s1 @ es2"
    using assms by (auto simp: kept_def prefix_def)
  then show ?thesis
    using assms parted_mono [of _ _ "es1 @ es2"] by (fastforce simp: kept_def)
qed

lemma evolves_refl: "coord_inv P s \<Longrightarrow> evolves P s s"
  by (simp add: evolves_def kept_refl)

lemma evolves_trans: "kept s s1 \<Longrightarrow> evolves P s1 s2 \<Longrightarrow> evolves P s s2"
  by (auto simp: evolves_def intro: kept_trans)

lemma settles_evolves: "settles P tid s s' \<Longrightarrow> evolves P s s'"
  unfolding settles_def evolves_def kept_def task_frame_def keeps_def unsettled_def by metis

lemma kept_same_tasks:
  "co_tasks s' = co_tasks s \<Longrightarrow> prefix (co_log s) (co_log s') \<Longrightarrow> kept s s'"
  by (simp add: kept_def unsettled_def task_of_def)

text \<open>Operations on the bids and the registry only.\<close>

lemma evolves_other:
  assumes "coord_inv P s" and "co_tasks s' = co_tasks s" and "co_grants s' = co_grants s"
    and "co_futures s' = co_futures s" and "co_log s' = co_log s"
    and "registry_ok (co_registry s')" and "od_ok (co_bids s')"
    and "\<And>k p. od_get (co_bids s') k = Some p \<Longrightarrow> pb_task_id p = k \<and> tk_id (pb_task p) = k"
  shows "evolves P s s'"
proof -
  have "stage_ok P s' j r \<longleftrightarrow> stage_ok P s j r" for j r
    using assms(3,5) by (simp add: stage_ok_def awaits_report_def)
  then show ?thesis
    using assms futures_ok_cong [of s' s] kept_same_tasks [of s' s]
    by (auto simp: evolves_def coord_inv_def tables_ok_def task_of_def)
qed

lemma evolves_quiet:
  "coord_inv P s \<Longrightarrow> co_tasks s' = co_tasks s \<Longrightarrow> co_grants s' = co_grants s \<Longrightarrow>
    co_futures s' = co_futures s \<Longrightarrow> co_log s' = co_log s \<Longrightarrow> co_registry s' = co_registry s \<Longrightarrow>
    co_bids s' = co_bids s \<Longrightarrow> evolves P s s'"
  by (rule evolves_other) (auto simp: coord_inv_def tables_ok_def)

lemma evolves_count: "coord_inv P s \<Longrightarrow> evolves P s (count c s)"
  by (rule evolves_quiet) simp_all

lemma coord_inv_count [simp]: "coord_inv P s \<Longrightarrow> coord_inv P (count c s)"
  using evolves_count by (auto simp: evolves_def)

lemma coord_inv_called [simp]: "coord_inv P s \<Longrightarrow> coord_inv P (called s)"
  using evolves_quiet [of P s "called s"] by (auto simp: evolves_def)

lemma kept_count [simp]: "kept s (count c s)" "kept s (called s)"
  by (simp_all add: kept_same_tasks)

lemma evolves_note_call:
  assumes "coord_inv P s" "plain c"
  shows "evolves P s (note_call c s)"
proof -
  have fr: "task_frame tid s (note_call c s)" for tid using assms(2) by (simp add: frames frame_refl)
  have "tables_ok (note_call c s)"
    using assms(1) tables_ok_frame [OF _ fr] by (simp add: coord_inv_def)
  moreover have "stage_ok P s j r \<Longrightarrow> stage_ok P (note_call c s) j r" for j r
    by (rule stage_ok_mono [OF _ fr])
  ultimately have "coord_inv P (note_call c s)"
    using assms(1) unfolding coord_inv_def task_of_plumbing by blast
  then show ?thesis by (simp add: evolves_def kept_same_tasks)
qed

lemma evolves_put_bid:
  assumes "coord_inv P s" "tk_id (pb_task p) = pb_task_id p"
  shows "evolves P s (put_bid p s)"
  using assms
  by (intro evolves_other)
    (auto simp: put_bid_def coord_inv_def tables_ok_def od_ok_set od_get_set split: if_splits)

lemma evolves_del_bid:
  assumes "coord_inv P s"
  shows "evolves P s (del_bid k s)"
  using assms
  by (intro evolves_other)
    (auto simp: del_bid_def coord_inv_def tables_ok_def od_ok_del od_get_del split: if_splits)

text \<open>New records.\<close>

lemma stage_ok_new: "stage_ok P s tid (OwnedTask t)"
  by (simp add: stage_ok_def OwnedTask_def)

lemma stage_ok_same_log:
  "co_grants s' = co_grants s \<Longrightarrow> co_log s' = co_log s \<Longrightarrow> stage_ok P s' j r \<longleftrightarrow> stage_ok P s j r"
  by (simp add: stage_ok_def awaits_report_def)

lemma coord_inv_put_task:
  assumes "coord_inv P s"
  shows "coord_inv P (put_task t s)"
proof -
  have "od_ok (co_tasks (put_task t s))"
    using assms by (simp add: put_task_def coord_inv_def tables_ok_def od_ok_set)
  moreover have "futures_ok (put_task t s)"
    using assms futures_ok_cong [of "put_task t s" s] by (simp add: coord_inv_def tables_ok_def)
  moreover have "record_ok (tk_id t) (OwnedTask t)" by (simp add: record_ok_def OwnedTask_def)
  ultimately show ?thesis
    using assms stage_ok_same_log [of "put_task t s" s]
    by (auto simp: coord_inv_def tables_ok_def stage_ok_new split: if_splits)
qed

lemma evolves_put_task:
  assumes "coord_inv P s" and "\<And>r. task_of s (tk_id t) = Some r \<Longrightarrow> \<not> ours r"
  shows "evolves P s (put_task t s)"
  using assms coord_inv_put_task [OF assms(1), of t]
  by (auto simp: evolves_def kept_def unsettled_def)

lemma coord_inv_del_task:
  assumes "coord_inv P s"
  shows "coord_inv P (s\<lparr>co_tasks := od_del tid (co_tasks s)\<rparr>)"
  using assms stage_ok_same_log [of "s\<lparr>co_tasks := od_del tid (co_tasks s)\<rparr>" s]
    futures_ok_cong [of "s\<lparr>co_tasks := od_del tid (co_tasks s)\<rparr>" s]
  by (auto simp: coord_inv_def tables_ok_def task_of_def od_get_del od_ok_del split: if_splits)

lemma evolves_ensure:
  assumes "coord_inv P s"
  shows "evolves P s (if task_of s (tk_id t) = None then put_task t s else s)"
proof (cases "task_of s (tk_id t)")
  case None
  then show ?thesis using evolves_put_task [OF assms, of t] by simp
qed (simp add: evolves_refl assms)

lemma own_evolves:
  assumes "coord_inv P s"
  shows "evolves P s (own t s)"
proof (cases "task_of s (tk_id t)")
  case None
  then show ?thesis using evolves_put_task [OF assms, of t] by (simp add: own_def)
next
  case (Some r)
  then show ?thesis
    using evolves_put_task [OF assms, of t] by (simp add: own_def evolves_refl assms)
qed

section \<open>Delegation and absorption\<close>

lemma evolves_upd_plain:
  assumes "coord_inv P s"
    and "\<And>r. ow_task (f r) = ow_task r \<and> ow_state (f r) = ow_state r \<and> ow_auction (f r) = ow_auction r \<and>
      ow_granted_to (f r) = ow_granted_to r \<and> ow_in_mission (f r) = ow_in_mission r \<and>
      ow_settled_at (f r) = ow_settled_at r"
  shows "evolves P s (upd_task tid f s)"
proof -
  have fr: "task_frame tid s (upd_task tid f s)" by (simp add: frames frame_refl)
  have "record_ok tid (f r) \<and> stage_ok P (upd_task tid f s) tid (f r)" if "task_of s tid = Some r" for r
  proof -
    have "record_ok tid r" "stage_ok P (upd_task tid f s) tid r"
      using assms(1) that stage_ok_mono [OF _ fr] by (auto simp: coord_inv_def)
    then show ?thesis unfolding record_ok_def stage_ok_def using assms(2) by metis
  qed
  then have "coord_inv P (upd_task tid f s)"
    by (intro inv_by_frame [OF coord_inv_but [OF assms(1)] fr]) auto
  moreover have "keeps tid s (upd_task tid f s)"
    using assms(2) by (intro keeps_upd) (simp add: ours_def)
  ultimately show ?thesis using fr by (intro settles_evolves) (simp add: settles_def)
qed

lemma settles_dispose:
  assumes "inv_but P tid s"
  shows "settles P tid s (dispose_locally P tid d now s)"
  using dispose_inv [OF assms] frame_dispose [OF frame_refl] keeps_dispose [of s tid P d now] assms
  by (auto simp: settles_def inv_but_def)

lemma evolves_dispose: "coord_inv P s \<Longrightarrow> evolves P s (dispose_locally P tid d now s)"
  by (rule settles_evolves [OF settles_dispose [OF coord_inv_but]])

lemma evolves_announce:
  "coord_inv P s \<Longrightarrow> task_of s tid = Some r \<Longrightarrow> evolves P s (fst (announce P tid now s))"
  by (rule settles_evolves [where tid = tid])
    (simp add: settles_def announce_inv [OF coord_inv_but] frame_announce [OF frame_refl] keeps_announce)

lemma evolves_dispose_counted:
  "coord_inv P s \<Longrightarrow> evolves P s (dispose_locally P tid d now (count c s))"
  by (rule evolves_trans [OF kept_count(1) evolves_dispose]) simp

lemma begin_delegation_evolves:
  assumes "coord_inv P s"
  shows "evolves P s (fst (begin_delegation P t code fb txt now s))"
proof -
  define s0 where "s0 = (if task_of s (tk_id t) = None then put_task t s else s)"
  define s1 where "s1 = upd_task (tk_id t) (\<lambda>r. r\<lparr>ow_fallback := fb, ow_reason_code := code, ow_note := txt\<rparr>) s0"
  have 0: "evolves P s s0" unfolding s0_def by (rule evolves_ensure [OF assms])
  then have "evolves P s0 s1" unfolding s1_def by (intro evolves_upd_plain) (auto simp: evolves_def)
  with 0 have "evolves P s s1" using evolves_trans evolves_def by metis
  then have inv: "coord_inv P s1" and k: "kept s s1" by (auto simp: evolves_def)
  obtain r where r: "task_of s1 (tk_id t) = Some r"
    by (cases "task_of s (tk_id t)") (auto simp: s1_def s0_def)
  have "begin_delegation P t code fb txt now s =
     (if ow_state r = ANNOUNCED \<or> ow_state r = GRANTED then (s1, None)
      else if \<not> delegable (ow_task r) \<or>
          (case ow_last_announced_at r of None \<Rightarrow> False
           | Some t0 \<Rightarrow> now - t0 < cp_redelegation_cooldown_sec (co_params s1)) \<or>
          int (open_auctions s1) \<ge> cp_max_open_auctions (co_params s1)
        then (dispose_locally P (tk_id t) (ow_fallback r) now (count Delegation_refused s1), None)
      else announce P (tk_id t) now s1)"
    unfolding begin_delegation_def Let_def s0_def [symmetric] s1_def [symmetric] r by simp
  moreover have "evolves P s1 s1" "evolves P s1 (dispose_locally P (tk_id t) d now (count Delegation_refused s1))"
    "evolves P s1 (fst (announce P (tk_id t) now s1))" for d
    using evolves_refl [OF inv] evolves_dispose_counted [OF inv] evolves_announce [OF inv r] by auto
  ultimately have "evolves P s1 (fst (begin_delegation P t code fb txt now s))" by auto
  then show ?thesis by (rule evolves_trans [OF k])
qed

definition good_take :: "ports \<Rightarrow> take_fn \<Rightarrow> bool" where
  "good_take P taker \<longleftrightarrow> (\<forall>t c txt now s. coord_inv P s \<longrightarrow> evolves P s (fst (taker t c txt now s)))"

lemma apply_action_evolves:
  assumes "coord_inv P s" "good_take P taker"
  shows "evolves P s (fst (apply_action taker P a now s))"
proof (cases a)
  case (ReDelegate t code fb nt)
  then show ?thesis using begin_delegation_evolves [OF assms(1)] by (simp add: apply_action_def)
next
  case (AddTask t code)
  then show ?thesis using assms by (simp add: apply_action_def good_take_def)
next
  case (DropTask t d code)
  define s0 where "s0 = (if task_of s (tk_id t) = None then put_task t s else s)"
  have "evolves P s s0" unfolding s0_def by (rule evolves_ensure [OF assms(1)])
  then have "evolves P s (dispose_locally P (tk_id t) d now s0)"
    using evolves_trans evolves_dispose unfolding evolves_def by metis
  then show ?thesis by (simp add: DropTask apply_action_def s0_def)
qed

lemma report_infeasible_evolves:
  assumes "coord_inv P s" "good_take P taker"
  shows "evolves P s (fst (report_infeasible_with taker P t code given now s))"
proof -
  define s1 where "s1 = count Anomalies s"
  define s2 where "s2 = (case t of None \<Rightarrow> s1 | Some t \<Rightarrow> if task_of s1 (tk_id t) = None then put_task t s1 else s1)"
  define s3 where "s3 = (case given of Some _ \<Rightarrow> s2 | None \<Rightarrow> called (fst (anomaly_context_of P t code now s2)))"
  define ans where "ans = (case given of Some x \<Rightarrow> x
      | None \<Rightarrow> pt_interpret_anomaly P (co_calls (fst (anomaly_context_of P t code now s2))) (snd (anomaly_context_of P t code now s2)))"
  have 1: "coord_inv P s1" "kept s s1" using assms(1) by (simp_all add: s1_def)
  have 2: "evolves P s1 s2"
    using evolves_ensure [OF 1(1)] evolves_refl [OF 1(1)] by (cases t) (auto simp: s2_def)
  have 3: "evolves P s2 s3"
    using 2 evolves_refl [of P s2]
    by (cases given) (auto simp: s3_def evolves_def anomaly_context_of_def Let_def kept_same_tasks)
  have inv3: "coord_inv P s3" and k3: "kept s s3"
    using 1 2 3 kept_trans unfolding evolves_def by blast+
  have "(case given of Some answer \<Rightarrow> (s2, answer)
      | None \<Rightarrow> let (s3, context) = anomaly_context_of P t code now s2
                 in (called s3, pt_interpret_anomaly P (co_calls s3) context)) = (s3, ans)"
    by (cases given) (simp_all add: s3_def ans_def split_beta Let_def)
  then have "report_infeasible_with taker P t code given now s =
      (case validate_action ans of
           Inl _ \<Rightarrow> (count Interpret_failed s3, None, None)
         | Inr a \<Rightarrow>
             (case apply_action taker P a now s3 of
                (s4, Some e) \<Rightarrow> (s4, Some e, None)
              | (s4, None) \<Rightarrow> (s4, None, Some a)))"
    unfolding report_infeasible_with_def Let_def s1_def [symmetric] s2_def [symmetric] by simp
  then have "fst (report_infeasible_with taker P t code given now s) =
      (case validate_action ans of Inl _ \<Rightarrow> count Interpret_failed s3 | Inr a \<Rightarrow> fst (apply_action taker P a now s3))"
    by (auto split: sum.splits prod.splits option.splits)
  moreover have "evolves P s3 (case validate_action ans of Inl _ \<Rightarrow> count Interpret_failed s3
      | Inr a \<Rightarrow> fst (apply_action taker P a now s3))"
    using evolves_count [OF inv3] apply_action_evolves [OF inv3 assms(2)] by (simp split: sum.splits)
  ultimately show ?thesis using evolves_trans [OF k3] by simp
qed


lemma evolves_request_yield: "coord_inv P s \<Longrightarrow> evolves P s (request_yield t s)"
  using evolves_trans [OF kept_count(1) evolves_note_call] by (simp add: request_yield_def)

lemma evolves_replan:
  assumes "coord_inv P s"
  shows "evolves P s (fst (replan P d s))"
proof -
  define s2 where "s2 = note_call (Replanned d (pt_replan_and_verify P (co_calls (count Replans s)) d)) (count Replans s)"
  have 2: "evolves P s s2"
    unfolding s2_def by (rule evolves_trans [OF kept_count(1) evolves_note_call]) (simp_all add: assms)
  have "fst (replan P d s) = s2 \<or> fst (replan P d s) = count Replans_rejected s2"
    by (simp add: replan_def Let_def s2_def split: answer.splits)
  then show ?thesis
    using 2 evolves_trans [OF _ evolves_count, of s s2 P Replans_rejected] unfolding evolves_def by auto
qed

text \<open>A record that comes and goes within one operation.\<close>

lemma kept_del_task:
  assumes "kept s s1" "\<not> unsettled s tid"
  shows "kept s (s1\<lparr>co_tasks := od_del tid (co_tasks s1)\<rparr>)"
  using assms by (auto simp: kept_def unsettled_def task_of_def od_get_del)

lemma take_on_good: "good_take P (take_on depth P)"
proof (induction depth)
  case 0
  then show ?case by (simp add: good_take_def evolves_refl)
next
  case (Suc depth)
  show ?case
    unfolding good_take_def
  proof (intro allI impI)
    fix t c nt now s
    assume inv: "coord_inv P s"
    define s1 where "s1 = request_yield (tk_id t) (count Tasks_absorbed (note_call (Absorb t) (put_task t s)))"
    define d where "d = \<lparr>md_removed = [], md_added = [t], md_cause = c, md_note = nt\<rparr>"
    define s4 where "s4 = (note_call (Release t) (fst (replan P d s1)))
      \<lparr>co_tasks := od_del (tk_id t) (co_tasks (note_call (Release t) (fst (replan P d s1))))\<rparr>"
    show "evolves P s (fst (take_on (Suc depth) P t c nt now s))"
    proof (cases "case task_of s (tk_id t) of None \<Rightarrow> False | Some r \<Rightarrow> ours r")
      case True
      then show ?thesis by (simp add: evolves_refl inv)
    next
      case False
      then have notours: "\<And>r. task_of s (tk_id t) = Some r \<Longrightarrow> \<not> ours r" by simp
      then have nu: "\<not> unsettled s (tk_id t)" by (auto simp: unsettled_def)
      have "evolves P s (put_task t s)" using evolves_put_task [OF inv notours] by blast
      moreover have "evolves P (put_task t s) (note_call (Absorb t) (put_task t s))"
        using calculation by (intro evolves_note_call) (auto simp: evolves_def)
      moreover have "evolves P (note_call (Absorb t) (put_task t s)) s1"
        unfolding s1_def using calculation(2)
        by (intro evolves_trans [OF kept_count(1) evolves_request_yield]) (auto simp: evolves_def)
      ultimately have s1: "evolves P s s1" using kept_trans unfolding evolves_def by blast
      have s2: "evolves P s (fst (replan P d s1))"
        using s1 evolves_trans evolves_replan unfolding evolves_def by blast
      moreover have "evolves P (fst (replan P d s1)) (note_call (Release t) (fst (replan P d s1)))"
        using calculation by (intro evolves_note_call) (auto simp: evolves_def)
      ultimately have s3: "evolves P s (note_call (Release t) (fst (replan P d s1)))"
        using kept_trans unfolding evolves_def by blast
      have s4: "evolves P s s4"
        using s3 coord_inv_del_task kept_del_task [OF _ nu] unfolding s4_def evolves_def by blast
      then have "evolves P s4 (fst (report_infeasible_with (take_on depth P) P (Some t)
          (reason_int TASK_FAILED) None now s4))"
        using Suc by (intro report_infeasible_evolves) (auto simp: evolves_def)
      then have s5: "evolves P s (fst (report_infeasible_with (take_on depth P) P (Some t)
          (reason_int TASK_FAILED) None now s4))"
        using s4 kept_trans unfolding evolves_def by blast
      have "fst (take_on (Suc depth) P t c nt now s) =
         (if snd (replan P d s1) = Some False then
            fst (report_infeasible_with (take_on depth P) P (Some t) (reason_int TASK_FAILED) None now s4)
          else fst (replan P d s1))"
        using False by (simp only: take_on.simps Let_def s1_def [symmetric] d_def [symmetric] split_beta
            s4_def [symmetric] if_False fst_conv if_distrib [of fst])
      with s2 s5 show ?thesis by simp
    qed
  qed
qed

lemma on_grant_evolves:
  assumes "coord_inv P s"
  shows "evolves P s (fst (on_grant depth P g now s))"
proof -
  have del: "evolves P s (del_bid k s)" for k by (rule evolves_del_bid [OF assms])
  have "evolves P s (fst (take_on depth P t c nt now (del_bid k s)))" for t c nt k
    using del [of k] take_on_good [of P depth] kept_trans unfolding evolves_def good_take_def by blast
  moreover have "evolves P s (count c (del_bid k s))" for c k
    using del [of k] evolves_count [of P "del_bid k s" c] kept_trans unfolding evolves_def by blast
  ultimately show ?thesis
    by (auto simp: on_grant_def Let_def evolves_refl evolves_count assms split: option.splits)
qed


end
