(* ===== verification/Coordinator_Steps.thy ===== *)
theory Coordinator_Steps
  imports Coordinator_Inv
begin

text \<open>
  The inbound and the timed operations of the contract net preserve the invariant, and with
  them every state a coordinator can reach; the properties of the coordinator.
\<close>

lemma evolves_then: "evolves P s s1 \<Longrightarrow> evolves P s1 s2 \<Longrightarrow> evolves P s s2"
  using kept_trans unfolding evolves_def by blast

section \<open>Inbound\<close>

lemma bidder_on_bid_evolves: "coord_inv P s \<Longrightarrow> evolves P s (bidder_on_bid bid s)"
proof -
  assume inv: "coord_inv P s"
  have "evolves P s (count Bids_suppressed (del_bid k s))" for k
    using evolves_del_bid [OF inv, of k] evolves_count [of P "del_bid k s"] kept_trans
    unfolding evolves_def by blast
  then show ?thesis
    by (simp add: bidder_on_bid_def consider_suppression_def evolves_refl inv split: option.splits)
qed

lemma record_bid_inv:
  assumes "coord_inv P s" and "task_of s tid = Some r" and "ow_auction r = Some a"
  shows "evolves P s (upd_task tid (\<lambda>r. r\<lparr>ow_auction := Some (fst (record_bid a bid now))\<rparr>) s)"
proof -
  let ?f = "\<lambda>r. r\<lparr>ow_auction := Some (fst (record_bid a bid now))\<rparr>"
  have fr: "task_frame tid s (upd_task tid ?f s)" by (simp add: frames frame_refl)
  have "record_ok tid r" "stage_ok P (upd_task tid ?f s) tid r"
    using assms(1,2) stage_ok_mono [OF _ fr] by (auto simp: coord_inv_def)
  then have "record_ok tid (?f r) \<and> stage_ok P (upd_task tid ?f s) tid (?f r)"
    using assms(3) by (auto simp: record_ok_def stage_ok_def inv_step)
  then have "coord_inv P (upd_task tid ?f s)"
    using assms(2) by (intro inv_by_frame [OF coord_inv_but [OF assms(1)] fr]) auto
  moreover have "keeps tid s (upd_task tid ?f s)" by (intro keeps_upd) (simp add: ours_def)
  ultimately show ?thesis using fr by (intro settles_evolves) (simp add: settles_def)
qed

lemma maybe_close_evolves: "coord_inv P s \<Longrightarrow> evolves P s (fst (maybe_close P tid now s))"
  by (rule settles_evolves [OF settles_maybe_close])

lemma on_bid_evolves:
  assumes "coord_inv P s"
  shows "evolves P s (fst (on_bid P bid now s))"
proof -
  have "evolves P s (fst (maybe_close P (m_task_id bid) now
      (upd_task (m_task_id bid) (\<lambda>r. r\<lparr>ow_auction := Some (fst (record_bid a bid now))\<rparr>) s)))"
    if "task_of s (m_task_id bid) = Some r" "ow_auction r = Some a" for r a
    using record_bid_inv [OF assms that] maybe_close_evolves kept_trans unfolding evolves_def by blast
  then show ?thesis
    using bidder_on_bid_evolves [OF assms] evolves_count [OF assms]
    by (auto simp: on_bid_def Let_def split: option.splits)
qed

lemma assess_quiet:
  "co_tasks (fst (assess P t s)) = co_tasks s" "co_grants (fst (assess P t s)) = co_grants s"
  "co_futures (fst (assess P t s)) = co_futures s" "co_log (fst (assess P t s)) = co_log s"
  "co_registry (fst (assess P t s)) = co_registry s" "co_bids (fst (assess P t s)) = co_bids s"
  "co_params (fst (assess P t s)) = co_params s" "co_node_id (fst (assess P t s)) = co_node_id s"
  by (auto simp: assess_def Let_def split: option.splits)

lemma on_announce_evolves:
  assumes inv: "coord_inv P s"
  shows "evolves P s (fst (on_announce P ann now s))"
proof -
  have put: "evolves P s (put_bid p s4)"
    if "co_tasks s4 = co_tasks s" "co_grants s4 = co_grants s" "co_futures s4 = co_futures s"
      "co_log s4 = co_log s" "co_registry s4 = co_registry s" "co_bids s4 = co_bids s"
      "tk_id (pb_task p) = pb_task_id p" for p s4
    using that evolves_quiet [OF inv, of s4] evolves_put_bid [of P s4 p] kept_trans
    unfolding evolves_def by blast
  have req: "evolves P s (request_interpretation n p now s5)"
    "evolves P s (request_interpretation n p now (count c s5))" if "evolves P s s5" for n p c s5
  proof -
    have "evolves P s5 (request_interpretation n p now s5)"
      using that by (intro evolves_quiet) (auto simp: request_interpretation_def evolves_def)
    then show "evolves P s (request_interpretation n p now s5)"
      using that kept_trans unfolding evolves_def by blast
    have "evolves P s5 (request_interpretation n p now (count c s5))"
      using that by (intro evolves_quiet) (auto simp: request_interpretation_def evolves_def)
    then show "evolves P s (request_interpretation n p now (count c s5))"
      using that kept_trans unfolding evolves_def by blast
  qed
  have raised: "evolves P s (count c (count d s))" for c d
    using evolves_count [OF inv, of d] evolves_count [of P "count d s" c] kept_trans unfolding evolves_def by blast
  show ?thesis
    using inv
    by (auto simp: on_announce_def Let_def split_beta note_for_def assess_quiet evolves_refl evolves_count raised
        dest: Task_fields intro!: put req split: sum.splits option.splits)
qed

lemma on_note_evolves: "coord_inv P s \<Longrightarrow> evolves P s (on_note n now s)"
  by (rule evolves_quiet)
    (auto simp: on_note_def Let_def request_interpretation_def split: option.splits)

lemma revise_bid_evolves:
  assumes inv: "coord_inv P s"
  shows "evolves P s (fst (revise_bid P task_id answer now s))"
proof -
  have "evolves P s (count c (del_bid k s))" for c k
    using evolves_del_bid [OF inv, of k] evolves_count [of P "del_bid k s" c] kept_trans
    unfolding evolves_def by blast
  moreover have "evolves P s (count c (put_bid p (called s)))" if "tk_id (pb_task p) = pb_task_id p" for c p
    using evolves_put_bid [of P "called s" p] that inv evolves_count [of P "put_bid p (called s)" c] kept_trans kept_count
    unfolding evolves_def by (metis coord_inv_called)
  moreover have "tk_id (pb_task p) = pb_task_id p" if "od_get (co_bids s) k = Some p" for k p
    using inv that by (auto simp: coord_inv_def tables_ok_def)
  ultimately show ?thesis
    using inv by (simp add: revise_bid_def evolves_refl evolves_count Let_def split: sum.splits option.splits bid_revision.splits)
qed

lemma observe_evolves:
  assumes "coord_inv P s"
  shows "evolves P s (s\<lparr>co_registry := fst (observe (co_registry s) hb now)\<rparr>)"
  using assms by (intro evolves_other) (auto simp: coord_inv_def tables_ok_def inv_step)

lemma dispatch_evolves:
  assumes "coord_inv P s"
  shows "evolves P s (fst (dispatch depth P msg now s))"
  using assms observe_evolves [OF assms, of msg now] on_announce_evolves [OF assms] on_bid_evolves [OF assms]
    on_grant_evolves [OF assms] evolves_count [OF assms]
  by (auto simp: dispatch_def split_beta split: message_type.splits option.splits)

lemma grant_resolved_evolves:
  assumes inv: "coord_inv P s"
  shows "evolves P s (grant_resolved P fid out now s)"
proof (cases "od_get (co_grants s) fid")
  case None
  then show ?thesis by (simp add: grant_resolved_def evolves_refl inv)
next
  case (Some x)
  obtain tid w where x: "x = (tid, w)" by (cases x)
  define s1 where "s1 = s\<lparr>co_grants := od_del fid (co_grants s), co_log := co_log s @ [GrantReported fid out]\<rparr>"
  have fo: "futures_ok s" and sent: "GrantSent fid w tid Accepted \<in> set (co_log s)"
    using inv Some x by (auto simp: coord_inv_def tables_ok_def futures_ok_def)
  have tasks: "task_of s1 j = task_of s j" for j by (simp add: s1_def task_of_def)
  have conf: "confirmed (co_log s) j \<Longrightarrow> confirmed (co_log s1) j" for j
    by (simp add: s1_def confirmed_append)
  have "futures_ok s1"
  proof -
    note * = fo [unfolded futures_ok_def]
    have new: "GrantReported fid out' \<notin> set (co_log s)" for out'
      using * Some x by auto
    have "fid < co_futures s" using * sent by (metis send_answer.distinct(1))
    with * new conf show ?thesis
      unfolding futures_ok_def s1_def by (auto simp: od_get_del)
  qed
  then have tab: "tables_ok s1"
    using inv by (simp add: coord_inv_def tables_ok_def s1_def)
  have stage: "stage_ok P s1 j r" if "task_of s j = Some r" "j \<noteq> tid \<or> ow_state r \<noteq> GRANTED" for j r
  proof -
    have "stage_ok P s j r" using inv that(1) by (simp add: coord_inv_def)
    moreover have "awaits_report s1 j v" if jv: "awaits_report s j v" "j \<noteq> tid" for v
    proof -
      obtain f where f: "od_get (co_grants s) f = Some (j, v)" using jv(1) by (auto simp: awaits_report_def)
      then have "f \<noteq> fid" using Some x jv(2) by auto
      with f show ?thesis by (auto simp: awaits_report_def s1_def od_get_del)
    qed
    ultimately show ?thesis using that(2) conf unfolding stage_ok_def by blast
  qed
  have but: "inv_but P tid s1"
    using inv tab stage unfolding inv_but_def coord_inv_def tasks by blast
  have mission: "\<not> ow_in_mission r" if "task_of s1 tid = Some r" "ow_state r = GRANTED" "broadcasts_succeed P" for r
    using inv that by (auto simp: tasks coord_inv_def stage_ok_def)
  have delivered: "confirmed (co_log s1) tid" if "out = DELIVERED"
    using sent that unfolding confirmed_def s1_def by fastforce
  have "settles P tid s1 (fst (on_grant_outcome_with maybe_close P tid w out now s1))"
    by (rule settles_grant_outcome [OF but _ mission delivered good_maybe_close])
      (use stage in \<open>auto simp: tasks\<close>)
  then have "evolves P s1 (fst (on_grant_outcome P tid w out now s1))"
    unfolding on_grant_outcome_def by (rule settles_evolves)
  moreover have "kept s s1" by (simp add: kept_same_tasks s1_def)
  ultimately show ?thesis
    using evolves_trans Some x by (simp add: grant_resolved_def s1_def)
qed


section \<open>Time\<close>

lemma each_evolves:
  assumes "\<And>x s. coord_inv P s \<Longrightarrow> evolves P s (fst (f x s))"
  shows "coord_inv P s \<Longrightarrow> evolves P s (fst (each f xs s))"
proof (induction xs arbitrary: s)
  case (Cons x xs)
  obtain s1 e where x: "f x s = (s1, e)" by (cases "f x s")
  then have s1: "evolves P s s1" using assms [OF Cons.prems, of x] by simp
  then have "evolves P s1 (fst (each f xs s1))" using Cons.IH by (simp add: evolves_def)
  with s1 have "evolves P s (fst (each f xs s1))" using kept_trans unfolding evolves_def by blast
  with x s1 show ?case by (simp split: option.splits)
qed (simp add: evolves_refl)

definition forgetful :: "int \<Rightarrow> owned_task \<Rightarrow> owned_task" where
  "forgetful w r = r\<lparr>ow_auction := map_option (\<lambda>a. forget a w) (ow_auction r)\<rparr>"

lemma forgetful_simps [simp]:
  "ow_task (forgetful w r) = ow_task r" "ow_state (forgetful w r) = ow_state r"
  "ow_granted_to (forgetful w r) = ow_granted_to r" "ow_in_mission (forgetful w r) = ow_in_mission r"
  "ow_settled_at (forgetful w r) = ow_settled_at r"
  "ow_auction (forgetful w r) = map_option (\<lambda>a. forget a w) (ow_auction r)"
  by (simp_all add: forgetful_def)

lemma task_of_forget [simp]: "task_of (forget_bidder w s) j = map_option (forgetful w) (task_of s j)"
proof -
  have "map_of (map (\<lambda>(tid, r). (tid, forgetful w r)) d) j = map_option (forgetful w) (map_of d j)" for d
    by (induction d) auto
  then show ?thesis by (simp add: task_of_def od_get_def forget_bidder_def forgetful_def)
qed

lemma forget_bidder_evolves:
  assumes "coord_inv P s"
  shows "evolves P s (forget_bidder w s)"
proof -
  let ?s = "forget_bidder w s"
  have same: "co_grants ?s = co_grants s" "co_log ?s = co_log s" "co_futures ?s = co_futures s"
    "co_bids ?s = co_bids s" "co_registry ?s = co_registry s"
    "map fst (co_tasks ?s) = map fst (co_tasks s)"
    by (simp_all add: forget_bidder_def case_prod_beta comp_def)
  have "tables_ok ?s"
    using assms futures_ok_cong [of ?s s] same by (simp add: coord_inv_def tables_ok_def od_ok_def)
  moreover have "record_ok j (forgetful w r) \<and> stage_ok P ?s j (forgetful w r)" if "task_of s j = Some r" for j r
  proof -
    have "record_ok j r" "stage_ok P s j r" using assms that by (auto simp: coord_inv_def)
    then show ?thesis
      using stage_ok_same_log [OF same(1,2), of P j "forgetful w r"]
      by (auto simp: record_ok_def stage_ok_def inv_step)
  qed
  ultimately have "coord_inv P ?s" by (auto simp: coord_inv_def)
  moreover have "kept s ?s"
    using same by (auto simp: kept_def unsettled_def ours_def)
  ultimately show ?thesis by (simp add: evolves_def)
qed

lemma age_peers_evolves:
  assumes "coord_inv P s"
  shows "evolves P s (age_peers now s)"
proof -
  have "evolves P s (foldl (\<lambda>s p. forget_bidder (pr_robot_id p) s) s gone)" if "coord_inv P s" for gone s
    using that
  proof (induction gone arbitrary: s)
    case (Cons p gone)
    have 1: "evolves P s (forget_bidder (pr_robot_id p) s)" by (rule forget_bidder_evolves [OF Cons.prems])
    then have "evolves P (forget_bidder (pr_robot_id p) s)
        (foldl (\<lambda>s p. forget_bidder (pr_robot_id p) s) (forget_bidder (pr_robot_id p) s) gone)"
      using Cons.IH by (simp add: evolves_def)
    with 1 show ?case using kept_trans unfolding evolves_def by (simp only: foldl.simps) blast
  qed (simp add: evolves_refl)
  moreover have "evolves P s (s\<lparr>co_registry := fst (age_out (co_registry s) now)\<rparr>)"
    using assms by (intro evolves_other) (auto simp: coord_inv_def tables_ok_def inv_step)
  ultimately show ?thesis
    using kept_trans unfolding age_peers_def Let_def split_beta evolves_def by blast
qed

lemma evolves_emit_announce:
  assumes "coord_inv P s" "task_of s tid = Some r" "ow_auction r = Some a"
  shows "evolves P s (fst (emit_announce P tid now s))"
proof -
  have fr: "task_frame tid s (fst (emit_announce P tid now s))" by (rule frame_emit_announce [OF frame_refl])
  obtain b where b: "task_of (fst (emit_announce P tid now s)) tid = Some (r\<lparr>ow_auction := Some b\<rparr>)"
    "au_bids b = au_bids a" "au_task b = au_task a"
    using task_of_emit_announce [OF assms(2,3)] by blast
  have "record_ok tid r" "stage_ok P (fst (emit_announce P tid now s)) tid r"
    using assms(1,2) stage_ok_mono [OF _ fr] by (auto simp: coord_inv_def)
  then have "record_ok tid (r\<lparr>ow_auction := Some b\<rparr>) \<and>
      stage_ok P (fst (emit_announce P tid now s)) tid (r\<lparr>ow_auction := Some b\<rparr>)"
    using assms(3) b(2,3) auction_ok_cong [OF b(2,3)] by (auto simp: record_ok_def stage_ok_def)
  then have "coord_inv P (fst (emit_announce P tid now s))"
    using b(1) by (intro inv_by_frame [OF coord_inv_but [OF assms(1)] fr]) auto
  moreover have "keeps tid s (fst (emit_announce P tid now s))"
    using assms(2) b(1) by (auto simp: keeps_def unsettled_def ours_def)
  ultimately show ?thesis using fr by (intro settles_evolves) (simp add: settles_def)
qed

lemma run_auction_evolves:
  assumes "coord_inv P s"
  shows "evolves P s (fst (run_auction P now tid s))"
proof -
  have "evolves P s (fst (maybe_close P tid now (count Re_announced (fst (emit_announce P tid now s)))))"
    if "task_of s tid = Some r" "ow_auction r = Some a" for r a
    using evolves_emit_announce [OF assms that, of now]
    by (intro evolves_then [OF _ evolves_trans [OF kept_count(1) maybe_close_evolves]]) (auto simp: evolves_def)
  then show ?thesis
    using assms evolves_emit_announce [OF assms]
    by (auto simp: run_auction_def evolves_refl maybe_close_evolves split_beta split: option.splits)
qed

lemma evolves_broadcast: "coord_inv P s \<Longrightarrow> evolves P s (fst (send_broadcast_port P m s))"
  using evolves_note_call [of P s "Broadcast m (pt_send_broadcast P (co_calls s) m)"]
  by (simp add: send_broadcast_port_def Let_def)

lemma transmit_bid_evolves:
  assumes inv: "coord_inv P s" and p: "tk_id (pb_task p) = pb_task_id p"
  shows "evolves P s (fst (transmit_bid P p now s))"
proof -
  define s1 where "s1 = fst (send_broadcast_port P (bid_message p) s)"
  define s2 where "s2 = count Bids_sent (put_bid (p\<lparr>pb_sent_at := Some now\<rparr>) s1)"
  have 1: "evolves P s s1" unfolding s1_def by (rule evolves_broadcast [OF inv])
  have "evolves P s1 (put_bid (p\<lparr>pb_sent_at := Some now\<rparr>) s1)"
    using 1 p by (intro evolves_put_bid) (auto simp: evolves_def)
  with 1 have 2: "evolves P s s2"
    unfolding s2_def using kept_trans kept_count(1) coord_inv_count unfolding evolves_def by metis
  then have 3: "evolves P s (count Bids_infeasible s2)"
    using kept_trans kept_count(1) coord_inv_count unfolding evolves_def by metis
  have "fst (transmit_bid P p now s) \<in> {s1, s2, count Bids_infeasible s2}"
    by (auto simp: transmit_bid_def s1_def s2_def Let_def split_beta split: option.splits)
  with 1 2 3 show ?thesis by auto
qed

lemma send_due_bids_evolves:
  assumes "coord_inv P s"
  shows "evolves P s (fst (send_due_bids P now s))"
proof -
  have keyed: "\<forall>p \<in> set (map snd (co_bids s)). tk_id (pb_task p) = pb_task_id p"
    using assms by (force simp: coord_inv_def tables_ok_def od_get_iff)
  have "evolves P s (fst (each (send_due_bid P now) ps s))"
    if "coord_inv P s" "\<forall>p \<in> set ps. tk_id (pb_task p) = pb_task_id p" for ps s
    using that
  proof (induction ps arbitrary: s)
    case (Cons p ps)
    obtain s1 e where x: "send_due_bid P now p s = (s1, e)" by (cases "send_due_bid P now p s")
    have "evolves P s (fst (send_due_bid P now p s))"
      using Cons.prems transmit_bid_evolves by (simp add: send_due_bid_def evolves_refl)
    then have s1: "evolves P s s1" using x by simp
    then have "evolves P s1 (fst (each (send_due_bid P now) ps s1))"
      using Cons by (simp add: evolves_def)
    with s1 have "evolves P s (fst (each (send_due_bid P now) ps s1))"
      using kept_trans unfolding evolves_def by blast
    with x s1 show ?case by (simp split: option.splits)
  qed (simp add: evolves_refl)
  with assms keyed show ?thesis by (simp add: send_due_bids_def)
qed

lemma maybe_heartbeat_evolves:
  assumes inv: "coord_inv P s"
  shows "evolves P s (fst (maybe_heartbeat P now s))"
proof -
  define s4 where "s4 = called (called (called (s\<lparr>co_next_heartbeat_at := now + cp_heartbeat_period_sec (co_params s)\<rparr>)))"
  have 4: "evolves P s s4" unfolding s4_def by (rule evolves_quiet [OF inv]) simp_all
  then have b: "evolves P s (fst (send_broadcast_port P m s4))" for m
    using evolves_broadcast kept_trans unfolding evolves_def by blast
  then have c: "evolves P s (count Heartbeats_sent (fst (send_broadcast_port P m s4)))" for m
    using kept_trans kept_count(1) coord_inv_count unfolding evolves_def by metis
  show ?thesis
    using b c evolves_refl [OF inv]
    by (simp add: maybe_heartbeat_def Let_def split_beta s4_def [symmetric] split: option.splits)
qed

lemma od_get_filter_snd:
  "od_ok d \<Longrightarrow> od_get (filter (\<lambda>(_, v). Q v) d) k =
    (case od_get d k of Some v \<Rightarrow> if Q v then Some v else None | None \<Rightarrow> None)"
proof (induction d)
  case (Cons x d)
  then show ?case
    by (cases x) (auto simp: od_get_def od_ok_def map_of_eq_None_iff split: option.splits)
qed (simp add: od_get_def)

lemma prune_evolves:
  assumes inv: "coord_inv P s"
  shows "evolves P s (prune now s)"
proof -
  let ?s = "prune now s"
  have same: "co_grants ?s = co_grants s" "co_log ?s = co_log s" "co_futures ?s = co_futures s"
    "co_registry ?s = co_registry s"
    by (simp_all add: prune_def)
  have ok: "od_ok (co_tasks s)" "od_ok (co_bids s)" using inv by (auto simp: coord_inv_def tables_ok_def)
  have task: "task_of ?s j = (case task_of s j of Some r \<Rightarrow> if \<not> settled_long_ago s now r then Some r else None
      | None \<Rightarrow> None)" for j
    using od_get_filter_snd [OF ok(1), of "\<lambda>r. \<not> settled_long_ago s now r"] by (simp add: task_of_def prune_def)
  have bid: "od_get (co_bids ?s) k = Some p \<Longrightarrow> od_get (co_bids s) k = Some p" for k p
    using od_get_filter_snd [OF ok(2), of "\<lambda>p. \<not> now - pb_created_at p > cp_bid_memory_sec (co_params s)" k]
    by (auto simp: prune_def split: option.splits if_splits)
  have "od_ok (co_tasks ?s)" "od_ok (co_bids ?s)"
    using ok by (auto simp: prune_def od_ok_def intro: distinct_map_filter)
  then have "tables_ok ?s"
    using inv futures_ok_cong [of ?s s] same bid by (auto simp: coord_inv_def tables_ok_def)
  then have "coord_inv P ?s"
    using inv task stage_ok_same_log [OF same(1,2)] by (auto simp: coord_inv_def split: option.splits if_splits)
  moreover have "kept s ?s"
    using same task by (auto simp: kept_def unsettled_def settled_long_ago_def split: option.splits)
  ultimately show ?thesis by (simp add: evolves_def)
qed

lemma coord_tick_evolves:
  assumes "coord_inv P s"
  shows "evolves P s (fst (coord_tick P now s))"
proof -
  have 1: "evolves P s (fst (run_auctions P now (age_peers now s)))"
    unfolding run_auctions_def using age_peers_evolves [OF assms, of now]
    by (intro evolves_then [OF age_peers_evolves [OF assms] each_evolves [OF run_auction_evolves]])
      (auto simp: evolves_def)
  obtain s1 e1 where s1: "run_auctions P now (age_peers now s) = (s1, e1)" by fastforce
  obtain s2 e2 where s2: "send_due_bids P now s1 = (s2, e2)" by fastforce
  obtain s3 e3 where s3: "maybe_heartbeat P now s2 = (s3, e3)" by fastforce
  have "evolves P s s1" using 1 s1 by simp
  moreover from this have "evolves P s s2"
    using send_due_bids_evolves [of P s1 now] s2 kept_trans unfolding evolves_def by (metis fst_conv)
  moreover from this have "evolves P s s3"
    using maybe_heartbeat_evolves [of P s2 now] s3 kept_trans unfolding evolves_def by (metis fst_conv)
  moreover from this have "evolves P s (prune now s3)"
    using prune_evolves kept_trans unfolding evolves_def by blast
  ultimately show ?thesis
    by (simp add: coord_tick_def s1 s2 s3 split: option.splits)
qed

section \<open>Reachable states\<close>

lemma coord_step_evolves: "coord_inv P s \<Longrightarrow> evolves P s (coord_step depth P s op)"
  by (cases op)
    (auto simp: coord_on_message_def dispatch_evolves on_note_evolves grant_resolved_evolves own_evolves
      report_infeasible_def report_infeasible_evolves take_on_good revise_bid_evolves take_note_requests_def
      coord_tick_evolves clear_preemption_def evolves_note_call intro!: evolves_quiet)

lemma coord_init_inv: "coord_init node_id caps params = Inr s \<Longrightarrow> coord_inv P s"
  by (auto simp: coord_init_def coord_inv_def tables_ok_def task_of_def od_get_def futures_ok_def
      registry_init_ok split: if_splits sum.splits)

inductive coord_reachable :: "nat \<Rightarrow> ports \<Rightarrow> coord \<Rightarrow> bool" for depth P where
  init: "coord_init node_id caps params = Inr s \<Longrightarrow> coord_reachable depth P s"
| step: "coord_reachable depth P s \<Longrightarrow> coord_reachable depth P (coord_step depth P s op)"

lemma coord_reachable_inv: "coord_reachable depth P s \<Longrightarrow> coord_inv P s"
  by (induction rule: coord_reachable.induct)
    (auto simp: coord_init_inv dest: coord_step_evolves simp: evolves_def)

lemma coord_reachable_run: "coord_reachable depth P s \<Longrightarrow> coord_reachable depth P (run (coord_step depth P) s ops)"
  by (induction ops arbitrary: s) (auto intro: coord_reachable.step)

end
