(* ===== verification/Coordinator_Props.thy ===== *)
theory Coordinator_Props
  imports Coordinator_Steps
begin

text \<open>
  What the contract net promises, for every reachable state and every behaviour of the ports;
  and the states in which the code does not do what it means to.
\<close>

section \<open>A robot and its ports, for concrete runs\<close>

definition calm_ports :: ports where
  "calm_ports = \<lparr>pt_send_broadcast = (\<lambda>_ _. True), pt_send_reliable = (\<lambda>_ _ _. Accepted),
     pt_send_note = (\<lambda>_ _ _. Some 1), pt_completed_note = (\<lambda>_ _ _. None),
     pt_can_reach = (\<lambda>_ _. Some True), pt_eta = (\<lambda>_ _. Some 100), pt_current_location = (\<lambda>_. None),
     pt_can_absorb = (\<lambda>_ _. Some True), pt_current_task_id = (\<lambda>_. Some 0),
     pt_battery_percent = (\<lambda>_. Some 80), pt_interpret_anomaly = (\<lambda>_ _. Raises),
     pt_replan_and_verify = (\<lambda>_ _. Answer True), pt_fitness = (\<lambda>t e b busy. default_fitness t e b busy 1020),
     pt_random = (\<lambda>_. 0)\<rparr>"

definition tree_task :: task where
  "tree_task = \<lparr>tk_id = 7, tk_caps = 1, tk_location = \<lparr>tg_kind = TREE, tg_a = 60, tg_b = 0\<rparr>,
     tk_priority = 3, tk_payload = None\<rparr>"

definition shed :: action where
  "shed = ReDelegate tree_task 1 HOLD []"

definition fresh_robot :: coord where
  "fresh_robot = (case coord_init 1 [0] default_coordinator_params of Inr s \<Rightarrow> s)"

definition handover :: "coord_op list" where
  "handover = [Own tree_task, OnMessage (Heartbeat 2 0 1 0 0 0 80 0) 1,
     ReportInfeasible (Some tree_task) 1 (Some (Answer shed)) 2,
     OnMessage (Bid 2 1 7 40 True 12) 3]"

abbreviation go :: "coord_op list \<Rightarrow> coord" where
  "go ops \<equiv> run (coord_step 2 calm_ports) fresh_robot ops"

lemma fresh_robot_init: "coord_init 1 [0] default_coordinator_params = Inr fresh_robot"
proof -
  have "cap_mask [0] = Inr 1" by code_simp
  then show ?thesis
    by (simp add: fresh_robot_def coord_init_def registry_init_def default_coordinator_params_def
        DEFAULT_PEER_TIMEOUT_SEC_def)
qed

lemma go_reachable: "coord_reachable 2 calm_ports (go ops)"
  by (rule coord_reachable_run) (rule coord_reachable.init [OF fresh_robot_init])

fun parts_with :: "port_call \<Rightarrow> bool" where
  "parts_with (MarkTransferred _) = True" | "parts_with (Release _) = True" | "parts_with _ = False"

section \<open>Ownership\<close>

text \<open>
  C1: Unassigned until acknowledged. In every state a coordinator can reach, whatever its
  ports answer, a task it considers another robot's, and a task it has told its mission node is
  transferred, is one whose GRANT the reliability layer took and later reported delivered. No
  send alone moves a task, and a future is reported at most once.
\<close>

theorem unassigned_until_acknowledged:
  assumes "coord_reachable depth P s"
  shows "(\<forall>tid. state_of s tid = Some TRANSFERRED \<longrightarrow> confirmed (co_log s) tid) \<and>
    (\<forall>t. MarkTransferred t \<in> set (co_log s) \<longrightarrow> confirmed (co_log s) (tk_id t)) \<and>
    (\<forall>fid out out'. GrantReported fid out \<in> set (co_log s) \<longrightarrow> GrantReported fid out' \<in> set (co_log s) \<longrightarrow>
       out = out' \<and> od_get (co_grants s) fid = None)"
proof -
  have inv: "coord_inv P s" by (rule coord_reachable_inv [OF assms])
  then have f: "futures_ok s" by (simp add: coord_inv_def tables_ok_def)
  have "confirmed (co_log s) tid" if "state_of s tid = Some TRANSFERRED" for tid
    using inv that by (auto simp: state_of_def coord_inv_def stage_ok_def)
  with f show ?thesis unfolding futures_ok_def by blast
qed

theorem unassigned_until_acknowledged_witness:
  "\<exists>s. coord_reachable 2 calm_ports s \<and> state_of s 7 = Some TRANSFERRED \<and> confirmed (co_log s) 7"
proof -
  have "state_of (go (handover @ [GrantResolved 0 DELIVERED 4])) 7 = Some TRANSFERRED" by code_simp
  with unassigned_until_acknowledged [OF go_reachable] go_reachable show ?thesis by blast
qed

text \<open>
  C2: No task is silently lost. Take a task that is ours in a reachable state (and whose record
  was not settled before). After any further operation it is still ours, unless in that
  operation the mission node was told it is transferred, with its GRANT confirmed, or was told
  to release it. Refused sends, failed deliveries, raising ports, lost peers, closing
  auctions and overheard traffic never make it disappear.
\<close>

theorem no_task_silently_lost:
  assumes "coord_reachable depth P s" and "unsettled s tid" and "s' = coord_step depth P s op"
  shows "unsettled s' tid \<or>
    (\<exists>t es. co_log s' = co_log s @ es \<and> tk_id t = tid \<and>
       (MarkTransferred t \<in> set es \<and> confirmed (co_log s') tid \<or> Release t \<in> set es))"
proof -
  have ev: "evolves P s s'"
    unfolding assms(3) by (rule coord_step_evolves [OF coord_reachable_inv [OF assms(1)]])
  then obtain es where es: "co_log s' = co_log s @ es"
    by (auto simp: evolves_def kept_def prefix_def)
  have "futures_ok s'" using ev by (simp add: evolves_def coord_inv_def tables_ok_def)
  then have "MarkTransferred t \<in> set es \<Longrightarrow> confirmed (co_log s') (tk_id t)" for t
    using es unfolding futures_ok_def by (metis Un_iff set_append)
  with ev assms(2) es show ?thesis by (fastforce simp: evolves_def kept_def parted_with_def)
qed

theorem no_task_silently_lost_witness:
  "unsettled (go handover) 7 \<and> unsettled (coord_step 2 calm_ports (go handover) (GrantResolved 0 FAILED 4)) 7"
proof -
  have u: "unsettled (go handover) 7"
  proof -
    have "map_option (\<lambda>r. (ours r, ow_settled_at r)) (task_of (go handover) 7) = Some (True, None)" by code_simp
    then show ?thesis by (auto simp: unsettled_def)
  qed
  let ?s = "coord_step 2 calm_ports (go handover) (GrantResolved 0 FAILED 4)"
  have "list_all (\<lambda>c. \<not> parts_with c) (co_log ?s)" by code_simp
  then have "MarkTransferred t \<notin> set (co_log ?s)" "Release t \<notin> set (co_log ?s)" for t
    unfolding list_all_iff using parts_with.simps(1,2) by blast+
  then have log: "co_log ?s = co_log (go handover) @ es \<Longrightarrow> MarkTransferred t \<notin> set es \<and> Release t \<notin> set es" for t es
    by (metis Un_iff set_append)
  show ?thesis
    using no_task_silently_lost [OF go_reachable u refl, of "GrantResolved 0 FAILED 4"] u log by blast
qed

text \<open>
  Nothing is stuck in mid-transfer. In every reachable state the tables are keyed by the
  task and the bidder, a task has an auction exactly while it is announced or granted, and a
  granted task has a winner whose GRANT's future is still open, so a report for it is owed.
\<close>

lemma granted_tasks_await_a_report:
  assumes "coord_reachable depth P s" and "task_of s tid = Some r"
  shows "tk_id (ow_task r) = tid \<and>
    (ow_auction r \<noteq> None \<longleftrightarrow> ow_state r = ANNOUNCED \<or> ow_state r = GRANTED) \<and>
    (\<forall>a. ow_auction r = Some a \<longrightarrow> auction_ok a \<and> au_task a = ow_task r) \<and>
    (ow_state r = GRANTED \<longrightarrow>
      (\<exists>w fid. ow_granted_to r = Some w \<and> od_get (co_grants s) fid = Some (tid, w) \<and>
        GrantSent fid w tid Accepted \<in> set (co_log s) \<and> (\<forall>out. GrantReported fid out \<notin> set (co_log s))))"
proof -
  have inv: "coord_inv P s" by (rule coord_reachable_inv [OF assms(1)])
  then have r: "record_ok tid r" "stage_ok P s tid r" and f: "futures_ok s"
    using assms(2) by (auto simp: coord_inv_def tables_ok_def)
  have fut: "GrantSent fid w tid Accepted \<in> set (co_log s) \<and> (\<forall>out. GrantReported fid out \<notin> set (co_log s))"
    if "od_get (co_grants s) fid = Some (tid, w)" for fid w
    using f that unfolding futures_ok_def by (metis option.distinct(1))
  show ?thesis
    using r fut unfolding record_ok_def stage_ok_def awaits_report_def by blast
qed

lemma granted_tasks_await_a_report_witness:
  "\<exists>r fid. task_of (go handover) 7 = Some r \<and> ow_state r = GRANTED \<and> ow_granted_to r = Some 2 \<and>
     od_get (co_grants (go handover)) fid = Some (7, 2)"
proof -
  have "map_option (\<lambda>r. (ow_state r, ow_granted_to r)) (task_of (go handover) 7) = Some (GRANTED, Some 2)" by code_simp
  then obtain r where r: "task_of (go handover) 7 = Some r" "ow_state r = GRANTED" "ow_granted_to r = Some 2" by auto
  show ?thesis
    using granted_tasks_await_a_report [OF go_reachable r(1)] r by auto
qed



section \<open>Arbitration ends\<close>

definition no_recursion_error :: "coord \<times> coord_exn option \<Rightarrow> bool" where
  "no_recursion_error x \<longleftrightarrow> snd x \<noteq> Some RecursionError"

lemma no_recursion_announce: "no_recursion_error (announce P tid now s)"
  by (auto simp: no_recursion_error_def announce_def emit_announce_def send_broadcast_port_def Let_def split_beta
      split: option.splits if_splits)

lemma no_recursion_retry: "no_recursion_error (retry_or_give_up P tid now s)"
  using no_recursion_announce
  by (auto simp: retry_or_give_up_def Let_def no_recursion_error_def split: option.splits)

text \<open>Where the next round starts after a failed grant: in order, and with one bid fewer.\<close>

definition next_round :: "int \<Rightarrow> int \<Rightarrow> coord \<Rightarrow> coord" where
  "next_round tid w s = upd_task tid (\<lambda>r. r\<lparr>ow_state := ANNOUNCED\<rparr>) (unaward tid w s)"

lemma next_round_inv:
  assumes "inv_but P tid s" and "task_of s tid = Some r" and "ow_auction r \<noteq> None"
    and "broadcasts_succeed P \<Longrightarrow> \<not> ow_in_mission r"
  shows "coord_inv P (next_round tid w s)"
proof -
  have fr: "task_frame tid (unaward tid w s) (next_round tid w s)" by (simp add: next_round_def frames frame_refl)
  have but: "inv_but P tid (unaward tid w s)" by (rule inv_but_unaward [OF assms(1)])
  obtain r1 where r1: "task_of (unaward tid w s) tid = Some r1" "ow_in_mission r1 = ow_in_mission r"
    "ow_auction r1 \<noteq> None" using assms(2,3) by simp
  have r2: "task_of (next_round tid w s) tid = Some (r1\<lparr>ow_state := ANNOUNCED\<rparr>)"
    unfolding next_round_def by (simp only: task_of_upd r1(1) refl if_True option.map)
  have "record_ok tid r1" using but r1(1) unfolding inv_but_def by blast
  then have "record_ok tid (r1\<lparr>ow_state := ANNOUNCED\<rparr>) \<and> stage_ok P (next_round tid w s) tid (r1\<lparr>ow_state := ANNOUNCED\<rparr>)"
    using assms(4) r1(2,3) by (auto simp: record_ok_def stage_ok_def)
  then show ?thesis by (intro inv_by_frame [OF but fr]) (simp only: r2 option.inject)
qed

lemma all_bids_next_round:
  assumes "auction_of s tid = Some a" "auction_ok a" "winner a = Some w"
  shows "all_bids (next_round tid (rb_bidder_id w) s) tid < length (au_bids a)"
proof -
  have "auction_of (next_round tid (rb_bidder_id w) s) tid = Some (forget a (rb_bidder_id w))"
    using assms(1) by (auto simp: next_round_def auction_of_def split: option.splits)
  moreover have "od_mem (au_bids a) (rb_bidder_id w)"
    using winner_keyed [OF assms(2,3)] od_get_None [of "au_bids a" "rb_bidder_id w"] by auto
  ultimately show ?thesis
    using length_od_del_mem [of "au_bids a" "rb_bidder_id w"] assms(2)
    by (auto simp: all_bids_def auction_ok_def)
qed

lemma grant_failed_with_cong:
  assumes "close P tid now (next_round tid w s) = close' P tid now (next_round tid w s)"
    and "no_recursion_error (close P tid now (next_round tid w s))"
  shows "grant_failed_with close P tid w now s = grant_failed_with close' P tid w now s"
    and "no_recursion_error (grant_failed_with close P tid w now s)"
  using assms no_recursion_retry
  by (auto simp: grant_failed_with_def Let_def next_round_def split: option.splits)

text \<open>The three states a round's failed grant may leave from agree on the task's record.\<close>

lemma grant_with_cong:
  assumes "\<And>answer. close P tid now (next_round tid w (grant_sent tid w answer (award tid w s)))
      = close' P tid now (next_round tid w (grant_sent tid w answer (award tid w s)))"
    and "\<And>answer. no_recursion_error (close P tid now (next_round tid w (grant_sent tid w answer (award tid w s))))"
  shows "grant_with close P tid w now s = grant_with close' P tid w now s"
    and "no_recursion_error (grant_with close P tid w now s)"
  using grant_failed_with_cong [of close P tid now w _ close', OF assms(1) assms(2)]
  by (auto simp: grant_with_def Let_def on_grant_outcome_with_def no_recursion_error_def
      split: send_answer.splits option.splits)

lemma award_round:
  assumes "coord_inv P s" and "auction_of s tid = Some a" and "winner a = Some w"
    and "s2 = next_round tid (rb_bidder_id w) (grant_sent tid (rb_bidder_id w) answer (award tid (rb_bidder_id w) s))"
  shows "coord_inv P s2" and "all_bids s2 tid < all_bids s tid"
proof -
  let ?w = "rb_bidder_id w"
  let ?s1 = "grant_sent tid ?w answer (award tid ?w s)"
  obtain r where r: "task_of s tid = Some r" "ow_auction r = Some a"
    using assms(2) by (auto simp: auction_of_def split: option.splits)
  have st: "record_ok tid r" "stage_ok P s tid r" "futures_ok s"
    using assms(1) r(1) by (auto simp: coord_inv_def tables_ok_def)
  have fo: "futures_ok (award tid ?w s)"
    using futures_ok_frame [OF frame_award(1) [OF frame_refl] st(3)] .
  have fr: "task_frame tid s ?s1" using fo by (simp add: frames frame_refl)
  have r1: "task_of ?s1 tid = Some (r\<lparr>ow_state := GRANTED, ow_granted_to := Some ?w\<rparr>)" using r(1) by simp
  have "inv_but P tid ?s1"
    using st(1) r1 by (intro inv_but_by_frame [OF coord_inv_but [OF assms(1)] fr]) (auto simp: record_ok_def)
  then show "coord_inv P s2"
    unfolding assms(4) using r1 r(2) st(2) by (intro next_round_inv) (auto simp: stage_ok_def)
  have "auction_of ?s1 tid = Some a" unfolding auction_of_def r1 by (simp add: r(2))
  moreover have "auction_ok a" using st(1) r(2) by (simp add: record_ok_def)
  ultimately show "all_bids s2 tid < all_bids s tid"
    using all_bids_next_round [of ?s1 tid a w] assms(2,3) by (simp add: assms(4) all_bids_def [of s])
qed

lemma no_recursion_fall: "no_recursion_error (no_viable_bid P tid now s, None)" "no_recursion_error (s, None)"
  by (simp_all add: no_recursion_error_def)

lemma maybe_close_enough:
  "coord_inv P s \<Longrightarrow> all_bids s tid < n \<Longrightarrow> all_bids s tid < m \<Longrightarrow>
    maybe_close_n n P tid now s = maybe_close_n m P tid now s \<and> no_recursion_error (maybe_close_n n P tid now s)"
proof (induction n arbitrary: s m)
  case (Suc n)
  then obtain k where m: "m = Suc k" by (cases m) auto
  show ?case
  proof (cases "auction_of s tid")
    case None
    then show ?thesis by (simp add: m maybe_close_with_def no_recursion_error_def)
  next
    case (Some a)
    have eq: "grant_with (maybe_close_n n) P tid (rb_bidder_id w) now s
        = grant_with (maybe_close_n k) P tid (rb_bidder_id w) now s \<and>
        no_recursion_error (grant_with (maybe_close_n n) P tid (rb_bidder_id w) now s)" if w: "winner a = Some w" for w
    proof -
      have "maybe_close_n n P tid now (next_round tid (rb_bidder_id w) (grant_sent tid (rb_bidder_id w) answer (award tid (rb_bidder_id w) s)))
          = maybe_close_n k P tid now (next_round tid (rb_bidder_id w) (grant_sent tid (rb_bidder_id w) answer (award tid (rb_bidder_id w) s))) \<and>
        no_recursion_error (maybe_close_n n P tid now (next_round tid (rb_bidder_id w) (grant_sent tid (rb_bidder_id w) answer (award tid (rb_bidder_id w) s))))" for answer
        using award_round [OF Suc.prems(1) Some w refl, of answer] Suc.prems(2,3) m by (intro Suc.IH) auto
      then show ?thesis
        using grant_with_cong [of "maybe_close_n n" P tid now "rb_bidder_id w" s "maybe_close_n k"] by blast
    qed
    then have eq': "no_recursion_error (grant_with (maybe_close_n k) P tid (rb_bidder_id w) now s)"
      if "winner a = Some w" for w using that by metis
    show ?thesis
      using Some no_recursion_fall eq eq'
      by (simp add: m maybe_close_with_def split: option.split)
  qed
qed simp

lemma maybe_close_unfold:
  assumes inv: "coord_inv P s"
  shows "maybe_close P tid now s = maybe_close_with maybe_close P tid now s \<and>
    snd (maybe_close P tid now s) \<noteq> Some RecursionError"
proof -
  note enough = maybe_close_enough [OF inv, of tid]
  have "maybe_close_with (maybe_close_n (all_bids s tid)) P tid now s = maybe_close_with maybe_close P tid now s"
  proof (cases "auction_of s tid")
    case None
    then show ?thesis by (simp add: maybe_close_with_def)
  next
    case (Some a)
    have "grant_with (maybe_close_n (all_bids s tid)) P tid (rb_bidder_id w) now s =
        grant_with maybe_close P tid (rb_bidder_id w) now s" if w: "winner a = Some w" for w
    proof -
      have "maybe_close_n (all_bids s tid) P tid now s2 = maybe_close P tid now s2 \<and>
          no_recursion_error (maybe_close_n (all_bids s tid) P tid now s2)"
        if "s2 = next_round tid (rb_bidder_id w) (grant_sent tid (rb_bidder_id w) answer (award tid (rb_bidder_id w) s))" for answer s2
        unfolding maybe_close_def using award_round [OF inv Some w that]
        by (intro maybe_close_enough) auto
      then show ?thesis
        using grant_with_cong(1) [of "maybe_close_n (all_bids s tid)" P tid now "rb_bidder_id w" s maybe_close] by blast
    qed
    with Some show ?thesis by (simp add: maybe_close_with_def split: option.split)
  qed
  moreover have "no_recursion_error (maybe_close P tid now s)"
    using enough [of "Suc (all_bids s tid)" "Suc (all_bids s tid)" now] by (simp add: maybe_close_def)
  ultimately show ?thesis by (simp add: maybe_close_def [of P tid now s] no_recursion_error_def)
qed

text \<open>
  Arbitration ends, in at most one round per bid. In a reachable state \<^verbatim>\<open>_maybe_close\<close> never
  exhausts the recursion the model allows it, and is its own unfolding: it grants to the
  winner, and a refused or failed GRANT offers the task to the runner-up until a GRANT is
  taken, no bidder is left, or there is reason to wait.
\<close>

lemma arbitration_ends:
  assumes "coord_reachable depth P s"
  shows "maybe_close P tid now s = maybe_close_with maybe_close P tid now s \<and>
    snd (maybe_close P tid now s) \<noteq> Some RecursionError"
  by (rule maybe_close_unfold [OF coord_reachable_inv [OF assms]])

lemma arbitration_ends_witness:
  "snd (maybe_close calm_ports 7 9 (go handover)) \<noteq> Some RecursionError"
  using arbitration_ends [OF go_reachable] by blast

section \<open>Where the code does not do what it means to\<close>

text \<open>
  A dropped task that is delegated again keeps the time at which it settled: \<^verbatim>\<open>_begin_delegation\<close>,
  \<^verbatim>\<open>_announce\<close> and \<^verbatim>\<open>_dispose_locally\<close> never clear \<^verbatim>\<open>settled_at\<close>. When that auction draws no bid the
  task is held, ours again and back in the mission; five minutes after the drop \<^verbatim>\<open>_prune\<close>
  forgets it, although it is ours and the mission node was never told to release it.
\<close>

definition dropped_then_held :: "coord_op list" where
  "dropped_then_held = [Own tree_task,
     ReportInfeasible (Some tree_task) 1 (Some (Answer (DropTask tree_task DROP 1))) 2,
     ReportInfeasible (Some tree_task) 1 (Some (Answer shed)) 40, Tick 46]"

lemma prune_forgets_a_task_that_is_ours:
  "map_option (\<lambda>r. (ours r, ow_in_mission r)) (task_of (go dropped_then_held) 7) = Some (True, True) \<and>
   task_of (go (dropped_then_held @ [Tick 303])) 7 = None \<and>
   list_all (\<lambda>c. \<not> parts_with c)
     (drop (length (co_log (go dropped_then_held))) (co_log (go (dropped_then_held @ [Tick 303]))))"
  by code_simp

text \<open>
  An interpreter answers a rejected absorption by raising. The mission node was told to absorb
  the task and then to release it, yet the record \<^verbatim>\<open>report_infeasible\<close> put back says the task is
  ours and in the mission.
\<close>

definition rejecting_ports :: ports where
  "rejecting_ports = calm_ports\<lparr>pt_replan_and_verify := (\<lambda>_ _. Answer False)\<rparr>"

lemma released_task_still_ours:
  "let s = run (coord_step 2 rejecting_ports) fresh_robot
       [OnMessage (TaskAnnounce 2 1 7 1 1 60 0 3 1) 1, Tick 3, OnMessage (Grant 2 2 7 1) 4]
   in map_option (\<lambda>r. (ow_state r, ow_in_mission r)) (task_of s 7) = Some (OURS, True) \<and>
      filter (\<lambda>c. case c of Absorb _ \<Rightarrow> True | Release _ \<Rightarrow> True | _ \<Rightarrow> False) (co_log s) =
        [Absorb tree_task, Release tree_task]"
  by code_simp

text \<open>
  An operator holds a task while its GRANT is in flight. The acknowledgement that follows is
  ignored, because the task is no longer granted: the winner has it, and so do we.
\<close>

lemma held_while_granted_has_two_owners:
  "let s = go (handover @ [ReportInfeasible (Some tree_task) 5 (Some (Answer (DropTask tree_task HOLD 5))) 4,
                GrantResolved 0 DELIVERED 5])
   in {GrantSent 0 2 7 Accepted, GrantReported 0 DELIVERED} \<subseteq> set (co_log s) \<and> state_of s 7 = Some OURS"
  by code_simp


end
