(* ===== verification/Coordinator_Live.thy ===== *)
theory Coordinator_Live
  imports Coordinator_Props
begin

text \<open>
  What the passing of time guarantees: no auction outlives its window, and the recursion through
  a failing interpreter is bounded by the tasks it can name.
\<close>

section \<open>Auctions close\<close>

definition due :: "secs \<Rightarrow> owned_task \<Rightarrow> bool" where
  "due now r \<longleftrightarrow> ow_state r = ANNOUNCED \<and>
     (case ow_auction r of None \<Rightarrow> False | Some a \<Rightarrow> should_close a now)"

definition overdue :: "secs \<Rightarrow> int \<Rightarrow> coord \<Rightarrow> bool" where
  "overdue now tid s \<longleftrightarrow> (case task_of s tid of None \<Rightarrow> False | Some r \<Rightarrow> due now r)"

lemma overdue_plumbing [simp]:
  "overdue now tid (count c s) = overdue now tid s" "overdue now tid (called s) = overdue now tid s"
  "overdue now tid (note_call e s) = overdue now tid s"
  by (simp_all add: overdue_def)

definition windows_open :: "coord \<Rightarrow> bool" where
  "windows_open s \<longleftrightarrow> (\<forall>d. 0 < window (co_params s) d)"

lemma accepted_windows_open: "coordinator_params_post_init (co_params s) = Inr p \<Longrightarrow> windows_open s"
  by (auto simp: windows_open_def window_def note_announce_window_sec_def coordinator_params_post_init_def
      intro!: mult_pos_pos split: if_splits)

lemma windows_frame: "task_frame tid s s' \<Longrightarrow> windows_open s' = windows_open s"
  by (simp add: windows_open_def task_frame_def)

lemma new_auction_open: "windows_open s \<Longrightarrow> \<not> should_close (new_auction s r d now) now"
  by (simp add: windows_open_def new_auction_def should_close_def heard_from_everyone_def not_le)

lemma should_close_cong:
  "au_bids b = au_bids a \<Longrightarrow> au_closes_at b = au_closes_at a \<Longrightarrow>
    au_expected_bidders b = au_expected_bidders a \<Longrightarrow> should_close b now = should_close a now"
  by (simp add: should_close_def heard_from_everyone_def)

lemma announce_not_overdue:
  assumes "windows_open s"
  shows "\<not> overdue now tid (fst (announce P tid now s))"
proof (cases "task_of s tid")
  case None
  then show ?thesis
    by (auto simp: announce_def emit_announce_def Let_def split_beta overdue_def split: option.splits)
next
  case (Some r)
  let ?e = "emit_note P tid (upd_task tid (\<lambda>r. r\<lparr>ow_state := ANNOUNCED,
                 ow_delegation_attempts := ow_delegation_attempts r + 1,
                 ow_last_announced_at := Some now\<rparr>) s)"
  let ?r1 = "r\<lparr>ow_state := ANNOUNCED, ow_delegation_attempts := ow_delegation_attempts r + 1,
        ow_last_announced_at := Some now\<rparr>"
  let ?s3 = "upd_task tid (\<lambda>r. r\<lparr>ow_auction := Some (new_auction (fst ?e) r (snd ?e) now)\<rparr>) (fst ?e)"
  have "task_frame tid s (fst ?e)" by (intro frames frame_refl)
  then have w: "windows_open (fst ?e)" using assms windows_frame by blast
  have s3: "task_of ?s3 tid = Some (?r1\<lparr>ow_auction := Some (new_auction (fst ?e) ?r1 (snd ?e) now)\<rparr>)"
    using Some by simp
  define a where "a = new_auction (fst ?e) ?r1 (snd ?e) now"
  obtain b where b: "task_of (fst (emit_announce P tid now ?s3)) tid = Some (?r1\<lparr>ow_auction := Some b\<rparr>)"
    "au_bids b = au_bids a" "au_closes_at b = au_closes_at a" "au_expected_bidders b = au_expected_bidders a"
    using task_of_emit_announce [OF s3, of a P now] by (auto simp: a_def)
  have "\<not> should_close b now"
    using should_close_cong [OF b(2-4)] new_auction_open [OF w] by (simp add: a_def)
  with b(1) show ?thesis
    by (cases "snd (emit_announce P tid now ?s3)")
      (simp_all add: announce_def Let_def split_beta overdue_def due_def)
qed

lemma fall_back_not_overdue: "\<not> overdue now tid (fall_back P tid now s)"
  by (cases "task_of s tid") (auto simp: overdue_def due_def disposed_def split: local_disposition.splits)

lemma retry_not_overdue:
  assumes "windows_open s"
  shows "\<not> overdue now tid (fst (retry_or_give_up P tid now s))"
proof -
  have "windows_open (upd_task tid f (upd_task tid g s))" for f g using assms by (simp add: windows_open_def)
  then show ?thesis
    using announce_not_overdue fall_back_not_overdue
    by (auto simp: retry_or_give_up_def Let_def overdue_def [of _ _ "upd_task _ _ _"] split: option.splits)
qed

lemma delivered_not_overdue: "\<not> overdue now tid (grant_delivered P tid w now' s)"
  by (cases "task_of s tid") (auto simp: grant_delivered_def Let_def overdue_def due_def)

lemma grant_failed_not_overdue:
  assumes "windows_open s" and "\<not> overdue now tid (fst (close P tid now (next_round tid w s)))"
  shows "\<not> overdue now tid (fst (grant_failed_with close P tid w now s))"
proof -
  have "windows_open (unaward tid w s)" using assms(1) by (simp add: windows_open_def unaward_def)
  then show ?thesis
    using assms(2) retry_not_overdue
    by (auto simp: grant_failed_with_def Let_def next_round_def split: option.splits)
qed

lemma grant_not_overdue:
  assumes "windows_open s" and "task_of s tid \<noteq> None"
    and "\<And>answer. \<not> overdue now tid (fst (close P tid now
           (next_round tid w (grant_sent tid w answer (award tid w s)))))"
  shows "\<not> overdue now tid (fst (grant_with close P tid w now s))"
proof -
  let ?s1 = "\<lambda>answer. grant_sent tid w answer (award tid w s)"
  have w: "windows_open (?s1 answer)" for answer
    using assms(1) by (simp add: windows_open_def grant_sent_log award_def)
  note failed = grant_failed_not_overdue [of "?s1 _" now tid close P w, OF w assms(3)]
  obtain r where r: "task_of (?s1 answer) tid = Some (r\<lparr>ow_state := GRANTED, ow_granted_to := Some w\<rparr>)" for answer
    using assms(2) by auto
  have "\<not> overdue now tid (?s1 answer)" for answer unfolding overdue_def r by (simp add: due_def)
  then show ?thesis
    using failed delivered_not_overdue unfolding grant_with_def Let_def on_grant_outcome_with_def r
    by (simp split: send_answer.split)
qed

lemma maybe_close_not_overdue:
  "coord_inv P s \<Longrightarrow> windows_open s \<Longrightarrow> \<not> overdue now tid (fst (maybe_close P tid now s))"
proof (induction "all_bids s tid" arbitrary: s rule: less_induct)
  case less
  have unfold: "maybe_close P tid now s = maybe_close_with maybe_close P tid now s"
    using maybe_close_unfold [OF less.prems(1)] by blast
  show ?case
  proof (cases "auction_of s tid")
    case None
    then show ?thesis
      unfolding unfold by (auto simp: maybe_close_with_def overdue_def due_def auction_of_def split: option.splits)
  next
    case (Some a)
    then obtain r where r: "task_of s tid = Some r" "ow_auction r = Some a"
      by (auto simp: auction_of_def split: option.splits)
    consider "\<not> should_close a now" | "should_close a now" "winner a = None"
      | w where "should_close a now" "winner a = Some w" by (cases "winner a") auto
    then show ?thesis
    proof cases
      case 1
      then show ?thesis unfolding unfold using Some r by (simp add: maybe_close_with_def overdue_def due_def)
    next
      case 2
      then show ?thesis
        unfolding unfold using Some by (simp add: maybe_close_with_def no_viable_bid_def fall_back_not_overdue)
    next
      case 3
      let ?s2 = "\<lambda>answer. next_round tid (rb_bidder_id w)
          (grant_sent tid (rb_bidder_id w) answer (award tid (rb_bidder_id w) s))"
      have "windows_open (?s2 answer)" for answer
        using less.prems(2) by (simp add: windows_open_def next_round_def unaward_def grant_sent_log award_def)
      then have "\<not> overdue now tid (fst (maybe_close P tid now (?s2 answer)))" for answer
        using award_round [OF less.prems(1) Some 3(2) refl, of answer] by (intro less.hyps)
      then have "\<not> overdue now tid (fst (grant_with maybe_close P tid (rb_bidder_id w) now s))"
        using less.prems(2) r(1) by (intro grant_not_overdue) auto
      with 3 Some show ?thesis unfolding unfold by (simp add: maybe_close_with_def)
    qed
  qed
qed

text \<open>Nothing raises while broadcasts succeed.\<close>

lemma announce_succeeds: "broadcasts_succeed P \<Longrightarrow> snd (announce P tid now s) = None"
  using emit_announce_succeeds by (simp add: announce_def Let_def split_beta split: option.split)

lemma retry_succeeds: "broadcasts_succeed P \<Longrightarrow> snd (retry_or_give_up P tid now s) = None"
  using announce_succeeds by (simp add: retry_or_give_up_def Let_def split: option.split)

lemma maybe_close_n_succeeds:
  "broadcasts_succeed P \<Longrightarrow> snd (maybe_close_n n P tid now s) \<in> {None, Some RecursionError}"
proof (induction n arbitrary: s)
  case (Suc n)
  have "snd (grant_failed_with (maybe_close_n n) P tid w now s') \<in> {None, Some RecursionError}" for w s'
    using Suc retry_succeeds by (simp add: grant_failed_with_def Let_def split: option.split)
  then show ?case
    by (auto simp: maybe_close_with_def grant_with_def Let_def on_grant_outcome_with_def
        split: option.split send_answer.split)
qed simp

lemma maybe_close_succeeds:
  assumes "coord_inv P s" "broadcasts_succeed P"
  shows "snd (maybe_close P tid now s) = None"
  using maybe_close_unfold [OF assms(1), of tid now] maybe_close_n_succeeds [OF assms(2)]
  unfolding maybe_close_def by blast

lemma run_auction_closes:
  assumes "coord_inv P s" and "windows_open s" and "broadcasts_succeed P"
  shows "snd (run_auction P now tid s) = None" "task_frame tid s (fst (run_auction P now tid s))"
    "\<not> overdue now tid (fst (run_auction P now tid s))"
proof -
  let ?x = "run_auction P now tid s"
  have close: "snd (maybe_close P tid now s') = None \<and> task_frame tid s (fst (maybe_close P tid now s')) \<and>
      \<not> overdue now tid (fst (maybe_close P tid now s'))" if "coord_inv P s'" "task_frame tid s s'" for s'
    using maybe_close_succeeds [OF that(1) assms(3)] settles_maybe_close [OF that(1)]
      maybe_close_not_overdue [OF that(1)] windows_frame [OF that(2)] assms(2) frame_trans [OF that(2)]
    unfolding settles_def by blast
  have re: "coord_inv P (count Re_announced (fst (emit_announce P tid now s)))"
    if "task_of s tid = Some r" "ow_auction r = Some a" for r a
    using evolves_emit_announce [OF assms(1) that] by (simp add: evolves_def coord_inv_count)
  have "snd ?x = None \<and> task_frame tid s (fst ?x) \<and> \<not> overdue now tid (fst ?x)"
  proof (cases "\<exists>r a. task_of s tid = Some r \<and> ow_auction r = Some a \<and> ow_state r = ANNOUNCED")
    case False
    then show ?thesis
      by (auto simp: run_auction_def frame_refl overdue_def due_def split: option.splits)
  next
    case True
    then obtain r a where ra: "task_of s tid = Some r" "ow_auction r = Some a" "ow_state r = ANNOUNCED" by blast
    obtain s1 where s1: "emit_announce P tid now s = (s1, None)"
      using emit_announce_succeeds [OF assms(3), of tid now s] by (cases "emit_announce P tid now s") auto
    have "task_frame tid s (count Re_announced s1)"
      using frame_count [OF frame_emit_announce [OF frame_refl, of tid s P now], of Re_announced] s1 by simp
    then show ?thesis
      using close [OF assms(1) frame_refl] close [OF re [OF ra(1,2)]] ra s1 by (simp add: run_auction_def)
  qed
  then show "snd ?x = None" "task_frame tid s (fst ?x)" "\<not> overdue now tid (fst ?x)" by blast+
qed

lemma overdue_frame: "task_frame tid s s' \<Longrightarrow> j \<noteq> tid \<Longrightarrow> overdue now j s' = overdue now j s"
  by (simp add: overdue_def task_frame_def)

lemma each_auction_closes:
  "coord_inv P s \<Longrightarrow> windows_open s \<Longrightarrow> broadcasts_succeed P \<Longrightarrow>
    (\<And>j. overdue now j s \<Longrightarrow> j \<in> set tids) \<Longrightarrow>
    snd (each (run_auction P now) tids s) = None \<and> (\<forall>j. \<not> overdue now j (fst (each (run_auction P now) tids s)))"
proof (induction tids arbitrary: s)
  case (Cons tid tids)
  note step = run_auction_closes [OF Cons.prems(1-3), where tid = tid and now = now]
  obtain s1 where s1: "run_auction P now tid s = (s1, None)"
    using step(1) by (cases "run_auction P now tid s") auto
  have inv: "coord_inv P s1" using run_auction_evolves [OF Cons.prems(1), of now tid] s1 by (simp add: evolves_def)
  have fr: "task_frame tid s s1" "\<not> overdue now tid s1" using step(2,3) s1 by simp_all
  have "j \<in> set tids" if "overdue now j s1" for j
    using that fr overdue_frame [OF fr(1), of j now] Cons.prems(4) [of j] by auto
  from Cons.IH [OF inv _ Cons.prems(3) this] show ?case
    using s1 windows_frame [OF fr(1)] Cons.prems(2) by simp
qed auto

lemma age_peers_params: "co_params (age_peers now s) = co_params s"
proof -
  have "co_params (foldl (\<lambda>s p. forget_bidder (pr_robot_id p) s) s gone) = co_params s"
    for gone :: "peer_record list" and s
    by (induction gone arbitrary: s) (simp_all add: forget_bidder_def)
  then show ?thesis by (simp add: age_peers_def split_beta)
qed

lemma send_due_bids_tasks: "co_tasks (fst (send_due_bids P now s)) = co_tasks s"
proof -
  have "co_tasks (fst (each (send_due_bid P now) ps s)) = co_tasks s" for ps s
    by (induction ps arbitrary: s)
      (auto simp: send_due_bid_def transmit_bid_def send_broadcast_port_def put_bid_def Let_def split_beta
        split: option.splits)
  then show ?thesis by (simp add: send_due_bids_def)
qed

lemma heartbeat_tasks: "co_tasks (fst (maybe_heartbeat P now s)) = co_tasks s"
proof -
  define s4 where "s4 = called (called (called (s\<lparr>co_next_heartbeat_at := now + cp_heartbeat_period_sec (co_params s)\<rparr>)))"
  have "co_tasks s4 = co_tasks s" by (simp add: s4_def)
  moreover have "co_tasks (fst (send_broadcast_port P m s')) = co_tasks s'" for m s'
    by (simp add: send_broadcast_port_def Let_def)
  ultimately show ?thesis
    by (simp add: maybe_heartbeat_def Let_def split_beta s4_def [symmetric] split: option.splits)
qed

lemma task_of_prune: "od_ok (co_tasks s) \<Longrightarrow> task_of (prune now s) j = Some r \<Longrightarrow> task_of s j = Some r"
  using od_get_filter_snd [of "co_tasks s" "\<lambda>r. \<not> settled_long_ago s now r" j]
  by (auto simp: task_of_def prune_def split: option.splits if_splits)

lemma overdue_keyed: "overdue now j s \<Longrightarrow> j \<in> set (map fst (co_tasks s))"
  using od_get_None [of "co_tasks s" j] by (auto simp: overdue_def task_of_def od_mem_def split: option.splits)



section \<open>Absorbing work ends\<close>

text \<open>
  \<open>names P T\<close>: every task the interpreter ever asks us to add has its id in \<open>T\<close>. \<open>unheld\<close> counts
  the ids of \<open>T\<close> that are not ours: each nested absorption takes one of them on.
\<close>

definition names :: "ports \<Rightarrow> int set \<Rightarrow> bool" where
  "names P T \<longleftrightarrow> (\<forall>n asked t reason.
     pt_interpret_anomaly P n asked = Answer (AddTask t reason) \<longrightarrow> tk_id t \<in> T)"

definition holds :: "coord \<Rightarrow> int \<Rightarrow> bool" where
  "holds s tid \<longleftrightarrow> (case task_of s tid of None \<Rightarrow> False | Some r \<Rightarrow> ours r)"

definition unheld :: "int set \<Rightarrow> coord \<Rightarrow> nat" where
  "unheld T s = card {tid \<in> T. \<not> holds s tid}"

definition enough :: "int set \<Rightarrow> nat \<Rightarrow> task \<Rightarrow> coord \<Rightarrow> bool" where
  "enough T depth t s \<longleftrightarrow> unheld T s + (if tk_id t \<in> T then 0 else 1) < depth"

lemma unheld_le: "finite T \<Longrightarrow> unheld T s \<le> card T"
  by (simp add: unheld_def card_mono)

lemma enough_next:
  assumes "finite T" and "enough T (Suc depth) t s" and "\<not> holds s (tk_id t)"
    and "\<And>j. holds s' j \<longleftrightarrow> j = tk_id t \<or> holds s j" and "tk_id t' \<in> T"
  shows "enough T depth t' s'"
proof (cases "tk_id t \<in> T")
  case True
  have "{tid \<in> T. \<not> holds s' tid} \<subset> {tid \<in> T. \<not> holds s tid}" using True assms(3,4) by auto
  then have "unheld T s' < unheld T s" unfolding unheld_def using assms(1) by (intro psubset_card_mono) auto
  then show ?thesis using assms(2,5) True by (simp add: enough_def)
next
  case False
  then have "{tid \<in> T. \<not> holds s' tid} = {tid \<in> T. \<not> holds s tid}" using assms(4) by auto
  then show ?thesis using assms(2,5) False by (simp add: enough_def unheld_def)
qed

lemma no_recursion_delegation: "no_recursion_error (begin_delegation P t reason fb words now s)"
  using no_recursion_announce by (auto simp: begin_delegation_def Let_def no_recursion_error_def split: option.splits)

lemma report_cong:
  assumes "names P T"
    and "\<And>t' s'. tk_id t' \<in> T \<Longrightarrow>
      co_tasks s' = co_tasks (if task_of s (tk_id t) = None then put_task t s else s) \<Longrightarrow>
      f t' Add_task [] now s' = g t' Add_task [] now s' \<and> no_recursion_error (f t' Add_task [] now s')"
  shows "report_infeasible_with f P (Some t) code None now s = report_infeasible_with g P (Some t) code None now s"
    and "fst (snd (report_infeasible_with f P (Some t) code None now s)) \<noteq> Some RecursionError"
proof -
  define s2 where "s2 = (let s1 = count Anomalies s in if task_of s1 (tk_id t) = None then put_task t s1 else s1)"
  obtain s3 asked where ctx: "anomaly_context_of P (Some t) code now s2 = (s3, asked)" by fastforce
  have tasks: "co_tasks (called s3) = co_tasks (if task_of s (tk_id t) = None then put_task t s else s)"
    using ctx by (auto simp: anomaly_context_of_def Let_def s2_def put_task_def)
  define answer where "answer = pt_interpret_anomaly P (co_calls s3) asked"
  have named: "tk_id t' \<in> T" if "answer = Answer (AddTask t' reason)" for t' reason
    using assms(1) that unfolding names_def answer_def by blast
  have step: "apply_action f P a now (called s3) = apply_action g P a now (called s3) \<and>
      no_recursion_error (apply_action f P a now (called s3))" if "answer = Answer a" for a
  proof (cases a)
    case (AddTask t' reason)
    with that named have "tk_id t' \<in> T" by blast
    from assms(2) [OF this tasks] show ?thesis by (auto simp: AddTask apply_action_def)
  qed (use no_recursion_delegation in \<open>auto simp: apply_action_def no_recursion_error_def\<close>)
  have unfold: "report_infeasible_with h P (Some t) code None now s =
      (case validate_action answer of
           Inl _ \<Rightarrow> (count Interpret_failed (called s3), None, None)
         | Inr a \<Rightarrow>
             (case apply_action h P a now (called s3) of
                (s4, Some e) \<Rightarrow> (s4, Some e, None)
              | (s4, None) \<Rightarrow> (s4, None, Some a)))" for h
    using ctx by (simp add: report_infeasible_with_def Let_def s2_def answer_def split: if_splits)
  show "report_infeasible_with f P (Some t) code None now s = report_infeasible_with g P (Some t) code None now s"
    "fst (snd (report_infeasible_with f P (Some t) code None now s)) \<noteq> Some RecursionError"
    unfolding unfold using step
    by (auto simp: validate_action_def no_recursion_error_def split: answer.splits option.splits prod.splits)
qed

lemma take_on_enough:
  assumes "finite T" and "names P T"
  shows "enough T n t s \<Longrightarrow> enough T m t s \<Longrightarrow>
    take_on n P t cause words now s = take_on m P t cause words now s \<and>
    no_recursion_error (take_on n P t cause words now s)"
proof (induction n arbitrary: m t s cause words)
  case 0
  then show ?case by (simp add: enough_def)
next
  case (Suc n)
  then obtain k where m: "m = Suc k" by (cases m) (auto simp: enough_def)
  show ?case
  proof (cases "holds s (tk_id t)")
    case True
    then show ?thesis by (simp add: m holds_def no_recursion_error_def split: option.splits)
  next
    case False
    define s1 where "s1 = request_yield (tk_id t) (count Tasks_absorbed (note_call (Absorb t) (put_task t s)))"
    obtain s2 result where r: "replan P \<lparr>md_removed = [], md_added = [t], md_cause = cause, md_note = words\<rparr> s1 = (s2, result)"
      by fastforce
    define s3 where "s3 = note_call (Release t) s2"
    define s4 where "s4 = s3\<lparr>co_tasks := od_del (tk_id t) (co_tasks s3)\<rparr>"
    have "co_tasks s2 = co_tasks (put_task t s)"
      using r by (auto simp: replan_def Let_def s1_def request_yield_def split: answer.splits)
    then have t4: "task_of s4 j = (if j = tk_id t then None else task_of s j)" for j
      by (simp add: s4_def s3_def task_of_def od_get_del put_task_def od_get_set)
    have holds: "holds s' j \<longleftrightarrow> j = tk_id t \<or> holds s j"
      if "co_tasks s' = co_tasks (if task_of s4 (tk_id t) = None then put_task t s4 else s4)" for s' j
    proof -
      have "task_of s' j = (if j = tk_id t then Some (OwnedTask t) else task_of s j)"
        using that t4 [of "tk_id t"] t4 [of j] by (simp add: task_of_def put_task_def od_get_set)
      then show ?thesis by (simp add: holds_def OwnedTask_def ours_def)
    qed
    have step: "take_on n P t' Add_task [] now s' = take_on k P t' Add_task [] now s' \<and>
        no_recursion_error (take_on n P t' Add_task [] now s')"
      if "tk_id t' \<in> T" "co_tasks s' = co_tasks (if task_of s4 (tk_id t) = None then put_task t s4 else s4)" for t' s'
      using enough_next [OF assms(1) Suc.prems(1) False holds [OF that(2)] that(1)]
        enough_next [OF assms(1) Suc.prems(2) [unfolded m] False holds [OF that(2)] that(1)]
      by (rule Suc.IH)
    note cong = report_cong [OF assms(2), of s4 t "take_on n P" now "take_on k P", OF step]
    have unfold: "take_on (Suc d) P t cause words now s = (if result = Some False then
        (fst (report_infeasible_with (take_on d P) P (Some t) (reason_int TASK_FAILED) None now s4),
         fst (snd (report_infeasible_with (take_on d P) P (Some t) (reason_int TASK_FAILED) None now s4)))
        else (s2, None))" for d
      using False by (simp add: holds_def Let_def split_beta s1_def [symmetric] r s3_def [symmetric]
          s4_def [symmetric] split: option.splits)
    show ?thesis
      unfolding m unfold using cong by (simp add: no_recursion_error_def)
  qed
qed

text \<open>
  C31: Absorbing work ends. A rejected replan hands the task to the interpreter, which may answer
  by adding another, and so on. If the tasks it can name have their ids in a finite set, the
  nesting is at most two deeper than that set is large, whatever the replanner answers: no
  deeper stack is ever used, and the recursion limit is not what ends it.
\<close>

theorem absorption_ends:
  assumes "finite T" and "names P T" and "card T + 2 \<le> depth"
  shows "take_on depth P t cause words now s = take_on (card T + 2) P t cause words now s \<and>
    snd (take_on depth P t cause words now s) \<noteq> Some RecursionError"
proof -
  have "enough T d t s" if "card T + 2 \<le> d" for d
    using that unheld_le [OF assms(1), of s] by (simp add: enough_def)
  then show ?thesis
    using take_on_enough [OF assms(1,2), of depth t s "card T + 2" cause words now] assms(3)
    unfolding no_recursion_error_def by blast
qed

definition stubborn_ports :: ports where
  "stubborn_ports = calm_ports\<lparr>pt_replan_and_verify := (\<lambda>_ _. Answer False),
     pt_interpret_anomaly := (\<lambda>n _. Answer (AddTask (tree_task\<lparr>tk_id := (if n < 8 then 8 else 9)\<rparr>) 1))\<rparr>"

theorem absorption_ends_witness:
  "take_on 9 stubborn_ports tree_task Add_task [] 1 fresh_robot =
   take_on 4 stubborn_ports tree_task Add_task [] 1 fresh_robot \<and>
   co_counters (fst (take_on 4 stubborn_ports tree_task Add_task [] 1 fresh_robot)) Tasks_absorbed = 3"
proof -
  have "names stubborn_ports {8, 9}" by (simp add: names_def stubborn_ports_def)
  moreover have "co_counters (fst (take_on 4 stubborn_ports tree_task Add_task [] 1 fresh_robot)) Tasks_absorbed = 3"
    by code_simp
  moreover have four: "card {8, 9 :: int} + 2 = 4" by simp
  ultimately show ?thesis
    using absorption_ends [of "{8, 9}" stubborn_ports 9 tree_task Add_task "[]" 1 fresh_robot, unfolded four]
    by auto
qed

section \<open>Notes\<close>

definition same_but_bids :: "coord \<Rightarrow> coord \<Rightarrow> bool" where
  "same_but_bids s s' \<longleftrightarrow> co_tasks s' = co_tasks s \<and> co_registry s' = co_registry s \<and> co_log s' = co_log s \<and>
     co_grants s' = co_grants s \<and> co_futures s' = co_futures s \<and> co_params s' = co_params s \<and>
     co_next_heartbeat_at s' = co_next_heartbeat_at s"

text \<open>
  Free text has no way past the bid. A note heard, and whatever a model makes of it, leaves
  tasks, auctions, grants, peers and everything said to the ports as they were. A note changes
  no bid by itself; a model's answer changes at most the one bid it was asked about, and only
  while that is unsent: it is kept, withdrawn, or rebid at a cost still in 0..255 with the same feasibility
  and ETA, going out no earlier than now.
\<close>

lemma notes_only_reach_an_unsent_bid:
  assumes "coord_reachable depth P s"
  shows "same_but_bids s (on_note n now s) \<and> co_bids (on_note n now s) = co_bids s \<and>
    same_but_bids s (fst (revise_bid P tid answer now s)) \<and>
    (\<forall>j. od_get (co_bids (fst (revise_bid P tid answer now s))) j = od_get (co_bids s) j \<or>
       (j = tid \<and> (\<exists>p. od_get (co_bids s) tid = Some p \<and> pb_sent_at p = None \<and>
          (case od_get (co_bids (fst (revise_bid P tid answer now s))) tid of
             None \<Rightarrow> answer = Answer WithdrawBid
           | Some q \<Rightarrow> (\<exists>delta. answer = Answer (ReviseBid delta)) \<and> pb_sent_at q = None \<and> now \<le> pb_send_at q \<and>
               0 \<le> ft_cost (pb_fitness q) \<and> ft_cost (pb_fitness q) \<le> COST_MAX \<and>
               ft_feasible (pb_fitness q) = ft_feasible (pb_fitness p) \<and>
               ft_eta_s (pb_fitness q) = ft_eta_s (pb_fitness p) \<and> pb_task q = pb_task p))))"
proof -
  have keyed: "pb_task_id p = tid" if "od_get (co_bids s) tid = Some p" for p
    using coord_reachable_inv [OF assms] that by (simp add: coord_inv_def tables_ok_def)
  have note_same: "same_but_bids s (on_note n now s)" "co_bids (on_note n now s) = co_bids s"
    by (auto simp: on_note_def same_but_bids_def request_interpretation_def Let_def split: option.splits)
  have cost: "0 \<le> max 0 (min c COST_MAX) \<and> max 0 (min c COST_MAX) \<le> COST_MAX" for c
    by (simp add: COST_MAX_def)
  have same: "same_but_bids s (fst (revise_bid P tid answer now s))"
    by (auto simp: revise_bid_def validate_revision_def same_but_bids_def put_bid_def del_bid_def Let_def
        split: option.splits answer.splits bid_revision.splits)
  show ?thesis
  proof (cases "od_get (co_bids s) tid")
    case None
    then show ?thesis
      using note_same same by (auto simp: revise_bid_def validate_revision_def split: answer.splits)
  next
    case (Some p)
    then show ?thesis
      using note_same same keyed [OF Some] cost
      by (auto simp: revise_bid_def validate_revision_def put_bid_def del_bid_def Let_def od_get_set od_get_del
          split: answer.splits bid_revision.splits)
  qed
qed

lemma notes_only_reach_an_unsent_bid_witness:
  "same_but_bids (go [OnMessage (TaskAnnounce 2 1 7 1 1 60 0 3 1) 1])
     (fst (revise_bid calm_ports 7 (Answer (ReviseBid 500)) 2 (go [OnMessage (TaskAnnounce 2 1 7 1 1 60 0 3 1) 1]))) \<and>
   map_option (\<lambda>p. ft_cost (pb_fitness p)) (od_get (co_bids (fst (revise_bid calm_ports 7 (Answer (ReviseBid 500)) 2
     (go [OnMessage (TaskAnnounce 2 1 7 1 1 60 0 3 1) 1])))) 7) = Some 255"
proof -
  have "map_option (\<lambda>p. ft_cost (pb_fitness p)) (od_get (co_bids (fst (revise_bid calm_ports 7 (Answer (ReviseBid 500)) 2
     (go [OnMessage (TaskAnnounce 2 1 7 1 1 60 0 3 1) 1])))) 7) = Some 255" by code_simp
  then show ?thesis using notes_only_reach_an_unsent_bid [OF go_reachable] by blast
qed


end
