(* ===== verification/Mission_Xml.thy ===== *)
theory Mission_Xml
  imports Prelude
begin

text \<open>
  A mission document as the agents see it: the element tree lxml parsed. Elements have
  identity (a node is removed from its parent, not an equal node), so every node carries a
  number; a document is well labelled when the numbers are distinct. A comment or processing
  instruction is a node without a tag (in lxml its tag is not a string). Of text content only
  what an element starts with is kept, for \<^verbatim>\<open><Mission>\<close>; parsing and printing are lxml's.

  Strings are sequences of Latin-1 characters. Also here: the Python string operations the
  mission code uses (\<^verbatim>\<open>strip\<close>, \<^verbatim>\<open>lower\<close>, \<^verbatim>\<open>int\<close>, \<^verbatim>\<open>float\<close>, \<^verbatim>\<open>str\<close> of a number).
\<close>

section \<open>Element trees\<close>

datatype xml =
  Node (xid: nat) (xtag: "string option") (xattrs: "(string \<times> string) list") (xtext: string) (xkids: "xml list")

text \<open>\<^verbatim>\<open>root.iter()\<close>: the node and everything below it, in document order.\<close>

fun iter :: "xml \<Rightarrow> xml list" where
  "iter (Node i t a x ks) = Node i t a x ks # concat (map iter ks)"

definition iter_tag :: "string \<Rightarrow> xml \<Rightarrow> xml list" where
  "iter_tag t e = filter (\<lambda>n. xtag n = Some t) (iter e)"

definition attr :: "string \<Rightarrow> xml \<Rightarrow> string option" where
  "attr k e = map_of (xattrs e) k"

text \<open>\<^verbatim>\<open>e.get(k) or ""\<close>\<close>

definition attr_or_empty :: "string \<Rightarrow> xml \<Rightarrow> string" where
  "attr_or_empty k e = (case attr k e of None \<Rightarrow> [] | Some v \<Rightarrow> v)"

text \<open>Children that are elements: \<^verbatim>\<open>isinstance(child.tag, str)\<close>.\<close>

definition is_element :: "xml \<Rightarrow> bool" where
  "is_element e \<longleftrightarrow> xtag e \<noteq> None"

definition has_tag :: "string set \<Rightarrow> xml \<Rightarrow> bool" where
  "has_tag T e \<longleftrightarrow> (case xtag e of None \<Rightarrow> False | Some t \<Rightarrow> t \<in> T)"

definition ids :: "xml \<Rightarrow> nat list" where
  "ids e = map xid (iter e)"

definition well_labelled :: "xml \<Rightarrow> bool" where
  "well_labelled e \<longleftrightarrow> distinct (ids e)"

text \<open>The parent of the node numbered \<open>i\<close>, if it is below \<open>e\<close>.\<close>

definition parent_of :: "nat \<Rightarrow> xml \<Rightarrow> xml option" where
  "parent_of i e = find (\<lambda>p. i \<in> set (map xid (xkids p))) (iter e)"

text \<open>\<^verbatim>\<open>parent.remove(node)\<close>, wherever the node is below \<open>e\<close>.\<close>

fun delete_node :: "nat \<Rightarrow> xml \<Rightarrow> xml" where
  "delete_node i (Node j t a x ks) = Node j t a x (map (delete_node i) (filter (\<lambda>k. xid k \<noteq> i) ks))"

section \<open>Python strings\<close>

definition py_space :: "char \<Rightarrow> bool" where
  "py_space c \<longleftrightarrow> (let n = of_char c :: nat in 9 \<le> n \<and> n \<le> 13 \<or> 28 \<le> n \<and> n \<le> 32 \<or> n = 133 \<or> n = 160)"

definition strip :: "string \<Rightarrow> string" where
  "strip s = rev (dropWhile py_space (rev (dropWhile py_space s)))"

definition lower_char :: "char \<Rightarrow> char" where
  "lower_char c = (let n = of_char c :: nat in
     if 65 \<le> n \<and> n \<le> 90 \<or> 192 \<le> n \<and> n \<le> 222 \<and> n \<noteq> 215 then char_of (n + 32) else c)"

definition lower :: "string \<Rightarrow> string" where
  "lower s = map lower_char s"

definition digit :: "char \<Rightarrow> int option" where
  "digit c = (let n = of_char c :: nat in if 48 \<le> n \<and> n \<le> 57 then Some (int n - 48) else None)"

text \<open>Digits, with single underscores between them, as \<^verbatim>\<open>int\<close> and \<^verbatim>\<open>float\<close> accept.\<close>

fun digits_from :: "int \<Rightarrow> string \<Rightarrow> int option" where
  "digits_from acc [] = Some acc"
| "digits_from acc (c # cs) =
     (case digit c of
        Some d \<Rightarrow> digits_from (acc * 10 + d) cs
      | None \<Rightarrow>
          if c = CHR ''_'' \<and> cs \<noteq> [] \<and> digit (hd cs) \<noteq> None then digits_from acc cs else None)"

definition py_digits :: "string \<Rightarrow> int option" where
  "py_digits s = (if s \<noteq> [] \<and> digit (hd s) \<noteq> None then digits_from 0 s else None)"

definition signed :: "(string \<Rightarrow> 'a::uminus option) \<Rightarrow> string \<Rightarrow> 'a option" where
  "signed parse s =
     (case s of
        c # cs \<Rightarrow> if c = CHR ''-'' then map_option uminus (parse cs)
                  else if c = CHR ''+'' then parse cs else parse s
      | [] \<Rightarrow> parse s)"

definition py_int :: "string \<Rightarrow> int option" where
  "py_int s = signed py_digits (strip s)"

text \<open>
  \<^verbatim>\<open>float\<close> on decimal literals. The infinities and NaNs it also accepts are \<open>None\<close> here: the
  only caller checks the range and treats both like a literal that does not parse.
\<close>

definition py_fraction :: "string \<Rightarrow> rat option" where
  "py_fraction s =
     (let whole = takeWhile (\<lambda>c. c \<noteq> CHR ''.'') s;
          rest = drop (length whole) s
      in case rest of
           [] \<Rightarrow> map_option of_int (py_digits whole)
         | _ # dec \<Rightarrow>
             if whole = [] \<and> dec = [] then None
             else (case (if whole = [] then Some 0 else py_digits whole,
                         if dec = [] then Some 0 else py_digits dec) of
                     (Some w, Some f) \<Rightarrow>
                       Some (of_int w + of_int f / 10 ^ length (filter (\<lambda>c. c \<noteq> CHR ''_'') dec))
                   | _ \<Rightarrow> None))"

definition py_unsigned_float :: "string \<Rightarrow> rat option" where
  "py_unsigned_float s =
     (let mant = takeWhile (\<lambda>c. lower_char c \<noteq> CHR ''e'') s;
          rest = drop (length mant) s
      in case rest of
           [] \<Rightarrow> py_fraction mant
         | _ # e \<Rightarrow>
             (case (py_fraction mant, signed py_digits e) of
                (Some m, Some k) \<Rightarrow> Some (if 0 \<le> k then m * 10 ^ nat k else m / 10 ^ nat (- k))
              | _ \<Rightarrow> None))"

definition py_float :: "string \<Rightarrow> rat option" where
  "py_float s = signed py_unsigned_float (strip s)"

fun nat_digits :: "nat \<Rightarrow> nat \<Rightarrow> string" where
  "nat_digits 0 n = []"
| "nat_digits (Suc k) n = (if n < 10 then [char_of (48 + n)] else nat_digits k (n div 10) @ [char_of (48 + n mod 10)])"

text \<open>\<^verbatim>\<open>str\<close> of an integer; a number below ten to the \<open>k\<close> has at most \<open>k\<close> digits, so \<open>Suc n\<close> is enough.\<close>

definition str_nat :: "nat \<Rightarrow> string" where
  "str_nat n = nat_digits (Suc n) n"

definition str_int :: "int \<Rightarrow> string" where
  "str_int i = (if i < 0 then CHR ''-'' # str_nat (nat (- i)) else str_nat (nat i))"

section \<open>Facts about trees\<close>

lemma self_in_iter [simp]: "e \<in> set (iter e)"
  by (cases e) simp

lemma iter_kids: "iter e = e # concat (map iter (xkids e))"
  by (cases e) simp

lemma kid_in_iter: "k \<in> set (xkids e) \<Longrightarrow> set (iter k) \<subseteq> set (iter e)"
  using iter_kids [of e] by auto

lemma iter_trans: "k \<in> set (iter e) \<Longrightarrow> set (iter k) \<subseteq> set (iter e)"
proof (induction e rule: iter.induct)
  case (1 i t a x ks)
  then show ?case by fastforce
qed

lemma ids_kid: "k \<in> set (xkids e) \<Longrightarrow> set (ids k) \<subseteq> set (ids e)"
  using kid_in_iter by (auto simp: ids_def)

lemma well_labelled_kid: "well_labelled e \<Longrightarrow> k \<in> set (xkids e) \<Longrightarrow> well_labelled k"
proof -
  assume "well_labelled e" "k \<in> set (xkids e)"
  then have "distinct (concat (map (\<lambda>k. map xid (iter k)) (xkids e)))"
    using iter_kids [of e] by (simp add: well_labelled_def ids_def map_concat comp_def)
  then show "well_labelled k"
    using \<open>k \<in> set (xkids e)\<close> by (auto simp: well_labelled_def ids_def distinct_concat_iff dest: in_set_conv_nth [THEN iffD1])
qed

section \<open>Facts about numbers\<close>

lemma digit_digit [simp]: "n < 10 \<Longrightarrow> digit (char_of (48 + n)) = Some (int n)"
  by (simp add: digit_def Let_def)

lemma digits_from_append:
  "(\<forall>c \<in> set cs. digit c \<noteq> None) \<Longrightarrow>
    digits_from acc (cs @ ds) = (case digits_from acc cs of None \<Rightarrow> None | Some a \<Rightarrow> digits_from a ds)"
  by (induction cs arbitrary: acc) auto

lemma nat_digits_digits: "c \<in> set (nat_digits k n) \<Longrightarrow> digit c \<noteq> None"
  by (induction k n rule: nat_digits.induct) (auto split: if_splits)

lemma digits_from_nat_digits: "n < k \<Longrightarrow> digits_from 0 (nat_digits k n) = Some (int n)"
proof (induction k n rule: nat_digits.induct)
  case (2 k n)
  have all: "\<forall>c \<in> set (nat_digits k (n div 10)). digit c \<noteq> None" using nat_digits_digits by blast
  show ?case
  proof (cases "n < 10")
    case False
    then have "digits_from 0 (nat_digits k (n div 10)) = Some (int (n div 10))" using 2 by simp
    moreover have "int (n div 10) * 10 + int (n mod 10) = int n" by presburger
    ultimately show ?thesis using False by (simp add: digits_from_append [OF all])
  qed simp
qed simp

lemma str_nat_digits: "c \<in> set (str_nat n) \<Longrightarrow> digit c \<noteq> None"
  unfolding str_nat_def by (rule nat_digits_digits)

lemma str_nat_not_Nil: "str_nat n \<noteq> []"
  by (simp add: str_nat_def)

lemma py_digits_str_nat [simp]: "py_digits (str_nat n) = Some (int n)"
  using str_nat_digits [of "hd (str_nat n)" n] str_nat_not_Nil [of n] digits_from_nat_digits [of n "Suc n"]
  by (simp add: py_digits_def str_nat_def)

lemma digit_not_space: "digit c \<noteq> None \<Longrightarrow> \<not> py_space c"
  by (auto simp: digit_def py_space_def Let_def split: if_splits)

lemma strip_plain: "(\<forall>c \<in> set s. \<not> py_space c) \<Longrightarrow> strip s = s"
proof -
  assume *: "\<forall>c \<in> set s. \<not> py_space c"
  then have "dropWhile py_space s = s" "dropWhile py_space (rev s) = rev s"
    using dropWhile_eq_self_iff hd_in_set set_rev by metis+
  then show ?thesis by (simp add: strip_def)
qed

lemma py_int_str_nat [simp]: "py_int (str_nat n) = Some (int n)"
proof -
  have "strip (str_nat n) = str_nat n" using str_nat_digits digit_not_space by (intro strip_plain) blast
  moreover obtain c cs where c: "str_nat n = c # cs" using str_nat_not_Nil [of n] by (cases "str_nat n") auto
  moreover have "digit c \<noteq> None" using str_nat_digits [of c n] c by simp
  then have "c \<noteq> CHR ''-''" "c \<noteq> CHR ''+''" by (auto simp: digit_def)
  ultimately show ?thesis using py_digits_str_nat [of n] by (simp add: py_int_def signed_def)
qed

section \<open>Removing a subtree\<close>

text \<open>
  What a document says, in document order, whatever its nesting: the number, tag and attributes
  of each node. \<open>below i e\<close> numbers the nodes of the subtree at \<open>i\<close>.
\<close>

definition labels :: "xml \<Rightarrow> (nat \<times> string option \<times> (string \<times> string) list) list" where
  "labels e = map (\<lambda>n. (xid n, xtag n, xattrs n)) (iter e)"

definition below :: "nat \<Rightarrow> xml \<Rightarrow> nat set" where
  "below i e = (\<Union>n \<in> {n \<in> set (iter e). xid n = i}. set (ids n))"

lemma ids_labels: "ids e = map fst (labels e)"
  by (simp add: ids_def labels_def)

lemma labels_Node: "labels (Node i t a x ks) = (i, t, a) # concat (map labels ks)"
  by (simp add: labels_def [abs_def] map_concat comp_def)

lemma ids_Node: "ids (Node i t a x ks) = i # concat (map ids ks)"
  by (simp add: ids_def [abs_def] map_concat comp_def)

lemma below_Node:
  "below i (Node j t a x ks) = (if i = j then set (ids (Node j t a x ks)) else {}) \<union> (\<Union>k \<in> set ks. below i k)"
proof -
  have "{n \<in> set (iter (Node j t a x ks)). xid n = i} =
      (if i = j then {Node j t a x ks} else {}) \<union> (\<Union>k \<in> set ks. {n \<in> set (iter k). xid n = i})"
    by auto
  then show ?thesis unfolding below_def by (simp only:) auto
qed

lemma below_ids: "below i e \<subseteq> set (ids e)"
  using iter_trans by (auto simp: below_def ids_def)

lemma below_absent: "i \<notin> set (ids e) \<Longrightarrow> below i e = {}"
  by (auto simp: below_def ids_def)

lemma below_root: "well_labelled e \<Longrightarrow> below (xid e) e = set (ids e)"
  using below_ids [of "xid e" e] by (auto simp: below_def intro!: exI [of _ e])

lemma delete_absent: "i \<notin> set (ids e) \<Longrightarrow> delete_node i e = e"
proof (induction i e rule: delete_node.induct)
  case (1 i j t a x ks)
  have in_ids: "xid k \<in> set (ids k)" for k by (auto simp: ids_def)
  have "xid k \<noteq> i" if "k \<in> set ks" for k using 1(2) that in_ids [of k] by (auto simp: ids_Node)
  then have keep: "filter (\<lambda>k. xid k \<noteq> i) ks = ks" by (simp add: filter_id_conv)
  have "delete_node i k = k" if "k \<in> set ks" for k
    using 1(1) [of k] 1(2) that keep by (auto simp: ids_Node)
  with keep show ?case by (simp add: map_idI)
qed

lemma disjoint_kids:
  assumes "distinct (concat (map ids ks))" and "k \<in> set ks" and "k' \<in> set ks" and "n \<in> set (ids k)" and "n \<in> set (ids k')"
  shows "k = k'"
  using assms by (induction ks) auto

lemma labels_delete:
  "well_labelled e \<Longrightarrow> xid e \<noteq> i \<Longrightarrow> labels (delete_node i e) = filter (\<lambda>l. fst l \<notin> below i e) (labels e)"
proof (induction i e rule: delete_node.induct)
  case (1 i j t a x ks)
  have dist: "distinct (concat (map ids ks))" "j \<notin> set (concat (map ids ks))"
    using 1(2) by (simp_all add: well_labelled_def ids_Node)
  have wl: "well_labelled k" if "k \<in> set ks" for k
    using dist(1) that by (auto simp: well_labelled_def distinct_concat_iff)
  have ji: "j \<noteq> i" using 1(3) by simp
  have sub: "below i (Node j t a x ks) \<inter> set (ids k) = below i k" if k: "k \<in> set ks" for k
  proof -
    have "n \<in> below i k" if "n \<in> below i k'" "k' \<in> set ks" "n \<in> set (ids k)" for n k'
      using disjoint_kids [OF dist(1) that(2) k, of n] that below_ids [of i k'] by blast
    then show ?thesis using k ji below_ids [of i k] by (auto simp: below_Node)
  qed
  have kid: "(if xid k \<noteq> i then labels (delete_node i k) else []) =
      filter (\<lambda>l. fst l \<notin> below i (Node j t a x ks)) (labels k)" if k: "k \<in> set ks" for k
  proof (cases "xid k = i")
    case True
    have "fst l \<in> below i (Node j t a x ks)" if "l \<in> set (labels k)" for l
      using below_root [OF wl [OF k]] sub [OF k] True that by (auto simp: ids_labels)
    with True show ?thesis by (auto simp: filter_empty_conv)
  next
    case False
    have "labels (delete_node i k) = filter (\<lambda>l. fst l \<notin> below i k) (labels k)"
      using 1(1) [of k] k False wl by simp
    also have "\<dots> = filter (\<lambda>l. fst l \<notin> below i (Node j t a x ks)) (labels k)"
      using sub [OF k] by (intro filter_cong) (auto simp: ids_labels)
    finally show ?thesis using False by simp
  qed
  have "concat (map labels (map (delete_node i) (filter (\<lambda>k. xid k \<noteq> i) ks))) =
      concat (map (\<lambda>k. if xid k \<noteq> i then labels (delete_node i k) else []) ks)"
    by (induction ks) auto
  also have "\<dots> = filter (\<lambda>l. fst l \<notin> below i (Node j t a x ks)) (concat (map labels ks))"
    using kid by (simp add: filter_concat comp_def cong: map_cong)
  finally show ?case
    using ji dist(2) below_ids [of i] by (auto simp: labels_Node below_Node)
qed

lemma delete_xid [simp]: "xid (delete_node i e) = xid e"
  by (cases e) simp

lemma well_labelled_delete: "well_labelled e \<Longrightarrow> xid e \<noteq> i \<Longrightarrow> well_labelled (delete_node i e)"
  by (simp add: well_labelled_def ids_labels labels_delete distinct_map_filter)


end
