(* ===== verification/Orchard.thy ===== *)
theory Orchard
  imports Mission_Xml "HOL-Library.AList"
begin

text \<open>
  Which aisle a tree is reached from (\<^verbatim>\<open>mission/orchard.py\<close>). The orchard document is JSON; a
  decoded value is a \<open>json\<close>, with an object as its list of entries. In Python a JSON \<^verbatim>\<open>true\<close> is
  an integer too, and is counted as one here.
\<close>

datatype json = JNull | JBool bool | JInt int | JFloat rat | JStr string | JList "json list" | JObject "(string \<times> json) list"

type_synonym orchard = "(int \<times> int) list"

definition jget :: "string \<Rightarrow> json \<Rightarrow> json" where
  "jget k j = (case j of JObject kvs \<Rightarrow> (case map_of kvs k of None \<Rightarrow> JNull | Some v \<Rightarrow> v) | _ \<Rightarrow> JNull)"

definition as_int :: "json \<Rightarrow> int option" where
  "as_int j = (case j of JInt i \<Rightarrow> Some i | JBool b \<Rightarrow> Some (if b then 1 else 0) | _ \<Rightarrow> None)"

text \<open>\<^verbatim>\<open>str(value or "")\<close>, for the values that can name an axis.\<close>

definition axis_text :: "json \<Rightarrow> string" where
  "axis_text j = (case j of JStr s \<Rightarrow> s | _ \<Rightarrow> [])"

definition axis_field :: "string \<Rightarrow> string option" where
  "axis_field a = (if a = ''column'' then Some ''col'' else if a = ''row'' then Some ''row'' else None)"

text \<open>\<^verbatim>\<open>_declared_aisles\<close>: the keys that are integers; a key is always a string.\<close>

definition declared_aisles :: "json \<Rightarrow> int list" where
  "declared_aisles data =
     (case jget ''aisle_to_entrance_indices'' data of
        JObject kvs \<Rightarrow> List.map_filter (\<lambda>(k, _). py_int k) kvs
      | _ \<Rightarrow> [])"

text \<open>A later row for the same tree replaces the earlier one.\<close>

fun place_trees :: "string \<Rightarrow> int list \<Rightarrow> json list \<Rightarrow> orchard \<Rightarrow> orchard" where
  "place_trees fld declared [] m = m"
| "place_trees fld declared (t # ts) m =
     (case (as_int (jget ''tree_index'' t), as_int (jget fld t)) of
        (Some i, Some a) \<Rightarrow>
          if declared \<noteq> [] \<and> a \<notin> set declared then place_trees fld declared ts m
          else place_trees fld declared ts (AList.update i a m)
      | _ \<Rightarrow> place_trees fld declared ts m)"

text \<open>A number cannot be iterated over: \<^verbatim>\<open>parse\<close> raises on a document whose trees are one.\<close>

definition tree_rows :: "json \<Rightarrow> py_exn + json list" where
  "tree_rows j =
     (case j of
        JList ts \<Rightarrow> Inr ts
      | JInt i \<Rightarrow> if i = 0 then Inr [] else Inl TypeError
      | JFloat x \<Rightarrow> if x = 0 then Inr [] else Inl TypeError
      | JBool b \<Rightarrow> if b then Inl TypeError else Inr []
      | _ \<Rightarrow> Inr [])"

definition parse_orchard :: "json \<Rightarrow> py_exn + orchard" where
  "parse_orchard data =
     (case data of
        JObject _ \<Rightarrow>
          (case axis_field (lower (strip (axis_text (jget ''traversal_axis'' data)))) of
             None \<Rightarrow> Inr []
           | Some fld \<Rightarrow>
               (case tree_rows (jget ''trees'' data) of
                  Inl e \<Rightarrow> Inl e
                | Inr ts \<Rightarrow> Inr (place_trees fld (declared_aisles data) ts [])))
      | _ \<Rightarrow> Inr [])"

text \<open>\<^verbatim>\<open>Orchard.aisle_of\<close>, of a tree named by an XML attribute; \<open>None\<close> is the absent orchard.\<close>

definition aisle_of :: "orchard option \<Rightarrow> string \<Rightarrow> int option" where
  "aisle_of om tree =
     (case om of None \<Rightarrow> None
      | Some m \<Rightarrow> (case py_int tree of None \<Rightarrow> None | Some t \<Rightarrow> map_of m t))"

definition aisles :: "orchard \<Rightarrow> int set" where
  "aisles m = set (map snd m)"

definition facts_for_trees :: "orchard \<Rightarrow> string list \<Rightarrow> (int \<times> int option) list" where
  "facts_for_trees m ts =
     fold (\<lambda>t out. case py_int t of None \<Rightarrow> out | Some i \<Rightarrow> AList.update i (aisle_of (Some m) t) out) ts []"

text \<open>A document that lists its aisles places no tree in another one.\<close>

lemma place_trees_declared:
  assumes "set declared \<noteq> {}"
  shows "snd ` set m \<subseteq> set declared \<Longrightarrow> snd ` set (place_trees fld declared ts m) \<subseteq> set declared"
proof (induction ts arbitrary: m)
  case (Cons t ts)
  have upd: "snd ` set (AList.update i a m) \<subseteq> insert a (snd ` set m)" for i a
    by (induction m) auto
  have "snd ` set (place_trees fld declared ts (AList.update i a m)) \<subseteq> set declared" if "a \<in> set declared" for i a
    using Cons.prems upd [of i a] that by (intro Cons.IH) blast
  then show ?case using Cons.IH [OF Cons.prems] assms by (simp split: option.split)
qed simp

lemma aisles_declared:
  assumes "parse_orchard data = Inr m" and "declared_aisles data \<noteq> []"
  shows "aisles m \<subseteq> set (declared_aisles data)"
  using assms place_trees_declared [of "declared_aisles data" "[]"]
  by (auto simp: parse_orchard_def aisles_def split: json.splits option.splits sum.splits)

end
