(* ===== verification/Ontology.thy ===== *)
theory Ontology
  imports Orchard Vocabulary
begin

text \<open>
  What the actions of a mission mean (\<^verbatim>\<open>mission/ontology.py\<close>): what each needs, what it leaves
  true, and the walk over a plan that the gate, the verifier and the planner share. A state is a
  frozen set of facts in the code and a list of facts here; only membership and the one fact of
  an exclusive kind are ever asked of it. Reasons are data; their wording is not modelled.
\<close>

section \<open>Facts, needs, steps\<close>

datatype fact_kind = AT_TREE | AT_WAYPOINT | AT_GPS | IN_AISLE | SAMPLED_TREE | ARM_POSITIONED

definition LATCHING :: "fact_kind list" where "LATCHING = [SAMPLED_TREE, ARM_POSITIONED]"
definition WHERE :: "fact_kind list" where "WHERE = [AT_TREE, AT_WAYPOINT, AT_GPS]"
definition AISLE_KINDS :: "fact_kind list" where "AISLE_KINDS = [IN_AISLE]"
definition TRAVELS :: "fact_kind list" where "TRAVELS = WHERE @ AISLE_KINDS"

datatype strength = REQUIRED | EXPECTED
datatype proposition_kind = OBJECTIVE | ACHIEVEMENT | DONE | SILENT

datatype fact = Fact (f_kind: fact_kind) (f_arg: string)
datatype need = Need (n_kind: fact_kind) (n_strength: strength) (n_arg: string)

definition met_by :: "need \<Rightarrow> fact \<Rightarrow> bool" where
  "met_by n f \<longleftrightarrow> f_kind f = n_kind n \<and> (n_arg n = [] \<or> f_arg f = n_arg n)"

type_synonym facts = "fact list"

datatype defect = NoId | NoCoordinates

record step =
  st_tag :: string
  st_name :: string
  st_needs :: "need list"
  st_establishes :: "fact list"
  st_clears :: "fact_kind list"
  st_proposition :: proposition_kind
  st_unmet :: "need list"
  st_defect :: "defect option"

datatype violation = Defective string string defect | Unmet string string need

definition step_violation :: "step \<Rightarrow> violation option" where
  "step_violation st =
     (case st_defect st of
        Some d \<Rightarrow> Some (Defective (st_tag st) (st_name st) d)
      | None \<Rightarrow> map_option (Unmet (st_tag st) (st_name st)) (find (\<lambda>n. n_strength n = REQUIRED) (st_unmet st)))"

definition missing :: "step \<Rightarrow> need list" where
  "missing st = filter (\<lambda>n. n_strength n = EXPECTED) (st_unmet st)"

definition holding :: "facts \<Rightarrow> fact_kind \<Rightarrow> fact option" where
  "holding s k = find (\<lambda>f. f_kind f = k) s"

definition meets :: "facts \<Rightarrow> need \<Rightarrow> bool" where
  "meets s n \<longleftrightarrow> list_ex (met_by n) s"

definition after :: "facts \<Rightarrow> step \<Rightarrow> facts" where
  "after s st = List.union (st_establishes st) (filter (\<lambda>f. f_kind f \<notin> set (st_clears st)) s)"

definition merge :: "facts \<Rightarrow> facts \<Rightarrow> facts" where
  "merge s t = filter (\<lambda>f. f \<in> set t) s"

section \<open>The table\<close>

record row =
  rw_needs :: "need list"
  rw_establishes :: "fact list"
  rw_clears :: "fact_kind list"
  rw_proposition :: proposition_kind
  rw_defect :: "defect option"

definition plain_row :: row where
  "plain_row = \<lparr>rw_needs = [], rw_establishes = [], rw_clears = [], rw_proposition = DONE, rw_defect = None\<rparr>"

definition defective :: "defect \<Rightarrow> row" where
  "defective d = plain_row\<lparr>rw_defect := Some d\<rparr>"

definition approaches :: "xml \<Rightarrow> bool" where
  "approaches e \<longleftrightarrow> lower (strip (attr_or_empty ''approach_tree'' e)) = ''true''"

definition move_to_tree :: "xml \<Rightarrow> orchard option \<Rightarrow> facts \<Rightarrow> row" where
  "move_to_tree e om s =
     (let tree = strip (attr_or_empty ''id'' e)
      in if tree = [] then defective NoId
         else let aisle = aisle_of om tree;
                  here = Fact (if approaches e then AT_TREE else AT_WAYPOINT) tree
              in \<lparr>rw_needs = [Need IN_AISLE EXPECTED (case aisle of None \<Rightarrow> [] | Some a \<Rightarrow> str_int a)],
                   rw_establishes = (case aisle of None \<Rightarrow> [here] | Some a \<Rightarrow> [here, Fact IN_AISLE (str_int a)]),
                   rw_clears = TRAVELS,
                   rw_proposition = (if approaches e then OBJECTIVE else SILENT),
                   rw_defect = None\<rparr>)"

definition move_to_aisle_head :: "xml \<Rightarrow> orchard option \<Rightarrow> facts \<Rightarrow> row" where
  "move_to_aisle_head e om s =
     (let aisle = strip (attr_or_empty ''id'' e)
      in if aisle = [] then defective NoId
         else plain_row\<lparr>rw_establishes := [Fact IN_AISLE aisle], rw_clears := TRAVELS\<rparr>)"

definition sample_leaf :: "xml \<Rightarrow> orchard option \<Rightarrow> facts \<Rightarrow> row" where
  "sample_leaf e om s =
     plain_row\<lparr>rw_needs := [Need AT_TREE REQUIRED []],
       rw_establishes := (case holding s AT_TREE of None \<Rightarrow> [] | Some f \<Rightarrow> [Fact SAMPLED_TREE (f_arg f)]),
       rw_proposition := ACHIEVEMENT\<rparr>"

definition gps_move :: "xml \<Rightarrow> orchard option \<Rightarrow> facts \<Rightarrow> row" where
  "gps_move e om s =
     (case (attr ''latitude'' e, attr ''longitude'' e) of
        (Some lat, Some lon) \<Rightarrow>
          plain_row\<lparr>rw_establishes := [Fact AT_GPS (lat @ '','' @ lon)], rw_clears := TRAVELS\<rparr>
      | _ \<Rightarrow> defective NoCoordinates)"

definition arm_move :: "xml \<Rightarrow> orchard option \<Rightarrow> facts \<Rightarrow> row" where
  "arm_move e om s = plain_row\<lparr>rw_establishes := [Fact ARM_POSITIONED []]\<rparr>"

definition local_move :: "xml \<Rightarrow> orchard option \<Rightarrow> facts \<Rightarrow> row" where
  "local_move e om s = plain_row"

definition follow_person :: "xml \<Rightarrow> orchard option \<Rightarrow> facts \<Rightarrow> row" where
  "follow_person e om s = plain_row\<lparr>rw_clears := TRAVELS\<rparr>"

definition ontology_table :: "string \<Rightarrow> (xml \<Rightarrow> orchard option \<Rightarrow> facts \<Rightarrow> row) option" where
  "ontology_table = map_of
     [(''MoveToTreeID'', move_to_tree), (''MoveToAisleHead'', move_to_aisle_head),
      (''MoveToGPSLocation'', gps_move), (''ApproachGPSWaypoint'', gps_move),
      (''MoveToRelativeLocation'', local_move), (''OrientRobotHeading'', local_move),
      (''FollowPerson'', follow_person), (''MoveArmToPosition'', arm_move),
      (''SampleLeaf'', sample_leaf)]"

section \<open>Walking a plan\<close>

definition is_action :: "xml \<Rightarrow> bool" where
  "is_action e \<longleftrightarrow> (case xtag e of None \<Rightarrow> False | Some t \<Rightarrow> capability_by_element t \<noteq> None)"

definition element_name :: "xml \<Rightarrow> string" where
  "element_name e = (if attr_or_empty ''name'' e = [] then ''<unnamed>'' else attr_or_empty ''name'' e)"

text \<open>The step a row makes in a state.\<close>

definition resolve :: "facts \<Rightarrow> xml \<Rightarrow> string \<Rightarrow> row \<Rightarrow> step" where
  "resolve s e t row =
     \<lparr>st_tag = t, st_name = element_name e, st_needs = rw_needs row, st_establishes = rw_establishes row,
       st_clears = rw_clears row, st_proposition = rw_proposition row,
       st_unmet = filter (\<lambda>n. \<not> meets s n) (rw_needs row), st_defect = rw_defect row\<rparr>"

text \<open>\<open>None\<close> is the code's \<^verbatim>\<open>OntologyError\<close>: the element is no action.\<close>

definition advance :: "facts \<Rightarrow> xml \<Rightarrow> orchard option \<Rightarrow> (step \<times> facts) option" where
  "advance s e om =
     (case xtag e of
        None \<Rightarrow> None
      | Some t \<Rightarrow>
          (case ontology_table t of
             None \<Rightarrow> None
           | Some rule \<Rightarrow>
               let st = resolve s e t (rule e om s)
               in Some (st, if st_defect st \<noteq> None then s else after s st)))"

definition actions_in :: "xml \<Rightarrow> xml list" where
  "actions_in doc = filter is_action (iter doc)"

text \<open>The steps of a run of actions from a state, and the state it leaves.\<close>

fun walk :: "orchard option \<Rightarrow> facts \<Rightarrow> xml list \<Rightarrow> (step list \<times> facts) option" where
  "walk om s [] = Some ([], s)"
| "walk om s (e # es) =
     (case advance s e om of
        None \<Rightarrow> None
      | Some (st, s1) \<Rightarrow> (case walk om s1 es of None \<Rightarrow> None | Some (sts, s2) \<Rightarrow> Some (st # sts, s2)))"

definition violations :: "xml \<Rightarrow> orchard option \<Rightarrow> violation list option" where
  "violations doc om =
     map_option (\<lambda>(sts, _). List.map_filter step_violation sts) (walk om [] (actions_in doc))"

text \<open>What a replan is told: a step nothing later needs, a need nothing before it meets.\<close>

datatype finding = Leftover string string "fact list" | Expects string string need

fun used_later :: "fact list \<Rightarrow> step list \<Rightarrow> bool" where
  "used_later fs [] = False"
| "used_later fs (st # rest) =
     (if list_ex (\<lambda>n. list_ex (met_by n) fs) (st_needs st) then True
      else if list_ex (\<lambda>f. f_kind f \<in> set (st_clears st)) fs then False
      else used_later fs rest)"

fun leftovers :: "step list \<Rightarrow> finding list" where
  "leftovers [] = []"
| "leftovers (st # rest) =
     (let established = filter (\<lambda>f. f_kind f \<notin> set LATCHING) (st_establishes st)
      in if st_proposition st = OBJECTIVE \<or> st_proposition st = ACHIEVEMENT \<or> established = [] \<or>
            used_later established rest
         then leftovers rest
         else Leftover (st_tag st) (st_name st) established # leftovers rest)"

definition dangling :: "xml \<Rightarrow> orchard option \<Rightarrow> finding list option" where
  "dangling doc om =
     map_option (\<lambda>(sts, _). leftovers sts @
         concat (map (\<lambda>st. map (Expects (st_tag st) (st_name st)) (missing st)) sts))
       (walk om [] (actions_in doc))"

section \<open>Which sample belongs to which tree\<close>

fun bindings_from :: "orchard option \<Rightarrow> facts \<Rightarrow> (string \<times> xml) list \<Rightarrow> xml list \<Rightarrow> (xml \<times> xml \<times> string) list option" where
  "bindings_from om s last_move [] = Some []"
| "bindings_from om s last_move (e # es) =
     (let last_move1 = (if xtag e = Some ''MoveToTreeID'' \<and> approaches e
                        then AList.update (strip (attr_or_empty ''id'' e)) e last_move else last_move)
      in case advance s e om of
           None \<Rightarrow> None
         | Some (st, s1) \<Rightarrow>
             (case bindings_from om s1 last_move1 es of
                None \<Rightarrow> None
              | Some out \<Rightarrow>
                  Some (if xtag e = Some ''SampleLeaf'' then
                          (case find (\<lambda>f. f_kind f = SAMPLED_TREE) (st_establishes st) of
                             None \<Rightarrow> out
                           | Some f \<Rightarrow> (case map_of last_move1 (f_arg f) of
                                None \<Rightarrow> out | Some move \<Rightarrow> (move, e, f_arg f) # out))
                        else out)))"

definition objective_bindings :: "xml \<Rightarrow> orchard option \<Rightarrow> (xml \<times> xml \<times> string) list option" where
  "objective_bindings doc om = bindings_from om [] [] (actions_in doc)"

definition sample_leaf_trees :: "xml \<Rightarrow> orchard option \<Rightarrow> (string \<times> string) list option" where
  "sample_leaf_trees doc om =
     map_option (\<lambda>bs. fold (\<lambda>(_, sample, t). AList.update (attr_or_empty ''name'' sample) t) bs [])
       (objective_bindings doc om)"

section \<open>Removing what is done\<close>

text \<open>The proper ancestors of a node, from the root down.\<close>

definition ancestors :: "nat \<Rightarrow> xml \<Rightarrow> xml list" where
  "ancestors i doc = filter (\<lambda>p. xid p \<noteq> i \<and> i \<in> set (ids p)) (iter doc)"

definition isolated_ancestor :: "xml \<Rightarrow> nat \<Rightarrow> nat list \<Rightarrow> nat" where
  "isolated_ancestor doc i ours =
     last (i # map xid (takeWhile (\<lambda>p. \<forall>e \<in> set (actions_in p). xid e \<in> set ours) (rev (ancestors i doc))))"

definition delete_nodes :: "nat list \<Rightarrow> xml \<Rightarrow> xml" where
  "delete_nodes is e = fold delete_node is e"

definition prune_completed :: "xml \<Rightarrow> string list \<Rightarrow> orchard option \<Rightarrow> xml option" where
  "prune_completed doc completed om =
     (let completed_ids = map strip completed
      in if completed_ids = [] then Some doc
         else case objective_bindings doc om of
           None \<Rightarrow> None
         | Some objectives \<Rightarrow>
             let to_remove = map (\<lambda>(move, sample, _). isolated_ancestor doc (xid move) [xid move, xid sample])
                    (filter (\<lambda>(_, _, t). t \<in> set completed_ids) objectives);
                 still_needed = List.map_filter (\<lambda>(_, _, t). map_option str_int (aisle_of om t))
                    (filter (\<lambda>(_, _, t). t \<notin> set completed_ids) objectives);
                 pruned = delete_nodes to_remove doc
             in Some (delete_nodes
                  (map xid (filter (\<lambda>e. strip (attr_or_empty ''id'' e) \<notin> set still_needed)
                     (iter_tag ''MoveToAisleHead'' pruned))) pruned))"

section \<open>The table covers the vocabulary\<close>

definition action_tags :: "string list" where
  "action_tags = [''MoveToTreeID'', ''MoveToAisleHead'', ''MoveToGPSLocation'', ''ApproachGPSWaypoint'',
     ''MoveToRelativeLocation'', ''OrientRobotHeading'', ''FollowPerson'', ''MoveArmToPosition'', ''SampleLeaf'']"

lemma table_rows: "ontology_table t \<noteq> None \<longleftrightarrow> t \<in> set action_tags"
  unfolding ontology_table_def map_of_eq_None_iff action_tags_def by simp

lemma vocabulary_tags: "capability_by_element t \<noteq> None \<longleftrightarrow> t \<in> set action_tags"
proof -
  have "set (map (\<lambda>c. xml_element c) all_capabilities) = set action_tags" by code_simp
  then show ?thesis
    unfolding capability_by_element_def map_of_eq_None_iff by (simp add: comp_def image_image)
qed

lemma table_covers: "ontology_table t \<noteq> None \<longleftrightarrow> capability_by_element t \<noteq> None"
  unfolding table_rows vocabulary_tags ..

lemma is_action_tag: "is_action e \<longleftrightarrow> (\<exists>t. xtag e = Some t \<and> ontology_table t \<noteq> None)"
  using table_covers by (auto simp: is_action_def split: option.splits)

lemma action_cases [consumes 1]:
  assumes "is_action e"
  obtains "xtag e = Some ''MoveToTreeID''" | "xtag e = Some ''MoveToAisleHead''"
  | "xtag e = Some ''MoveToGPSLocation''" | "xtag e = Some ''ApproachGPSWaypoint''"
  | "xtag e = Some ''MoveToRelativeLocation''" | "xtag e = Some ''OrientRobotHeading''"
  | "xtag e = Some ''FollowPerson''" | "xtag e = Some ''MoveArmToPosition''" | "xtag e = Some ''SampleLeaf''"
  using assms unfolding is_action_tag table_rows action_tags_def by auto

lemma advance_action:
  assumes "is_action e"
  obtains st s1 where "advance s e om = Some (st, s1)"
  using assms unfolding is_action_tag advance_def by (auto simp: Let_def)

section \<open>Where the robot stands\<close>

text \<open>
  The declarative reading of a plan. A move is complete when it names its place; a complete move
  travels; approaching a tree is a complete move to it that stops there.
\<close>

definition complete :: "xml \<Rightarrow> bool" where
  "complete e \<longleftrightarrow>
     (xtag e \<in> {Some ''MoveToTreeID'', Some ''MoveToAisleHead''} \<longrightarrow> strip (attr_or_empty ''id'' e) \<noteq> []) \<and>
     (xtag e \<in> {Some ''MoveToGPSLocation'', Some ''ApproachGPSWaypoint''} \<longrightarrow>
        attr ''latitude'' e \<noteq> None \<and> attr ''longitude'' e \<noteq> None)"

definition travels :: "xml \<Rightarrow> bool" where
  "travels e \<longleftrightarrow> complete e \<and>
     xtag e \<in> {Some ''MoveToTreeID'', Some ''MoveToAisleHead'', Some ''MoveToGPSLocation'',
       Some ''ApproachGPSWaypoint'', Some ''FollowPerson''}"

definition approach :: "xml \<Rightarrow> bool" where
  "approach e \<longleftrightarrow> complete e \<and> xtag e = Some ''MoveToTreeID'' \<and> approaches e"

definition tree_id :: "xml \<Rightarrow> string" where
  "tree_id e = strip (attr_or_empty ''id'' e)"

text \<open>The approach the robot still stands at after some actions.\<close>

definition stands :: "xml option \<Rightarrow> xml \<Rightarrow> xml option" where
  "stands cur e = (if approach e then Some e else if travels e then None else cur)"

definition standing :: "xml list \<Rightarrow> xml option" where
  "standing es = foldl stands None es"

lemma standing_snoc [simp]: "standing [] = None" "standing (es @ [e]) = stands (standing es) e"
  by (simp_all add: standing_def)

text \<open>Positions are exclusive.\<close>

definition exclusive :: "facts \<Rightarrow> bool" where
  "exclusive s \<longleftrightarrow> (\<forall>f \<in> set s. \<forall>g \<in> set s.
     (f_kind f \<in> set WHERE \<and> f_kind g \<in> set WHERE \<or> f_kind f = IN_AISLE \<and> f_kind g = IN_AISLE) \<longrightarrow> f = g)"

lemmas kinds = WHERE_def AISLE_KINDS_def TRAVELS_def LATCHING_def

lemma table_eqs:
  "ontology_table ''MoveToTreeID'' = Some move_to_tree" "ontology_table ''MoveToAisleHead'' = Some move_to_aisle_head"
  "ontology_table ''MoveToGPSLocation'' = Some gps_move" "ontology_table ''ApproachGPSWaypoint'' = Some gps_move"
  "ontology_table ''MoveToRelativeLocation'' = Some local_move" "ontology_table ''OrientRobotHeading'' = Some local_move"
  "ontology_table ''FollowPerson'' = Some follow_person" "ontology_table ''MoveArmToPosition'' = Some arm_move"
  "ontology_table ''SampleLeaf'' = Some sample_leaf"
  by (simp_all add: ontology_table_def)

lemma set_after: "set (after s st) = set (st_establishes st) \<union> {f \<in> set s. f_kind f \<notin> set (st_clears st)}"
  by (auto simp: after_def)

lemma resolve_simps [simp]:
  "st_tag (resolve s e t row) = t" "st_name (resolve s e t row) = element_name e"
  "st_needs (resolve s e t row) = rw_needs row" "st_establishes (resolve s e t row) = rw_establishes row"
  "st_clears (resolve s e t row) = rw_clears row" "st_proposition (resolve s e t row) = rw_proposition row"
  "st_unmet (resolve s e t row) = filter (\<lambda>n. \<not> meets s n) (rw_needs row)" "st_defect (resolve s e t row) = rw_defect row"
  by (simp_all add: resolve_def)

text \<open>The row of an action, by what it does to the robot's position.\<close>

lemma advance_row:
  assumes "is_action e" "advance s e om = Some (st, s1)"
  obtains rule t where "xtag e = Some t" "ontology_table t = Some rule" "st = resolve s e t (rule e om s)"
    "s1 = (if st_defect st \<noteq> None then s else after s st)"
  using assms by (auto simp: advance_def Let_def split: option.splits)

definition shaped :: "facts \<Rightarrow> xml \<Rightarrow> step \<Rightarrow> bool" where
  "shaped s e st \<longleftrightarrow>
     (st_defect st = None \<longleftrightarrow> complete e) \<and> st_clears st = (if travels e then TRAVELS else []) \<and>
     (\<forall>f \<in> set (st_establishes st). f_kind f \<in> set TRAVELS \<longrightarrow> travels e) \<and>
     (\<forall>t. Fact AT_TREE t \<in> set (st_establishes st) \<longleftrightarrow> approach e \<and> t = tree_id e) \<and>
     (\<forall>f \<in> set (st_establishes st). \<forall>g \<in> set (st_establishes st).
       f_kind f \<in> set WHERE \<and> f_kind g \<in> set WHERE \<or> f_kind f = IN_AISLE \<and> f_kind g = IN_AISLE \<longrightarrow> f = g) \<and>
     ((\<exists>n \<in> set (st_unmet st). n_strength n = REQUIRED) \<longleftrightarrow>
       xtag e = Some ''SampleLeaf'' \<and> \<not> meets s (Need AT_TREE REQUIRED [])) \<and>
     (if xtag e = Some ''SampleLeaf'' then
        st_establishes st = (case holding s AT_TREE of None \<Rightarrow> [] | Some f \<Rightarrow> [Fact SAMPLED_TREE (f_arg f)])
      else \<forall>f \<in> set (st_establishes st). f_kind f \<noteq> SAMPLED_TREE)"

lemma step_shape:
  assumes "is_action e" and "advance s e om = Some (st, s1)"
  shows "shaped s e st"
proof -
  from advance_row [OF assms] obtain rule t' where *: "xtag e = Some t'" "ontology_table t' = Some rule"
    "st = resolve s e t' (rule e om s)" by blast
  note defs = shaped_def complete_def travels_def approach_def tree_id_def move_to_tree_def move_to_aisle_head_def gps_move_def
    local_move_def follow_person_def arm_move_def sample_leaf_def defective_def plain_row_def kinds Let_def table_eqs
  from assms(1) show ?thesis
    by (cases rule: action_cases; cases "holding s AT_TREE")
      (use * in \<open>simp_all add: defs split: option.split\<close>)
qed

lemma shapedD:
  assumes "shaped s e st"
  shows "st_defect st = None \<longleftrightarrow> complete e"
    and "travels e \<Longrightarrow> st_clears st = TRAVELS" and "\<not> travels e \<Longrightarrow> st_clears st = []"
    and "f \<in> set (st_establishes st) \<Longrightarrow> f_kind f \<in> set TRAVELS \<Longrightarrow> travels e"
    and "Fact AT_TREE t \<in> set (st_establishes st) \<longleftrightarrow> approach e \<and> t = tree_id e"
    and "f \<in> set (st_establishes st) \<Longrightarrow> g \<in> set (st_establishes st) \<Longrightarrow>
      f_kind f \<in> set WHERE \<and> f_kind g \<in> set WHERE \<or> f_kind f = IN_AISLE \<and> f_kind g = IN_AISLE \<Longrightarrow> f = g"
    and "(\<exists>n \<in> set (st_unmet st). n_strength n = REQUIRED) \<longleftrightarrow>
      xtag e = Some ''SampleLeaf'' \<and> (\<forall>t. Fact AT_TREE t \<notin> set s)"
    and "xtag e = Some ''SampleLeaf'' \<Longrightarrow> st_establishes st =
      (case holding s AT_TREE of None \<Rightarrow> [] | Some f \<Rightarrow> [Fact SAMPLED_TREE (f_arg f)])"
    and "xtag e \<noteq> Some ''SampleLeaf'' \<Longrightarrow> f \<in> set (st_establishes st) \<Longrightarrow> f_kind f \<noteq> SAMPLED_TREE"
proof -
  have met: "meets s (Need AT_TREE REQUIRED []) \<longleftrightarrow> (\<exists>t. Fact AT_TREE t \<in> set s)"
    by (auto simp: meets_def list_ex_iff met_by_def) (metis fact.collapse fact.sel(1))+
  have c: "st_clears st = (if travels e then TRAVELS else [])" using assms unfolding shaped_def by blast
  then show "travels e \<Longrightarrow> st_clears st = TRAVELS" "\<not> travels e \<Longrightarrow> st_clears st = []" by simp_all
  have l: "if xtag e = Some ''SampleLeaf'' then
        st_establishes st = (case holding s AT_TREE of None \<Rightarrow> [] | Some f \<Rightarrow> [Fact SAMPLED_TREE (f_arg f)])
      else \<forall>f \<in> set (st_establishes st). f_kind f \<noteq> SAMPLED_TREE"
    using assms unfolding shaped_def by blast
  then show "xtag e = Some ''SampleLeaf'' \<Longrightarrow> st_establishes st =
      (case holding s AT_TREE of None \<Rightarrow> [] | Some f \<Rightarrow> [Fact SAMPLED_TREE (f_arg f)])"
    "xtag e \<noteq> Some ''SampleLeaf'' \<Longrightarrow> f \<in> set (st_establishes st) \<Longrightarrow> f_kind f \<noteq> SAMPLED_TREE"
    by (simp_all only: if_True if_False simp_thms)
  show "st_defect st = None \<longleftrightarrow> complete e" by (rule assms [unfolded shaped_def, THEN conjunct1])
  show "f \<in> set (st_establishes st) \<Longrightarrow> f_kind f \<in> set TRAVELS \<Longrightarrow> travels e"
    using assms [unfolded shaped_def, THEN conjunct2, THEN conjunct2, THEN conjunct1] by blast
  show "Fact AT_TREE t \<in> set (st_establishes st) \<longleftrightarrow> approach e \<and> t = tree_id e"
    using assms [unfolded shaped_def, THEN conjunct2, THEN conjunct2, THEN conjunct2, THEN conjunct1] by blast
  show "f \<in> set (st_establishes st) \<Longrightarrow> g \<in> set (st_establishes st) \<Longrightarrow>
      f_kind f \<in> set WHERE \<and> f_kind g \<in> set WHERE \<or> f_kind f = IN_AISLE \<and> f_kind g = IN_AISLE \<Longrightarrow> f = g"
    using assms [unfolded shaped_def, THEN conjunct2, THEN conjunct2, THEN conjunct2, THEN conjunct2, THEN conjunct1] by blast
  show "(\<exists>n \<in> set (st_unmet st). n_strength n = REQUIRED) \<longleftrightarrow>
      xtag e = Some ''SampleLeaf'' \<and> (\<forall>t. Fact AT_TREE t \<notin> set s)"
    using assms [unfolded shaped_def, THEN conjunct2, THEN conjunct2, THEN conjunct2, THEN conjunct2, THEN conjunct2, THEN conjunct1] unfolding met by blast
qed

text \<open>The state agrees with where the robot stands.\<close>

definition agrees :: "facts \<Rightarrow> xml option \<Rightarrow> bool" where
  "agrees s cur \<longleftrightarrow> exclusive s \<and> (\<forall>t. Fact AT_TREE t \<in> set s \<longleftrightarrow> cur \<noteq> None \<and> t = tree_id (the cur))"

lemma agrees_Nil: "agrees [] None"
  by (simp add: agrees_def exclusive_def)

lemma agrees_holding:
  assumes "agrees s cur"
  shows "holding s AT_TREE = map_option (\<lambda>e. Fact AT_TREE (tree_id e)) cur"
proof (cases cur)
  case None
  then have "\<not> (\<exists>f \<in> set s. f_kind f = AT_TREE)" using assms unfolding agrees_def by (metis fact.collapse)
  with None show ?thesis by (auto simp: holding_def find_None_iff)
next
  case (Some e)
  then have "Fact AT_TREE (tree_id e) \<in> set s" using assms by (simp add: agrees_def)
  then have "find (\<lambda>f. f_kind f = AT_TREE) s \<noteq> None" by (auto simp: find_None_iff)
  then obtain f where f: "find (\<lambda>f. f_kind f = AT_TREE) s = Some f" by auto
  then have "f \<in> set s" "f_kind f = AT_TREE" by (auto simp: find_Some_iff in_set_conv_nth)
  then have "f = Fact AT_TREE (tree_id e)" using assms Some unfolding agrees_def by (metis fact.collapse option.sel)
  with f Some show ?thesis by (simp add: holding_def)
qed

lemma agrees_advance:
  assumes "is_action e" and "advance s e om = Some (st, s1)" and "agrees s cur"
  shows "agrees s1 (stands cur e)"
proof (cases "complete e")
  case False
  then have "st_defect st \<noteq> None" using shapedD(1) [OF step_shape [OF assms(1,2)]] by simp
  then have "s1 = s" using advance_row [OF assms(1,2)] by metis
  with False assms(3) show ?thesis by (simp add: stands_def approach_def travels_def)
next
  case True
  note shape = shapedD [OF step_shape [OF assms(1,2)]]
  have "st_defect st = None" using shape(1) True by simp
  then have s1: "set s1 = set (st_establishes st) \<union> {f \<in> set s. f_kind f \<notin> set (st_clears st)}"
    using advance_row [OF assms(1,2)] set_after by metis
  have travel: "f_kind f \<in> set TRAVELS" if "f_kind f \<in> set WHERE \<or> f_kind f = IN_AISLE" for f
    using that by (auto simp: kinds)
  have "exclusive s1"
  proof (cases "travels e")
    case True
    then show ?thesis
      using s1 shape(2) [OF True] shape(6) travel unfolding exclusive_def by (simp only:) blast
  next
    case False
    then have "f \<notin> set (st_establishes st)" if "f_kind f \<in> set TRAVELS" for f using shape(4) that by blast
    then have "f \<in> set s" if "f \<in> set s1" "f_kind f \<in> set TRAVELS" for f using s1 that by blast
    then have old: "f \<in> set s" if "f \<in> set s1" "f_kind f \<in> set WHERE \<or> f_kind f = IN_AISLE" for f
      using that travel by blast
    have "exclusive s" using assms(3) by (simp add: agrees_def)
    then show ?thesis using old unfolding exclusive_def by metis
  qed
  moreover have "Fact AT_TREE t \<in> set s1 \<longleftrightarrow> stands cur e \<noteq> None \<and> t = tree_id (the (stands cur e))" for t
  proof -
    have "approach e \<Longrightarrow> travels e" by (simp add: approach_def travels_def)
    then show ?thesis
      using s1 shape(2,3) shape(5) [of t] assms(3) by (auto simp: stands_def agrees_def kinds)
  qed
  ultimately show ?thesis by (simp add: agrees_def)
qed

lemma agrees_violation:
  assumes "is_action e" and "advance s e om = Some (st, s1)" and "agrees s cur"
  shows "step_violation st = None \<longleftrightarrow> complete e \<and> (xtag e = Some ''SampleLeaf'' \<longrightarrow> cur \<noteq> None)"
proof -
  have "find (\<lambda>n. n_strength n = REQUIRED) (st_unmet st) = None \<longleftrightarrow> \<not> (\<exists>n \<in> set (st_unmet st). n_strength n = REQUIRED)"
    by (auto simp: find_None_iff)
  then show ?thesis
    using shapedD(1,7) [OF step_shape [OF assms(1,2)]] assms(3)
    by (cases "st_defect st") (auto simp: step_violation_def agrees_def)
qed

lemma walk_agrees:
  assumes "\<forall>e \<in> set es. is_action e" and "agrees s cur"
  obtains sts s' where "walk om s es = Some (sts, s')" "agrees s' (foldl stands cur es)" "length sts = length es"
    "\<And>i. i < length es \<Longrightarrow> step_violation (sts ! i) = None \<longleftrightarrow>
       complete (es ! i) \<and> (xtag (es ! i) = Some ''SampleLeaf'' \<longrightarrow> foldl stands cur (take i es) \<noteq> None)"
  using assms
proof (induction es arbitrary: s cur thesis)
  case Nil
  then show ?case by simp
next
  case (Cons e es)
  have e: "is_action e" using Cons.prems(2) by simp
  obtain st s1 where st: "advance s e om = Some (st, s1)" by (rule advance_action [OF e])
  have es: "\<forall>e \<in> set es. is_action e" using Cons.prems(2) by simp
  note next_agrees = agrees_advance [OF e st Cons.prems(3)]
  note bad = agrees_violation [OF e st Cons.prems(3)]
  show ?case
  proof (rule Cons.IH [OF _ es next_agrees])
    fix sts s'
    assume *: "walk om s1 es = Some (sts, s')" "agrees s' (foldl stands (stands cur e) es)" "length sts = length es"
      "\<And>i. i < length es \<Longrightarrow> step_violation (sts ! i) = None \<longleftrightarrow>
         complete (es ! i) \<and> (xtag (es ! i) = Some ''SampleLeaf'' \<longrightarrow> foldl stands (stands cur e) (take i es) \<noteq> None)"
    show thesis
    proof (rule Cons.prems(1))
      show "walk om s (e # es) = Some (st # sts, s')" using st *(1) by simp
      show "agrees s' (foldl stands cur (e # es))" using *(2) by simp
      show "length (st # sts) = length (e # es)" using *(3) by simp
      fix i assume "i < length (e # es)"
      then show "step_violation ((st # sts) ! i) = None \<longleftrightarrow>
          complete ((e # es) ! i) \<and> (xtag ((e # es) ! i) = Some ''SampleLeaf'' \<longrightarrow>
            foldl stands cur (take i (e # es)) \<noteq> None)"
        using bad *(4) by (cases i) auto
    qed
  qed
qed

section \<open>The walk and the plan\<close>

text \<open>The samples of a plan, each with the approach the robot stands at.\<close>

fun samples :: "xml option \<Rightarrow> xml list \<Rightarrow> (xml \<times> xml \<times> string) list" where
  "samples cur [] = []"
| "samples cur (e # es) =
     (case cur of
        Some move \<Rightarrow> if xtag e = Some ''SampleLeaf'' then [(move, e, tree_id move)] else []
      | None \<Rightarrow> []) @ samples (stands cur e) es"

definition sampled :: "facts \<Rightarrow> string set" where
  "sampled s = {t. Fact SAMPLED_TREE t \<in> set s}"

lemma actions_are_actions: "\<forall>e \<in> set (actions_in doc). is_action e"
  by (simp add: actions_in_def)

lemma sample_complete: "xtag e = Some ''SampleLeaf'' \<Longrightarrow> complete e \<and> \<not> travels e"
  by (simp add: complete_def travels_def)

lemma advance_sampled:
  assumes "is_action e" and "advance s e om = Some (st, s1)" and "agrees s cur"
  shows "sampled s1 = sampled s \<union> (if xtag e = Some ''SampleLeaf'' then tree_id ` set_option cur else {})"
proof (cases "complete e")
  case False
  then have "st_defect st \<noteq> None" using shapedD(1) [OF step_shape [OF assms(1,2)]] by simp
  then have "s1 = s" using advance_row [OF assms(1,2)] by metis
  with False show ?thesis using sample_complete by auto
next
  case True
  note shape = shapedD [OF step_shape [OF assms(1,2)]]
  have "st_defect st = None" using shape(1) True by simp
  then have s1: "set s1 = set (st_establishes st) \<union> {f \<in> set s. f_kind f \<notin> set (st_clears st)}"
    using advance_row [OF assms(1,2)] set_after by metis
  have "SAMPLED_TREE \<notin> set (st_clears st)" using shape(2,3) by (cases "travels e") (simp_all add: kinds)
  with s1 have *: "sampled s1 = {t. Fact SAMPLED_TREE t \<in> set (st_establishes st)} \<union> sampled s"
    by (auto simp: sampled_def)
  show ?thesis
  proof (cases "xtag e = Some ''SampleLeaf''")
    case True
    have "st_establishes st = (case cur of None \<Rightarrow> [] | Some m \<Rightarrow> [Fact SAMPLED_TREE (tree_id m)])"
      using shape(8) [OF True] agrees_holding [OF assms(3)] by (cases cur) simp_all
    with True * show ?thesis by (cases cur) auto
  next
    case False
    then have "{t. Fact SAMPLED_TREE t \<in> set (st_establishes st)} = {}" using shape(9) [OF False] by force
    with False * show ?thesis by simp
  qed
qed

lemma walk_sampled:
  "\<lbrakk>\<forall>e \<in> set es. is_action e; agrees s cur; walk om s es = Some (sts, s')\<rbrakk> \<Longrightarrow>
    sampled s' = sampled s \<union> (snd \<circ> snd) ` set (samples cur es)"
proof (induction es arbitrary: s cur sts)
  case (Cons e es)
  obtain st s1 where st: "advance s e om = Some (st, s1)" using advance_action [of e s om] Cons.prems(1) by auto
  then obtain sts1 where "walk om s1 es = Some (sts1, s')" using Cons.prems(3) by (auto split: option.splits)
  moreover have "agrees s1 (stands cur e)" "is_action e"
    using agrees_advance [OF _ st Cons.prems(2)] Cons.prems(1) by auto
  ultimately have "sampled s' = sampled s1 \<union> (snd \<circ> snd) ` set (samples (stands cur e) es)"
    using Cons.IH Cons.prems(1) by simp
  then show ?case
    using advance_sampled [OF \<open>is_action e\<close> st Cons.prems(2)] by (cases cur) (auto simp: image_Un)
qed simp

text \<open>
  The state a walk reaches says where the robot stands and what it has sampled. It holds one
  position and one aisle at most; it is at a tree exactly when the last complete travelling move
  approached that tree; and the sampled trees are those the samples so far were taken at, whatever
  happened since. The walk never fails: every action of a document is in the table.
\<close>

lemma state_follows_the_plan:
  "\<exists>sts s. walk om [] (actions_in doc) = Some (sts, s) \<and> length sts = length (actions_in doc) \<and> exclusive s \<and>
     (\<forall>t. Fact AT_TREE t \<in> set s \<longleftrightarrow> (\<exists>m. standing (actions_in doc) = Some m \<and> t = tree_id m)) \<and>
     sampled s = (snd \<circ> snd) ` set (samples None (actions_in doc))"
proof -
  obtain sts s where *: "walk om [] (actions_in doc) = Some (sts, s)"
    "agrees s (foldl stands None (actions_in doc))" "length sts = length (actions_in doc)"
    by (rule walk_agrees [OF actions_are_actions agrees_Nil])
  have "sampled s = (snd \<circ> snd) ` set (samples None (actions_in doc))"
    using walk_sampled [OF actions_are_actions agrees_Nil *(1)] by (simp add: sampled_def)
  then show ?thesis using * by (auto simp: agrees_def standing_def)
qed

lemma gate_exact:
  "violations doc om = Some [] \<longleftrightarrow>
     (\<forall>before e later. actions_in doc = before @ e # later \<longrightarrow>
        complete e \<and> (xtag e = Some ''SampleLeaf'' \<longrightarrow> standing before \<noteq> None))"
proof -
  obtain sts s where *: "walk om [] (actions_in doc) = Some (sts, s)"
    "agrees s (foldl stands None (actions_in doc))" "length sts = length (actions_in doc)"
    "\<And>i. i < length (actions_in doc) \<Longrightarrow> step_violation (sts ! i) = None \<longleftrightarrow>
       complete (actions_in doc ! i) \<and> (xtag (actions_in doc ! i) = Some ''SampleLeaf'' \<longrightarrow>
         foldl stands None (take i (actions_in doc)) \<noteq> None)"
    by (rule walk_agrees [of "actions_in doc" "[]" None om, OF actions_are_actions agrees_Nil]; rule that; assumption?; simp)
  have "List.map_filter step_violation xs = [] \<longleftrightarrow> (\<forall>st \<in> set xs. step_violation st = None)" for xs
    by (induction xs) (auto simp: List.map_filter_simps split: option.splits)
  then have "violations doc om = Some [] \<longleftrightarrow> (\<forall>i < length (actions_in doc). step_violation (sts ! i) = None)"
    using *(1,3) by (simp add: violations_def all_set_conv_all_nth)
  also have "\<dots> \<longleftrightarrow> (\<forall>i < length (actions_in doc). complete (actions_in doc ! i) \<and>
      (xtag (actions_in doc ! i) = Some ''SampleLeaf'' \<longrightarrow> standing (take i (actions_in doc)) \<noteq> None))"
    using *(4) by (simp add: standing_def)
  also have "\<dots> \<longleftrightarrow> (\<forall>before e later. actions_in doc = before @ e # later \<longrightarrow>
        complete e \<and> (xtag e = Some ''SampleLeaf'' \<longrightarrow> standing before \<noteq> None))" (is "?I \<longleftrightarrow> ?S")
  proof
    assume I: ?I
    show ?S
    proof (intro allI impI)
      fix before e later assume "actions_in doc = before @ e # later"
      then show "complete e \<and> (xtag e = Some ''SampleLeaf'' \<longrightarrow> standing before \<noteq> None)"
        using I [rule_format, of "length before"] by simp
    qed
  next
    assume S: ?S
    show ?I
    proof (intro allI impI)
      fix i assume "i < length (actions_in doc)"
      then show "complete (actions_in doc ! i) \<and>
          (xtag (actions_in doc ! i) = Some ''SampleLeaf'' \<longrightarrow> standing (take i (actions_in doc)) \<noteq> None)"
        by (intro S [rule_format, where later = "drop (Suc i) (actions_in doc)"] id_take_nth_drop)
    qed
  qed
  finally show ?thesis .
qed


text \<open>The criterion action by action.\<close>

fun run_ok :: "xml option \<Rightarrow> xml list \<Rightarrow> bool" where
  "run_ok cur [] = True"
| "run_ok cur (e # es) =
     (complete e \<and> (xtag e = Some ''SampleLeaf'' \<longrightarrow> cur \<noteq> None) \<and> run_ok (stands cur e) es)"

lemma run_ok_split:
  "run_ok cur es \<Longrightarrow> es = before @ e # later \<Longrightarrow>
    complete e \<and> (xtag e = Some ''SampleLeaf'' \<longrightarrow> foldl stands cur before \<noteq> None)"
  by (induction cur es arbitrary: before rule: run_ok.induct) (auto simp: Cons_eq_append_conv)

lemma gate_run: "run_ok None (actions_in doc) \<Longrightarrow> violations doc om = Some []"
  unfolding gate_exact standing_def using run_ok_split by blast

text \<open>
  C20: the precondition gate is exact. A plan has no violation exactly when every move names its
  place and every sample is taken where the last complete move before it, in document order,
  approached a tree and stopped there. The orchard plays no part.
\<close>

theorem gate_is_exact:
  "violations doc om = Some [] \<longleftrightarrow>
     (\<forall>before e later. actions_in doc = before @ e # later \<longrightarrow>
        complete e \<and> (xtag e = Some ''SampleLeaf'' \<longrightarrow> standing before \<noteq> None))"
  by (rule gate_exact)

definition lone_sample :: xml where
  "lone_sample = Node 1 (Some ''SampleLeaf'') [] [] []"

theorem gate_is_exact_witness: "violations (Node 0 (Some ''Sequence'') [] [] [lone_sample]) None \<noteq> Some []"
proof -
  have "actions_in (Node 0 (Some ''Sequence'') [] [] [lone_sample]) = [] @ lone_sample # []" by code_simp
  moreover have "xtag lone_sample = Some ''SampleLeaf''" "standing [] = None" by (simp_all add: lone_sample_def)
  ultimately show ?thesis
    using gate_is_exact [of "Node 0 (Some ''Sequence'') [] [] [lone_sample]" None] by blast
qed

lemma bindings_samples:
  "\<lbrakk>\<forall>e \<in> set es. is_action e; agrees s cur;
    (case cur of None \<Rightarrow> True | Some m \<Rightarrow> approach m \<and> map_of last_move (tree_id m) = Some m)\<rbrakk> \<Longrightarrow>
   bindings_from om s last_move es = Some (samples cur es)"
proof (induction es arbitrary: s cur last_move)
  case (Cons e es)
  have e: "is_action e" using Cons.prems(1) by simp
  obtain st s1 where st: "advance s e om = Some (st, s1)" by (rule advance_action [OF e])
  define last1 where "last1 = (if xtag e = Some ''MoveToTreeID'' \<and> approaches e
      then AList.update (strip (attr_or_empty ''id'' e)) e last_move else last_move)"
  have ag: "agrees s1 (stands cur e)" by (rule agrees_advance [OF e st Cons.prems(2)])
  have nxt: "case stands cur e of None \<Rightarrow> True | Some m \<Rightarrow> approach m \<and> map_of last1 (tree_id m) = Some m"
  proof (cases "approach e")
    case True
    then show ?thesis by (simp add: stands_def last1_def approach_def tree_id_def update_conv')
  next
    case False
    show ?thesis
    proof (cases "travels e")
      case False
      have "last1 = last_move \<or> strip (attr_or_empty ''id'' e) = []"
        using False \<open>\<not> approach e\<close> by (auto simp: last1_def approach_def complete_def)
      then show ?thesis
        using False \<open>\<not> approach e\<close> Cons.prems(3)
        by (auto simp: stands_def last1_def update_conv' approach_def complete_def tree_id_def split: option.splits)
    qed (simp add: stands_def \<open>\<not> approach e\<close>)
  qed
  have rec: "bindings_from om s1 last1 es = Some (samples (stands cur e) es)"
    using Cons.IH [OF _ ag nxt] Cons.prems(1) by simp
  note shape = shapedD [OF step_shape [OF e st]]
  show ?case
  proof (cases "xtag e = Some ''SampleLeaf''")
    case True
    then have last: "last1 = last_move" by (simp add: last1_def)
    have "st_establishes st = (case cur of None \<Rightarrow> [] | Some m \<Rightarrow> [Fact SAMPLED_TREE (tree_id m)])"
      using shape(8) [OF True] agrees_holding [OF Cons.prems(2)] by (cases cur) simp_all
    then show ?thesis
      using True rec last Cons.prems(3) st
      by (cases cur) (simp_all add: last1_def [symmetric] Let_def)
  next
    case False
    then show ?thesis using rec st by (cases cur) (simp_all add: last1_def [symmetric] Let_def)
  qed
qed simp

text \<open>
  A sample belongs to the tree the robot stands at. The bindings the planner prunes by, and by
  which a finished leaf becomes a finished tree, are the samples of the plan in order, each with
  the approach it is taken at, and are never refused; the orchard plays no part.
\<close>

lemma samples_bind_to_the_approach:
  "objective_bindings doc om = Some (samples None (actions_in doc))"
  unfolding objective_bindings_def
  by (rule bindings_samples [OF actions_are_actions agrees_Nil]) simp


end
