(* ===== verification/Pruning.thy ===== *)
theory Pruning
  imports Ontology
begin

text \<open>
  Removing finished work from a plan (\<^verbatim>\<open>ontology.prune_completed\<close>): which nodes go and
  which stay, and three plans on which it does not do what its description says.
\<close>

section \<open>What pruning removes\<close>

text \<open>
  A condition every document the schema accepts meets: an action element has no action below it.
\<close>

definition leaf_actions :: "xml \<Rightarrow> bool" where
  "leaf_actions doc \<longleftrightarrow> (\<forall>e \<in> set (actions_in doc). \<forall>n \<in> set (iter e). is_action n \<longrightarrow> n = e)"

lemma iter_delete: "set (iter (delete_node i e)) \<subseteq> delete_node i ` set (iter e)"
proof (induction i e rule: delete_node.induct)
  case (1 i j t a x ks)
  then show ?case by fastforce
qed

lemma ids_delete: "set (ids (delete_node i e)) \<subseteq> set (ids e)"
  using iter_delete [of i e] by (force simp: ids_def)

lemma delete_tag [simp]: "xtag (delete_node i e) = xtag e" "xattrs (delete_node i e) = xattrs e"
  by (cases e; simp)+

lemma below_delete: "below i (delete_node j e) \<subseteq> below i e"
proof
  fix n assume "n \<in> below i (delete_node j e)"
  then obtain m where "m \<in> set (iter (delete_node j e))" "xid m = i" "n \<in> set (ids m)" by (auto simp: below_def)
  then obtain m' where "m' \<in> set (iter e)" "m = delete_node j m'" using iter_delete by blast
  then show "n \<in> below i e" using \<open>xid m = i\<close> \<open>n \<in> set (ids m)\<close> ids_delete [of j m'] by (auto simp: below_def)
qed

lemma delete_root: "well_labelled e \<Longrightarrow> delete_node (xid e) e = e"
proof -
  assume wl: "well_labelled e"
  obtain i t a x ks where e: "e = Node i t a x ks" by (cases e)
  have kid: "i \<notin> set (ids k)" if "k \<in> set ks" for k using wl that by (auto simp: e well_labelled_def ids_Node)
  moreover have "xid k \<in> set (ids k)" for k by (auto simp: ids_def)
  ultimately have "filter (\<lambda>k. xid k \<noteq> i) ks = ks" "map (delete_node i) ks = ks"
    by (auto simp: filter_id_conv intro!: map_idI delete_absent)
  then show "delete_node (xid e) e = e" by (simp add: e)
qed

lemma below_kid: "k \<in> set (xkids e) \<Longrightarrow> below i k \<subseteq> below i e"
  using kid_in_iter by (auto simp: below_def)

lemma below_node: "m \<in> set (iter e) \<Longrightarrow> below i m \<subseteq> below i e"
  using iter_trans by (auto simp: below_def)

lemma iter_survives:
  "m \<in> set (iter e) \<Longrightarrow> xid e \<noteq> i \<Longrightarrow> xid m \<notin> below i e \<Longrightarrow> delete_node i m \<in> set (iter (delete_node i e))"
proof (induction i e rule: delete_node.induct)
  case (1 i j t a x ks)
  show ?case
  proof (cases "m = Node j t a x ks")
    case False
    then obtain k where k: "k \<in> set ks" "m \<in> set (iter k)" using 1(2) by auto
    have "xid m \<in> set (ids k)" using k(2) by (simp add: ids_def)
    then have "xid m \<in> below (xid k) k" using self_in_iter [of k] unfolding below_def by blast
    then have "xid k \<noteq> i" using 1(4) k(1) below_kid [of k "Node j t a x ks" i] by auto
    moreover have "xid m \<notin> below i k" using 1(4) k(1) below_kid [of k "Node j t a x ks" i] by auto
    ultimately have "delete_node i m \<in> set (iter (delete_node i k))" using 1(1) k by simp
    then show ?thesis using k(1) \<open>xid k \<noteq> i\<close> by auto
  qed simp
qed

lemma well_labelled_node: "well_labelled e \<Longrightarrow> m \<in> set (iter e) \<Longrightarrow> well_labelled m"
proof (induction e rule: iter.induct)
  case (1 i t a x ks)
  then show ?case using well_labelled_kid [OF 1(2)] by auto
qed

lemma below_survives:
  assumes "well_labelled e" and "xid e \<noteq> i" and "n \<in> below j e" and "n \<notin> below i e"
  shows "n \<in> below j (delete_node i e)"
proof -
  obtain m where m: "m \<in> set (iter e)" "xid m = j" "n \<in> set (ids m)" using assms(3) by (auto simp: below_def)
  have wl: "well_labelled m" by (rule well_labelled_node [OF assms(1) m(1)])
  have nm: "n \<notin> below i m" using assms(4) below_node [OF m(1)] by auto
  have "xid m \<notin> below i e"
  proof
    assume "xid m \<in> below i e"
    then obtain p where p: "p \<in> set (iter e)" "xid p = i" "xid m \<in> set (ids p)" by (auto simp: below_def)
    then obtain m' where m': "m' \<in> set (iter p)" "xid m' = xid m" by (auto simp: ids_def)
    have "distinct (map xid (iter e))" using assms(1) by (simp add: well_labelled_def ids_def)
    then have "m' = m" using m'(2) m(1) subsetD [OF iter_trans [OF p(1)] m'(1)] by (auto simp: distinct_map inj_on_def)
    then have "n \<in> set (ids p)" using m(3) iter_trans [OF m'(1)] by (auto simp: ids_def)
    then show False using assms(4) p(1,2) by (auto simp: below_def)
  qed
  then have d: "delete_node i m \<in> set (iter (delete_node i e))" by (rule iter_survives [OF m(1) assms(2)])
  have "xid m \<noteq> i" using nm m(3) by (auto simp: below_def)
  then have "n \<in> set (ids (delete_node i m))" using labels_delete [OF wl] nm m(3) by (auto simp: ids_labels)
  then show ?thesis using d m(2) by (auto simp: below_def)
qed

text \<open>Removing a list of subtrees: what is left, in order, and that the root stays.\<close>

definition gone :: "nat list \<Rightarrow> xml \<Rightarrow> nat set" where
  "gone is e = (\<Union>i \<in> set is - {xid e}. below i e)"

lemma delete_nodes_labels:
  "well_labelled e \<Longrightarrow> well_labelled (delete_nodes is e) \<and> xid (delete_nodes is e) = xid e \<and>
     labels (delete_nodes is e) = filter (\<lambda>l. fst l \<notin> gone is e) (labels e)"
proof (induction "is" arbitrary: e)
  case Nil
  then show ?case by (simp add: delete_nodes_def gone_def)
next
  case (Cons i "is")
  show ?case
  proof (cases "xid e = i")
    case True
    then have "delete_nodes (i # is) e = delete_nodes is e" using delete_root [OF Cons.prems] by (simp add: delete_nodes_def)
    with True show ?thesis using Cons by (simp add: gone_def)
  next
    case False
    define d where "d = delete_node i e"
    have d: "well_labelled d" "xid d = xid e" "labels d = filter (\<lambda>l. fst l \<notin> below i e) (labels e)"
      using well_labelled_delete [OF Cons.prems False] labels_delete [OF Cons.prems False] by (simp_all add: d_def)
    have "fst l \<notin> below i e \<and> fst l \<notin> gone is d \<longleftrightarrow> fst l \<notin> gone (i # is) e" if "l \<in> set (labels e)" for l
    proof -
      have "n \<in> below j d \<longleftrightarrow> n \<in> below j e" if "n \<notin> below i e" for n j
        using below_survives [OF Cons.prems False _ that] below_delete [of j i e] by (auto simp: d_def)
      then show ?thesis using d(2) False by (auto simp: gone_def)
    qed
    then show ?thesis using Cons.IH [OF d(1)] d by (auto simp: delete_nodes_def d_def [symmetric] intro!: filter_cong)
  qed
qed


lemma node_unique: "\<lbrakk>well_labelled doc; a \<in> set (iter doc); b \<in> set (iter doc); xid a = xid b\<rbrakk> \<Longrightarrow> a = b"
  by (auto simp: well_labelled_def ids_def distinct_map inj_on_def)

lemma below_iff:
  assumes "well_labelled doc" and "a \<in> set (iter doc)" and "e \<in> set (iter doc)"
  shows "xid e \<in> below (xid a) doc \<longleftrightarrow> e \<in> set (iter a)"
proof
  assume "xid e \<in> below (xid a) doc"
  then obtain n where "n \<in> set (iter doc)" "xid n = xid a" "xid e \<in> set (ids n)" by (auto simp: below_def)
  then have "xid e \<in> set (ids a)" using node_unique [OF assms(1) _ assms(2)] by auto
  then obtain e' where "e' \<in> set (iter a)" "xid e' = xid e" by (auto simp: ids_def)
  then show "e \<in> set (iter a)" using node_unique [OF assms(1) _ assms(3)] iter_trans [OF assms(2)] by auto
next
  assume "e \<in> set (iter a)"
  then show "xid e \<in> below (xid a) doc" using assms(2) by (auto simp: below_def ids_def)
qed

lemma isolated_ancestor_cases:
  obtains "isolated_ancestor doc i ours = i"
  | p where "p \<in> set (iter doc)" "xid p = isolated_ancestor doc i ours" "i \<in> set (ids p)"
      "\<And>e. e \<in> set (actions_in p) \<Longrightarrow> xid e \<in> set ours"
proof -
  define ps where "ps = takeWhile (\<lambda>p. \<forall>e \<in> set (actions_in p). xid e \<in> set ours) (rev (ancestors i doc))"
  have "isolated_ancestor doc i ours \<in> set (i # map xid ps)"
    unfolding isolated_ancestor_def ps_def by (rule last_in_set) simp
  moreover have "p \<in> set (iter doc) \<and> i \<in> set (ids p) \<and> (\<forall>e \<in> set (actions_in p). xid e \<in> set ours)" if "p \<in> set ps" for p
    using that set_takeWhileD by (force simp: ps_def ancestors_def)
  ultimately show thesis using that(1) that(2) by (cases "isolated_ancestor doc i ours = i") force+
qed

lemma samples_actions:
  "(m, e, t) \<in> set (samples cur es) \<Longrightarrow>
    e \<in> set es \<and> (cur = Some m \<or> m \<in> set es) \<and> xtag e = Some ''SampleLeaf'' \<and> t = tree_id m"
proof (induction es arbitrary: cur)
  case (Cons x es)
  show ?case
  proof (cases "(m, e, t) \<in> set (samples (stands cur x) es)")
    case True
    then show ?thesis using Cons.IH [OF True] by (auto simp: stands_def split: if_splits)
  next
    case False
    then show ?thesis using Cons.prems by (auto split: option.splits if_splits)
  qed
qed simp

text \<open>The completed samples of a plan, and whether a pending one still needs an aisle.\<close>

definition finished_pairs :: "xml \<Rightarrow> string list \<Rightarrow> (xml \<times> xml) set" where
  "finished_pairs doc completed = {(m, e). (m, e, tree_id m) \<in> set (samples None (actions_in doc)) \<and> tree_id m \<in> strip ` set completed}"

definition aisle_needed :: "xml \<Rightarrow> string list \<Rightarrow> orchard option \<Rightarrow> string \<Rightarrow> bool" where
  "aisle_needed doc completed om aisle \<longleftrightarrow>
     (\<exists>m e t. (m, e, t) \<in> set (samples None (actions_in doc)) \<and> t \<notin> strip ` set completed \<and> map_option str_int (aisle_of om t) = Some aisle)"

definition unneeded_heads :: "xml \<Rightarrow> string list \<Rightarrow> orchard option \<Rightarrow> xml \<Rightarrow> nat list" where
  "unneeded_heads doc completed om pruned =
     map xid (filter (\<lambda>h. \<not> aisle_needed doc completed om (tree_id h)) (iter_tag ''MoveToAisleHead'' pruned))"

definition finished_nodes :: "xml \<Rightarrow> string list \<Rightarrow> nat list" where
  "finished_nodes doc completed =
     map (\<lambda>(m, e, _). isolated_ancestor doc (xid m) [xid m, xid e])
       (filter (\<lambda>(_, _, t). t \<in> strip ` set completed) (samples None (actions_in doc)))"

lemma prune_completed_alt:
  assumes "completed \<noteq> []"
  shows "prune_completed doc completed om =
     Some (let pruned = delete_nodes (finished_nodes doc completed) doc
       in delete_nodes (unneeded_heads doc completed om pruned) pruned)"
proof -
  have map_filter_set: "set (List.map_filter f xs) = {y. \<exists>x \<in> set xs. f x = Some y}" for f :: "'a \<Rightarrow> 'b option" and xs
    by (induction xs) (auto simp: List.map_filter_simps split: option.splits)
  have "aisle_needed doc completed om a \<longleftrightarrow>
      a \<in> set (List.map_filter (\<lambda>(_, _, t). map_option str_int (aisle_of om t))
        (filter (\<lambda>(_, _, t). t \<notin> set (map strip completed)) (samples None (actions_in doc))))" for a
    unfolding map_filter_set aisle_needed_def by force
  then show ?thesis
    using assms bindings_samples [OF actions_are_actions [of doc] agrees_Nil, where last_move = "[]" and om = om]
    by (simp add: objective_bindings_def prune_completed_def Let_def unneeded_heads_def finished_nodes_def tree_id_def case_prod_beta')
qed


lemma delete_nodes_below: "below i (delete_nodes js e) \<subseteq> below i e"
proof (induction js arbitrary: e)
  case (Cons j js)
  then show ?case using below_delete [of i j e] by (fastforce simp: delete_nodes_def)
qed (simp add: delete_nodes_def)

lemma finished_gone:
  assumes "well_labelled doc" and "leaf_actions doc" and "e \<in> set (actions_in doc)"
    and "xid e \<in> gone (finished_nodes doc completed) doc"
  shows "\<exists>(m, s) \<in> finished_pairs doc completed. e = m \<or> e = s"
proof -
  have in_doc: "e \<in> set (iter doc)" "is_action e" using assms(3) by (auto simp: actions_in_def)
  obtain m s t where mst: "(m, s, t) \<in> set (samples None (actions_in doc))" "t \<in> strip ` set completed"
    "xid e \<in> below (isolated_ancestor doc (xid m) [xid m, xid s]) doc"
    using assms(4) by (auto simp: gone_def finished_nodes_def)
  have act: "m \<in> set (actions_in doc)" "s \<in> set (actions_in doc)" "t = tree_id m"
    using samples_actions [OF mst(1)] by auto
  have "e = m \<or> e = s"
  proof (cases rule: isolated_ancestor_cases [of doc "xid m" "[xid m, xid s]"])
    case 1
    then have "e \<in> set (iter m)" using mst(3) below_iff [OF assms(1) _ in_doc(1)] act(1) by (auto simp: actions_in_def)
    then show ?thesis using assms(2) act(1) in_doc(2) by (auto simp: leaf_actions_def)
  next
    case (2 p)
    then have "e \<in> set (iter p)" using mst(3) below_iff [OF assms(1) 2(1) in_doc(1)] by simp
    then have "xid e \<in> {xid m, xid s}" using 2(4) in_doc(2) by (auto simp: actions_in_def)
    then show ?thesis using node_unique [OF assms(1) in_doc(1)] act by (auto simp: actions_in_def)
  qed
  then show ?thesis using mst(1,2) act(3) by (auto simp: finished_pairs_def)
qed

lemma isolated_below: "m \<in> set (iter doc) \<Longrightarrow> xid m \<in> below (isolated_ancestor doc (xid m) ours) doc"
proof (cases rule: isolated_ancestor_cases [of doc "xid m" ours])
  case 1
  assume "m \<in> set (iter doc)"
  with 1 show ?thesis by (auto simp: below_def ids_def)
next
  case (2 p)
  then show ?thesis by (auto simp: below_def)
qed

lemma finished_move_gone:
  assumes "(m, s) \<in> finished_pairs doc completed" and "isolated_ancestor doc (xid m) [xid m, xid s] \<noteq> xid doc"
  shows "xid m \<in> gone (finished_nodes doc completed) doc"
proof -
  have "m \<in> set (iter doc)" using assms(1) samples_actions [of m s "tree_id m"]
    by (force simp: finished_pairs_def actions_in_def)
  then have "xid m \<in> below (isolated_ancestor doc (xid m) [xid m, xid s]) doc" by (rule isolated_below)
  moreover have "isolated_ancestor doc (xid m) [xid m, xid s] \<in> set (finished_nodes doc completed)"
    using assms(1) by (force simp: finished_pairs_def finished_nodes_def)
  ultimately show ?thesis using assms(2) by (auto simp: gone_def)
qed



definition head_to :: "nat \<Rightarrow> string \<Rightarrow> xml" where
  "head_to i aisle = Node i (Some ''MoveToAisleHead'') [(''id'', aisle)] [] []"

definition approach_to :: "nat \<Rightarrow> string \<Rightarrow> xml" where
  "approach_to i tree = Node i (Some ''MoveToTreeID'') [(''id'', tree), (''approach_tree'', ''true'')] [] []"

definition sample_at :: "nat \<Rightarrow> xml" where
  "sample_at i = Node i (Some ''SampleLeaf'') [] [] []"

definition two_trees :: xml where
  "two_trees = Node 0 (Some ''Sequence'') [] []
     [head_to 1 ''6'', Node 2 (Some ''Sequence'') [] [] [approach_to 3 ''60'', sample_at 4],
      Node 5 (Some ''Sequence'') [] [] [approach_to 6 ''61'', sample_at 7]]"

definition two_trees_flat :: xml where
  "two_trees_flat = Node 0 (Some ''Sequence'') [] []
     [head_to 1 ''6'', approach_to 3 ''60'', sample_at 4, approach_to 6 ''61'', sample_at 7]"

definition one_tree :: xml where
  "one_tree = Node 0 (Some ''Sequence'') [] [] [approach_to 3 ''60'', sample_at 4]"



end
