(* ===== verification/Task_Names.thy ===== *)
theory Task_Names
  imports Ontology Utf8
begin

text \<open>
  Task identities in a mission (\<^verbatim>\<open>mission/mission_tasks.py\<close>): the declaration a name may carry,
  the CRC an undeclared id is derived from, identifiers.
\<close>

section \<open>Declared ids\<close>

definition TASK_ID_SEPARATOR :: string where "TASK_ID_SEPARATOR = ''__task_''"

definition newline :: char where "newline = char_of (10 :: nat)"

text \<open>
  \<^verbatim>\<open>_DECLARED_ID\<close>, a match of \<^verbatim>\<open>^(?:(?P<label>.+)__)?task_(?P<id>\d+)$\<close>: the anchor also accepts
  before a final newline, and a label has no newline. As an underscore is no digit, the id is the
  longest run of digits at the end, and there is one way to match at most.
\<close>

definition declared_match :: "string \<Rightarrow> (string \<times> int) option" where
  "declared_match s =
     (let body = (if s \<noteq> [] \<and> last s = newline then butlast s else s);
          ds = rev (takeWhile (\<lambda>c. digit c \<noteq> None) (rev body));
          front = take (length body - length ds) body;
          pre = take (length front - 5) front
      in if ds = [] \<or> \<not> suffix ''task_'' front then None
         else if pre = [] then map_option (Pair []) (py_digits ds)
         else let label = take (length pre - 2) pre
              in if suffix ''__'' pre \<and> label \<noteq> [] \<and> newline \<notin> set label
                 then map_option (Pair label) (py_digits ds) else None)"

text \<open>A missing name (\<^verbatim>\<open>None\<close>) is taken as the empty one.\<close>

definition split_declaration :: "string \<Rightarrow> string \<times> int option" where
  "split_declaration name =
     (case declared_match name of
        None \<Rightarrow> (name, None)
      | Some (label, value) \<Rightarrow> if 0 < value \<and> value \<le> TASK_ID_MAX then (label, Some value) else (name, None))"

definition declared_task_id :: "string \<Rightarrow> int option" where
  "declared_task_id name = snd (split_declaration name)"

definition task_label :: "string \<Rightarrow> string" where
  "task_label name = (let label = fst (split_declaration name) in if label = [] then name else label)"

definition ident_char :: "char \<Rightarrow> bool" where
  "ident_char c = (let n = of_char c :: nat in
     48 \<le> n \<and> n \<le> 57 \<or> 65 \<le> n \<and> n \<le> 90 \<or> n = 95 \<or> 97 \<le> n \<and> n \<le> 122)"

definition strip_underscores :: "string \<Rightarrow> string" where
  "strip_underscores s = rev (dropWhile (\<lambda>c. c = CHR ''_'') (rev (dropWhile (\<lambda>c. c = CHR ''_'') s)))"

definition ident :: "string \<Rightarrow> string" where
  "ident s = strip_underscores (map (\<lambda>c. if ident_char c then c else CHR ''_'') s)"

definition name_with_task_id :: "string \<Rightarrow> int \<Rightarrow> string" where
  "name_with_task_id label task_id =
     (let base = ident (fst (split_declaration (ident label)))
      in if base = [] then ''task_'' @ str_int task_id else base @ TASK_ID_SEPARATOR @ str_int task_id)"

section \<open>Derived ids\<close>

text \<open>\<^verbatim>\<open>zlib.crc32\<close>, bit by bit, on integers that stay within 32 bits.\<close>

definition crc32_bit :: "int \<Rightarrow> int" where
  "crc32_bit c = (if odd c then xor (c div 2) 0xEDB88320 else c div 2)"

fun crc32_bits :: "nat \<Rightarrow> int \<Rightarrow> int" where
  "crc32_bits 0 c = c"
| "crc32_bits (Suc k) c = crc32_bits k (crc32_bit c)"

definition crc32_byte :: "byte \<Rightarrow> int \<Rightarrow> int" where
  "crc32_byte b c = crc32_bits 8 (xor c (uint b))"

definition crc32 :: "byte list \<Rightarrow> int" where
  "crc32 bs = xor (fold crc32_byte bs 0xFFFFFFFF) 0xFFFFFFFF"

text \<open>\<^verbatim>\<open>material.encode()\<close>; every code point of a Latin-1 string encodes.\<close>

definition encode_text :: "string \<Rightarrow> byte list" where
  "encode_text s = map of_nat (concat (map utf8_char (map of_char s)))"

definition derived_task_id :: "string \<Rightarrow> int" where
  "derived_task_id material = (if material = [] then 0 else crc32 (encode_text material) mod TASK_ID_MAX + 1)"

section \<open>Declaring and reading back\<close>

lemma digit_ident: "digit c \<noteq> None \<Longrightarrow> ident_char c"
  by (auto simp: digit_def ident_char_def Let_def split: if_splits)

lemma ident_not_newline: "ident_char c \<Longrightarrow> c \<noteq> newline"
  by (auto simp: ident_char_def newline_def Let_def)

lemma set_strip_underscores: "set (strip_underscores s) \<subseteq> set s"
  by (auto simp: strip_underscores_def dest!: set_dropWhileD)

lemma ident_chars: "c \<in> set (ident s) \<Longrightarrow> ident_char c"
proof -
  assume "c \<in> set (ident s)"
  then have "c \<in> set (map (\<lambda>c. if ident_char c then c else CHR ''_'') s)"
    using set_strip_underscores unfolding ident_def by blast
  moreover have "ident_char (CHR ''_'')" by (simp add: ident_char_def)
  ultimately show "ident_char c" by (auto split: if_splits)
qed

lemma strip_underscores_id:
  "s = [] \<or> hd s \<noteq> CHR ''_'' \<and> last s \<noteq> CHR ''_'' \<Longrightarrow> strip_underscores s = s"
proof -
  assume "s = [] \<or> hd s \<noteq> CHR ''_'' \<and> last s \<noteq> CHR ''_''"
  then have "dropWhile (\<lambda>c. c = CHR ''_'') s = s" "dropWhile (\<lambda>c. c = CHR ''_'') (rev s) = rev s"
    by (auto simp: dropWhile_eq_self_iff hd_rev)
  then show ?thesis by (simp add: strip_underscores_def)
qed

lemma ident_id:
  assumes "\<forall>c \<in> set s. ident_char c" and "s = [] \<or> hd s \<noteq> CHR ''_'' \<and> last s \<noteq> CHR ''_''"
  shows "ident s = s"
proof -
  have "map (\<lambda>c. if ident_char c then c else CHR ''_'') s = s" using assms(1) by (simp add: map_idI)
  then show ?thesis using strip_underscores_id [OF assms(2)] by (simp add: ident_def)
qed

lemma strip_underscores_ends:
  "strip_underscores s = [] \<or> hd (strip_underscores s) \<noteq> CHR ''_'' \<and> last (strip_underscores s) \<noteq> CHR ''_''"
proof (cases "strip_underscores s = []")
  case False
  define u where "u = dropWhile (\<lambda>c. c = CHR ''_'') s"
  define v where "v = dropWhile (\<lambda>c. c = CHR ''_'') (rev u)"
  have v: "strip_underscores s = rev v" "v \<noteq> []" using False by (simp_all add: strip_underscores_def u_def v_def)
  have "hd v \<noteq> CHR ''_''" using v(2) hd_dropWhile [of "\<lambda>c. c = CHR ''_''" "rev u"] by (simp add: v_def)
  moreover have "last v \<noteq> CHR ''_''"
  proof -
    have "last v = last (rev u)" using v(2) dropWhile_eq_drop [of _ "rev u"] by (metis last_drop v_def drop_all not_le)
    moreover have "u \<noteq> []" using v(2) by (auto simp: v_def)
    ultimately show ?thesis using hd_dropWhile [of "\<lambda>c. c = CHR ''_''" s] by (simp add: last_rev u_def)
  qed
  ultimately show ?thesis using v by (simp add: hd_rev last_rev)
qed simp

lemma ident_ends: "ident s = [] \<or> hd (ident s) \<noteq> CHR ''_'' \<and> last (ident s) \<noteq> CHR ''_''"
  unfolding ident_def by (rule strip_underscores_ends)

lemma ident_ident: "ident (ident s) = ident s"
  using ident_id [OF _ ident_ends] ident_chars by blast

lemma declared_match_digits:
  assumes "\<forall>c \<in> set ds. digit c \<noteq> None" and "ds \<noteq> []"
  shows "declared_match (''task_'' @ ds) = map_option (Pair []) (py_digits ds)"
    and "\<lbrakk>base \<noteq> []; newline \<notin> set base\<rbrakk> \<Longrightarrow>
      declared_match (base @ ''__task_'' @ ds) = map_option (Pair base) (py_digits ds)"
proof -
  have last: "last (xs @ ds) \<noteq> newline" for xs
    using assms last_in_set [OF assms(2)] digit_ident ident_not_newline by fastforce
  have run: "takeWhile (\<lambda>c. digit c \<noteq> None) (rev (xs @ CHR ''_'' # ds)) = rev ds" for xs
    using assms(1) by (simp add: takeWhile_append digit_def)
  show "declared_match (''task_'' @ ds) = map_option (Pair []) (py_digits ds)"
    using run [of "''task''"] last [of "''task_''"] assms(2)
    by (simp add: declared_match_def Let_def suffix_def)
  show "declared_match (base @ ''__task_'' @ ds) = map_option (Pair base) (py_digits ds)"
    if "base \<noteq> []" "newline \<notin> set base"
    using run [of "base @ ''__task''"] last [of "base @ ''__task_''"] assms(2) that
    by (simp add: declared_match_def Let_def suffix_def)
qed

lemma str_int_pos: "0 < t \<Longrightarrow> str_int t = str_nat (nat t)"
  by (simp add: str_int_def)

lemma split_declared:
  assumes "0 < t" and "t \<le> TASK_ID_MAX"
  shows "split_declaration (''task_'' @ str_int t) = ([], Some t)"
    and "\<lbrakk>base \<noteq> []; newline \<notin> set base\<rbrakk> \<Longrightarrow> split_declaration (base @ TASK_ID_SEPARATOR @ str_int t) = (base, Some t)"
proof -
  have ds: "\<forall>c \<in> set (str_int t). digit c \<noteq> None" "str_int t \<noteq> []" "py_digits (str_int t) = Some t"
    using str_nat_digits str_nat_not_Nil assms(1) by (simp_all add: str_int_pos)
  show "split_declaration (''task_'' @ str_int t) = ([], Some t)"
    using declared_match_digits(1) [OF ds(1,2)] ds(3) assms by (simp add: split_declaration_def)
  show "split_declaration (base @ TASK_ID_SEPARATOR @ str_int t) = (base, Some t)" if "base \<noteq> []" "newline \<notin> set base"
    using declared_match_digits(2) [OF ds(1,2) that] ds(3) assms by (simp add: split_declaration_def TASK_ID_SEPARATOR_def)
qed

lemma declared_roundtrip:
  assumes "0 < t" and "t \<le> TASK_ID_MAX" and "0 < u" and "u \<le> TASK_ID_MAX"
  shows "declared_task_id (name_with_task_id label t) = Some t \<and>
     (\<forall>c \<in> set (name_with_task_id label t). ident_char c) \<and>
     task_label (name_with_task_id label t) \<in> {ident (fst (split_declaration (ident label))), ''task_'' @ str_int t} \<and>
     name_with_task_id (name_with_task_id label t) u = name_with_task_id label u"
proof -
  define base where "base = ident (fst (split_declaration (ident label)))"
  have ic: "ident_char c" if "c \<in> set base" for c using that ident_chars by (simp add: base_def)
  then have nl: "newline \<notin> set base" using ident_not_newline by blast
  have dg: "ident_char c" if "c \<in> set (str_int t)" for c
    using that str_nat_digits [of c "nat t"] digit_ident assms(1) by (simp add: str_int_pos)
  have lit: "\<forall>c \<in> set (''__task_''). ident_char c" by (simp add: ident_char_def)
  have last_digit: "last (str_int t) \<noteq> CHR ''_''"
  proof -
    have "digit (last (str_int t)) \<noteq> None"
      using str_nat_digits str_nat_not_Nil assms(1) last_in_set by (metis str_int_pos)
    then show ?thesis by (auto simp: digit_def)
  qed
  have ne: "str_int t \<noteq> []" using str_nat_not_Nil assms(1) by (simp add: str_int_pos)
  show ?thesis
  proof (cases "base = []")
    case True
    then have n: "name_with_task_id label v = ''task_'' @ str_int v" for v
      by (simp add: name_with_task_id_def base_def [symmetric])
    have "ident (''task_'' @ str_int t) = ''task_'' @ str_int t"
      using dg lit last_digit ne by (intro ident_id) auto
    moreover have "ident [] = []" by (simp add: ident_def strip_underscores_def)
    ultimately have "name_with_task_id (''task_'' @ str_int t) u = ''task_'' @ str_int u"
      using split_declared(1) [OF assms(1,2)] by (simp add: name_with_task_id_def)
    then show ?thesis
      using n split_declared(1) [OF assms(1,2)] dg lit by (auto simp: declared_task_id_def task_label_def)
  next
    case False
    then have n: "name_with_task_id label v = base @ TASK_ID_SEPARATOR @ str_int v" for v
      by (simp add: name_with_task_id_def base_def [symmetric])
    have hd: "hd base \<noteq> CHR ''_''" using ident_ends False unfolding base_def by blast
    have chars: "\<forall>c \<in> set (base @ TASK_ID_SEPARATOR @ str_int t). ident_char c"
      using ic dg lit by (auto simp: TASK_ID_SEPARATOR_def)
    have "ident (base @ TASK_ID_SEPARATOR @ str_int t) = base @ TASK_ID_SEPARATOR @ str_int t"
      using chars last_digit ne hd False by (intro ident_id) auto
    moreover have "ident base = base" using ident_ident by (simp add: base_def)
    ultimately have "name_with_task_id (base @ TASK_ID_SEPARATOR @ str_int t) u = base @ TASK_ID_SEPARATOR @ str_int u"
      using split_declared(2) [OF assms(1,2) False nl] False by (simp add: name_with_task_id_def)
    then show ?thesis
      using n split_declared(2) [OF assms(1,2) False nl] chars False
      by (simp add: declared_task_id_def task_label_def base_def [symmetric])
  qed
qed

text \<open>
  A declared id is read back. The name given to a rebuilt unit is one the schema accepts, it
  declares exactly the id it was given, taking the declaration off leaves the label, and declaring
  another id replaces the first.
\<close>

lemma declared_id_roundtrip:
  assumes "0 < t" and "t \<le> TASK_ID_MAX" and "0 < u" and "u \<le> TASK_ID_MAX"
  shows "declared_task_id (name_with_task_id label t) = Some t \<and>
     (\<forall>c \<in> set (name_with_task_id label t). ident_char c) \<and>
     task_label (name_with_task_id label t) \<in> {ident (fst (split_declaration (ident label))), ''task_'' @ str_int t} \<and>
     name_with_task_id (name_with_task_id label t) u = name_with_task_id label u"
  by (rule declared_roundtrip [OF assms])

lemma declared_id_roundtrip_witness:
  "declared_task_id (name_with_task_id ''Tree 60!'' 5) = Some 5"
  using declared_id_roundtrip [of 5 7 "''Tree 60!''"] by (simp add: TASK_ID_MAX_def)

lemma derived_id_range: "material \<noteq> [] \<Longrightarrow> 0 < derived_task_id material \<and> derived_task_id material \<le> TASK_ID_MAX"
  using pos_mod_bound [of TASK_ID_MAX "crc32 (encode_text material)"] pos_mod_sign [of TASK_ID_MAX "crc32 (encode_text material)"]
  by (simp add: derived_task_id_def TASK_ID_MAX_def)

lemma declared_id_range: "declared_task_id name = Some t \<Longrightarrow> 0 < t \<and> t \<le> TASK_ID_MAX"
  by (auto simp: declared_task_id_def split_declaration_def split: option.splits if_splits)


end
