(* ===== verification/Mission_Tasks.thy ===== *)
theory Mission_Tasks
  imports Task_Names Pruning
begin

text \<open>
  Missions and the tasks the fleet can trade (\<^verbatim>\<open>mission/mission_tasks.py\<close>): splitting a mission
  into units, naming them, cutting one out, grafting one in, and rebuilding one from the fields
  an announcement carries. A generator is the list of what it yields and whether it then raises
  (the ontology's error, a \<^verbatim>\<open>ValueError\<close>). Serialising a subtree and parsing it again keeps the
  tree and gives its elements new identities; parsing itself is lxml's, so a mission is the
  \<open>xml option\<close> that \<^verbatim>\<open>parse\<close> returns.
\<close>

section \<open>Vocabulary\<close>

definition CONTROL_TAGS :: "string list" where
  "CONTROL_TAGS = [''Sequence'', ''ReactiveSequence'', ''Fallback'', ''RetryUntilSuccessful'']"

definition TARGET_ACTIONS :: "string list" where
  "TARGET_ACTIONS = [''MoveToTreeID'', ''MoveToAisleHead'', ''ApproachGPSWaypoint'', ''MoveToGPSLocation'']"

definition MOVEMENT_ACTIONS :: "string list" where
  "MOVEMENT_ACTIONS = TARGET_ACTIONS @ [''MoveToRelativeLocation'', ''OrientRobotHeading'']"

definition DEFAULT_PRIORITY :: int where "DEFAULT_PRIORITY = 100"

definition is_control :: "xml \<Rightarrow> bool" where
  "is_control e \<longleftrightarrow> has_tag (set CONTROL_TAGS) e"

record mission_task =
  mt_task_id :: int
  mt_name :: string
  mt_capabilities :: int
  mt_target :: target
  mt_priority :: int
  mt_xml :: "xml option"

definition mt_delegable :: "mission_task \<Rightarrow> bool" where
  "mt_delegable task \<longleftrightarrow> placed (mt_target task)"

section \<open>Fields of a subtree\<close>

text \<open>The mask of the actions anywhere under a node; every member fits the mask, so it never raises.\<close>

definition capabilities_of :: "xml \<Rightarrow> int" where
  "capabilities_of e =
     (case cap_mask (map cap_index (List.map_filter (\<lambda>n. Option.bind (xtag n) capability_by_element) (iter e))) of
        Inl _ \<Rightarrow> 0 | Inr m \<Rightarrow> m)"

definition built :: "py_exn + target \<Rightarrow> target option" where
  "built r = (case r of Inl _ \<Rightarrow> None | Inr t \<Rightarrow> Some t)"

definition index_target :: "string option \<Rightarrow> (int \<Rightarrow> py_exn + target) \<Rightarrow> target option" where
  "index_target raw build = Option.bind (Option.bind raw py_int) (\<lambda>i. built (build i))"

definition target_of_action :: "xml \<Rightarrow> target option" where
  "target_of_action e =
     (if xtag e = Some ''MoveToTreeID'' then
        (if \<not> approaches e then None else index_target (attr ''id'' e) target_tree)
      else if xtag e = Some ''MoveToAisleHead'' then index_target (attr ''id'' e) target_aisle
      else case (Option.bind (attr ''latitude'' e) py_float, Option.bind (attr ''longitude'' e) py_float) of
        (Some lat, Some lon) \<Rightarrow> built (target_gps lat lon)
      | _ \<Rightarrow> None)"

definition no_target :: target where
  "no_target = \<lparr>tg_kind = NONE, tg_a = 0, tg_b = 0\<rparr>"

fun first_some :: "('a \<Rightarrow> 'b option) \<Rightarrow> 'a list \<Rightarrow> 'b option" where
  "first_some f [] = None"
| "first_some f (x # xs) = (case f x of None \<Rightarrow> first_some f xs | Some y \<Rightarrow> Some y)"

definition target_of :: "xml \<Rightarrow> target" where
  "target_of e =
     (case first_some (\<lambda>t. first_some target_of_action (iter_tag t e)) TARGET_ACTIONS of
        None \<Rightarrow> no_target | Some t \<Rightarrow> t)"

text \<open>The name of a node if it is not empty.\<close>

definition own_name :: "xml \<Rightarrow> string option" where
  "own_name e = (case attr ''name'' e of Some n \<Rightarrow> if n = [] then None else Some n | None \<Rightarrow> None)"

definition name_of :: "xml \<Rightarrow> string" where
  "name_of e =
     (case own_name e of
        Some n \<Rightarrow> n
      | None \<Rightarrow>
          (case first_some (\<lambda>t. first_some (\<lambda>n. if target_of_action n \<noteq> None then own_name n else None) (iter_tag t e))
                  TARGET_ACTIONS of
             Some n \<Rightarrow> n
           | None \<Rightarrow> (case first_some own_name (actions_in e) of Some n \<Rightarrow> n | None \<Rightarrow> [])))"

definition join :: "string \<Rightarrow> string list \<Rightarrow> string" where
  "join sep ss = concat (case ss of [] \<Rightarrow> [] | s # rest \<Rightarrow> s # map (\<lambda>t. sep @ t) rest)"

definition task_id_of :: "xml \<Rightarrow> string \<Rightarrow> int" where
  "task_id_of e name =
     (case declared_task_id (attr_or_empty ''name'' e) of
        Some d \<Rightarrow> d
      | None \<Rightarrow> derived_task_id
          (if name \<noteq> [] then name
           else join '' '' (map (\<lambda>n. case own_name n of Some m \<Rightarrow> m | None \<Rightarrow> the (xtag n)) (actions_in e))))"

definition priority_of_node :: "xml \<Rightarrow> int" where
  "priority_of_node e =
     (case Option.bind (attr ''priority'' e) py_int of
        None \<Rightarrow> DEFAULT_PRIORITY
      | Some v \<Rightarrow> if 0 \<le> v \<and> v \<le> PRIORITY_MAX then v else DEFAULT_PRIORITY)"

section \<open>Units\<close>

text \<open>A unit is a task and the elements it consists of.\<close>

type_synonym unit_of_work = "mission_task \<times> xml list"
type_synonym 'a gen = "'a list \<times> bool"

fun gen_concat :: "'a gen list \<Rightarrow> 'a gen" where
  "gen_concat [] = ([], False)"
| "gen_concat ((xs, raised) # gs) =
     (if raised then (xs, True) else case gen_concat gs of (ys, r) \<Rightarrow> (xs @ ys, r))"

definition task_of :: "xml \<Rightarrow> mission_task option" where
  "task_of node =
     (if capabilities_of node = 0 then None
      else let name = name_of node
           in Some \<lparr>mt_task_id = task_id_of node name, mt_name = task_label name, mt_capabilities = capabilities_of node,
                mt_target = target_of node, mt_priority = priority_of_node node, mt_xml = Some node\<rparr>)"

definition task_of_group :: "xml \<Rightarrow> xml list \<Rightarrow> mission_task option" where
  "task_of_group parent leaves =
     (if leaves = [] then None
      else let name = name_of (Node 0 (Some ''Sequence'') [] [] leaves);
               grp = Node 0 (Some ''Sequence'') [(''name'', if name = [] then ''task'' else name)] [] leaves
           in Some \<lparr>mt_task_id = task_id_of grp name, mt_name = task_label name, mt_capabilities = capabilities_of grp,
                mt_target = target_of grp, mt_priority = priority_of_node parent, mt_xml = Some grp\<rparr>)"

fun split_by_objective :: "xml list \<Rightarrow> xml list list \<Rightarrow> xml list \<Rightarrow> bool \<Rightarrow> xml list list" where
  "split_by_objective [] groups current has_objective = (if current = [] then groups else groups @ [current])"
| "split_by_objective (leaf # leaves) groups current has_objective =
     (if has_tag (set MOVEMENT_ACTIONS) leaf \<and> has_objective
      then split_by_objective leaves (groups @ [current]) [leaf] (target_of_action leaf \<noteq> None)
      else split_by_objective leaves groups (current @ [leaf]) (has_objective \<or> target_of_action leaf \<noteq> None))"

definition needs_of :: "xml list \<Rightarrow> need list" where
  "needs_of elements =
     (case concat (map actions_in elements) of
        [] \<Rightarrow> []
      | e # _ \<Rightarrow> (case advance [] e None of None \<Rightarrow> [] | Some (st, _) \<Rightarrow> st_needs st))"

text \<open>The last pending element that establishes a need; \<open>None\<close> when the search meets no action.\<close>

fun nearest :: "need \<Rightarrow> xml list \<Rightarrow> nat option option" where
  "nearest n [] = Some None"
| "nearest n (e # earlier) =
     (case advance [] e None of
        None \<Rightarrow> None
      | Some (st, _) \<Rightarrow>
          if list_ex (met_by n) (st_establishes st) then Some (Some (length earlier)) else nearest n earlier)"

fun claims :: "xml list \<Rightarrow> need list \<Rightarrow> nat list option" where
  "claims pending [] = Some []"
| "claims pending (n # ns) =
     (case nearest n (rev pending) of
        None \<Rightarrow> None
      | Some hit \<Rightarrow> map_option (\<lambda>ks. (case hit of None \<Rightarrow> [] | Some k \<Rightarrow> [k]) @ ks) (claims pending ns))"

definition claim :: "xml list \<Rightarrow> need list \<Rightarrow> (xml list \<times> xml list) option" where
  "claim pending needs =
     (case claims pending needs of
        None \<Rightarrow> None
      | Some [] \<Rightarrow> Some ([], pending)
      | Some (k # ks) \<Rightarrow> let start = fold min ks k in Some (drop start pending, take start pending))"

text \<open>Loose elements before the first unit, or after the last one, that no unit claims.\<close>

definition join_last :: "xml list list \<Rightarrow> xml list \<Rightarrow> xml list list" where
  "join_last units es = (if es = [] then units else if units = [] then [es] else butlast units @ [last units @ es])"

fun collect_units :: "(xml \<times> unit_of_work gen) list \<Rightarrow> xml list list \<Rightarrow> xml list \<Rightarrow> xml list list option" where
  "collect_units [] units pending = Some (join_last units pending)"
| "collect_units ((child, found, raised) # rest) units pending =
     (if is_control child then
        if raised then None
        else if found \<noteq> [] then
          (case claim pending (needs_of (snd (hd found))) of
             None \<Rightarrow> None
           | Some (claimed, unclaimed) \<Rightarrow>
               collect_units rest (join_last units unclaimed @ (claimed @ snd (hd found)) # map snd (tl found)) [])
        else collect_units rest units (pending @ [child])
      else collect_units rest units (pending @ [child]))"

definition shared_prerequisites :: "xml list \<Rightarrow> xml list list \<Rightarrow> xml list" where
  "shared_prerequisites elements later =
     filter (\<lambda>e. is_action e \<and>
       (case advance [] e None of
          None \<Rightarrow> False
        | Some (st, _) \<Rightarrow> list_ex (\<lambda>es. list_ex (\<lambda>n. list_ex (met_by n) (st_establishes st)) (needs_of es)) later)) elements"

fun cut_units :: "unit_of_work list \<Rightarrow> unit_of_work list" where
  "cut_units [] = []"
| "cut_units ((task, elements) # rest) =
     (let shared = map xid (shared_prerequisites elements (map snd rest))
      in (task, filter (\<lambda>e. xid e \<notin> set shared) elements) # cut_units rest)"

definition group_unit :: "xml \<Rightarrow> xml list \<Rightarrow> unit_of_work option" where
  "group_unit node elements = map_option (\<lambda>t. (t, elements)) (task_of_group node elements)"

definition split_by_prerequisite :: "xml \<Rightarrow> (xml \<times> unit_of_work gen) list \<Rightarrow> unit_of_work gen" where
  "split_by_prerequisite node children =
     (case collect_units children [] [] of
        None \<Rightarrow> ([], True)
      | Some units \<Rightarrow> (cut_units (List.map_filter (group_unit node) units), False))"

fun located_under :: "xml \<Rightarrow> unit_of_work gen" where
  "located_under (Node i t a x ks) =
     (let node = Node i t a x ks;
          children = filter (\<lambda>(k, _). is_element k) (map (\<lambda>k. (k, located_under k)) ks);
          controls = filter (\<lambda>(k, _). is_control k) children;
          leaves = filter is_action (map fst children);
          undeclared = (declared_task_id (attr_or_empty ''name'' node) = None);
          groups = split_by_objective leaves [] [] False
      in if \<not> is_control node then ([], False)
         else if controls \<noteq> [] \<and> leaves = [] then gen_concat (map snd controls)
         else if leaves \<noteq> [] \<and> controls = [] \<and> undeclared \<and> 1 < length groups
         then (List.map_filter (group_unit node) groups, False)
         else if leaves \<noteq> [] \<and> controls \<noteq> [] \<and> undeclared then split_by_prerequisite node children
         else (case task_of node of None \<Rightarrow> ([], False) | Some task \<Rightarrow> ([(task, [node])], False)))"

definition located :: "xml \<Rightarrow> unit_of_work gen" where
  "located doc = gen_concat (map located_under (concat (map xkids (iter_tag ''BehaviorTree'' doc))))"

definition tasks_in :: "xml option \<Rightarrow> py_exn + mission_task list" where
  "tasks_in mission =
     (case mission of
        None \<Rightarrow> Inr []
      | Some doc \<Rightarrow> (case located doc of (us, raised) \<Rightarrow> if raised then Inl ValueError else Inr (map fst us)))"

text \<open>The first unit with a property; what is after it is not looked at.\<close>

definition first_unit :: "(unit_of_work \<Rightarrow> bool) \<Rightarrow> unit_of_work gen \<Rightarrow> py_exn + unit_of_work option" where
  "first_unit P g =
     (case find P (fst g) of
        Some u \<Rightarrow> Inr (Some u)
      | None \<Rightarrow> if snd g then Inl ValueError else Inr None)"

definition task_for_node :: "xml option \<Rightarrow> string \<Rightarrow> py_exn + mission_task option" where
  "task_for_node mission node_name =
     (case mission of
        None \<Rightarrow> Inr None
      | Some doc \<Rightarrow>
          if node_name = [] then Inr None
          else case find (\<lambda>e. attr ''name'' e = Some node_name) (iter doc) of
            None \<Rightarrow> Inr None
          | Some node \<Rightarrow>
              (case first_unit (\<lambda>(_, es). \<exists>e \<in> set es. xid e = xid node \<or> xid e \<in> xid ` set (ancestors (xid node) doc))
                   (located doc) of
                 Inl e \<Rightarrow> Inl e
               | Inr u \<Rightarrow> Inr (map_option fst u)))"

section \<open>Cutting a unit out\<close>

definition node_at :: "nat \<Rightarrow> xml \<Rightarrow> xml option" where
  "node_at i doc = find (\<lambda>n. xid n = i) (iter doc)"

lemma iter_length: "length (iter (Node i t a x ks)) = Suc ((\<Sum>k\<leftarrow>ks. length (iter k)))"
  by (simp add: length_concat comp_def)

lemma delete_shrinks: "length (iter (delete_node i e)) \<le> length (iter e)"
proof (induction i e rule: delete_node.induct)
  case (1 i j t a x ks)
  then have "(\<Sum>k\<leftarrow>filter (\<lambda>k. xid k \<noteq> i) ks. length (iter (delete_node i k))) \<le> (\<Sum>k\<leftarrow>ks. length (iter k))"
    by (induction ks) (auto intro: add_mono trans_le_add2)
  then show ?case by (simp add: length_concat comp_def)
qed

lemma delete_shrinks_strictly:
  "p \<in> set (iter e) \<Longrightarrow> i \<in> xid ` set (xkids p) \<Longrightarrow> length (iter (delete_node i e)) < length (iter e)"
proof (induction i e rule: delete_node.induct)
  case (1 i j t a x ks)
  have le: "length (iter (delete_node i k)) \<le> length (iter k)" for k by (rule delete_shrinks)
  have pos: "0 < length (iter k)" for k by (cases k) simp
  have drop_le: "(\<Sum>k\<leftarrow>filter (\<lambda>k. xid k \<noteq> i) xs. length (iter (delete_node i k))) \<le> (\<Sum>k\<leftarrow>xs. length (iter k))" for xs
    using le by (induction xs) (auto intro: add_mono trans_le_add2)
  have strict: "(\<Sum>k\<leftarrow>filter (\<lambda>k. xid k \<noteq> i) xs. length (iter (delete_node i k))) < (\<Sum>k\<leftarrow>xs. length (iter k))"
    if "k \<in> set xs" "xid k = i \<or> length (iter (delete_node i k)) < length (iter k)" for xs k
    using that
  proof (induction xs)
    case (Cons y ys)
    show ?case
    proof (cases "k = y")
      case True
      then show ?thesis using Cons.prems(2) drop_le [of ys] pos [of y]
        by (auto intro: add_less_le_mono trans_less_add2 le_less_trans)
    next
      case False
      then show ?thesis using Cons le [of y] by fastforce
    qed
  qed simp
  obtain k where "k \<in> set ks" "xid k = i \<or> length (iter (delete_node i k)) < length (iter k)"
    using 1 by (cases "\<exists>k \<in> set ks. xid k = i") auto
  from strict [OF this] show ?case by (simp add: length_concat comp_def)
qed

text \<open>\<^verbatim>\<open>_prune_empty\<close>: climbs from a node, removing control nodes nothing is left in.\<close>

function prune_empty :: "nat \<Rightarrow> xml \<Rightarrow> xml" where
  "prune_empty i doc =
     (case node_at i doc of
        None \<Rightarrow> doc
      | Some node \<Rightarrow>
          if xtag node = Some ''BehaviorTree'' then doc
          else case parent_of i doc of
            None \<Rightarrow> doc
          | Some parent \<Rightarrow>
              if xtag parent = Some ''BehaviorTree'' \<or> list_ex is_element (xkids node) then doc
              else prune_empty (xid parent) (delete_node i doc))"
  by pat_completeness auto
termination
proof (relation "measure (\<lambda>(i, doc). length (iter doc))")
  fix i doc node parent
  assume "parent_of i doc = Some parent"
  then have "parent \<in> set (iter doc)" "i \<in> xid ` set (xkids parent)"
    by (auto simp: parent_of_def find_Some_iff)
  then show "((xid parent, delete_node i doc), (i, doc)) \<in> measure (\<lambda>(i, doc). length (iter doc))"
    using delete_shrinks_strictly by simp
qed simp

declare prune_empty.simps [simp del]

text \<open>One pass of the removal loop: \<^verbatim>\<open>parent.remove(element); _prune_empty(parent)\<close>.\<close>

definition cut_element :: "nat \<Rightarrow> xml \<Rightarrow> xml" where
  "cut_element i doc =
     (case parent_of i doc of None \<Rightarrow> doc | Some parent \<Rightarrow> prune_empty (xid parent) (delete_node i doc))"

definition cut_elements :: "nat list \<Rightarrow> xml \<Rightarrow> xml" where
  "cut_elements is doc = fold cut_element is doc"

definition remove_task :: "xml option \<Rightarrow> int \<Rightarrow> py_exn + xml option" where
  "remove_task mission task_id =
     (case mission of
        None \<Rightarrow> Inr None
      | Some doc \<Rightarrow>
          (case first_unit (\<lambda>(task, _). mt_task_id task = task_id) (located doc) of
             Inl e \<Rightarrow> Inl e
           | Inr None \<Rightarrow> Inr None
           | Inr (Some (_, elements)) \<Rightarrow> Inr (Some (cut_elements (map xid elements) doc))))"

section \<open>Grafting a task in\<close>

text \<open>New identities, from \<open>n\<close> on, in document order; and the next free one.\<close>

fun relabel :: "nat \<Rightarrow> xml \<Rightarrow> xml \<times> nat" and relabel_list :: "nat \<Rightarrow> xml list \<Rightarrow> xml list \<times> nat" where
  "relabel n (Node i t a x ks) = (case relabel_list (Suc n) ks of (ks', m) \<Rightarrow> (Node n t a x ks', m))"
| "relabel_list n [] = ([], n)"
| "relabel_list n (k # ks) =
     (case relabel n k of (k', m) \<Rightarrow> case relabel_list m ks of (ks', l) \<Rightarrow> (k' # ks', l))"

definition fresh_id :: "xml \<Rightarrow> nat" where
  "fresh_id doc = Suc (fold max (ids doc) 0)"

fun update_node :: "nat \<Rightarrow> (xml list \<Rightarrow> xml list) \<Rightarrow> xml \<Rightarrow> xml" where
  "update_node i f (Node j t a x ks) = Node j t a x (if i = j then f ks else map (update_node i f) ks)"

text \<open>\<^verbatim>\<open>_isolate_leaves\<close> on a node's children: with an action among them, all elements move into a wrapper.\<close>

definition isolate_leaves :: "nat \<Rightarrow> xml list \<Rightarrow> xml list" where
  "isolate_leaves wrapper ks =
     (if list_ex is_action ks
      then filter (\<lambda>k. \<not> is_element k) ks @ [Node wrapper (Some ''Sequence'') [] [] (filter is_element ks)]
      else ks)"

definition insert_task :: "xml option \<Rightarrow> mission_task \<Rightarrow> xml option" where
  "insert_task mission task =
     (case (mission, mt_xml task) of
        (Some doc, Some subtree) \<Rightarrow>
          (case iter_tag ''BehaviorTree'' doc of
             [] \<Rightarrow> None
           | container # _ \<Rightarrow>
               let spot = (case find is_control (xkids container) of Some c \<Rightarrow> xid c | None \<Rightarrow> xid container);
                   w = fresh_id doc
               in Some (update_node spot (\<lambda>ks. isolate_leaves w ks @ [fst (relabel (Suc w) subtree)]) doc))
      | _ \<Rightarrow> None)"

section \<open>Rebuilding a task from its announcement\<close>

definition capability_names :: "int \<Rightarrow> string list" where
  "capability_names m = map xml_element (capabilities_in m)"

definition REBUILDABLE :: "capability set" where
  "REBUILDABLE = {MOVE_TO_AISLE_HEAD, MOVE_TO_TREE_ID, SAMPLE_LEAF}"

record rebuilt =
  rb_xml :: xml
  rb_dropped :: "string list"

definition named_leaf :: "nat \<Rightarrow> string \<Rightarrow> (string \<times> string) list \<Rightarrow> xml" where
  "named_leaf i t a = Node i (Some t) a [] []"

text \<open>
  The action names come from the schema file (\<^verbatim>\<open>action_names\<close>), which is an argument; the
  capabilities left out are in the order of their indices, as \<^verbatim>\<open>sorted\<close> puts them.
\<close>

definition action_name :: "(string \<Rightarrow> string option) \<Rightarrow> string \<Rightarrow> string \<Rightarrow> string" where
  "action_name names t d = (case names t of None \<Rightarrow> d | Some n \<Rightarrow> n)"

definition head_steps :: "(string \<Rightarrow> string option) \<Rightarrow> string \<Rightarrow> int option \<Rightarrow> xml list" where
  "head_steps names safe aisle =
     (case aisle of
        None \<Rightarrow> []
      | Some a \<Rightarrow> [named_leaf 1 ''MoveToAisleHead''
          [(''name'', safe @ ''_aisle_'' @ str_int a),
           (''action_name'', action_name names ''MoveToAisleHead'' ''move_to_aisle_head''), (''id'', str_int a)]])"

definition approach_step :: "(string \<Rightarrow> string option) \<Rightarrow> string \<Rightarrow> int \<Rightarrow> xml" where
  "approach_step names safe tree = named_leaf 2 ''MoveToTreeID''
     [(''name'', safe @ ''_visit_'' @ str_int tree),
      (''action_name'', action_name names ''MoveToTreeID'' ''follow_tree_id_waypoint''),
      (''id'', str_int tree), (''approach_tree'', ''true'')]"

definition sample_steps :: "(string \<Rightarrow> string option) \<Rightarrow> string \<Rightarrow> int \<Rightarrow> bool \<Rightarrow> xml list" where
  "sample_steps names safe tree wanted =
     (if wanted then [named_leaf 3 ''SampleLeaf''
        [(''name'', safe @ ''_sample_'' @ str_int tree),
         (''action_name'', action_name names ''SampleLeaf'' ''segment_leaves'')]] else [])"

definition safe_name :: "mission_task \<Rightarrow> string" where
  "safe_name task = (if ident (mt_name task) = [] then ''task_'' @ str_int (mt_task_id task) else ident (mt_name task))"

definition synthesize :: "(string \<Rightarrow> string option) \<Rightarrow> mission_task \<Rightarrow> orchard option \<Rightarrow> rebuilt option" where
  "synthesize names task om =
     (let caps = capabilities_in (mt_capabilities task)
      in if tg_kind (mt_target task) \<noteq> TREE then None
         else if MOVE_TO_TREE_ID \<notin> set caps then None
         else
           let tree = tg_a (mt_target task);
               safe = safe_name task;
               aisle = aisle_of om (str_int tree)
           in Some \<lparr>rb_xml = Node 0 (Some ''Sequence'') [(''name'', name_with_task_id safe (mt_task_id task))] []
                  (head_steps names safe aisle @ approach_step names safe tree #
                   sample_steps names safe tree (SAMPLE_LEAF \<in> set caps)),
                rb_dropped = map xml_element (filter (\<lambda>c. c \<notin> REBUILDABLE) caps) @
                  (if MOVE_TO_AISLE_HEAD \<in> set caps \<and> aisle = None then [xml_element MOVE_TO_AISLE_HEAD] else [])\<rparr>)"

end
