(* ===== verification/Task_Units.thy ===== *)
theory Task_Units
  imports Mission_Tasks
begin

text \<open>
  How a mission comes apart into units: the units keep the order of the plan, no step is in two
  of them, and on a mission the schema accepts every step is in one or is needed by a later one.
\<close>

section \<open>Units and the order of the plan\<close>

text \<open>The actions of some elements, in document order.\<close>

definition acts :: "xml list \<Rightarrow> xml list" where
  "acts es = concat (map actions_in es)"

definition nodes :: "xml list \<Rightarrow> xml list" where
  "nodes es = concat (map iter es)"

definition plan_actions :: "xml \<Rightarrow> xml list" where
  "plan_actions doc = acts (concat (map xkids (iter_tag ''BehaviorTree'' doc)))"

definition elements_of :: "unit_of_work list \<Rightarrow> xml list" where
  "elements_of us = concat (map snd us)"

lemma acts_simps [simp]: "acts [] = []" "acts (e # es) = actions_in e @ acts es" "acts (es @ fs) = acts es @ acts fs"
  by (simp_all add: acts_def)

lemma nodes_simps [simp]: "nodes [] = []" "nodes (e # es) = iter e @ nodes es" "nodes (es @ fs) = nodes es @ nodes fs"
  by (simp_all add: nodes_def)

lemma acts_nodes: "acts es = filter is_action (nodes es)"
  by (simp add: acts_def nodes_def filter_concat comp_def actions_in_def [abs_def])

lemma elements_of_simps [simp]:
  "elements_of [] = []" "elements_of (u # us) = snd u @ elements_of us" "elements_of (us @ vs) = elements_of us @ elements_of vs"
  by (simp_all add: elements_of_def)

lemma actions_Node: "actions_in (Node i t a x ks) = (if is_action (Node i t a x ks) then [Node i t a x ks] else []) @ acts ks"
  by (simp add: actions_in_def acts_def filter_concat comp_def actions_in_def [abs_def])

lemma nodes_subseq: "subseq es fs \<Longrightarrow> subseq (nodes es) (nodes fs)"
proof (induction rule: list_emb.induct)
  case (list_emb_Cons xs ys y)
  then show ?case by (simp add: list_emb_append2)
qed (auto intro: list_emb_append_mono)

lemma nodes_kids: "subseq (nodes (xkids e)) (iter e)"
  using iter_kids [of e] by (metis list_emb_Cons nodes_def subseq_order.order_refl)

lemma subseq_nodes: "subseq es (nodes es)"
proof (induction es)
  case (Cons e es)
  then show ?case using iter_kids [of e] by (simp add: list_emb_append2)
qed simp

lemma nodes_acts_subseq: "subseq (nodes es) (nodes fs) \<Longrightarrow> subseq (acts es) (acts fs)"
  unfolding acts_nodes by (rule subseq_filter)

lemma nodes_acts: "subseq (nodes es) (iter e) \<Longrightarrow> subseq (acts es) (actions_in e)"
  unfolding acts_nodes actions_in_def by (rule subseq_filter)

lemma acts_kid: "k \<in> set (xkids e) \<Longrightarrow> subseq (actions_in k) (actions_in e)"
proof -
  assume "k \<in> set (xkids e)"
  then have "subseq (nodes [k]) (nodes (xkids e))" by (intro nodes_subseq) (simp add: subseq_singleton_left)
  then have "subseq (nodes [k]) (iter e)" using nodes_kids subseq_order.trans by blast
  then have "subseq (acts [k]) (actions_in e)" by (rule nodes_acts)
  then show ?thesis by simp
qed

section \<open>The pieces lose nothing\<close>

lemma split_by_objective_concat:
  "concat (split_by_objective ls groups current b) = concat groups @ current @ ls"
  by (induction ls groups current b rule: split_by_objective.induct) auto

lemma claim_split: "claim pending needs = Some (c, u) \<Longrightarrow> u @ c = pending"
  by (auto simp: claim_def Let_def split: option.splits list.splits)

lemma join_last_concat [simp]: "concat (join_last units es) = concat units @ es"
  by (cases units rule: rev_cases) (auto simp: join_last_def)

definition contribution :: "xml \<times> unit_of_work gen \<Rightarrow> xml list" where
  "contribution c = (case c of (child, found, raised) \<Rightarrow> if is_control child \<and> found \<noteq> [] then elements_of found else [child])"

lemma contribution_simp [simp]:
  "contribution (child, found, raised) = (if is_control child \<and> found \<noteq> [] then elements_of found else [child])"
  by (simp add: contribution_def)

lemma collect_units_concat:
  "collect_units cs units pending = Some out \<Longrightarrow> concat out = concat units @ pending @ concat (map contribution cs)"
proof (induction cs units pending arbitrary: out rule: collect_units.induct)
  case (2 child found raised rest units pending)
  show ?case
  proof (cases "is_control child \<and> found \<noteq> []")
    case True
    then obtain c u where c: "claim pending (needs_of (snd (hd found))) = Some (c, u)" "\<not> raised"
      "collect_units rest (join_last units u @ (c @ snd (hd found)) # map snd (tl found)) [] = Some out"
      using 2(4) by (auto split: if_splits option.splits)
    have "elements_of found = snd (hd found) @ concat (map snd (tl found))"
      using True by (cases found) (simp_all add: elements_of_def)
    then show ?thesis
      using 2(1) [OF _ c(2) _ c(1) refl c(3)] True claim_split [OF c(1)]
      by simp
  next
    case False
    then have "collect_units rest units (pending @ [child]) = Some out" using 2(4) by (auto split: if_splits)
    then have "concat out = concat units @ (pending @ [child]) @ concat (map contribution rest)"
      using 2(2,3) False 2(4) by (cases "is_control child") (auto split: if_splits)
    then show ?thesis using False by simp
  qed
qed simp

lemma group_units_elements: "elements_of (List.map_filter (group_unit node) units) = concat units"
  by (induction units) (auto simp: List.map_filter_simps group_unit_def task_of_group_def Let_def split: option.splits)

lemma cut_units_subseq: "subseq (elements_of (cut_units us)) (elements_of us)"
  by (induction us rule: cut_units.induct) (auto simp: Let_def intro!: list_emb_append_mono)


lemma gen_concat_subseq:
  "(\<And>k g. (k, g) \<in> set cs \<Longrightarrow> subseq (nodes (elements_of (fst g))) (iter k)) \<Longrightarrow>
    subseq (nodes (elements_of (fst (gen_concat (map snd cs))))) (nodes (map fst cs))"
proof (induction cs)
  case (Cons c cs)
  obtain k xs raised where c: "c = (k, xs, raised)" by (cases c)
  have 1: "subseq (nodes (elements_of xs)) (iter k)" using Cons.prems [of k "(xs, raised)"] c by simp
  have 2: "subseq (nodes (elements_of (fst (gen_concat (map snd cs))))) (nodes (map fst cs))"
    using Cons.IH Cons.prems by simp
  show ?case
  proof (cases raised)
    case True
    then show ?thesis using list_emb_append_mono [OF 1 list_emb_Nil, of "nodes (map fst cs)"] by (simp add: c)
  next
    case False
    then show ?thesis using list_emb_append_mono [OF 1 2] by (cases "gen_concat (map snd cs)") (simp add: c)
  qed
qed simp

definition children_of :: "xml list \<Rightarrow> (xml \<times> unit_of_work gen) list" where
  "children_of ks = filter (\<lambda>(k, _). is_element k) (map (\<lambda>k. (k, located_under k)) ks)"

lemma fst_children: "map fst (children_of ks) = filter is_element ks"
  by (induction ks) (auto simp: children_of_def)

lemma contribution_subseq:
  "(\<And>k. k \<in> set ks \<Longrightarrow> subseq (nodes (elements_of (fst (located_under k)))) (iter k)) \<Longrightarrow>
    subseq (nodes (concat (map contribution (children_of ks)))) (nodes ks)"
proof (induction ks)
  case (Cons k ks)
  have "subseq (nodes (contribution (k, located_under k))) (iter k)"
    using Cons.prems [of k] by (auto simp: contribution_def split: prod.splits)
  then show ?case using Cons by (auto simp: children_of_def intro: list_emb_append_mono list_emb_append2)
qed (simp add: children_of_def)

lemma located_under_unfold:
  "located_under (Node i t a x ks) =
     (let node = Node i t a x ks; children = children_of ks;
          controls = filter (\<lambda>(k, _). is_control k) children;
          leaves = filter is_action (map fst children);
          undeclared = (declared_task_id (attr_or_empty ''name'' node) = None);
          groups = split_by_objective leaves [] [] False
      in if \<not> is_control node then ([], False)
         else if controls \<noteq> [] \<and> leaves = [] then gen_concat (map snd controls)
         else if leaves \<noteq> [] \<and> controls = [] \<and> undeclared \<and> 1 < length groups
         then (List.map_filter (group_unit node) groups, False)
         else if leaves \<noteq> [] \<and> controls \<noteq> [] \<and> undeclared then split_by_prerequisite node children
         else (case task_of node of None \<Rightarrow> ([], False) | Some task \<Rightarrow> ([(task, [node])], False)))"
  by (simp only: located_under.simps children_of_def)

declare located_under.simps [simp del]

definition control_children :: "xml list \<Rightarrow> (xml \<times> unit_of_work gen) list" where
  "control_children ks = filter (\<lambda>(k, _). is_control k) (children_of ks)"

definition leaf_children :: "xml list \<Rightarrow> xml list" where
  "leaf_children ks = filter is_action (filter is_element ks)"

definition undeclared :: "xml \<Rightarrow> bool" where
  "undeclared node \<longleftrightarrow> declared_task_id (attr_or_empty ''name'' node) = None"

text \<open>The ways a node is split.\<close>

lemma located_under_cases [case_names other controls flat mixed whole nothing]:
  obtains "\<not> is_control node" "located_under node = ([], False)"
  | "is_control node" "control_children (xkids node) \<noteq> []" "leaf_children (xkids node) = []"
    "located_under node = gen_concat (map snd (control_children (xkids node)))"
  | "is_control node" "control_children (xkids node) = []" "undeclared node"
    "1 < length (split_by_objective (leaf_children (xkids node)) [] [] False)"
    "located_under node = (List.map_filter (group_unit node) (split_by_objective (leaf_children (xkids node)) [] [] False), False)"
  | "is_control node" "control_children (xkids node) \<noteq> []" "leaf_children (xkids node) \<noteq> []" "undeclared node"
    "located_under node = split_by_prerequisite node (children_of (xkids node))"
  | task where "is_control node" "task_of node = Some task" "located_under node = ([(task, [node])], False)"
  | "is_control node" "task_of node = None" "located_under node = ([], False)"
proof -
  obtain i t a x ks where node: "node = Node i t a x ks" by (cases node)
  define A where "A \<longleftrightarrow> is_control node"
  define B where "B \<longleftrightarrow> control_children ks \<noteq> []"
  define C where "C \<longleftrightarrow> leaf_children ks \<noteq> []"
  define D where "D \<longleftrightarrow> undeclared node"
  define E where "E \<longleftrightarrow> 1 < length (split_by_objective (leaf_children ks) [] [] False)"
  have *: "located_under node =
     (if \<not> A then ([], False)
      else if B \<and> \<not> C then gen_concat (map snd (control_children ks))
      else if C \<and> \<not> B \<and> D \<and> E then (List.map_filter (group_unit node) (split_by_objective (leaf_children ks) [] [] False), False)
      else if C \<and> B \<and> D then split_by_prerequisite node (children_of ks)
      else (case task_of node of None \<Rightarrow> ([], False) | Some task \<Rightarrow> ([(task, [node])], False)))"
    unfolding A_def B_def C_def D_def E_def undeclared_def leaf_children_def control_children_def node located_under_unfold Let_def fst_children
    by (simp only: not_not)
  have ks: "xkids node = ks" by (simp add: node)
  show thesis
  proof (cases "task_of node")
    case None
    then show thesis using that(1-4,6) * unfolding ks A_def B_def C_def D_def E_def by (metis (no_types, lifting) option.case(1))
  next
    case (Some task)
    then show thesis using that(1-4) that(5) [of task] * unfolding ks A_def B_def C_def D_def E_def by (metis (no_types, lifting) option.case(2))
  qed
qed

lemma children_located: "(k, g) \<in> set (children_of ks) \<longleftrightarrow> k \<in> set ks \<and> is_element k \<and> g = located_under k"
  by (auto simp: children_of_def)

lemma subseq_filtered: "subseq (filter P (filter Q xs)) xs"
  by (simp add: subseq_order.trans [OF subseq_filter_left subseq_filter_left])

lemma split_by_prerequisite_subseq:
  assumes "\<And>k. k \<in> set ks \<Longrightarrow> subseq (nodes (elements_of (fst (located_under k)))) (iter k)"
  shows "subseq (nodes (elements_of (fst (split_by_prerequisite node (children_of ks))))) (nodes ks)"
proof (cases "collect_units (children_of ks) [] []")
  case (Some units)
  have "subseq (nodes (elements_of (cut_units (List.map_filter (group_unit node) units)))) (nodes (concat units))"
    using nodes_subseq [OF cut_units_subseq] group_units_elements by metis
  also have "concat units = concat (map contribution (children_of ks))"
    using collect_units_concat [OF Some] by simp
  also have "subseq (nodes (concat (map contribution (children_of ks)))) (nodes ks)"
    by (rule contribution_subseq [OF assms])
  finally show ?thesis using Some by (simp add: split_by_prerequisite_def)
qed (simp add: split_by_prerequisite_def)

lemma xml_kids_induct [case_names kids]: "(\<And>e. (\<And>k. k \<in> set (xkids e) \<Longrightarrow> P k) \<Longrightarrow> P e) \<Longrightarrow> P e"
proof -
  assume step: "\<And>e. (\<And>k. k \<in> set (xkids e) \<Longrightarrow> P k) \<Longrightarrow> P e"
  show "P e" by (induction e) (auto intro: step)
qed

lemma subseq_leaf_children: "subseq (nodes (leaf_children (xkids e))) (iter e)"
  unfolding leaf_children_def by (rule subseq_order.trans [OF nodes_subseq [OF subseq_filtered] nodes_kids])

lemma subseq_control_children: "subseq (nodes (map fst (control_children (xkids e)))) (iter e)"
proof -
  have "map fst (control_children (xkids e)) = filter is_control (filter is_element (xkids e))"
    unfolding control_children_def fst_children [symmetric] by (simp add: filter_map comp_def case_prod_beta')
  then show ?thesis using subseq_order.trans [OF nodes_subseq [OF subseq_filtered] nodes_kids] by metis
qed

lemma located_under_subseq: "subseq (nodes (elements_of (fst (located_under e)))) (iter e)"
proof (induction e rule: xml_kids_induct)
  case (kids e)
  show ?case
  proof (cases e rule: located_under_cases)
    case controls
    have "subseq (nodes (elements_of (fst (gen_concat (map snd (control_children (xkids e)))))))
        (nodes (map fst (control_children (xkids e))))"
      by (rule gen_concat_subseq) (use kids in \<open>auto simp: control_children_def children_located\<close>)
    then show ?thesis using subseq_order.trans [OF _ subseq_control_children] controls(4) by simp
  next
    case flat
    then show ?thesis using subseq_leaf_children by (simp add: group_units_elements split_by_objective_concat)
  next
    case mixed
    then show ?thesis using subseq_order.trans [OF split_by_prerequisite_subseq [OF kids] nodes_kids] by simp
  qed simp_all
qed


lemma located_under_acts: "subseq (acts (elements_of (fst (located_under e)))) (actions_in e)"
  by (rule nodes_acts [OF located_under_subseq])

section \<open>Every action is in a unit, or something later needs it\<close>

text \<open>
  A subtree the mission schema accepts: control nodes around at least one element, actions
  without elements inside, comments anywhere.
\<close>

fun conforming :: "xml \<Rightarrow> bool" where
  "conforming (Node i t a x ks) \<longleftrightarrow> (\<forall>k \<in> set ks. conforming k) \<and>
     (case t of
        None \<Rightarrow> ks = []
      | Some tag \<Rightarrow> if tag \<in> set CONTROL_TAGS then list_ex is_element ks
          else tag \<in> set action_tags \<and> \<not> list_ex is_element ks)"

text \<open>An action that a later one needs, when nothing before it is known.\<close>

definition serves :: "xml \<Rightarrow> xml list \<Rightarrow> bool" where
  "serves e es \<longleftrightarrow>
     (case advance [] e None of
        Some (st, _) \<Rightarrow> list_ex (\<lambda>n. list_ex (met_by n) (st_establishes st)) (needs_of es)
      | None \<Rightarrow> False)"

definition kept_back :: "xml \<Rightarrow> xml list \<Rightarrow> bool" where
  "kept_back e as \<longleftrightarrow> (\<exists>before after a. as = before @ e # after \<and> a \<in> set after \<and> serves e [a])"

lemma kept_back_subseq:
  assumes "kept_back e as" and "subseq as bs"
  shows "kept_back e bs"
proof -
  obtain before after a where as: "as = before @ e # after" "a \<in> set after" "serves e [a]"
    using assms(1) by (auto simp: kept_back_def)
  obtain us vs where bs: "bs = us @ vs" "subseq (e # after) vs"
    using list_emb_appendD [of "(=)" before "e # after" bs] assms(2) as(1) by auto
  obtain ws zs where vs: "vs = ws @ e # zs" "subseq after zs" using list_emb_ConsD [OF bs(2)] by auto
  have "a \<in> set zs" using list_emb_set [OF vs(2) as(2)] by auto
  moreover have "bs = (us @ ws) @ e # zs" using bs(1) vs(1) by simp
  ultimately show ?thesis unfolding kept_back_def using as(3) by blast
qed

lemma action_iff: "is_action e \<longleftrightarrow> (\<exists>t. xtag e = Some t \<and> t \<in> set action_tags)"
  unfolding is_action_tag table_rows ..

lemma control_iff: "is_control e \<longleftrightarrow> (\<exists>t. xtag e = Some t \<and> t \<in> set CONTROL_TAGS)"
  by (simp add: is_control_def has_tag_def split: option.split)

lemma control_no_action: "is_control e \<Longrightarrow> \<not> is_action e"
  by (auto simp: control_iff action_iff CONTROL_TAGS_def action_tags_def)

lemma action_element: "is_action e \<Longrightarrow> is_element e"
  by (auto simp: action_iff is_element_def)

lemma conforming_kid: "conforming e \<Longrightarrow> k \<in> set (xkids e) \<Longrightarrow> conforming k"
  by (cases e) simp

lemma conforming_cases:
  assumes "conforming e" and "is_element e"
  obtains "is_control e" "list_ex is_element (xkids e)" | "is_action e" "\<not> list_ex is_element (xkids e)"
  using assms
  by (cases e) (auto simp: is_element_def control_iff action_iff split: option.splits if_splits)

lemma conforming_comment: "conforming e \<Longrightarrow> \<not> is_element e \<Longrightarrow> actions_in e = []"
  by (cases e) (auto simp: is_element_def actions_in_def is_action_def)

lemma acts_no_elements: "\<forall>k \<in> set ks. conforming k \<Longrightarrow> \<not> list_ex is_element ks \<Longrightarrow> acts ks = []"
  by (induction ks) (auto simp: conforming_comment)

lemma conforming_action: "conforming e \<Longrightarrow> is_action e \<Longrightarrow> actions_in e = [e]"
proof -
  assume e: "conforming e" "is_action e"
  then have "is_element e" by (simp add: action_element)
  with e have "\<not> list_ex is_element (xkids e)" by (auto elim: conforming_cases dest: control_no_action)
  then have "acts (xkids e) = []" using e(1) conforming_kid by (intro acts_no_elements) auto
  then show ?thesis using e(2) by (cases e) (simp add: actions_Node)
qed

lemma conforming_control: "is_control e \<Longrightarrow> actions_in e = acts (xkids e)"
  using control_no_action by (cases e) (simp add: actions_Node)

lemma acts_elements: "\<forall>k \<in> set ks. conforming k \<Longrightarrow> acts (filter is_element ks) = acts ks"
  by (induction ks) (auto simp: conforming_comment)

lemma conforming_has_action: "conforming e \<Longrightarrow> is_element e \<Longrightarrow> actions_in e \<noteq> []"
proof (induction e rule: xml_kids_induct)
  case (kids e)
  from kids.prems show ?case
  proof (cases rule: conforming_cases)
    case 1
    then obtain k where k: "k \<in> set (xkids e)" "is_element k" by (auto simp: list_ex_iff)
    then have "actions_in k \<noteq> []" using kids.IH [OF k(1)] conforming_kid [OF kids.prems(1) k(1)] by simp
    then show ?thesis using conforming_control [OF 1(1)] k(1) by (auto simp: acts_def)
  next
    case 2
    then show ?thesis using conforming_action [OF kids.prems(1)] by simp
  qed
qed

lemma shared_iff:
  "e \<in> set (shared_prerequisites elements later) \<longleftrightarrow> e \<in> set elements \<and> is_action e \<and> (\<exists>es \<in> set later. serves e es)"
  by (auto simp: shared_prerequisites_def serves_def list_ex_iff split: option.splits)

lemma cut_units_kept:
  "\<lbrakk>distinct (map xid (elements_of us)); e \<in> set (elements_of us); e \<notin> set (elements_of (cut_units us))\<rbrakk> \<Longrightarrow>
    is_action e \<and> (\<exists>before after es. elements_of us = before @ e # after \<and> es \<in> set (map snd us) \<and> subseq es after \<and> serves e es)"
proof (induction us rule: cut_units.induct)
  case (2 task elements rest)
  show ?case
  proof (cases "e \<in> set elements")
    case True
    obtain e' where e': "e' \<in> set (shared_prerequisites elements (map snd rest))" "xid e' = xid e"
      using 2(4) True by (auto simp: Let_def)
    have "inj_on xid (set elements)" using 2(2) by (simp add: distinct_map inj_on_Un)
    then have "e' = e" using e' True by (auto dest: inj_onD simp: shared_iff)
    then obtain es where *: "is_action e" "es \<in> set (map snd rest)" "serves e es" using e' by (auto simp: shared_iff)
    obtain before mid where "elements = before @ e # mid" using True split_list by fastforce
    then have 1: "elements_of ((task, elements) # rest) = before @ e # (mid @ elements_of rest)" by simp
    have "subseq es (elements_of rest)"
      using *(2) by (induction rest) (auto simp: list_emb_append2 intro: subseq_order.trans)
    then have 2: "subseq es (mid @ elements_of rest)" by (rule list_emb_append2)
    show ?thesis using * 1 2 by (metis list.set_intros(2) list.simps(9))
  next
    case False
    then have "e \<in> set (elements_of rest)" "e \<notin> set (elements_of (cut_units rest))" using 2(3,4) by (auto simp: Let_def)
    moreover have "distinct (map xid (elements_of rest))" using 2(2) by simp
    ultimately obtain before after es where *: "is_action e" "elements_of rest = before @ e # after"
       "es \<in> set (map snd rest)" "subseq es after" "serves e es"
      using 2(1) [OF refl] by blast
    then have "elements_of ((task, elements) # rest) = (elements @ before) @ e # after" by simp
    then show ?thesis using * by (metis list.set_intros(2) list.simps(9))
  qed
qed simp

lemma capabilities_nonzero:
  assumes "actions_in e \<noteq> []"
  shows "capabilities_of e \<noteq> 0"
proof -
  define cs where "cs = List.map_filter (\<lambda>n. Option.bind (xtag n) capability_by_element) (iter e)"
  obtain n c where n: "n \<in> set (iter e)" "Option.bind (xtag n) capability_by_element = Some c"
    using assms by (fastforce simp: actions_in_def filter_empty_conv is_action_def split: option.splits)
  then have c: "c \<in> set cs" unfolding cs_def
    by (induction "iter e" arbitrary: e) (auto simp: cs_def List.map_filter_def intro: rev_image_eqI)
  have idx: "0 \<le> cap_index c \<and> cap_index c < 16" for c by (cases c) simp_all
  obtain m where m: "cap_mask (map cap_index cs) = Inr m"
    using cap_mask_is_a_set [of "map cap_index cs"] idx by (cases "cap_mask (map cap_index cs)") auto
  then have "has_capability m (cap_index c) = Inr True"
    using cap_mask_is_a_set [of "map cap_index cs"] idx [of c] c by auto
  then have "m \<noteq> 0" by (auto simp: has_capability_def split: if_splits)
  then show ?thesis using m by (simp add: capabilities_of_def cs_def)
qed

lemma own_name_nonempty: "own_name e = Some n \<Longrightarrow> n \<noteq> []"
  by (auto simp: own_name_def split: option.splits if_splits)

lemma task_id_range:
  assumes "actions_in e \<noteq> []"
  shows "0 < task_id_of e name \<and> task_id_of e name \<le> TASK_ID_MAX"
proof -
  have word: "(case own_name n of Some m \<Rightarrow> m | None \<Rightarrow> the (xtag n)) \<noteq> []" if "n \<in> set (actions_in e)" for n
  proof -
    have "is_action n" using that by (simp add: actions_in_def)
    then show ?thesis by (auto simp: action_iff action_tags_def dest: own_name_nonempty split: option.split)
  qed
  obtain n ns where "actions_in e = n # ns" using assms by (cases "actions_in e") auto
  then have "join '' '' (map (\<lambda>n. case own_name n of Some m \<Rightarrow> m | None \<Rightarrow> the (xtag n)) (actions_in e)) \<noteq> []"
    using word [of n] by (simp add: join_def)
  then show ?thesis using declared_id_range derived_id_range by (auto simp: task_id_of_def split: option.split)
qed

text \<open>What a split promises of each unit: elements the schema accepts, an id the wire carries.\<close>

definition sound_unit :: "unit_of_work \<Rightarrow> bool" where
  "sound_unit u \<longleftrightarrow> 0 < mt_task_id (fst u) \<and> mt_task_id (fst u) \<le> TASK_ID_MAX \<and>
     (\<forall>x \<in> set (snd u). conforming x \<and> is_element x)"

definition sound_split :: "xml \<Rightarrow> unit_of_work gen \<Rightarrow> bool" where
  "sound_split e g \<longleftrightarrow> \<not> snd g \<and> fst g \<noteq> [] \<and> (\<forall>u \<in> set (fst g). sound_unit u) \<and>
     (\<forall>a \<in> set (actions_in e). a \<in> set (acts (elements_of (fst g))) \<or> kept_back a (actions_in e))"

lemma group_unit_sound:
  assumes "group_unit node es = Some u" and "\<forall>x \<in> set es. conforming x \<and> is_element x"
  shows "sound_unit u"
proof -
  obtain t where u: "u = (t, es)" "task_of_group node es = Some t" using assms(1) by (auto simp: group_unit_def)
  define grp where "grp = Node 0 (Some ''Sequence'') [(''name'', if name_of (Node 0 (Some ''Sequence'') [] [] es) = [] then ''task''
      else name_of (Node 0 (Some ''Sequence'') [] [] es))] [] es"
  have "es \<noteq> []" using u(2) by (auto simp: task_of_group_def)
  then have "acts es \<noteq> []" using assms(2) conforming_has_action by (cases es) auto
  then have "actions_in grp \<noteq> []" by (simp add: grp_def actions_Node)
  then have "0 < mt_task_id t \<and> mt_task_id t \<le> TASK_ID_MAX"
    using u(2) task_id_range [of grp] by (auto simp: task_of_group_def Let_def grp_def split: if_splits)
  then show ?thesis using assms(2) u(1) by (simp add: sound_unit_def)
qed

lemma in_map_filter: "y \<in> set (List.map_filter f xs) \<longleftrightarrow> (\<exists>x \<in> set xs. f x = Some y)"
  by (induction xs) (auto simp: List.map_filter_simps split: option.splits)

lemma group_units_sound:
  assumes "\<forall>x \<in> set (concat groups). conforming x \<and> is_element x"
  shows "\<forall>u \<in> set (List.map_filter (group_unit node) groups). sound_unit u"
proof
  fix u assume "u \<in> set (List.map_filter (group_unit node) groups)"
  then obtain es where "es \<in> set groups" "group_unit node es = Some u" by (auto simp: in_map_filter)
  then show "sound_unit u" using assms by (intro group_unit_sound) auto
qed

lemma cut_units_from: "u \<in> set (cut_units us) \<Longrightarrow> \<exists>v \<in> set us. fst u = fst v \<and> set (snd u) \<subseteq> set (snd v)"
proof (induction us rule: cut_units.induct)
  case (2 task elements rest)
  show ?case
  proof (cases "u \<in> set (cut_units rest)")
    case True
    then show ?thesis using 2(1) [OF refl] by auto
  next
    case False
    then show ?thesis using 2(2) by (auto simp: Let_def)
  qed
qed simp

lemma cut_units_sound:
  assumes "\<forall>u \<in> set us. sound_unit u"
  shows "\<forall>u \<in> set (cut_units us). sound_unit u"
proof
  fix u assume "u \<in> set (cut_units us)"
  then obtain v where "v \<in> set us" "fst u = fst v" "set (snd u) \<subseteq> set (snd v)" using cut_units_from by blast
  then show "sound_unit u" using assms unfolding sound_unit_def by (metis subsetD)
qed

lemma cut_units_Nil [simp]: "cut_units us = [] \<longleftrightarrow> us = []"
  by (cases us rule: cut_units.cases) (auto simp: Let_def)

lemma nearest_actions: "\<forall>e \<in> set es. is_action e \<Longrightarrow> nearest n es \<noteq> None"
proof (induction n es rule: nearest.induct)
  case (2 n e es)
  obtain st s where "advance [] e None = Some (st, s)" using 2(2) by (auto elim: advance_action [of e "[]" None])
  then show ?case using 2 by simp
qed simp

lemma claim_actions: "\<forall>e \<in> set pending. is_action e \<Longrightarrow> claim pending needs \<noteq> None"
proof -
  assume p: "\<forall>e \<in> set pending. is_action e"
  have "claims pending ns \<noteq> None" for ns
  proof (induction ns)
    case (Cons n ns)
    then show ?case using nearest_actions [of "rev pending" n] p by (auto split: option.splits)
  qed simp
  then show ?thesis by (auto simp: claim_def Let_def split: option.split list.split)
qed

lemma collect_units_actions:
  "\<lbrakk>\<forall>e \<in> set pending. is_action e;
    \<forall>(k, g) \<in> set cs. if is_control k then \<not> snd g \<and> fst g \<noteq> [] else is_action k\<rbrakk> \<Longrightarrow>
   collect_units cs units pending \<noteq> None"
proof (induction cs units pending rule: collect_units.induct)
  case (2 child found raised rest units pending)
  show ?case
  proof (cases "is_control child")
    case True
    then have g: "\<not> raised" "found \<noteq> []" using 2(5) by auto
    obtain c u where "claim pending (needs_of (snd (hd found))) = Some (c, u)" using claim_actions [OF 2(4)] by fastforce
    then show ?thesis using 2(1) [OF True g, of "(c, u)" c u] 2(5) g True by simp
  next
    case False
    then show ?thesis using 2(3) [OF False] 2(4,5) by simp
  qed
qed simp


lemma serves_action:
  assumes "serves e es" and "\<forall>x \<in> set es. conforming x"
  obtains a where "a \<in> set (acts es)" "serves e [a]"
proof -
  have "needs_of es \<noteq> []" using assms(1) by (auto simp: serves_def split: option.splits)
  then have "acts es \<noteq> []" unfolding needs_of_def acts_def by (metis list.case(1))
  then obtain a as where a: "acts es = a # as" by (cases "acts es") simp_all
  then have "a \<in> set (acts es)" by simp
  then obtain x where "x \<in> set es" "a \<in> set (actions_in x)" by (auto simp: acts_def)
  then have "is_action a" "a \<in> set (iter x)" "conforming x" using assms(2) by (auto simp: actions_in_def)
  have "conforming a" if "a \<in> set (iter x)" "conforming x" for x
    using that
  proof (induction x rule: xml_kids_induct)
    case (kids x)
    then show ?case using iter_kids [of x] conforming_kid by auto
  qed
  then have "conforming a" using \<open>a \<in> set (iter x)\<close> \<open>conforming x\<close> by blast
  then have "acts [a] = [a]" using conforming_action \<open>is_action a\<close> by simp
  then have "needs_of [a] = needs_of es" using a by (simp add: needs_of_def acts_def [symmetric])
  then have "serves e [a]" using assms(1) by (simp only: serves_def)
  then show thesis using that \<open>a \<in> set (acts es)\<close> by blast
qed

lemma cut_units_complete:
  assumes "distinct (map xid (elements_of us))" and "\<forall>x \<in> set (elements_of us). conforming x"
    and "a \<in> set (acts (elements_of us))"
  shows "a \<in> set (acts (elements_of (cut_units us))) \<or> kept_back a (acts (elements_of us))"
proof -
  obtain x where x: "x \<in> set (elements_of us)" "a \<in> set (actions_in x)" using assms(3) by (auto simp: acts_def)
  show ?thesis
  proof (cases "x \<in> set (elements_of (cut_units us))")
    case True
    then show ?thesis using x(2) by (auto simp: acts_def)
  next
    case False
    then obtain before after es where *: "is_action x" "elements_of us = before @ x # after"
      "es \<in> set (map snd us)" "subseq es after" "serves x es"
      using cut_units_kept [OF assms(1) x(1)] by blast
    have ax: "a = x" "actions_in x = [x]" using conforming_action [of x] assms(2) x *(1) by auto
    have "\<forall>y \<in> set es. conforming y" using *(3) assms(2) by (auto simp: elements_of_def)
    then obtain b where b: "b \<in> set (acts es)" "serves x [b]" using serves_action [OF *(5)] by blast
    have "subseq (acts es) (acts after)" using nodes_acts_subseq [OF nodes_subseq [OF *(4)]] .
    then have "b \<in> set (acts after)" using b(1) list_emb_set [of "(=)" "acts es" "acts after" b] by blast
    moreover have "acts (elements_of us) = acts before @ x # acts after" using *(2) ax(2) by simp
    ultimately show ?thesis using b(2) ax(1) unfolding kept_back_def by blast
  qed
qed

lemma gen_concat_sound:
  "\<forall>g \<in> set gs. \<not> snd g \<Longrightarrow> gen_concat gs = (concat (map fst gs), False)"
proof (induction gs)
  case (Cons g gs)
  then show ?case by (cases g) simp
qed simp

lemma control_children_iff: "(k, g) \<in> set (control_children ks) \<longleftrightarrow> k \<in> set ks \<and> is_element k \<and> is_control k \<and> g = located_under k"
  by (auto simp: control_children_def children_located)

lemma leaf_children_iff: "k \<in> set (leaf_children ks) \<longleftrightarrow> k \<in> set ks \<and> is_action k"
  by (auto simp: leaf_children_def action_element)

lemma leaf_or_control:
  assumes "conforming e" and "k \<in> set (xkids e)" and "is_element k"
  shows "k \<in> set (leaf_children (xkids e)) \<and> is_action k \<or> (k, located_under k) \<in> set (control_children (xkids e)) \<and> is_control k"
proof -
  have "is_control k \<or> is_action k" using conforming_cases [OF conforming_kid [OF assms(1,2)] assms(3)] by blast
  then show ?thesis using assms(2,3) by (simp add: leaf_children_iff control_children_iff) blast
qed

lemma action_of_kid:
  assumes "is_control e" and "a \<in> set (actions_in e)" and "conforming e"
  obtains k where "k \<in> set (xkids e)" "is_element k" "a \<in> set (actions_in k)"
proof -
  obtain k where k: "k \<in> set (xkids e)" "a \<in> set (actions_in k)"
    using assms(1,2) conforming_control [of e] by (auto simp: acts_def)
  moreover have "is_element k" using conforming_comment [OF conforming_kid [OF assms(3) k(1)]] k(2) by (cases "is_element k") auto
  ultimately show thesis using that by blast
qed

lemma elements_mono: "set us \<subseteq> set vs \<Longrightarrow> set (acts (elements_of us)) \<subseteq> set (acts (elements_of vs))"
  unfolding acts_def elements_of_def by auto

lemma sound_controls:
  assumes "conforming e" and "is_control e" and "leaf_children (xkids e) = []"
    and "\<And>k. k \<in> set (xkids e) \<Longrightarrow> is_control k \<Longrightarrow> sound_split k (located_under k)"
    and "control_children (xkids e) \<noteq> []"
  shows "sound_split e (gen_concat (map snd (control_children (xkids e))))"
proof -
  define cs where "cs = control_children (xkids e)"
  have sound: "sound_split k g" if "(k, g) \<in> set cs" for k g using that assms(4) by (auto simp: cs_def control_children_iff)
  then have g: "gen_concat (map snd cs) = (concat (map fst (map snd cs)), False)"
    by (intro gen_concat_sound) (force simp: sound_split_def)
  have "concat (map fst (map snd cs)) \<noteq> []"
  proof -
    obtain k g cs' where "cs = (k, g) # cs'" using assms(5) by (cases cs) (auto simp: cs_def)
    moreover from this have "fst g \<noteq> []" using sound [of k g] by (simp add: sound_split_def)
    ultimately show ?thesis by simp
  qed
  moreover have "\<forall>u \<in> set (concat (map fst (map snd cs))). sound_unit u" using sound by (fastforce simp: sound_split_def)
  moreover have "a \<in> set (acts (elements_of (concat (map fst (map snd cs))))) \<or> kept_back a (actions_in e)"
    if a: "a \<in> set (actions_in e)" for a
  proof -
    obtain k where k: "k \<in> set (xkids e)" "is_element k" "a \<in> set (actions_in k)"
      using action_of_kid [OF assms(2) a assms(1)] .
    then have "(k, located_under k) \<in> set cs" using leaf_or_control [OF assms(1) k(1,2)] assms(3) by (simp add: cs_def)
    then have "sound_split k (located_under k)" "fst (located_under k) \<in> set (map fst (map snd cs))"
      using sound [of k "located_under k"] by force+
    have "set (fst (located_under k)) \<subseteq> set (concat (map fst (map snd cs)))"
      using \<open>(k, located_under k) \<in> set cs\<close> by force
    then have "set (acts (elements_of (fst (located_under k)))) \<subseteq> set (acts (elements_of (concat (map fst (map snd cs)))))"
      by (rule elements_mono)
    then show ?thesis
      using k(3) kept_back_subseq [OF _ acts_kid [OF k(1)]] \<open>sound_split k (located_under k)\<close> unfolding sound_split_def by blast
  qed
  ultimately show ?thesis using g by (simp add: sound_split_def cs_def)
qed

lemma sound_flat:
  assumes "conforming e" and "is_control e" and "control_children (xkids e) = []"
    and "split_by_objective (leaf_children (xkids e)) [] [] False = groups"
  shows "sound_split e (List.map_filter (group_unit e) groups, False)"
proof -
  have c: "concat groups = leaf_children (xkids e)" using assms(4) split_by_objective_concat by fastforce
  have el: "elements_of (List.map_filter (group_unit e) groups) = leaf_children (xkids e)"
    by (simp add: group_units_elements c)
  have all: "a \<in> set (acts (leaf_children (xkids e)))" if a: "a \<in> set (actions_in e)" for a
  proof -
    obtain k where k: "k \<in> set (xkids e)" "is_element k" "a \<in> set (actions_in k)"
      using action_of_kid [OF assms(2) a assms(1)] .
    then have "k \<in> set (leaf_children (xkids e))" using leaf_or_control [OF assms(1) k(1,2)] assms(3) by simp
    then show ?thesis using k(3) by (auto simp: acts_def)
  qed
  have "is_element e" using assms(2) by (auto simp: control_iff is_element_def)
  then have "actions_in e \<noteq> []" using conforming_has_action [OF assms(1)] by simp
  then have "acts (leaf_children (xkids e)) \<noteq> []" using all by (cases "actions_in e") force+
  then have ne: "List.map_filter (group_unit e) groups \<noteq> []" using el by (metis acts_simps(1) elements_of_simps(1))
  moreover have "\<forall>u \<in> set (List.map_filter (group_unit e) groups). sound_unit u"
    using conforming_kid [OF assms(1)] action_element by (intro group_units_sound) (auto simp: c leaf_children_iff)
  ultimately show ?thesis using all el by (simp add: sound_split_def)
qed


lemma sound_mixed:
  assumes "conforming e" and "is_control e" and "well_labelled e" and "leaf_children (xkids e) \<noteq> []"
    and IH: "\<And>k. k \<in> set (xkids e) \<Longrightarrow> is_control k \<Longrightarrow> sound_split k (located_under k)"
  shows "sound_split e (split_by_prerequisite e (children_of (xkids e)))"
proof -
  define cs where "cs = children_of (xkids e)"
  have child: "conforming k \<and> is_element k \<and> g = located_under k \<and> (is_control k \<or> is_action k)"
    if "(k, g) \<in> set cs" for k g
  proof -
    have k: "k \<in> set (xkids e)" "is_element k" "g = located_under k" using that by (simp_all add: cs_def children_located)
    then show ?thesis using conforming_kid [OF assms(1) k(1)] leaf_or_control [OF assms(1) k(1,2)] by blast
  qed
  have "\<forall>(k, g) \<in> set cs. if is_control k then \<not> snd g \<and> fst g \<noteq> [] else is_action k"
  proof (clarify)
    fix k xs r assume kg: "(k, xs, r) \<in> set cs"
    then have "k \<in> set (xkids e)" by (simp add: cs_def children_located)
    then show "if is_control k then \<not> snd (xs, r) \<and> fst (xs, r) \<noteq> [] else is_action k"
      using child [OF kg] IH [of k] by (auto simp: sound_split_def)
  qed
  then obtain units where units: "collect_units cs [] [] = Some units"
    using collect_units_actions [of "[]" cs "[]"] by auto
  define us where "us = List.map_filter (group_unit e) units"
  have us: "elements_of us = concat (map contribution cs)"
    using collect_units_concat [OF units] by (simp add: us_def group_units_elements)
  have conf: "conforming x \<and> is_element x" if "x \<in> set (elements_of us)" for x
  proof -
    obtain k g where k: "(k, g) \<in> set cs" "x \<in> set (contribution (k, g))" using \<open>x \<in> set (elements_of us)\<close> us by auto
    show ?thesis
    proof (cases "is_control k \<and> fst g \<noteq> []")
      case True
      then have "x \<in> set (elements_of (fst g))" using k(2) by (cases g) simp
      moreover have "k \<in> set (xkids e)" using k(1) by (simp add: cs_def children_located)
      moreover have "sound_split k g" using IH [of k] child [OF k(1)] True k(1) by (simp add: cs_def children_located)
      moreover obtain u where "u \<in> set (fst g)" "x \<in> set (snd u)" using \<open>x \<in> set (elements_of (fst g))\<close> by (auto simp: elements_of_def)
      ultimately have "sound_unit u" by (simp add: sound_split_def)
      then show ?thesis using \<open>x \<in> set (snd u)\<close> by (simp add: sound_unit_def)
    next
      case False
      then have "x = k" using k(2) by (cases g) auto
      then show ?thesis using child [OF k(1)] by simp
    qed
  qed
  have sub: "subseq (nodes (elements_of us)) (iter e)"
    unfolding us cs_def by (rule subseq_order.trans [OF contribution_subseq nodes_kids]) (rule located_under_subseq)
  have "distinct (map xid (iter e))" using assms(3) by (simp add: well_labelled_def ids_def)
  then have dist: "distinct (map xid (elements_of us))"
    using subseq_map [OF subseq_order.trans [OF subseq_nodes sub], of xid] by (metis subseq_conv_nths distinct_nthsI)
  have lift: "kept_back a (actions_in e)" if "kept_back a (acts (elements_of us))" for a
    using kept_back_subseq [OF that nodes_acts [OF sub]] .
  have complete: "a \<in> set (acts (elements_of (cut_units us))) \<or> kept_back a (actions_in e)"
    if a: "a \<in> set (actions_in e)" for a
  proof -
    obtain k where k: "k \<in> set (xkids e)" "is_element k" "a \<in> set (actions_in k)"
      using action_of_kid [OF assms(2) a assms(1)] .
    then have kg: "(k, located_under k) \<in> set cs" by (simp add: cs_def children_located)
    have "a \<in> set (acts (contribution (k, located_under k))) \<or> kept_back a (actions_in k)"
    proof (cases "is_control k")
      case True
      then have "sound_split k (located_under k)" using IH k(1) by simp
      then show ?thesis using k(3) True by (cases "located_under k") (auto simp: sound_split_def)
    next
      case False
      then show ?thesis using k(3) by (cases "located_under k") simp
    qed
    then show ?thesis
    proof
      assume "a \<in> set (acts (contribution (k, located_under k)))"
      then have "a \<in> set (acts (elements_of us))" unfolding us acts_def using kg by fastforce
      then show ?thesis using cut_units_complete [OF dist] conf lift by blast
    qed (use kept_back_subseq acts_kid [OF k(1)] in blast)
  qed
  obtain l where l: "l \<in> set (xkids e)" "is_action l" 
    using assms(4) leaf_children_iff by (metis list.set_intros(1) neq_Nil_conv)
  then have "(l, located_under l) \<in> set cs" by (simp add: cs_def children_located action_element)
  moreover have "l \<in> set (contribution (l, located_under l))"
    using l(2) control_no_action by (cases "located_under l") auto
  ultimately have "elements_of us \<noteq> []" unfolding us by fastforce
  then have "us \<noteq> []" by auto
  moreover have "\<forall>u \<in> set us. sound_unit u"
    unfolding us_def using conf us_def group_units_elements [of e units] by (intro group_units_sound) metis
  ultimately have "sound_split e (cut_units us, False)"
    using complete cut_units_sound by (simp add: sound_split_def)
  then show ?thesis using units by (simp add: split_by_prerequisite_def cs_def us_def)
qed

lemma located_under_sound: "\<lbrakk>conforming e; is_control e; well_labelled e\<rbrakk> \<Longrightarrow> sound_split e (located_under e)"
proof (induction e rule: xml_kids_induct)
  case (kids e)
  have el: "is_element e" using kids.prems(2) by (auto simp: control_iff is_element_def)
  then have act: "actions_in e \<noteq> []" using conforming_has_action kids.prems(1) by simp
  have IH: "sound_split k (located_under k)" if "k \<in> set (xkids e)" "is_control k" for k
    using kids.IH [OF that(1)] conforming_kid [OF kids.prems(1) that(1)] well_labelled_kid [OF kids.prems(3) that(1)] that(2)
    by simp
  show ?case
  proof (cases e rule: located_under_cases)
    case controls
    then show ?thesis using sound_controls [OF kids.prems(1,2) controls(3) IH controls(2)] by simp
  next
    case flat
    then show ?thesis using sound_flat [OF kids.prems(1,2) flat(2) refl] by simp
  next
    case mixed
    then show ?thesis using sound_mixed [OF kids.prems(1,2,3) mixed(3) IH] by simp
  next
    case (whole task)
    have "0 < mt_task_id task \<and> mt_task_id task \<le> TASK_ID_MAX"
      using whole(2) task_id_range [OF act] by (auto simp: task_of_def Let_def split: if_splits)
    then show ?thesis using whole(3) kids.prems(1) el by (simp add: sound_split_def sound_unit_def)
  next
    case nothing
    then have "capabilities_of e = 0" by (auto simp: task_of_def Let_def split: if_splits)
    then show ?thesis using capabilities_nonzero [OF act] by simp
  qed (use kids.prems(2) in simp)
qed

text \<open>
  A mission the schema accepts: elements are distinct, and behaviour trees hold conforming
  control nodes (and comments).
\<close>

definition valid_mission :: "xml \<Rightarrow> bool" where
  "valid_mission doc \<longleftrightarrow> well_labelled doc \<and>
     (\<forall>b \<in> set (iter_tag ''BehaviorTree'' doc). \<forall>k \<in> set (xkids b). conforming k \<and> (is_element k \<longrightarrow> is_control k))"

lemma mission_split:
  assumes "valid_mission doc"
  shows "\<exists>us. located doc = (us, False) \<and> (\<forall>u \<in> set us. sound_unit u) \<and>
     subseq (acts (elements_of us)) (plan_actions doc) \<and>
     (\<forall>a \<in> set (plan_actions doc). a \<in> set (acts (elements_of us)) \<or> kept_back a (plan_actions doc))"
proof -
  define ks where "ks = concat (map xkids (iter_tag ''BehaviorTree'' doc))"
  have kids_ok: "conforming k \<and> (is_element k \<longrightarrow> is_control k) \<and> well_labelled k" if "k \<in> set ks" for k
  proof -
    obtain b where b: "b \<in> set (iter_tag ''BehaviorTree'' doc)" "k \<in> set (xkids b)" using \<open>k \<in> set ks\<close> by (auto simp: ks_def)
    then have "well_labelled b" using assms well_labelled_node by (auto simp: valid_mission_def iter_tag_def)
    then show ?thesis using b assms well_labelled_kid by (auto simp: valid_mission_def)
  qed
  have split: "if is_element k then sound_split k (located_under k) else located_under k = ([], False)" if "k \<in> set ks" for k
  proof (cases "is_element k")
    case True
    then show ?thesis using kids_ok [OF that] located_under_sound by simp
  next
    case False
    then have "\<not> is_control k" by (auto simp: control_iff is_element_def)
    then show ?thesis using False by (cases k rule: located_under_cases) auto
  qed
  define us where "us = concat (map (fst \<circ> located_under) ks)"
  have "\<not> snd (located_under k)" if "k \<in> set ks" for k
    using split [OF that] by (cases "is_element k") (simp_all add: sound_split_def)
  then have "\<forall>g \<in> set (map located_under ks). \<not> snd g" by simp
  then have loc: "located doc = (us, False)"
    unfolding located_def ks_def [symmetric] by (simp add: gen_concat_sound us_def)
  have "subseq (nodes (elements_of us)) (nodes ks)"
  proof -
    have "subseq (nodes (elements_of (fst (gen_concat (map snd (map (\<lambda>k. (k, located_under k)) ks))))))
        (nodes (map fst (map (\<lambda>k. (k, located_under k)) ks)))"
    proof (rule gen_concat_subseq)
      fix k g assume "(k, g) \<in> set (map (\<lambda>k. (k, located_under k)) ks)"
      then have "g = located_under k" by auto
      then show "subseq (nodes (elements_of (fst g))) (iter k)" by (simp only: located_under_subseq)
    qed
    then show ?thesis using loc by (simp add: located_def ks_def [symmetric] comp_def)
  qed
  then have sub: "subseq (acts (elements_of us)) (acts ks)" by (rule nodes_acts_subseq)
  have all: "a \<in> set (acts (elements_of us)) \<or> kept_back a (acts ks)" if a: "a \<in> set (acts ks)" for a
  proof -
    obtain k where k: "k \<in> set ks" "a \<in> set (actions_in k)" using a by (auto simp: acts_def)
    then have "sound_split k (located_under k)"
      using split [OF k(1)] conforming_comment [of k] kids_ok [OF k(1)] by (cases "is_element k") auto
    moreover have "set (acts (elements_of (fst (located_under k)))) \<subseteq> set (acts (elements_of us))"
      using k(1) by (intro elements_mono) (auto simp: us_def)
    moreover have "subseq (actions_in k) (acts ks)"
      using nodes_acts_subseq [OF nodes_subseq, of "[k]" ks] k(1) by (simp add: subseq_singleton_left)
    ultimately show ?thesis using k(2) kept_back_subseq unfolding sound_split_def by blast
  qed
  have "sound_unit u" if "u \<in> set us" for u
  proof -
    obtain k where "k \<in> set ks" "u \<in> set (fst (located_under k))" using \<open>u \<in> set us\<close> by (auto simp: us_def)
    then show ?thesis using split [of k] by (cases "is_element k") (simp_all add: sound_split_def)
  qed
  then show ?thesis using loc sub all by (simp add: plan_actions_def ks_def [symmetric])
qed


lemma units_sound: "valid_mission doc \<Longrightarrow> \<exists>us. located doc = (us, False) \<and> (\<forall>u \<in> set us. sound_unit u)"
  using mission_split by blast

text \<open>
  C18: a mission comes apart without losing a step. On a mission the schema accepts the split never
  raises; the units keep the order of the plan and no action is in two of them; an action in none
  of them establishes something a later action of the plan needs, and stays for it; and every
  unit's id is one an announcement can carry, never the one that means no task.
\<close>

theorem mission_comes_apart:
  assumes "valid_mission doc"
  shows "\<exists>us. located doc = (us, False) \<and> tasks_in (Some doc) = Inr (map fst us) \<and>
     subseq (acts (elements_of us)) (plan_actions doc) \<and>
     (\<forall>a \<in> set (plan_actions doc). a \<in> set (acts (elements_of us)) \<or> kept_back a (plan_actions doc)) \<and>
     (\<forall>u \<in> set us. 0 < mt_task_id (fst u) \<and> mt_task_id (fst u) \<le> TASK_ID_MAX)"
  using mission_split [OF assms] by (fastforce simp: tasks_in_def sound_unit_def)

text \<open>Missions to try it on.\<close>

definition named :: "nat \<Rightarrow> string \<Rightarrow> string \<Rightarrow> xml list \<Rightarrow> xml" where
  "named i t n ks = Node i (Some t) (if n = [] then [] else [(''name'', n)]) [] ks"

definition visit :: "nat \<Rightarrow> string \<Rightarrow> string \<Rightarrow> xml" where
  "visit i n tree = Node i (Some ''MoveToTreeID'') [(''name'', n), (''id'', tree), (''approach_tree'', ''true'')] [] []"

definition enter :: "nat \<Rightarrow> string \<Rightarrow> string \<Rightarrow> xml" where
  "enter i n aisle = Node i (Some ''MoveToAisleHead'') [(''name'', n), (''id'', aisle)] [] []"

definition mission :: "xml list \<Rightarrow> xml" where
  "mission ks = Node 0 (Some ''root'') [] [] [Node 1 (Some ''Mission'') [] ''m'' [], Node 2 (Some ''BehaviorTree'') [] [] ks]"

definition summary :: "unit_of_work gen \<Rightarrow> (int \<times> nat list) list" where
  "summary g = map (\<lambda>(t, es). (mt_task_id t, map xid es)) (fst g)"

text \<open>One aisle move that two trees share, as the planner writes it.\<close>

definition shared_aisle :: xml where
  "shared_aisle = mission [named 3 ''Sequence'' [] [enter 4 ''into_6'' ''6'',
     named 5 ''RetryUntilSuccessful'' ''r60'' [named 6 ''Sequence'' ''s60'' [visit 7 ''v60'' ''60'', named 8 ''SampleLeaf'' ''p60'' []]],
     named 9 ''RetryUntilSuccessful'' ''r61'' [named 10 ''Sequence'' ''s61'' [visit 11 ''v61'' ''61'', named 12 ''SampleLeaf'' ''p61'' []]],
     enter 13 ''out'' ''6'']]"

theorem mission_comes_apart_witness:
  "\<exists>us. tasks_in (Some shared_aisle) = Inr (map fst us) \<and> subseq (acts (elements_of us)) (plan_actions shared_aisle)"
proof -
  have "valid_mission shared_aisle" by code_simp
  then show ?thesis using mission_comes_apart [of shared_aisle] by blast
qed



end
