(* ===== verification/Task_Edits.thy ===== *)
theory Task_Edits
  imports Task_Units
begin

text \<open>
  Editing a mission: removing a unit takes exactly its steps and leaves no control node empty;
  inserting a rebuilt task keeps every step, makes the task a unit of the plan, and shedding it
  again gives the steps back.
\<close>

section \<open>Removing a unit\<close>

text \<open>Comments hold nothing, actions hold no elements.\<close>

definition tidy :: "xml \<Rightarrow> bool" where
  "tidy doc \<longleftrightarrow> well_labelled doc \<and>
     (\<forall>e \<in> set (iter doc). (\<not> is_element e \<longrightarrow> xkids e = []) \<and> (is_action e \<longrightarrow> \<not> list_ex is_element (xkids e)))"

lemma delete_kids: "xkids (delete_node i e) = map (delete_node i) (filter (\<lambda>k. xid k \<noteq> i) (xkids e))"
  by (cases e) simp

lemma delete_element [simp]: "is_element (delete_node i e) = is_element e" "is_action (delete_node i e) = is_action e"
    "is_control (delete_node i e) = is_control e"
  by (simp_all add: is_element_def is_action_def is_control_def has_tag_def)

lemma tidy_delete: "tidy doc \<Longrightarrow> xid doc \<noteq> i \<Longrightarrow> tidy (delete_node i doc)"
proof -
  assume doc: "tidy doc" "xid doc \<noteq> i"
  have "(\<not> is_element n \<longrightarrow> xkids n = []) \<and> (is_action n \<longrightarrow> \<not> list_ex is_element (xkids n))"
    if n: "n \<in> set (iter (delete_node i doc))" for n
  proof -
    obtain m where m: "m \<in> set (iter doc)" "n = delete_node i m" using n iter_delete by blast
    then show ?thesis using doc(1) by (auto simp: tidy_def delete_kids list_ex_iff)
  qed
  then show ?thesis using doc well_labelled_delete by (simp add: tidy_def)
qed

text \<open>A document with some subtrees taken out.\<close>

definition trimmed :: "xml \<Rightarrow> xml \<Rightarrow> bool" where
  "trimmed d doc \<longleftrightarrow> tidy d \<and> xid d = xid doc \<and> labels d = filter (\<lambda>l. fst l \<in> set (ids d)) (labels doc) \<and>
     (\<forall>i m. m \<in> set (ids d) \<longrightarrow> (m \<in> below i d \<longleftrightarrow> m \<in> below i doc)) \<and>
     set (iter d) \<subseteq> {n. \<exists>m \<in> set (iter doc). xid m = xid n \<and> xtag m = xtag n}"

lemma trimmed_refl: "tidy d \<Longrightarrow> trimmed d d"
  by (auto simp: trimmed_def ids_labels intro!: filter_True [symmetric])

lemma trimmed_ids: "trimmed d doc \<Longrightarrow> set (ids d) \<subseteq> set (ids doc)"
proof
  fix x assume d: "trimmed d doc" and x: "x \<in> set (ids d)"
  have "labels d = filter (\<lambda>l. fst l \<in> set (ids d)) (labels doc)" using d by (simp add: trimmed_def)
  then have "set (labels d) \<subseteq> set (labels doc)" by (metis filter_is_subset)
  then show "x \<in> set (ids doc)" using x by (auto simp: ids_labels)
qed

lemma trimmed_trans:
  assumes "trimmed d e" and "trimmed e f"
  shows "trimmed d f"
proof -
  have sub: "set (ids d) \<subseteq> set (ids e)" by (rule trimmed_ids [OF assms(1)])
  have "labels d = filter (\<lambda>l. fst l \<in> set (ids d)) (filter (\<lambda>l. fst l \<in> set (ids e)) (labels f))"
    using assms unfolding trimmed_def by metis
  also have "\<dots> = filter (\<lambda>l. fst l \<in> set (ids d)) (labels f)" using sub by (auto intro!: filter_cong)
  finally show ?thesis using assms sub unfolding trimmed_def by (fastforce dest: subsetD)
qed

lemma trimmed_delete:
  assumes "tidy doc" and "xid doc \<noteq> i"
  shows "trimmed (delete_node i doc) doc"
proof -
  have wl: "well_labelled doc" using assms(1) by (simp add: tidy_def)
  have l: "labels (delete_node i doc) = filter (\<lambda>l. fst l \<notin> below i doc) (labels doc)" by (rule labels_delete [OF wl assms(2)])
  then have ids: "m \<in> set (ids (delete_node i doc)) \<longleftrightarrow> m \<in> set (ids doc) \<and> m \<notin> below i doc" for m
    by (auto simp: ids_labels)
  have "filter (\<lambda>l. fst l \<in> set (ids (delete_node i doc))) (labels doc) = filter (\<lambda>l. fst l \<notin> below i doc) (labels doc)"
    by (auto simp: ids ids_labels [of doc] intro!: filter_cong)
  moreover have "m \<in> below j (delete_node i doc) \<longleftrightarrow> m \<in> below j doc" if "m \<in> set (ids (delete_node i doc))" for j m
    using below_survives [OF wl assms(2)] below_delete that ids by blast
  moreover have "\<exists>m \<in> set (iter doc). xid m = xid n \<and> xtag m = xtag n" if "n \<in> set (iter (delete_node i doc))" for n
    using subsetD [OF iter_delete that] by auto
  ultimately show ?thesis using l tidy_delete [OF assms] by (auto simp: trimmed_def)
qed

text \<open>The actions of a document, whatever its nesting.\<close>

definition step_labels :: "xml \<Rightarrow> (nat \<times> string option \<times> (string \<times> string) list) list" where
  "step_labels doc = map (\<lambda>n. (xid n, xtag n, xattrs n)) (actions_in doc)"

definition action_label :: "nat \<times> string option \<times> (string \<times> string) list \<Rightarrow> bool" where
  "action_label l \<longleftrightarrow> (\<exists>t. fst (snd l) = Some t \<and> t \<in> set action_tags)"

lemma step_labels_filter: "step_labels doc = filter action_label (labels doc)"
  by (simp add: step_labels_def labels_def actions_in_def filter_map comp_def action_label_def action_iff cong: filter_cong)

lemma parent_of_facts:
  assumes "parent_of i doc = Some p"
  obtains k where "p \<in> set (iter doc)" "k \<in> set (xkids p)" "xid k = i" "k \<in> set (iter doc)"
proof -
  obtain k where k: "p \<in> set (iter doc)" "k \<in> set (xkids p)" "xid k = i"
    using assms by (fastforce simp: parent_of_def find_Some_iff in_set_conv_nth)
  moreover have "k \<in> set (iter doc)" using k iter_trans kid_in_iter self_in_iter by blast
  ultimately show thesis using that by blast
qed

lemma not_root_of_parent:
  assumes "well_labelled doc" and "parent_of i doc = Some p"
  shows "xid doc \<noteq> i"
proof
  assume r: "xid doc = i"
  obtain k where k: "p \<in> set (iter doc)" "k \<in> set (xkids p)" "xid k = i" "k \<in> set (iter doc)"
    using parent_of_facts [OF assms(2)] .
  then have "k = doc" using node_unique [OF assms(1)] r by simp
  then have "p \<in> set (nodes (xkids p))" using k by (auto simp: nodes_def)
  moreover have "distinct (map xid (p # nodes (xkids p)))"
    using well_labelled_node [OF assms(1) k(1)] iter_kids [of p] by (simp add: well_labelled_def ids_def nodes_def)
  ultimately show False by auto
qed

lemma node_at_facts: "node_at i doc = Some n \<Longrightarrow> n \<in> set (iter doc) \<and> xid n = i"
  by (auto simp: node_at_def find_Some_iff in_set_conv_nth)

lemma parent_not_action:
  assumes "tidy doc" and "p \<in> set (iter doc)" and "k \<in> set (xkids p)" and "is_element k"
  shows "is_element p \<and> \<not> is_action p"
  using assms by (auto simp: tidy_def list_ex_iff)

lemma prune_empty_trims:
  "\<lbrakk>tidy doc; \<forall>n \<in> set (iter doc). xid n = i \<longrightarrow> is_element n \<and> \<not> is_action n\<rbrakk> \<Longrightarrow>
    trimmed (prune_empty i doc) doc \<and> step_labels (prune_empty i doc) = step_labels doc"
proof (induction i doc rule: prune_empty.induct)
  case (1 i doc)
  show ?case
  proof (cases "\<exists>node p. node_at i doc = Some node \<and> xtag node \<noteq> Some ''BehaviorTree'' \<and> parent_of i doc = Some p \<and>
      \<not> (xtag p = Some ''BehaviorTree'' \<or> list_ex is_element (xkids node))")
    case False
    then have "prune_empty i doc = doc" by (subst prune_empty.simps) (auto split: option.split)
    then show ?thesis using trimmed_refl [OF 1(2)] by simp
  next
    case True
    then obtain node p where np: "node_at i doc = Some node" "xtag node \<noteq> Some ''BehaviorTree''" "parent_of i doc = Some p"
      "\<not> (xtag p = Some ''BehaviorTree'' \<or> list_ex is_element (xkids node))" by blast
    then have eq: "prune_empty i doc = prune_empty (xid p) (delete_node i doc)" by (subst prune_empty.simps) simp
    have wl: "well_labelled doc" using 1(2) by (simp add: tidy_def)
    have root: "xid doc \<noteq> i" by (rule not_root_of_parent [OF wl np(3)])
    have node: "node \<in> set (iter doc)" "xid node = i" using node_at_facts [OF np(1)] by auto
    then have el: "is_element node" "\<not> is_action node" using 1(3) by auto
    obtain k where k: "p \<in> set (iter doc)" "k \<in> set (xkids p)" "xid k = i" "k \<in> set (iter doc)"
      using parent_of_facts [OF np(3)] .
    then have "k = node" using node_unique [OF wl k(4) node(1)] node(2) by simp
    then have p: "is_element p" "\<not> is_action p" using parent_not_action [OF 1(2) k(1,2)] el(1) by auto
    have 2: "\<forall>n \<in> set (iter (delete_node i doc)). xid n = xid p \<longrightarrow> is_element n \<and> \<not> is_action n"
    proof (intro ballI impI)
      fix n assume n: "n \<in> set (iter (delete_node i doc))" "xid n = xid p"
      then obtain m where m: "m \<in> set (iter doc)" "n = delete_node i m" using iter_delete by blast
      then have "m = p" using node_unique [OF wl m(1) k(1)] n(2) by simp
      then show "is_element n \<and> \<not> is_action n" using p m(2) by simp
    qed
    have IH: "trimmed (prune_empty (xid p) (delete_node i doc)) (delete_node i doc) \<and>
        step_labels (prune_empty (xid p) (delete_node i doc)) = step_labels (delete_node i doc)"
      using 1(1) [OF np(1,2,3,4)] tidy_delete [OF 1(2) root] 2 by blast
    have "\<not> action_label l" if l: "l \<in> set (labels doc)" "fst l \<in> below i doc" for l
    proof -
      obtain n where n: "n \<in> set (iter doc)" "l = (xid n, xtag n, xattrs n)" using l(1) by (auto simp: labels_def)
      have "n \<in> set (iter node)" using below_iff [OF wl node(1) n(1)] l(2) n(2) node(2) by simp
      then consider "n = node" | k' where "k' \<in> set (xkids node)" "n \<in> set (iter k')" using iter_kids [of node] by auto
      then show ?thesis
      proof cases
        case 1
        then show ?thesis using el(2) n(2) by (simp add: action_label_def action_iff)
      next
        case 2
        then have "k' \<in> set (iter doc)" using node(1) iter_trans kid_in_iter self_in_iter by blast
        moreover have "\<not> is_element k'" using np(4) 2(1) by (auto simp: list_ex_iff)
        ultimately have "xkids k' = []" using \<open>tidy doc\<close> by (simp add: tidy_def)
        then have "n = k'" using 2(2) iter_kids [of k'] by simp
        then show ?thesis using \<open>\<not> is_element k'\<close> n(2) by (auto simp: action_label_def is_element_def)
      qed
    qed
    then have "step_labels (delete_node i doc) = step_labels doc"
      by (auto simp: step_labels_filter labels_delete [OF wl root] intro!: filter_cong)
    then show ?thesis using eq IH trimmed_trans [OF _ trimmed_delete [OF 1(2) root]] by simp
  qed
qed


lemma cut_element_trims:
  assumes "tidy doc" and "x \<in> set (iter doc)" and "is_element x" and "parent_of (xid x) doc \<noteq> None"
  shows "trimmed (cut_element (xid x) doc) doc \<and>
    step_labels (cut_element (xid x) doc) = filter (\<lambda>l. fst l \<notin> below (xid x) doc) (step_labels doc)"
proof -
  obtain p where p: "parent_of (xid x) doc = Some p" using assms(4) by auto
  have wl: "well_labelled doc" using assms(1) by (simp add: tidy_def)
  have root: "xid doc \<noteq> xid x" by (rule not_root_of_parent [OF wl p])
  obtain k where k: "p \<in> set (iter doc)" "k \<in> set (xkids p)" "xid k = xid x" "k \<in> set (iter doc)"
    using parent_of_facts [OF p] .
  then have "k = x" using node_unique [OF wl k(4) assms(2)] by simp
  then have pp: "is_element p" "\<not> is_action p" using parent_not_action [OF assms(1) k(1,2)] assms(3) by auto
  have "\<forall>n \<in> set (iter (delete_node (xid x) doc)). xid n = xid p \<longrightarrow> is_element n \<and> \<not> is_action n"
  proof (intro ballI impI)
    fix n assume n: "n \<in> set (iter (delete_node (xid x) doc))" "xid n = xid p"
    then obtain m where m: "m \<in> set (iter doc)" "n = delete_node (xid x) m" using iter_delete by blast
    then have "m = p" using node_unique [OF wl m(1) k(1)] n(2) by simp
    then show "is_element n \<and> \<not> is_action n" using pp m(2) by simp
  qed
  then have "trimmed (prune_empty (xid p) (delete_node (xid x) doc)) (delete_node (xid x) doc) \<and>
      step_labels (prune_empty (xid p) (delete_node (xid x) doc)) = step_labels (delete_node (xid x) doc)"
    by (rule prune_empty_trims [OF tidy_delete [OF assms(1) root]])
  moreover have "step_labels (delete_node (xid x) doc) = filter (\<lambda>l. fst l \<notin> below (xid x) doc) (step_labels doc)"
    by (auto simp: step_labels_filter labels_delete [OF wl root] intro!: filter_cong)
  ultimately show ?thesis using trimmed_trans [OF _ trimmed_delete [OF assms(1) root]] p by (simp add: cut_element_def)
qed

lemma parent_of_kid: "\<lbrakk>p \<in> set (iter doc); k \<in> set (xkids p)\<rbrakk> \<Longrightarrow> parent_of (xid k) doc \<noteq> None"
  unfolding parent_of_def find_None_iff by auto

lemma node_below_has_parent: "\<lbrakk>x \<in> set (iter doc); x \<noteq> doc\<rbrakk> \<Longrightarrow> \<exists>p \<in> set (iter doc). x \<in> set (xkids p)"
proof (induction doc rule: xml_kids_induct)
  case (kids e)
  then obtain k where k: "k \<in> set (xkids e)" "x \<in> set (iter k)" using iter_kids [of e] by auto
  show ?case
  proof (cases "x = k")
    case True
    then show ?thesis using k(1) by auto
  next
    case False
    then obtain p where "p \<in> set (iter k)" "x \<in> set (xkids p)" using kids.IH [OF k] by blast
    then show ?thesis using kid_in_iter [OF k(1)] by blast
  qed
qed

text \<open>
  A node of a trimmed document, by its number. Removing elements one after the other takes the
  actions below each of them, whichever was removed before.
\<close>

lemma cut_elements_steps:
  "\<lbrakk>tidy doc; \<forall>x \<in> set xs. x \<in> set (iter doc) \<and> is_element x \<and> x \<noteq> doc; trimmed d doc\<rbrakk> \<Longrightarrow>
    trimmed (cut_elements (map xid xs) d) doc \<and>
    step_labels (cut_elements (map xid xs) d) = filter (\<lambda>l. \<forall>x \<in> set xs. fst l \<notin> below (xid x) doc) (step_labels d)"
proof (induction xs arbitrary: d)
  case Nil
  then show ?case by (simp add: cut_elements_def)
next
  case (Cons x xs)
  have td: "tidy d" and wd: "well_labelled doc" using Cons.prems(1,3) by (simp_all add: trimmed_def tidy_def)
  have x: "x \<in> set (iter doc)" "is_element x" "x \<noteq> doc" using Cons.prems(2) by auto
  show ?case
  proof (cases "xid x \<in> set (ids d)")
    case False
    have "parent_of (xid x) d = None"
    proof (rule ccontr)
      assume "parent_of (xid x) d \<noteq> None"
      then obtain p where "parent_of (xid x) d = Some p" by auto
      then obtain k where "xid k = xid x" "k \<in> set (iter d)" using parent_of_facts by metis
      then have "xid x \<in> xid ` set (iter d)" by (metis imageI)
      then show False using False by (simp add: ids_def)
    qed
    then have cut: "cut_elements (map xid (x # xs)) d = cut_elements (map xid xs) d"
      by (simp add: cut_elements_def cut_element_def)
    have "fst l \<notin> below (xid x) doc" if "l \<in> set (step_labels d)" for l
    proof -
      have "fst l \<in> set (ids d)" using that by (auto simp: step_labels_filter ids_labels)
      then have "fst l \<in> below (xid x) doc \<longleftrightarrow> fst l \<in> below (xid x) d" using Cons.prems(3) by (simp add: trimmed_def)
      then show ?thesis using below_absent [OF False] by simp
    qed
    then show ?thesis using Cons.IH [OF Cons.prems(1) _ Cons.prems(3)] Cons.prems(2) cut by (auto intro!: filter_cong)
  next
    case True
    then obtain y where y: "y \<in> set (iter d)" "xid y = xid x" by (auto simp: ids_def)
    then obtain m where m: "m \<in> set (iter doc)" "xid m = xid y" "xtag m = xtag y"
      using Cons.prems(3) by (fastforce simp: trimmed_def)
    then have "m = x" using node_unique [OF wd m(1) x(1)] y(2) by simp
    then have el: "is_element y" using x(2) m(3) by (simp add: is_element_def)
    have "xid x \<noteq> xid doc" using node_unique [OF wd x(1)] x(3) self_in_iter by blast
    then have "y \<noteq> d" using y(2) Cons.prems(3) by (auto simp: trimmed_def)
    then have par: "parent_of (xid y) d \<noteq> None" using node_below_has_parent [OF y(1)] parent_of_kid by blast
    define d1 where "d1 = cut_element (xid x) d"
    have 1: "trimmed d1 d" "step_labels d1 = filter (\<lambda>l. fst l \<notin> below (xid x) d) (step_labels d)"
      using cut_element_trims [OF td y(1) el par] y(2) by (simp_all add: d1_def)
    have 2: "trimmed d1 doc" by (rule trimmed_trans [OF 1(1) Cons.prems(3)])
    have 3: "step_labels d1 = filter (\<lambda>l. fst l \<notin> below (xid x) doc) (step_labels d)"
      unfolding 1(2)
    proof (rule filter_cong [OF refl])
      fix l assume "l \<in> set (step_labels d)"
      then have "fst l \<in> set (ids d)" by (auto simp: step_labels_filter ids_labels)
      then show "fst l \<notin> below (xid x) d \<longleftrightarrow> fst l \<notin> below (xid x) doc" using Cons.prems(3) by (simp add: trimmed_def)
    qed
    have "cut_elements (map xid (x # xs)) d = cut_elements (map xid xs) d1" by (simp add: cut_elements_def d1_def)
    moreover have "\<forall>x \<in> set xs. x \<in> set (iter doc) \<and> is_element x \<and> x \<noteq> doc" using Cons.prems(2) by simp
    ultimately show ?thesis using Cons.IH [OF Cons.prems(1) _ 2] 3 by (simp add: conj_commute)
  qed
qed


section \<open>No empty control node is left\<close>

lemma kid_disjoint:
  assumes "well_labelled e" and "k \<in> set (xkids e)" and "k' \<in> set (xkids e)" and "n \<in> set (iter k)" and "n \<in> set (iter k')"
  shows "k = k'"
proof -
  have "distinct (concat (map ids (xkids e)))"
    using assms(1) by (cases e) (simp add: well_labelled_def ids_Node)
  then show ?thesis using disjoint_kids [OF _ assms(2,3), of "xid n"] assms(4,5) by (auto simp: ids_def)
qed

lemma not_below_itself: "well_labelled k \<Longrightarrow> k' \<in> set (xkids k) \<Longrightarrow> k \<notin> set (iter k')"
proof -
  assume "well_labelled k" "k' \<in> set (xkids k)"
  moreover have "distinct (map xid (k # nodes (xkids k)))"
    using \<open>well_labelled k\<close> iter_kids [of k] by (simp add: well_labelled_def ids_def nodes_def)
  ultimately show ?thesis by (auto simp: nodes_def)
qed

lemma parent_unique:
  "\<lbrakk>well_labelled e; p \<in> set (iter e); q \<in> set (iter e); k \<in> set (xkids p); k \<in> set (xkids q)\<rbrakk> \<Longrightarrow> p = q"
proof (induction e rule: xml_kids_induct)
  case (kids e)
  have top: "q = e" if h: "k \<in> set (xkids e)" "k \<in> set (xkids q)" "q \<in> set (iter e)" for q
  proof (rule ccontr)
    assume "q \<noteq> e"
    then obtain k' where k': "k' \<in> set (xkids e)" "q \<in> set (iter k')" using h(3) iter_kids [of e] by auto
    have "k \<in> set (iter k')" using h(2) k'(2) iter_trans kid_in_iter self_in_iter by blast
    then have "k = k'" using kid_disjoint [OF kids.prems(1) h(1) k'(1) self_in_iter] by simp
    moreover have wk: "well_labelled k" using well_labelled_kid [OF kids.prems(1) h(1)] .
    ultimately have "q \<in> set (iter k)" "k \<in> set (xkids q)" using k'(2) h(2) by auto
    then have "q \<noteq> k" using not_below_itself [OF wk] self_in_iter by blast
    then obtain k2 where "k2 \<in> set (xkids k)" "q \<in> set (iter k2)" using \<open>q \<in> set (iter k)\<close> iter_kids [of k] by auto
    then have "k \<in> set (iter k2)" using \<open>k \<in> set (xkids q)\<close> iter_trans kid_in_iter self_in_iter by blast
    then show False using not_below_itself [OF wk \<open>k2 \<in> set (xkids k)\<close>] by simp
  qed
  show ?case
  proof (cases "k \<in> set (xkids e)")
    case True
    then show ?thesis using top kids.prems by blast
  next
    case False
    then have "p \<noteq> e" "q \<noteq> e" using kids.prems(4,5) by auto
    then obtain k1 k2 where k12: "k1 \<in> set (xkids e)" "p \<in> set (iter k1)" "k2 \<in> set (xkids e)" "q \<in> set (iter k2)"
      using kids.prems(2,3) iter_kids [of e] by auto
    have "k \<in> set (iter k1)" "k \<in> set (iter k2)"
      using kids.prems(4,5) k12 iter_trans kid_in_iter self_in_iter by blast+
    then have "k1 = k2" using kid_disjoint [OF kids.prems(1) k12(1,3)] by simp
    then show ?thesis using kids.IH [OF k12(1) well_labelled_kid [OF kids.prems(1) k12(1)] k12(2)] k12(4) kids.prems(4,5) by simp
  qed
qed

text \<open>Every control node holds an element, a tree's own control node and the nodes of \<open>X\<close> apart.\<close>

definition occupied :: "nat set \<Rightarrow> xml \<Rightarrow> bool" where
  "occupied X doc \<longleftrightarrow> (\<forall>p \<in> set (iter doc). \<forall>n \<in> set (xkids p).
     is_control n \<and> xtag p \<noteq> Some ''BehaviorTree'' \<and> xid n \<notin> X \<longrightarrow> list_ex is_element (xkids n))"

lemma parent_of_unique:
  assumes "well_labelled doc" and "parent_of i doc = Some p" and "q \<in> set (iter doc)" and "k \<in> set (xkids q)" and "xid k = i"
  shows "q = p"
proof -
  obtain k' where k': "p \<in> set (iter doc)" "k' \<in> set (xkids p)" "xid k' = i" "k' \<in> set (iter doc)"
    using parent_of_facts [OF assms(2)] .
  have "k \<in> set (iter doc)" using assms(3,4) iter_trans kid_in_iter self_in_iter by blast
  then have "k = k'" using node_unique [OF assms(1) _ k'(4)] k'(3) assms(5) by simp
  then show ?thesis using parent_unique [OF assms(1) assms(3) k'(1) assms(4)] k'(2) by simp
qed

lemma occupied_delete:
  assumes "well_labelled doc" and "occupied X doc" and "parent_of i doc = Some p"
  shows "occupied (insert (xid p) (X - {i})) (delete_node i doc)"
  unfolding occupied_def
proof (intro ballI impI)
  fix q n assume q: "q \<in> set (iter (delete_node i doc))" and n: "n \<in> set (xkids q)"
    and c: "is_control n \<and> xtag q \<noteq> Some ''BehaviorTree'' \<and> xid n \<notin> insert (xid p) (X - {i})"
  obtain m where m: "m \<in> set (iter doc)" "q = delete_node i m" using q iter_delete by blast
  then obtain n' where n': "n' \<in> set (xkids m)" "n = delete_node i n'" "xid n' \<noteq> i" using n by (auto simp: delete_kids)
  then have "list_ex is_element (xkids n')" using assms(2) m c unfolding occupied_def by auto
  then obtain k where k: "k \<in> set (xkids n')" "is_element k" by (auto simp: list_ex_iff)
  have "n' \<in> set (iter doc)" using m(1) n'(1) iter_trans kid_in_iter self_in_iter by blast
  then have "xid k \<noteq> i" using parent_of_unique [OF assms(1,3) _ k(1)] c n'(2) by auto
  then show "list_ex is_element (xkids n)" using k n'(2) by (auto simp: delete_kids list_ex_iff)
qed

lemma prune_empty_occupied:
  "\<lbrakk>tidy doc; occupied {i} doc\<rbrakk> \<Longrightarrow> occupied {} (prune_empty i doc)"
proof (induction i doc rule: prune_empty.induct)
  case (1 i doc)
  have wl: "well_labelled doc" using 1(2) by (simp add: tidy_def)
  show ?case
  proof (cases "\<exists>node p. node_at i doc = Some node \<and> xtag node \<noteq> Some ''BehaviorTree'' \<and> parent_of i doc = Some p \<and>
      \<not> (xtag p = Some ''BehaviorTree'' \<or> list_ex is_element (xkids node))")
    case False
    then have eq: "prune_empty i doc = doc" by (subst prune_empty.simps) (auto split: option.split)
    have "list_ex is_element (xkids n)"
      if q: "q \<in> set (iter doc)" "n \<in> set (xkids q)" "is_control n" "xtag q \<noteq> Some ''BehaviorTree''" for q n
    proof (cases "xid n = i")
      case True
      have n: "n \<in> set (iter doc)" using q iter_trans kid_in_iter self_in_iter by blast
      then obtain node where node: "node_at i doc = Some node" using True by (fastforce simp: node_at_def find_None_iff)
      then have "node = n" using node_unique [OF wl _ n] node_at_facts True by metis
      moreover obtain p where p: "parent_of i doc = Some p" using parent_of_kid [OF q(1,2)] True by auto
      moreover have "q = p" using parent_of_unique [OF wl p q(1,2) True] .
      moreover have "xtag n \<noteq> Some ''BehaviorTree''" using q(3) by (auto simp: control_iff CONTROL_TAGS_def)
      ultimately show ?thesis using False node q(4) by blast
    next
      case False
      then show ?thesis using 1(3) q by (auto simp: occupied_def)
    qed
    then show ?thesis using eq by (auto simp: occupied_def)
  next
    case True
    then obtain node p where np: "node_at i doc = Some node" "xtag node \<noteq> Some ''BehaviorTree''" "parent_of i doc = Some p"
      "\<not> (xtag p = Some ''BehaviorTree'' \<or> list_ex is_element (xkids node))" by blast
    then have eq: "prune_empty i doc = prune_empty (xid p) (delete_node i doc)" by (subst prune_empty.simps) simp
    have root: "xid doc \<noteq> i" by (rule not_root_of_parent [OF wl np(3)])
    have "occupied {xid p} (delete_node i doc)" using occupied_delete [OF wl 1(3) np(3)] by simp
    then show ?thesis using 1(1) [OF np] tidy_delete [OF 1(2) root] eq by simp
  qed
qed

lemma cut_element_occupied:
  assumes "tidy doc" and "occupied {} doc"
  shows "occupied {} (cut_element i doc)"
proof (cases "parent_of i doc")
  case (Some p)
  have wl: "well_labelled doc" using assms(1) by (simp add: tidy_def)
  have "occupied {xid p} (delete_node i doc)" using occupied_delete [OF wl assms(2) Some] by simp
  then show ?thesis
    using prune_empty_occupied [OF tidy_delete [OF assms(1) not_root_of_parent [OF wl Some]]] Some by (simp add: cut_element_def)
qed (simp add: cut_element_def assms)

lemma cut_elements_occupied:
  "\<lbrakk>tidy doc; \<forall>x \<in> set xs. x \<in> set (iter doc) \<and> is_element x \<and> x \<noteq> doc; trimmed d doc; occupied {} d\<rbrakk> \<Longrightarrow>
    occupied {} (cut_elements (map xid xs) d)"
proof (induction xs arbitrary: d)
  case (Cons x xs)
  have "trimmed (cut_elements (map xid [x]) d) doc" using cut_elements_steps [OF Cons.prems(1) _ Cons.prems(3), of "[x]"] Cons.prems(2) by simp
  moreover have "occupied {} (cut_element (xid x) d)" using cut_element_occupied Cons.prems(3,4) by (simp add: trimmed_def)
  ultimately show ?case using Cons.IH [of "cut_element (xid x) d"] Cons.prems(1,2) by (simp add: cut_elements_def)
qed (simp add: cut_elements_def)


section \<open>Removal is exact\<close>

text \<open>A plan the schema accepts, all the way up.\<close>

definition valid_plan :: "xml \<Rightarrow> bool" where
  "valid_plan doc \<longleftrightarrow> valid_mission doc \<and> tidy doc \<and> occupied {} doc"

lemma unit_elements_inside:
  assumes "valid_mission doc" and "u \<in> set (fst (located doc))" and "x \<in> set (snd u)"
  shows "x \<in> set (iter doc) \<and> x \<noteq> doc"
proof -
  define ks where "ks = concat (map xkids (iter_tag ''BehaviorTree'' doc))"
  have "subseq (nodes (elements_of (fst (located doc)))) (nodes ks)"
  proof -
    have "subseq (nodes (elements_of (fst (gen_concat (map snd (map (\<lambda>k. (k, located_under k)) ks))))))
        (nodes (map fst (map (\<lambda>k. (k, located_under k)) ks)))"
    proof (rule gen_concat_subseq)
      fix k g assume "(k, g) \<in> set (map (\<lambda>k. (k, located_under k)) ks)"
      then have "g = located_under k" by auto
      then show "subseq (nodes (elements_of (fst g))) (iter k)" by (simp only: located_under_subseq)
    qed
    then show ?thesis by (simp add: located_def ks_def [symmetric] comp_def)
  qed
  moreover have "x \<in> set (nodes (elements_of (fst (located doc))))"
  proof -
    have "x \<in> set (elements_of (fst (located doc)))" using assms(2,3) unfolding elements_of_def by auto
    then show ?thesis using list_emb_set [OF subseq_nodes] by blast
  qed
  ultimately have "x \<in> set (nodes ks)"
    using list_emb_set [of "(=)" "nodes (elements_of (fst (located doc)))" "nodes ks" x] by blast
  then obtain k where k: "k \<in> set ks" "x \<in> set (iter k)" by (auto simp: nodes_def)
  then obtain b where b: "b \<in> set (iter doc)" "k \<in> set (xkids b)" by (auto simp: ks_def iter_tag_def)
  have wl: "well_labelled doc" using assms(1) by (simp add: valid_mission_def)
  have "x \<in> set (iter doc)" using k(2) b iter_trans kid_in_iter by blast
  moreover have "x \<noteq> doc"
  proof
    assume "x = doc"
    then have "b \<in> set (iter k)" using k(2) b(1) iter_trans by blast
    then show False using not_below_itself [OF well_labelled_node [OF wl b(1)] b(2)] by simp
  qed
  ultimately show ?thesis by simp
qed

lemma removal_of_unit:
  assumes "valid_plan doc" and "located doc = (earlier @ u # later, False)" and "mt_task_id (fst u) = tid"
    and "\<forall>v \<in> set earlier. mt_task_id (fst v) \<noteq> tid"
  shows "\<exists>doc'. remove_task (Some doc) tid = Inr (Some doc') \<and>
     step_labels doc' = filter (\<lambda>l. fst l \<notin> xid ` set (acts (snd u))) (step_labels doc) \<and>
     labels doc' = filter (\<lambda>l. fst l \<in> set (ids doc')) (labels doc) \<and> occupied {} doc'"
proof -
  have vm: "valid_mission doc" and td: "tidy doc" and oc: "occupied {} doc" using assms(1) by (simp_all add: valid_plan_def)
  have wl: "well_labelled doc" using td by (simp add: tidy_def)
  have su: "sound_unit u" using units_sound [OF vm] assms(2) by auto
  define doc' where "doc' = cut_elements (map xid (snd u)) doc"
  have "find (\<lambda>(task, _). mt_task_id task = tid) (earlier @ u # later) = Some u"
    using assms(3,4) by (induction earlier) (auto simp: case_prod_beta')
  then have rm: "remove_task (Some doc) tid = Inr (Some doc')"
    using assms(2) by (cases u) (simp add: remove_task_def first_unit_def doc'_def)
  have els: "\<forall>x \<in> set (snd u). x \<in> set (iter doc) \<and> is_element x \<and> x \<noteq> doc"
    using unit_elements_inside [OF vm, of u] su assms(2) by (auto simp: sound_unit_def)
  have cut: "trimmed doc' doc" "step_labels doc' = filter (\<lambda>l. \<forall>x \<in> set (snd u). fst l \<notin> below (xid x) doc) (step_labels doc)"
    using cut_elements_steps [OF td els trimmed_refl [OF td]] by (simp_all add: doc'_def)
  have "(\<forall>x \<in> set (snd u). fst l \<notin> below (xid x) doc) \<longleftrightarrow> fst l \<notin> xid ` set (acts (snd u))"
    if l: "l \<in> set (step_labels doc)" for l
  proof -
    obtain a where a: "a \<in> set (iter doc)" "is_action a" "fst l = xid a"
      using l by (auto simp: step_labels_def actions_in_def)
    have "xid a \<in> below (xid x) doc \<longleftrightarrow> a \<in> set (actions_in x)" if "x \<in> set (snd u)" for x
      using below_iff [OF wl _ a(1), of x] els that a(2) by (auto simp: actions_in_def)
    moreover have "xid a \<in> xid ` set (acts (snd u)) \<longleftrightarrow> a \<in> set (acts (snd u))"
    proof
      assume "xid a \<in> xid ` set (acts (snd u))"
      then obtain b x where b: "xid b = xid a" "x \<in> set (snd u)" "b \<in> set (actions_in x)" by (auto simp: acts_def)
      then have "b \<in> set (iter doc)" using els iter_trans by (fastforce simp: actions_in_def)
      then have "b = a" using node_unique [OF wl _ a(1)] b(1) by simp
      then show "a \<in> set (acts (snd u))" using b by (auto simp: acts_def)
    qed simp
    ultimately show ?thesis using a(3) by (auto simp: acts_def)
  qed
  then have "step_labels doc' = filter (\<lambda>l. fst l \<notin> xid ` set (acts (snd u))) (step_labels doc)"
    unfolding cut(2) by (rule filter_cong [OF refl])
  moreover have "occupied {} doc'"
    unfolding doc'_def by (rule cut_elements_occupied [OF td els trimmed_refl [OF td] oc])
  moreover have "labels doc' = filter (\<lambda>l. fst l \<in> set (ids doc')) (labels doc)" using cut(1) by (simp add: trimmed_def)
  ultimately show ?thesis using rm by simp
qed

text \<open>
  C19: shedding a task takes exactly its unit. On a plan the schema accepts, removing an id finds the
  first unit that has it, or says there is none, and never raises. The plan that comes out has the
  same steps in the same order but for the actions of that unit's elements; nothing in it is new;
  and no control node is left without an element, but for a behaviour tree's own.
\<close>

theorem removal_is_exact:
  assumes "valid_plan doc"
  shows "case remove_task (Some doc) tid of
      Inl e \<Rightarrow> False
    | Inr None \<Rightarrow> \<forall>u \<in> set (fst (located doc)). mt_task_id (fst u) \<noteq> tid
    | Inr (Some doc') \<Rightarrow>
        (\<exists>earlier u later. fst (located doc) = earlier @ u # later \<and> mt_task_id (fst u) = tid \<and>
           (\<forall>v \<in> set earlier. mt_task_id (fst v) \<noteq> tid) \<and>
           step_labels doc' = filter (\<lambda>l. fst l \<notin> xid ` set (acts (snd u))) (step_labels doc)) \<and>
        labels doc' = filter (\<lambda>l. fst l \<in> set (ids doc')) (labels doc) \<and> occupied {} doc'"
proof -
  obtain us where us: "located doc = (us, False)" using units_sound assms by (auto simp: valid_plan_def)
  show ?thesis
  proof (cases "find (\<lambda>(task, _). mt_task_id task = tid) us")
    case None
    then have "remove_task (Some doc) tid = Inr None" by (simp add: remove_task_def first_unit_def us)
    moreover have "\<forall>u \<in> set us. mt_task_id (fst u) \<noteq> tid" using None by (auto simp: find_None_iff)
    ultimately show ?thesis using us by simp
  next
    case (Some u)
    then obtain i where i: "i < length us" "us ! i = u" "mt_task_id (fst u) = tid" "\<forall>j < i. mt_task_id (fst (us ! j)) \<noteq> tid"
      by (auto simp: find_Some_iff case_prod_beta')
    have split: "us = take i us @ u # drop (Suc i) us" using i(1,2) id_take_nth_drop by blast
    have early: "\<forall>v \<in> set (take i us). mt_task_id (fst v) \<noteq> tid" using i(1,4) by (fastforce simp: in_set_conv_nth)
    obtain doc' where doc': "remove_task (Some doc) tid = Inr (Some doc')"
      "step_labels doc' = filter (\<lambda>l. fst l \<notin> xid ` set (acts (snd u))) (step_labels doc)"
      "labels doc' = filter (\<lambda>l. fst l \<in> set (ids doc')) (labels doc)" "occupied {} doc'"
      using removal_of_unit [OF assms, of "take i us" u "drop (Suc i) us" tid] us split i(3) early by auto
    have "fst (located doc) = take i us @ u # drop (Suc i) us" using us split by simp
    then have "\<exists>earlier u later. fst (located doc) = earlier @ u # later \<and> mt_task_id (fst u) = tid \<and>
        (\<forall>v \<in> set earlier. mt_task_id (fst v) \<noteq> tid) \<and>
        step_labels doc' = filter (\<lambda>l. fst l \<notin> xid ` set (acts (snd u))) (step_labels doc)"
      using doc'(2) i(3) early by blast
    then show ?thesis using doc'(1,3,4) by simp
  qed
qed

theorem removal_is_exact_witness:
  "\<exists>doc'. remove_task (Some shared_aisle) 27938 = Inr (Some doc') \<and> occupied {} doc'"
proof -
  have "valid_plan shared_aisle" by code_simp
  moreover have "\<not> isl (remove_task (Some shared_aisle) 27938) \<and> projr (remove_task (Some shared_aisle) 27938) \<noteq> None"
    by code_simp
  then obtain doc' where "remove_task (Some shared_aisle) 27938 = Inr (Some doc')"
    by (cases "remove_task (Some shared_aisle) 27938") auto
  ultimately show ?thesis using removal_is_exact [of shared_aisle 27938] by auto
qed

end
