(* ===== verification/Task_Grafts.thy ===== *)
theory Task_Grafts
  imports Task_Edits
begin

text \<open>
  Inserting a task: the plan that comes out is one the schema accepts, has every step it had and
  the task's, and the task is a unit of it; what \<^verbatim>\<open>synthesize\<close> rebuilds from an announcement is
  such a task, and passes the gate.
\<close>

section \<open>New identities\<close>

text \<open>What a subtree says without its identities.\<close>

definition shape :: "xml \<Rightarrow> string option \<times> (string \<times> string) list" where
  "shape n = (xtag n, xattrs n)"

definition steps :: "xml \<Rightarrow> (string option \<times> (string \<times> string) list) list" where
  "steps e = map shape (actions_in e)"

lemma shape_Node [simp]: "shape (Node i t a x ks) = (t, a)"
  by (simp add: shape_def)

lemma shape_tests:
  assumes "shape a = shape b"
  shows "is_action a = is_action b" "is_control a = is_control b" "is_element a = is_element b" "attr k a = attr k b"
    "attr_or_empty k a = attr_or_empty k b" "own_name a = own_name b" "xtag a = xtag b"
  using assms by (simp_all add: shape_def is_action_def is_control_def has_tag_def is_element_def attr_def attr_or_empty_def own_name_def)

lemma shape_filter:
  "map shape xs = map shape ys \<Longrightarrow> map shape (filter is_action xs) = map shape (filter is_action ys)"
proof (induction xs arbitrary: ys)
  case (Cons x xs)
  then obtain y zs where "ys = y # zs" "shape x = shape y" "map shape xs = map shape zs" by (cases ys) auto
  then show ?case using Cons.IH [of zs] shape_tests(1) [of x y] by simp
qed simp

lemma steps_shapes: "map shape (iter a) = map shape (iter b) \<Longrightarrow> steps a = steps b"
  unfolding steps_def actions_in_def by (rule shape_filter)

lemma upt_split: "n \<le> m \<Longrightarrow> m \<le> l \<Longrightarrow> [n..<m] @ [m..<l] = [n..<l]"
  by (metis le_Suc_ex upt_add_eq_append)

lemma relabel_facts:
  "(\<And>e' m. relabel n e = (e', m) \<Longrightarrow>
     ids e' = [n..<m] \<and> n < m \<and> shape e' = shape e \<and> map shape (iter e') = map shape (iter e) \<and> conforming e' = conforming e \<and>
     map shape (xkids e') = map shape (xkids e))"
  "(\<And>ks' m. relabel_list n ks = (ks', m) \<Longrightarrow>
     concat (map ids ks') = [n..<m] \<and> n \<le> m \<and> map shape ks' = map shape ks \<and>
     map shape (nodes ks') = map shape (nodes ks) \<and> list_all conforming ks' = list_all conforming ks)"
proof (induction n e and n ks rule: relabel_relabel_list.induct)
  case (1 n i t a x ks)
  obtain ks1 m1 where r: "relabel_list (Suc n) ks = (ks1, m1)" by (cases "relabel_list (Suc n) ks")
  then have e': "e' = Node n t a x ks1" "m = m1" using 1(2) by simp_all
  have IH: "concat (map ids ks1) = [Suc n..<m1]" "Suc n \<le> m1" "map shape ks1 = map shape ks"
    "map shape (nodes ks1) = map shape (nodes ks)" "list_all conforming ks1 = list_all conforming ks" using 1(1) [OF r] by auto
  have "ids e' = [n..<m]" using IH(1,2) e' by (simp add: ids_Node upt_conv_Cons)
  moreover have "list_ex is_element ks1 = list_ex is_element ks"
  proof -
    have "list_ex is_element xs = list_ex (\<lambda>s. fst s \<noteq> None) (map shape xs)" for xs
      by (induction xs) (auto simp: is_element_def shape_def)
    then show ?thesis using IH(3) by metis
  qed
  moreover have "ks1 = [] \<longleftrightarrow> ks = []" using IH(3) by (metis map_is_Nil_conv)
  ultimately show ?case using IH e' by (simp add: nodes_def list_all_iff split: option.split)
next
  case (3 n k ks)
  obtain k1 m1 where r: "relabel n k = (k1, m1)" by (cases "relabel n k")
  obtain ks1 m2 where l: "relabel_list m1 ks = (ks1, m2)" by (cases "relabel_list m1 ks")
  have "ks' = k1 # ks1" "m = m2" using 3(3) r l by simp_all
  then show ?case using 3(1) [OF r] 3(2) [OF r [symmetric] l] upt_split [of n m1 m2] by (auto simp: less_imp_le)
qed auto

section \<open>Changing one node's children\<close>

lemma update_absent: "i \<notin> set (ids e) \<Longrightarrow> update_node i f e = e"
proof (induction i f e rule: update_node.induct)
  case (1 i f j t a x ks)
  then have "map (update_node i f) ks = ks" by (intro map_idI) (auto simp: ids_Node)
  then show ?case using 1(2) by (simp add: ids_Node)
qed

lemma update_kids: "xid e \<noteq> i \<Longrightarrow> xkids (update_node i f e) = map (update_node i f) (xkids e)"
  by (cases e) simp

lemma update_shape [simp]: "xid (update_node i f e) = xid e" "xtag (update_node i f e) = xtag e" "xattrs (update_node i f e) = xattrs e"
  by (cases e; simp)+

lemma kid_unique_id: "\<lbrakk>well_labelled e; k \<in> set (xkids e); k' \<in> set (xkids e); n \<in> set (ids k); n \<in> set (ids k')\<rbrakk> \<Longrightarrow> k = k'"
  using disjoint_kids [of "xkids e" k k' n] by (cases e) (simp add: well_labelled_def ids_Node)

text \<open>The children of the node at \<open>c\<close> are one stretch of the document, and only they change.\<close>

lemma update_context:
  "\<lbrakk>well_labelled e; c \<in> set (iter e)\<rbrakk> \<Longrightarrow>
    \<exists>before after. labels e = before @ (xid c, xtag c, xattrs c) # concat (map labels (xkids c)) @ after \<and>
      (\<forall>f. labels (update_node (xid c) f e) = before @ (xid c, xtag c, xattrs c) # concat (map labels (f (xkids c))) @ after)"
proof (induction e rule: xml_kids_induct)
  case (kids e)
  obtain i t a x ks where e: "e = Node i t a x ks" by (cases e)
  show ?case
  proof (cases "c = e")
    case True
    then show ?thesis by (intro exI [of _ "[]"]) (simp add: e labels_Node)
  next
    case False
    then obtain k where k: "k \<in> set (xkids e)" "c \<in> set (iter k)" using kids.prems(2) iter_kids [of e] by auto
    obtain p q where pq: "xkids e = p @ k # q" using k(1) split_list by fastforce
    have ck: "xid c \<in> set (ids k)" using k(2) by (simp add: ids_def)
    have out: "xid c \<notin> set (ids k')" if "k' \<in> set p \<union> set q" for k'
    proof
      assume "xid c \<in> set (ids k')"
      then have "k' = k" using kid_unique_id [OF kids.prems(1) _ k(1) _ ck, of k'] that pq by auto
      moreover have "distinct (concat (map ids (xkids e)))" using kids.prems(1) by (simp add: e well_labelled_def ids_Node)
      ultimately show False using that pq ck by auto
    qed
    have "xid c \<noteq> xid e" using node_unique [OF kids.prems] False self_in_iter by blast
    then have upd: "labels (update_node (xid c) f e) = (i, t, a) # concat (map labels p) @ labels (update_node (xid c) f k) @ concat (map labels q)" for f
    proof -
      have "map (update_node (xid c) f) p = p" "map (update_node (xid c) f) q = q"
        using out by (auto intro!: map_idI update_absent)
      then show ?thesis using pq \<open>xid c \<noteq> xid e\<close> by (simp add: e labels_Node)
    qed
    obtain before after where IH: "labels k = before @ (xid c, xtag c, xattrs c) # concat (map labels (xkids c)) @ after"
      "\<And>f. labels (update_node (xid c) f k) = before @ (xid c, xtag c, xattrs c) # concat (map labels (f (xkids c))) @ after"
      using kids.IH [OF k(1) well_labelled_kid [OF kids.prems(1) k(1)] k(2)] by blast
    show ?thesis
      using pq upd IH
      by (intro exI [of _ "(i, t, a) # concat (map labels p) @ before"] exI [of _ "after @ concat (map labels q)"])
        (simp add: e labels_Node)
  qed
qed

lemma update_iter_tag:
  "\<lbrakk>well_labelled e; c \<in> set (iter e); iter_tag t c = []; \<forall>k \<in> set (f (xkids c)). iter_tag t k = []\<rbrakk> \<Longrightarrow>
    iter_tag t (update_node (xid c) f e) = map (update_node (xid c) f) (iter_tag t e)"
proof (induction e rule: xml_kids_induct)
  case (kids e)
  obtain i t' a x ks where e: "e = Node i t' a x ks" by (cases e)
  have unfold: "iter_tag t (Node j s b y zs) = (if s = Some t then [Node j s b y zs] else []) @ concat (map (iter_tag t) zs)" for j s b y zs
    by (simp add: iter_tag_def filter_concat comp_def iter_tag_def [abs_def])
  show ?case
  proof (cases "c = e")
    case True
    then have "t' \<noteq> Some t" using kids.prems(3) by (auto simp: e unfold split: if_splits)
    moreover have "concat (map (iter_tag t) ks) = []" using True kids.prems(3) \<open>t' \<noteq> Some t\<close> by (simp add: e unfold)
    moreover have "concat (map (iter_tag t) (f ks)) = []" using True kids.prems(4) by (simp add: e)
    ultimately show ?thesis using True by (simp add: e unfold del: concat_eq_Nil_conv)
  next
    case False
    then have ne: "xid c \<noteq> xid e" using node_unique [OF kids.prems(1,2)] self_in_iter by blast
    have "iter_tag t (update_node (xid c) f k) = map (update_node (xid c) f) (iter_tag t k)" if "k \<in> set ks" for k
    proof (cases "c \<in> set (iter k)")
      case True
      then show ?thesis using kids.IH [of k] well_labelled_kid [OF kids.prems(1)] kids.prems(3,4) that by (simp add: e)
    next
      case out: False
      have "xid c \<notin> set (ids k)"
      proof
        assume "xid c \<in> set (ids k)"
        then obtain c' where "c' \<in> set (iter k)" "xid c' = xid c" by (auto simp: ids_def)
        moreover have "set (iter k) \<subseteq> set (iter e)" using that by (intro kid_in_iter) (simp add: e)
        ultimately show False using node_unique [OF kids.prems(1) _ kids.prems(2)] out by auto
      qed
      then have "update_node (xid c) f n = n" if "n \<in> set (iter k)" for n
        using that iter_trans [OF that] by (intro update_absent) (auto simp: ids_def)
      then show ?thesis using \<open>xid c \<notin> set (ids k)\<close> by (auto simp: update_absent iter_tag_def intro!: map_idI [symmetric])
    qed
    then show ?thesis using ne by (simp add: e unfold map_concat comp_def cong: map_cong)
  qed
qed


section \<open>Inserting a task\<close>

text \<open>A subtree as a rebuilt task has it: a control node over actions alone that declares its id.\<close>

definition ready_unit :: "int \<Rightarrow> xml \<Rightarrow> bool" where
  "ready_unit tid sub \<longleftrightarrow> is_control sub \<and> conforming sub \<and> \<not> list_ex is_control (xkids sub) \<and>
     declared_task_id (attr_or_empty ''name'' sub) = Some tid"

lemma ready_shape: "\<lbrakk>shape e' = shape e; map shape (xkids e') = map shape (xkids e); conforming e' = conforming e; ready_unit tid e\<rbrakk> \<Longrightarrow> ready_unit tid e'"
proof -
  assume *: "shape e' = shape e" "map shape (xkids e') = map shape (xkids e)" "conforming e' = conforming e" "ready_unit tid e"
  have "list_ex is_control xs = list_ex (\<lambda>s. \<exists>t. fst s = Some t \<and> t \<in> set CONTROL_TAGS) (map shape xs)" for xs
    by (induction xs) (auto simp: control_iff shape_def)
  from this [of "xkids e'"] this [of "xkids e"] have "list_ex is_control (xkids e') = list_ex is_control (xkids e)"
    using *(2) by simp
  then show "ready_unit tid e'" using *(3,4) shape_tests(2,5) [OF *(1)] by (simp add: ready_unit_def)
qed

lemma ready_located:
  assumes "ready_unit tid sub"
  shows "\<exists>task. located_under sub = ([(task, [sub])], False) \<and> mt_task_id task = tid"
proof -
  have no: "control_children (xkids sub) = []"
  proof (rule ccontr)
    assume "control_children (xkids sub) \<noteq> []"
    then obtain k g where "(k, g) \<in> set (control_children (xkids sub))" by (cases "control_children (xkids sub)") auto
    then show False using assms by (auto simp: ready_unit_def list_ex_iff control_children_iff)
  qed
  have id: "mt_task_id task = tid" if "task_of sub = Some task" for task
    using that assms by (auto simp: ready_unit_def task_of_def Let_def task_id_of_def split: if_splits)
  have "is_element sub" using assms by (auto simp: ready_unit_def control_iff is_element_def)
  then have "capabilities_of sub \<noteq> 0"
    using capabilities_nonzero conforming_has_action assms by (simp add: ready_unit_def)
  then have some: "task_of sub \<noteq> None" by (simp add: task_of_def Let_def)
  show ?thesis
    using assms some id no by (cases sub rule: located_under_cases) (auto simp: ready_unit_def undeclared_def)
qed

lemma conforming_tags: "\<lbrakk>conforming e; n \<in> set (iter e)\<rbrakk> \<Longrightarrow> xtag n \<noteq> Some ''BehaviorTree''"
proof (induction e rule: xml_kids_induct)
  case (kids e)
  show ?case
  proof (cases "n = e")
    case True
    show ?thesis
    proof
      assume "xtag n = Some ''BehaviorTree''"
      then have "is_element e" using True by (simp add: is_element_def)
      then show False
        using conforming_cases [OF kids.prems(1)] True \<open>xtag n = _\<close>
        by (auto simp: control_iff action_iff CONTROL_TAGS_def action_tags_def)
    qed
  next
    case False
    then obtain k where "k \<in> set (xkids e)" "n \<in> set (iter k)" using kids.prems(2) iter_kids [of e] by auto
    then show ?thesis using kids.IH conforming_kid [OF kids.prems(1)] by blast
  qed
qed

lemma fresh_id_above: "n \<in> set (ids doc) \<Longrightarrow> n < fresh_id doc"
proof -
  have up: "m \<le> fold max ns m" for ns and m :: nat
  proof (induction ns arbitrary: m)
    case (Cons a ns)
    show ?case using Cons [of "max a m"] by simp
  qed simp
  have "n \<in> set ns \<Longrightarrow> n \<le> fold max ns m" for ns m and n :: nat
  proof (induction ns arbitrary: m)
    case (Cons a ns)
    show ?case using Cons up [of "max a m" ns] by (cases "n = a") simp_all
  qed simp
  then show "n \<in> set (ids doc) \<Longrightarrow> n < fresh_id doc" by (simp add: fresh_id_def less_Suc_eq_le)
qed

text \<open>What isolating does to a control node's children.\<close>

definition kids_after :: "xml \<Rightarrow> xml \<Rightarrow> xml list \<Rightarrow> xml list" where
  "kids_after doc sub ks = isolate_leaves (fresh_id doc) ks @ [fst (relabel (Suc (fresh_id doc)) sub)]"

lemma isolate_acts:
  assumes "\<forall>k \<in> set ks. conforming k"
  shows "acts (isolate_leaves w ks) = acts ks"
proof (cases "list_ex is_action ks")
  case True
  have "is_control (Node w (Some ''Sequence'') [] [] xs)" for xs by (simp add: control_iff CONTROL_TAGS_def)
  then have "actions_in (Node w (Some ''Sequence'') [] [] xs) = acts xs" for xs
    using control_no_action by (simp add: actions_Node)
  moreover have "acts (filter (\<lambda>k. \<not> is_element k) ks) = []" using assms by (intro acts_no_elements) (auto simp: list_ex_iff)
  ultimately show ?thesis using True assms by (simp add: isolate_leaves_def acts_elements)
qed (simp add: isolate_leaves_def)

lemma isolate_conforming:
  assumes "\<forall>k \<in> set ks. conforming k"
  shows "\<forall>k \<in> set (isolate_leaves w ks). conforming k \<and> \<not> is_action k"
proof (cases "list_ex is_action ks")
  case True
  then obtain k where "k \<in> set ks" "is_action k" by (auto simp: list_ex_iff)
  then have "list_ex is_element (filter is_element ks)" by (auto simp: list_ex_iff action_element)
  then have "conforming (Node w (Some ''Sequence'') [] [] (filter is_element ks))" using assms by (simp add: CONTROL_TAGS_def)
  moreover have "\<not> is_action (Node w (Some ''Sequence'') [] [] (filter is_element ks))" by (simp add: action_iff action_tags_def)
  ultimately show ?thesis using True assms by (auto simp: isolate_leaves_def action_element)
qed (use assms in \<open>auto simp: isolate_leaves_def list_ex_iff\<close>)

lemma isolate_ids: "set (concat (map ids (isolate_leaves w ks))) \<subseteq> insert w (set (concat (map ids ks)))"
  by (auto simp: isolate_leaves_def ids_Node)

lemma isolate_distinct:
  assumes "distinct (concat (map ids ks))" and "w \<notin> set (concat (map ids ks))"
  shows "distinct (concat (map ids (isolate_leaves w ks)))"
proof -
  have "distinct (concat (map ids (filter P ks))) \<and> set (concat (map ids (filter P ks))) \<subseteq> set (concat (map ids ks))" for P
    using assms(1) by (induction ks) auto
  moreover have "set (concat (map ids (filter P ks))) \<inter> set (concat (map ids (filter (\<lambda>k. \<not> P k) ks))) = {}" for P
    using disjoint_kids [OF assms(1)] by (auto; fastforce)
  ultimately show ?thesis using assms by (auto simp: isolate_leaves_def ids_Node; blast)
qed


lemma update_iter: "set (iter (update_node i f e)) \<subseteq> update_node i f ` set (iter e) \<union> (\<Union>c \<in> {c \<in> set (iter e). xid c = i}. set (nodes (f (xkids c))))"
proof (induction e rule: xml_kids_induct)
  case (kids e)
  obtain j t a x ks where e: "e = Node j t a x ks" by (cases e)
  show ?case
  proof (cases "i = j")
    case True
    have "set (nodes (f ks)) \<subseteq> (\<Union>c \<in> {c \<in> set (iter e). xid c = i}. set (nodes (f (xkids c))))"
      using True UN_upper [of e "{c \<in> set (iter e). xid c = i}" "\<lambda>c. set (nodes (f (xkids c)))"] by (simp add: e)
    moreover have "iter (update_node i f e) = update_node i f e # nodes (f ks)" using True by (simp add: e nodes_def)
    ultimately show ?thesis using self_in_iter [of e] by auto
  next
    case False
    have "set (iter (update_node i f k)) \<subseteq> update_node i f ` set (iter e) \<union> (\<Union>c \<in> {c \<in> set (iter e). xid c = i}. set (nodes (f (xkids c))))"
      if "k \<in> set ks" for k
    proof -
      have k: "k \<in> set (xkids e)" using that by (simp add: e)
      have "set (iter k) \<subseteq> set (iter e)" by (rule kid_in_iter [OF k])
      then show ?thesis by (intro subset_trans [OF kids.IH [OF k]] Un_mono image_mono UN_mono) auto
    qed
    then show ?thesis using False by (auto simp: e)
  qed
qed

lemma conforming_tidy: "conforming n \<Longrightarrow> (\<not> is_element n \<longrightarrow> xkids n = []) \<and> (is_action n \<longrightarrow> \<not> list_ex is_element (xkids n))"
  by (cases n) (auto simp: is_element_def action_iff split: option.splits if_splits dest: control_no_action simp: CONTROL_TAGS_def action_tags_def)

lemma conforming_nodes: "\<lbrakk>\<forall>k \<in> set ks. conforming k; n \<in> set (nodes ks)\<rbrakk> \<Longrightarrow> conforming n"
proof -
  have "conforming n" if "conforming k" "n \<in> set (iter k)" for k
    using that
  proof (induction k rule: xml_kids_induct)
    case (kids k)
    then show ?case using iter_kids [of k] conforming_kid by auto
  qed
  then show "\<lbrakk>\<forall>k \<in> set ks. conforming k; n \<in> set (nodes ks)\<rbrakk> \<Longrightarrow> conforming n" by (auto simp: nodes_def)
qed

lemma gen_concat_fst: "\<not> snd (gen_concat gs) \<Longrightarrow> fst (gen_concat gs) = concat (map fst gs)"
proof (induction gs)
  case (Cons g gs)
  then show ?case by (cases g) (auto split: prod.splits if_splits)
qed simp

text \<open>A plan with one behaviour tree and its first control node, and a task to graft in.\<close>

definition one_tree_plan :: "xml \<Rightarrow> xml \<Rightarrow> xml \<Rightarrow> bool" where
  "one_tree_plan doc b c \<longleftrightarrow> valid_plan doc \<and> iter_tag ''BehaviorTree'' doc = [b] \<and> find is_control (xkids b) = Some c"

definition grafted :: "xml \<Rightarrow> xml \<Rightarrow> xml \<Rightarrow> xml" where
  "grafted doc c sub = update_node (xid c) (kids_after doc sub) doc"

lemma insert_task_grafted:
  assumes "one_tree_plan doc b c" and "mt_xml task = Some sub"
  shows "insert_task (Some doc) task = Some (grafted doc c sub)"
  using assms by (simp add: insert_task_def one_tree_plan_def grafted_def kids_after_def [abs_def] Let_def)

lemma one_tree_facts:
  assumes "one_tree_plan doc b c"
  shows "b \<in> set (iter doc)" "xtag b = Some ''BehaviorTree''" "c \<in> set (xkids b)" "c \<in> set (iter doc)"
    "is_control c" "conforming c" "is_element c" "well_labelled doc"
proof -
  have "b \<in> set (iter_tag ''BehaviorTree'' doc)" using assms by (simp add: one_tree_plan_def)
  then show b: "b \<in> set (iter doc)" "xtag b = Some ''BehaviorTree''" by (auto simp: iter_tag_def)
  have "find is_control (xkids b) = Some c" using assms by (simp add: one_tree_plan_def)
  then show c: "c \<in> set (xkids b)" "is_control c" by (auto simp: find_Some_iff)
  then show "c \<in> set (iter doc)" using b(1) iter_trans kid_in_iter self_in_iter by blast
  show "is_element c" using c(2) by (auto simp: control_iff is_element_def)
  show "conforming c" "well_labelled doc"
    using assms c(1) by (auto simp: one_tree_plan_def valid_plan_def valid_mission_def)
qed

lemma relabelled:
  assumes "ready_unit tid sub"
  obtains m where "ids (fst (relabel n sub)) = [n..<m]" "ready_unit tid (fst (relabel n sub))"
    "map shape (iter (fst (relabel n sub))) = map shape (iter sub)"
proof -
  obtain e' m where r: "relabel n sub = (e', m)" by (cases "relabel n sub")
  then show thesis using relabel_facts(1) [OF r] ready_shape [of e' sub tid] assms that by simp
qed

lemma kids_after_conforming:
  assumes "conforming c" and "ready_unit tid sub"
  shows "\<forall>k \<in> set (kids_after doc sub (xkids c)). conforming k \<and> \<not> is_action k"
proof -
  obtain m where "ready_unit tid (fst (relabel (Suc (fresh_id doc)) sub))" using relabelled [OF assms(2)] by metis
  then have "conforming (fst (relabel (Suc (fresh_id doc)) sub)) \<and> \<not> is_action (fst (relabel (Suc (fresh_id doc)) sub))"
    using control_no_action by (auto simp: ready_unit_def)
  then show ?thesis
    using isolate_conforming conforming_kid [OF assms(1)] by (auto simp: kids_after_def)
qed

lemma labels_map_fst: "map fst (concat (map labels ks)) = concat (map ids ks)"
  by (induction ks) (simp_all add: ids_labels)

lemma grafted_labels:
  assumes "one_tree_plan doc b c" and "ready_unit tid sub"
  obtains before after where
    "labels doc = before @ (xid c, xtag c, xattrs c) # concat (map labels (xkids c)) @ after"
    "labels (grafted doc c sub) = before @ (xid c, xtag c, xattrs c) # concat (map labels (kids_after doc sub (xkids c))) @ after"
    "well_labelled (grafted doc c sub)"
proof -
  note f = one_tree_facts [OF assms(1)]
  define w where "w = fresh_id doc"
  obtain before after where l: "labels doc = before @ (xid c, xtag c, xattrs c) # concat (map labels (xkids c)) @ after"
    "labels (grafted doc c sub) = before @ (xid c, xtag c, xattrs c) # concat (map labels (kids_after doc sub (xkids c))) @ after"
    using update_context [OF f(8,4)] by (auto simp: grafted_def)
  obtain m where m: "ids (fst (relabel (Suc w) sub)) = [Suc w..<m]" using relabelled [OF assms(2)] by metis
  have dist: "distinct (map fst before @ xid c # concat (map ids (xkids c)) @ map fst after)"
    using f(8) l(1) by (simp add: well_labelled_def ids_labels labels_map_fst [symmetric])
  have below: "n < w" if "n \<in> set (map fst before) \<union> {xid c} \<union> set (concat (map ids (xkids c))) \<union> set (map fst after)" for n
    using that fresh_id_above [of n doc] by (auto simp: w_def ids_labels l(1) labels_map_fst [symmetric])
  have iso: "distinct (concat (map ids (isolate_leaves w (xkids c))))"
    using dist below by (intro isolate_distinct) auto
  have sub: "set (concat (map ids (isolate_leaves w (xkids c)))) \<subseteq> insert w (set (concat (map ids (xkids c))))" by (rule isolate_ids)
  have "distinct (map fst before @ xid c # (concat (map ids (isolate_leaves w (xkids c))) @ [Suc w..<m]) @ map fst after)"
  proof -
    define A I K Z where defs: "A = map fst before" "I = concat (map ids (isolate_leaves w (xkids c)))"
      "K = concat (map ids (xkids c))" "Z = map fst after"
    have d: "distinct A" "distinct Z" "distinct I" "xid c \<notin> set A" "xid c \<notin> set K" "xid c \<notin> set Z" "set A \<inter> set K = {}" "set A \<inter> set Z = {}"
      "set K \<inter> set Z = {}" "set I \<subseteq> insert w (set K)" using dist iso sub by (auto simp: defs [symmetric])
    have lt: "n < w" if "n \<in> set A \<or> n = xid c \<or> n \<in> set K \<or> n \<in> set Z" for n using that below [of n] by (auto simp: defs)
    have i: "set A \<inter> set I = {}" "xid c \<notin> set I" "set I \<inter> set Z = {}" using d(5-10) lt by (fastforce dest: subsetD)+
    have u: "n \<notin> set [Suc w..<m]" if "n \<in> set A \<or> n = xid c \<or> n \<in> set I \<or> n \<in> set Z" for n
    proof -
      have "n \<le> w" using that d(10) lt [of n] by auto
      then show ?thesis by simp
    qed
    show ?thesis
      unfolding defs [symmetric] using d(1-4,6,8) i u by (auto simp del: set_upt)
  qed
  then have "well_labelled (grafted doc c sub)"
    using m by (simp add: well_labelled_def ids_labels l(2) kids_after_def w_def [symmetric] labels_map_fst [symmetric])
  then show thesis using that l by blast
qed


lemma grafted_nodes:
  assumes "one_tree_plan doc b c" and "n \<in> set (iter (grafted doc c sub))"
  shows "n \<in> set (nodes (kids_after doc sub (xkids c))) \<or>
    (\<exists>m \<in> set (iter doc). n = update_node (xid c) (kids_after doc sub) m \<and>
       xkids n = (if m = c then kids_after doc sub (xkids c) else map (update_node (xid c) (kids_after doc sub)) (xkids m)))"
proof -
  note f = one_tree_facts [OF assms(1)]
  have same: "m = c" if "m \<in> set (iter doc)" "xid m = xid c" for m using node_unique [OF f(8) that(1) f(4) that(2)] .
  consider m where "m \<in> set (iter doc)" "n = update_node (xid c) (kids_after doc sub) m"
    | d where "d \<in> set (iter doc)" "xid d = xid c" "n \<in> set (nodes (kids_after doc sub (xkids d)))"
    using assms(2) update_iter [of "xid c" "kids_after doc sub" doc] by (auto simp: grafted_def)
  then show ?thesis
  proof cases
    case 1
    have "xkids n = (if m = c then kids_after doc sub (xkids c) else map (update_node (xid c) (kids_after doc sub)) (xkids m))"
    proof (cases "m = c")
      case True
      then show ?thesis using 1(2) by (cases c) simp
    next
      case False
      then have "xid m \<noteq> xid c" using same [OF 1(1)] by blast
      then show ?thesis using False 1(2) update_kids by simp
    qed
    then show ?thesis using 1 by blast
  next
    case 2
    then show ?thesis using same [OF 2(1,2)] by simp
  qed
qed

lemma update_element [simp]: "is_element (update_node i f e) = is_element e" "is_action (update_node i f e) = is_action e"
    "is_control (update_node i f e) = is_control e"
  by (simp_all add: is_element_def is_action_def is_control_def has_tag_def)

lemma kids_after_element: "ready_unit tid sub \<Longrightarrow> list_ex is_element (kids_after doc sub ks)"
proof -
  assume "ready_unit tid sub"
  then obtain m where "ready_unit tid (fst (relabel (Suc (fresh_id doc)) sub))" using relabelled by metis
  then have "is_element (fst (relabel (Suc (fresh_id doc)) sub))" by (auto simp: ready_unit_def control_iff is_element_def)
  then show ?thesis by (simp add: kids_after_def)
qed

lemma conforming_control_intro:
  "\<lbrakk>is_control e; \<forall>k \<in> set (xkids e). conforming k; list_ex is_element (xkids e)\<rbrakk> \<Longrightarrow> conforming e"
  by (cases e) (auto simp: control_iff)

lemma grafted_valid:
  assumes "one_tree_plan doc b c" and "ready_unit tid sub"
  shows "valid_plan (grafted doc c sub) \<and>
    iter_tag ''BehaviorTree'' (grafted doc c sub) = [update_node (xid c) (kids_after doc sub) b]"
proof -
  note f = one_tree_facts [OF assms(1)]
  define K where "K = kids_after doc sub (xkids c)"
  define up where "up = update_node (xid c) (kids_after doc sub)"
  have vp: "valid_mission doc" "tidy doc" "occupied {} doc" using assms(1) by (simp_all add: one_tree_plan_def valid_plan_def)
  have wl: "well_labelled (grafted doc c sub)" using grafted_labels [OF assms] by blast
  have K: "\<forall>k \<in> set K. conforming k \<and> \<not> is_action k" using kids_after_conforming [OF f(6) assms(2)] by (simp add: K_def)
  have Kel: "list_ex is_element K" using kids_after_element [OF assms(2)] by (simp add: K_def)
  have conf: "conforming n" if "n \<in> set (nodes K)" for n using conforming_nodes [OF _ that] K by blast
  have nodes: "n \<in> set (nodes K) \<or> (\<exists>m \<in> set (iter doc). n = up m \<and> xkids n = (if m = c then K else map up (xkids m)))"
    if "n \<in> set (iter (grafted doc c sub))" for n
    unfolding K_def up_def by (rule grafted_nodes [OF assms(1) that])
  have up_kids: "xkids (up m) = (if m = c then K else map up (xkids m))" if "m \<in> set (iter doc)" for m
  proof (cases "m = c")
    case False
    then have "xid m \<noteq> xid c" using node_unique [OF f(8) that f(4)] by blast
    then show ?thesis using False by (simp add: up_def update_kids)
  qed (cases c, simp add: up_def K_def)
  have tidy: "tidy (grafted doc c sub)"
    unfolding tidy_def
  proof (intro conjI wl ballI)
    fix n assume n: "n \<in> set (iter (grafted doc c sub))"
    show "(\<not> is_element n \<longrightarrow> xkids n = [])" "(is_action n \<longrightarrow> \<not> list_ex is_element (xkids n))"
    proof -
      from nodes [OF n] have "(\<not> is_element n \<longrightarrow> xkids n = []) \<and> (is_action n \<longrightarrow> \<not> list_ex is_element (xkids n))"
      proof
        assume "n \<in> set (nodes K)"
        then show ?thesis using conforming_tidy [OF conf] by blast
      next
        assume "\<exists>m \<in> set (iter doc). n = up m \<and> xkids n = (if m = c then K else map up (xkids m))"
        then obtain m where m: "m \<in> set (iter doc)" "n = up m" "xkids n = (if m = c then K else map up (xkids m))" by blast
        have el: "is_element (up e) = is_element e" for e by (simp add: up_def)
        show ?thesis
        proof (cases "m = c")
          case True
          then show ?thesis using m(2) f(5,7) control_no_action by (simp add: up_def)
        next
          case False
          then show ?thesis using m vp(2) by (auto simp: tidy_def up_def list_ex_iff)
        qed
      qed
      then show "(\<not> is_element n \<longrightarrow> xkids n = [])" "(is_action n \<longrightarrow> \<not> list_ex is_element (xkids n))" by blast+
    qed
  qed
  have occ: "occupied {} (grafted doc c sub)"
    unfolding occupied_def
  proof (intro ballI impI)
    fix p n assume p: "p \<in> set (iter (grafted doc c sub))" and n: "n \<in> set (xkids p)"
      and c': "is_control n \<and> xtag p \<noteq> Some ''BehaviorTree'' \<and> xid n \<notin> {}"
    have ctrl: "list_ex is_element (xkids n)" if "conforming n"
      using that c' conforming_cases [OF that] control_no_action by (auto simp: control_iff is_element_def)
    from nodes [OF p] show "list_ex is_element (xkids n)"
    proof
      assume "p \<in> set (nodes K)"
      then show ?thesis using conf conforming_kid n ctrl by blast
    next
      assume "\<exists>m \<in> set (iter doc). p = up m \<and> xkids p = (if m = c then K else map up (xkids m))"
      then obtain m where m: "m \<in> set (iter doc)" "p = up m" "xkids p = (if m = c then K else map up (xkids m))" by blast
      show ?thesis
      proof (cases "m = c")
        case True
        then show ?thesis using n m(3) K ctrl by auto
      next
        case False
        then obtain k where k: "k \<in> set (xkids m)" "n = up k" using n m(3) by auto
        have kd: "k \<in> set (iter doc)" using m(1) k(1) iter_trans kid_in_iter self_in_iter by blast
        show ?thesis
        proof (cases "k = c")
          case True
          then show ?thesis using up_kids [OF kd] k(2) Kel by simp
        next
          case False
          have "list_ex is_element (xkids k)"
            using vp(3) m(1,2) k c' unfolding occupied_def by (auto simp: up_def)
          then show ?thesis using False up_kids [OF kd] k(2) by (auto simp: list_ex_iff up_def)
        qed
      qed
    qed
  qed
  have none: "iter_tag ''BehaviorTree'' k = []" if "conforming k" for k
    using conforming_tags [OF that] by (auto simp: iter_tag_def filter_empty_conv)
  have bt: "iter_tag ''BehaviorTree'' (grafted doc c sub) = [up b]"
    using update_iter_tag [OF f(8,4) none [OF f(6)], of "kids_after doc sub"] none K assms(1)
    by (simp add: grafted_def K_def up_def one_tree_plan_def)
  have "b \<noteq> c" using f(2,5) by (auto simp: control_iff CONTROL_TAGS_def)
  then have "xkids (up b) = map up (xkids b)" using up_kids [OF f(1)] by simp
  moreover have "conforming (up k) \<and> (is_element (up k) \<longrightarrow> is_control (up k))" if k: "k \<in> set (xkids b)" for k
  proof (cases "k = c")
    case True
    have "xkids (up c) = K" using up_kids [OF f(4)] by simp
    moreover have "is_control (up c)" using f(5) by (simp add: up_def)
    ultimately have "conforming (up c)" using K Kel by (intro conforming_control_intro) simp_all
    then show ?thesis using True f(5) by (simp add: up_def)
  next
    case False
    have "xid c \<notin> set (ids k)"
    proof
      assume i: "xid c \<in> set (ids k)"
      have "xid c \<in> set (ids c)" by (auto simp: ids_def)
      then show False
        using kid_unique_id [OF well_labelled_node [OF f(8,1)] k f(3) i] False by blast
    qed
    then have "up k = k" by (simp add: up_def update_absent)
    then show ?thesis using vp(1) k f(1,2) by (auto simp: valid_mission_def iter_tag_def)
  qed
  ultimately have "valid_mission (grafted doc c sub)" using wl bt by (auto simp: valid_mission_def)
  then show ?thesis using tidy occ bt by (simp add: valid_plan_def up_def)
qed


lemma steps_labels: "steps doc = map snd (step_labels doc)"
  by (simp add: steps_def step_labels_def shape_def comp_def)

lemma step_labels_acts: "filter action_label (concat (map labels ks)) = map (\<lambda>n. (xid n, xtag n, xattrs n)) (acts ks)"
  by (induction ks) (simp_all add: step_labels_filter [symmetric] step_labels_def)

lemma grafted_steps:
  assumes "one_tree_plan doc b c" and "ready_unit tid sub"
  shows "\<exists>before after. step_labels doc = before @ after \<and>
    step_labels (grafted doc c sub) = before @ map (\<lambda>n. (xid n, xtag n, xattrs n)) (actions_in (fst (relabel (Suc (fresh_id doc)) sub))) @ after"
proof -
  note f = one_tree_facts [OF assms(1)]
  obtain before after where l:
    "labels doc = before @ (xid c, xtag c, xattrs c) # concat (map labels (xkids c)) @ after"
    "labels (grafted doc c sub) = before @ (xid c, xtag c, xattrs c) # concat (map labels (kids_after doc sub (xkids c))) @ after"
    using grafted_labels [OF assms] by blast
  have c: "\<not> action_label (xid c, xtag c, xattrs c)" using control_no_action [OF f(5)] by (simp add: action_label_def action_iff)
  have a: "acts (kids_after doc sub (xkids c)) = acts (xkids c) @ actions_in (fst (relabel (Suc (fresh_id doc)) sub))"
    using isolate_acts conforming_kid [OF f(6)] by (simp add: kids_after_def)
  show ?thesis
    by (intro exI [of _ "filter action_label before @ map (\<lambda>n. (xid n, xtag n, xattrs n)) (acts (xkids c))"] exI [of _ "filter action_label after"])
      (simp add: step_labels_filter l c step_labels_acts a)
qed

lemma concat_map_split: "\<lbrakk>xs = p @ x # q\<rbrakk> \<Longrightarrow> concat (map f xs) = concat (map f p) @ f x @ concat (map f q)"
  by simp

lemma located_controls:
  "\<lbrakk>is_control e; control_children (xkids e) \<noteq> []; leaf_children (xkids e) = []\<rbrakk> \<Longrightarrow>
    located_under e = gen_concat (map snd (control_children (xkids e)))"
  by (cases e) (simp add: located_under_unfold Let_def control_children_def leaf_children_def fst_children)

lemma grafted_located:
  assumes "one_tree_plan doc b c" and "ready_unit tid sub"
  shows "\<exists>earlier task later. located (grafted doc c sub) =
    (earlier @ (task, [fst (relabel (Suc (fresh_id doc)) sub)]) # later, False) \<and> mt_task_id task = tid"
proof -
  note f = one_tree_facts [OF assms(1)]
  define sub' where "sub' = fst (relabel (Suc (fresh_id doc)) sub)"
  define up where "up = update_node (xid c) (kids_after doc sub)"
  note v = grafted_valid [OF assms]
  obtain m where rd: "ready_unit tid sub'" using relabelled [OF assms(2)] unfolding sub'_def by metis
  obtain task where t: "located_under sub' = ([(task, [sub'])], False)" "mt_task_id task = tid" using ready_located [OF rd] by blast
  have subc: "is_control sub'" using rd by (simp add: ready_unit_def)
  have kc: "xkids (up c) = kids_after doc sub (xkids c)" by (cases c) (simp add: up_def)
  have noact: "leaf_children (xkids (up c)) = []"
    using kids_after_conforming [OF f(6) assms(2)] kc by (auto simp: leaf_children_def filter_empty_conv)
  have cc: "control_children (xkids (up c)) = control_children (isolate_leaves (fresh_id doc) (xkids c)) @ [(sub', located_under sub')]"
    using subc by (auto simp: kc kids_after_def sub'_def [symmetric] control_children_def children_of_def control_iff is_element_def)
  have "is_control (up c)" using f(5) by (simp add: up_def)
  then have lc: "located_under (up c) = gen_concat (map snd (control_children (xkids (up c))))"
    using noact cc by (intro located_controls) simp_all
  have b: "xkids (up b) = map up (xkids b)"
  proof -
    have "b \<noteq> c" using f(2,5) by (auto simp: control_iff CONTROL_TAGS_def)
    then have "xid b \<noteq> xid c" using node_unique [OF f(8,1,4)] by blast
    then show ?thesis by (simp add: up_def update_kids)
  qed
  obtain p q where pq: "xkids b = p @ c # q" using f(3) split_list by fastforce
  obtain us where us: "located (grafted doc c sub) = (us, False)" using units_sound v by (auto simp: valid_plan_def)
  have loc: "located (grafted doc c sub) = gen_concat (map located_under (map up (xkids b)))"
    using v b by (simp add: located_def up_def)
  have "fst (gen_concat (map located_under (map up (xkids b)))) = concat (map fst (map located_under (map up (xkids b))))"
    by (rule gen_concat_fst) (simp only: loc [symmetric] us snd_conv not_False_eq_True)
  then have "us = concat (map (fst \<circ> located_under) (map up (xkids b)))"
    unfolding loc [symmetric] us by (simp add: comp_def)
  then have us1: "us = concat (map (fst \<circ> located_under \<circ> up) p) @ fst (located_under (up c)) @ concat (map (fst \<circ> located_under \<circ> up) q)"
    by (simp add: pq comp_def)
  have "\<not> snd (located_under (up c))"
  proof -
    have "well_labelled (up c) \<and> conforming (up c) \<and> is_control (up c)"
    proof -
      have "up b \<in> set (iter (grafted doc c sub))" 
      proof -
        have "up b \<in> set (iter_tag ''BehaviorTree'' (grafted doc c sub))" using v by (simp add: up_def)
        then show ?thesis by (simp add: iter_tag_def)
      qed
      then have "well_labelled (up c)"
        using well_labelled_kid [OF well_labelled_node, of "grafted doc c sub" "up b" "up c"] v b pq
        by (simp add: valid_plan_def valid_mission_def)
      moreover have "conforming (up c)"
        using kids_after_conforming [OF f(6) assms(2)] kids_after_element [OF assms(2)] \<open>is_control (up c)\<close> kc
        by (intro conforming_control_intro) simp_all
      ultimately show ?thesis using \<open>is_control (up c)\<close> by simp
    qed
    then show ?thesis using located_under_sound by (auto simp: sound_split_def)
  qed
  then have "fst (located_under (up c)) = concat (map (fst \<circ> snd) (control_children (isolate_leaves (fresh_id doc) (xkids c)))) @ [(task, [sub'])]"
    using gen_concat_fst [of "map snd (control_children (xkids (up c)))"] lc cc t(1) by (simp add: comp_def)
  then show ?thesis using us us1 t(2) unfolding sub'_def [symmetric] by (metis append.assoc append_Cons append_Nil)
qed

text \<open>
  C22: what was absorbed is found again, and shedding it restores the plan. Inserting a task whose
  subtree is a rebuilt one, into a plan the schema accepts, gives a plan the schema accepts with
  every step it had and the task's steps after those of the main sequence; the task is one of its
  units, under its own id; and when no earlier unit has that id, removing the id again leaves the
  steps the plan had before.
\<close>

theorem absorbed_task_roundtrip:
  assumes "one_tree_plan doc b c" and "mt_xml task = Some sub" and "ready_unit tid sub"
  shows "\<exists>doc' earlier u later. insert_task (Some doc) task = Some doc' \<and> valid_plan doc' \<and>
     (\<exists>before after. steps doc = before @ after \<and> steps doc' = before @ steps sub @ after) \<and>
     located doc' = (earlier @ u # later, False) \<and> mt_task_id (fst u) = tid \<and> map shape (acts (snd u)) = steps sub \<and>
     ((\<forall>v \<in> set earlier. mt_task_id (fst v) \<noteq> tid) \<longrightarrow>
        (\<exists>doc''. remove_task (Some doc') tid = Inr (Some doc'') \<and> steps doc'' = steps doc))"
proof -
  note f = one_tree_facts [OF assms(1)]
  define doc' where "doc' = grafted doc c sub"
  define w where "w = fresh_id doc"
  define sub' where "sub' = fst (relabel (Suc w) sub)"
  obtain m where m: "ids sub' = [Suc w..<m]" "map shape (iter sub') = map shape (iter sub)"
    using relabelled [OF assms(3)] unfolding sub'_def by metis
  have st: "map shape (actions_in sub') = steps sub" using steps_shapes [OF m(2)] by (simp add: steps_def)
  have vp: "valid_plan doc'" using grafted_valid [OF assms(1,3)] by (simp add: doc'_def)
  obtain before after where l: "step_labels doc = before @ after"
    "step_labels doc' = before @ map (\<lambda>n. (xid n, xtag n, xattrs n)) (actions_in sub') @ after"
    using grafted_steps [OF assms(1,3)] by (auto simp: doc'_def sub'_def w_def)
  have 1: "steps doc = map snd before @ map snd after" "steps doc' = map snd before @ steps sub @ map snd after"
    using l st by (simp_all add: steps_labels shape_def [abs_def] comp_def)
  obtain earlier t later where u: "located doc' = (earlier @ (t, [sub']) # later, False)" "mt_task_id t = tid"
    using grafted_located [OF assms(1,3)] by (auto simp: doc'_def sub'_def w_def)
  have 2: "\<exists>doc''. remove_task (Some doc') tid = Inr (Some doc'') \<and> steps doc'' = steps doc"
    if none: "\<forall>v \<in> set earlier. mt_task_id (fst v) \<noteq> tid"
  proof -
    obtain doc'' where d: "remove_task (Some doc') tid = Inr (Some doc'')"
      "step_labels doc'' = filter (\<lambda>l. fst l \<notin> xid ` set (acts (snd (t, [sub'])))) (step_labels doc')"
      using removal_of_unit [OF vp u(1) _ none] u(2) by auto
    have "fst l < w" if "l \<in> set before \<union> set after" for l
    proof -
      have "l \<in> set (step_labels doc)" using that l(1) by auto
      then have "fst l \<in> set (ids doc)" by (auto simp: step_labels_filter ids_labels)
      then show ?thesis using fresh_id_above by (simp add: w_def)
    qed
    moreover have "w < xid a" if "a \<in> set (actions_in sub')" for a
    proof -
      have "xid a \<in> set (ids sub')" using that by (auto simp: actions_in_def ids_def)
      then show ?thesis by (simp add: m(1))
    qed
    ultimately have "filter (\<lambda>l. fst l \<notin> xid ` set (actions_in sub')) before = before"
        "filter (\<lambda>l. fst l \<notin> xid ` set (actions_in sub')) after = after"
      by (fastforce simp: filter_id_conv)+
    then have "step_labels doc'' = step_labels doc" using d(2) l by (simp add: filter_empty_conv)
    then show ?thesis using d(1) by (simp add: steps_labels)
  qed
  have "insert_task (Some doc) task = Some doc'" using insert_task_grafted [OF assms(1,2)] by (simp add: doc'_def)
  then show ?thesis
    using vp 1 u 2 st by (intro exI [of _ doc'] exI [of _ earlier] exI [of _ "(t, [sub'])"] exI [of _ later]) auto
qed


definition one_plan :: xml where
  "one_plan = mission [named 3 ''Sequence'' [] [visit 4 ''v60'' ''60'', named 5 ''SampleLeaf'' ''p60'' []]]"

definition won_unit :: xml where
  "won_unit = named 0 ''Sequence'' ''x__task_5'' [visit 1 ''v7'' ''7'', named 2 ''SampleLeaf'' ''p7'' []]"

definition won_task :: mission_task where
  "won_task = \<lparr>mt_task_id = 5, mt_name = ''x'', mt_capabilities = 129,
     mt_target = \<lparr>tg_kind = TREE, tg_a = 7, tg_b = 0\<rparr>, mt_priority = 100, mt_xml = Some won_unit\<rparr>"

theorem absorbed_task_roundtrip_witness:
  "\<exists>doc'. insert_task (Some one_plan) won_task = Some doc' \<and> valid_plan doc'"
proof -
  have "\<exists>b c. one_tree_plan one_plan b c"
  proof -
    have "valid_plan one_plan" by code_simp
    moreover have "map xid (iter_tag ''BehaviorTree'' one_plan) = [2]" by code_simp
    then obtain b where b: "iter_tag ''BehaviorTree'' one_plan = [b]" by auto
    moreover have "find is_control (xkids (hd (iter_tag ''BehaviorTree'' one_plan))) \<noteq> None" by code_simp
    ultimately show ?thesis by (auto simp: one_tree_plan_def)
  qed
  then obtain b c where "one_tree_plan one_plan b c" by blast
  moreover have "mt_xml won_task = Some won_unit" by (simp add: won_task_def)
  moreover have "ready_unit 5 won_unit" by code_simp
  ultimately show ?thesis using absorbed_task_roundtrip [of one_plan b c won_task won_unit 5] by blast
qed

section \<open>Rebuilding a task\<close>

lemma named_leaf_simps [simp]: "xtag (named_leaf i t a) = Some t" "xattrs (named_leaf i t a) = a" "xkids (named_leaf i t a) = []"
    "attr k (named_leaf i t a) = map_of a k" "iter (named_leaf i t a) = [named_leaf i t a]"
  by (simp_all add: named_leaf_def attr_def)

lemma rebuilt_leaves:
  "k \<in> set (head_steps names safe aisle @ approach_step names safe tree # sample_steps names safe tree w) \<Longrightarrow>
    conforming k \<and> is_action k \<and> \<not> is_control k"
  by (auto simp: head_steps_def approach_step_def sample_steps_def named_leaf_def action_iff control_iff CONTROL_TAGS_def
      action_tags_def split: option.splits if_splits)

lemma rebuilt_actions:
  "acts (head_steps names safe aisle @ approach_step names safe tree # sample_steps names safe tree w) =
    head_steps names safe aisle @ approach_step names safe tree # sample_steps names safe tree w"
proof -
  have "acts ks = ks" if "\<forall>k \<in> set ks. conforming k \<and> is_action k" for ks
    using that by (induction ks) (simp_all add: conforming_action)
  then show ?thesis using rebuilt_leaves by blast
qed

lemma py_int_str_int: "0 \<le> i \<Longrightarrow> py_int (str_int i) = Some i"
  by (simp add: str_int_def)

lemma str_nat_strip: "strip (str_nat n) = str_nat n"
  using str_nat_digits digit_not_space by (intro strip_plain) blast

lemma strip_str_int: "strip (str_int i) \<noteq> []"
proof -
  have d: "\<not> py_space c" if "c \<in> set (str_nat n)" for c n using that str_nat_digits digit_not_space by blast
  moreover have "\<not> py_space (CHR ''-'')" by (simp add: py_space_def)
  ultimately have "strip (str_int i) = str_int i" by (intro strip_plain) (auto simp: str_int_def)
  then show ?thesis using str_nat_not_Nil by (simp add: str_int_def)
qed

lemma approach_step_facts:
  assumes "0 \<le> tree"
  shows "approach (approach_step names safe tree)" "tree_id (approach_step names safe tree) = str_int tree"
    "xtag (approach_step names safe tree) = Some ''MoveToTreeID''" "approaches (approach_step names safe tree)"
    "attr ''id'' (approach_step names safe tree) = Some (str_int tree)"
proof -
  have t: "strip (str_int tree) = str_int tree" "str_int tree \<noteq> []"
    using assms str_nat_strip str_nat_not_Nil by (simp_all add: str_int_def)
  have s: "lower (strip ''true'') = ''true''" by code_simp
  show tag: "xtag (approach_step names safe tree) = Some ''MoveToTreeID''" by (simp add: approach_step_def)
  show a: "approaches (approach_step names safe tree)" by (simp add: approaches_def attr_or_empty_def approach_step_def s)
  show i: "attr ''id'' (approach_step names safe tree) = Some (str_int tree)" by (simp add: approach_step_def)
  show id: "tree_id (approach_step names safe tree) = str_int tree" using t(1) i by (simp add: tree_id_def attr_or_empty_def)
  show "approach (approach_step names safe tree)"
    using tag a id t(2) by (simp add: approach_def complete_def tree_id_def [symmetric])
qed

lemma sample_steps_facts:
  "n \<in> set (sample_steps names safe tree w) \<Longrightarrow> xtag n = Some ''SampleLeaf'' \<and> w"
  by (auto simp: sample_steps_def split: if_splits)

lemma head_steps_facts:
  "n \<in> set (head_steps names safe aisle) \<Longrightarrow> xtag n = Some ''MoveToAisleHead'' \<and> aisle \<noteq> None \<and> attr ''id'' n = Some (str_int (the aisle))"
  by (auto simp: head_steps_def split: option.splits)

text \<open>
  C23: what an announcement rebuilds is sound. A task is rebuilt exactly when its target is a tree
  and driving to a tree is among its capabilities. The subtree declares the task's id and is a
  unit by itself, the schema's control node over actions; its target is the task's; it passes
  the precondition gate whatever the map; its steps are the head of the tree's aisle when the map has
  it, the approach, and the sample when it was asked for; and every capability asked for is in
  the subtree or named as dropped.
\<close>

theorem rebuilt_task_is_sound:
  assumes "target_wf (mt_target task)" and "0 < mt_task_id task" and "mt_task_id task \<le> TASK_ID_MAX"
  shows "case synthesize names task om of
      None \<Rightarrow> tg_kind (mt_target task) \<noteq> TREE \<or> MOVE_TO_TREE_ID \<notin> set (capabilities_in (mt_capabilities task))
    | Some r \<Rightarrow> ready_unit (mt_task_id task) (rb_xml r) \<and> target_of (rb_xml r) = mt_target task \<and>
        violations (rb_xml r) om' = Some [] \<and>
        map xtag (actions_in (rb_xml r)) =
          (if aisle_of om (str_int (tg_a (mt_target task))) = None then [] else [Some ''MoveToAisleHead'']) @ [Some ''MoveToTreeID''] @
          (if SAMPLE_LEAF \<in> set (capabilities_in (mt_capabilities task)) then [Some ''SampleLeaf''] else []) \<and>
        (\<forall>c \<in> set (capabilities_in (mt_capabilities task)).
           Some (xml_element c) \<in> xtag ` set (actions_in (rb_xml r)) \<or> xml_element c \<in> set (rb_dropped r))"
proof (cases "synthesize names task om")
  case None
  then show ?thesis by (auto simp: synthesize_def Let_def split: if_splits)
next
  case (Some r)
  define caps where "caps = capabilities_in (mt_capabilities task)"
  define tree where "tree = tg_a (mt_target task)"
  define aisle where "aisle = aisle_of om (str_int tree)"
  define heads where "heads = head_steps names (safe_name task) aisle"
  define move where "move = approach_step names (safe_name task) tree"
  define samples where "samples = sample_steps names (safe_name task) tree (SAMPLE_LEAF \<in> set caps)"
  have k: "tg_kind (mt_target task) = TREE" "MOVE_TO_TREE_ID \<in> set caps"
    and r: "rb_xml r = Node 0 (Some ''Sequence'') [(''name'', name_with_task_id (safe_name task) (mt_task_id task))] [] (heads @ move # samples)"
    and dropped: "rb_dropped r = map xml_element (filter (\<lambda>c. c \<notin> REBUILDABLE) caps) @
        (if MOVE_TO_AISLE_HEAD \<in> set caps \<and> aisle = None then [xml_element MOVE_TO_AISLE_HEAD] else [])"
    using Some by (auto simp: synthesize_def Let_def caps_def tree_def aisle_def heads_def move_def samples_def split: if_splits)
  have tr: "0 \<le> tree" "tree \<le> INDEX_MAX" "tg_b (mt_target task) = 0" using assms(1) k(1) by (simp_all add: target_wf_def tree_def)
  note mf = approach_step_facts [OF tr(1), where names = names and safe = "safe_name task", folded move_def]
  have leaves: "conforming n \<and> is_action n \<and> \<not> is_control n" if "n \<in> set (heads @ move # samples)" for n
    using rebuilt_leaves that unfolding heads_def move_def samples_def by blast
  have ctrl: "is_control (rb_xml r)" by (simp add: r control_iff CONTROL_TAGS_def)
  have acts: "actions_in (rb_xml r) = heads @ move # samples"
    using conforming_control [OF ctrl] rebuilt_actions by (simp add: r heads_def move_def samples_def)
  have conf: "conforming (rb_xml r)"
    using leaves action_element by (intro conforming_control_intro ctrl) (auto simp: r list_ex_iff)
  have "declared_task_id (name_with_task_id (safe_name task) (mt_task_id task)) = Some (mt_task_id task)"
    using declared_roundtrip [OF assms(2,3) assms(2,3)] by blast
  then have 1: "ready_unit (mt_task_id task) (rb_xml r)"
    using ctrl conf leaves by (auto simp: ready_unit_def r list_ex_iff attr_or_empty_def attr_def)
  have 2: "target_of (rb_xml r) = mt_target task"
  proof -
    have "iter_tag ''MoveToTreeID'' (rb_xml r) = [move]"
      by (auto simp: r iter_tag_def heads_def move_def samples_def head_steps_def approach_step_def sample_steps_def split: option.split)
    moreover have "target_of_action move = Some (mt_target task)"
      using mf(3-5) tr k(1)
      by (simp add: target_of_action_def index_target_def py_int_str_int built_def target_tree_def Target_def TargetKind_def
          word_in_range_def wire_consts tree_def)
    ultimately show ?thesis by (simp add: target_of_def TARGET_ACTIONS_def)
  qed
  have 3: "violations (rb_xml r) om' = Some []"
  proof (rule gate_run)
    have "complete n \<and> xtag n \<noteq> Some ''SampleLeaf''" if "n \<in> set heads" for n
      using head_steps_facts [of n] that strip_str_int by (auto simp: heads_def complete_def attr_or_empty_def)
    then have "run_ok cur (heads @ es) = run_ok (foldl stands cur heads) es" for cur es
      by (cases heads) (auto simp: heads_def head_steps_def split: option.splits)
    moreover have "stands cur move = Some move" for cur using mf(1) by (simp add: stands_def)
    moreover have "complete move" "xtag move \<noteq> Some ''SampleLeaf''" using mf(1,3) by (simp_all add: approach_def)
    moreover have "run_ok (Some move) samples" by (simp add: samples_def sample_steps_def complete_def)
    ultimately show "run_ok None (actions_in (rb_xml r))" by (simp add: acts)
  qed
  have 4: "map xtag (actions_in (rb_xml r)) = (if aisle = None then [] else [Some ''MoveToAisleHead'']) @ [Some ''MoveToTreeID''] @
      (if SAMPLE_LEAF \<in> set caps then [Some ''SampleLeaf''] else [])"
    using mf(3) by (auto simp: acts heads_def samples_def head_steps_def sample_steps_def split: option.split)
  have 5: "Some (xml_element c) \<in> xtag ` set (actions_in (rb_xml r)) \<or> xml_element c \<in> set (rb_dropped r)" if "c \<in> set caps" for c
  proof -
    have tags: "xtag ` set (actions_in (rb_xml r)) = set (map xtag (actions_in (rb_xml r)))" by simp
    show ?thesis
      unfolding tags 4 using that by (cases c) (auto simp: dropped REBUILDABLE_def)
  qed
  show ?thesis
    using Some 1 2 3 4 5 by (simp add: caps_def aisle_def tree_def)
qed

theorem rebuilt_task_is_sound_witness:
  "\<exists>r. synthesize (\<lambda>_. None) won_task (Some [(7, 2)]) = Some r \<and> violations (rb_xml r) None = Some []"
proof -
  have "target_wf (mt_target won_task)" "mt_task_id won_task = 5" by (simp_all add: won_task_def target_wf_def word_in_range_def wire_consts)
  moreover have "synthesize (\<lambda>_. None) won_task (Some [(7, 2)]) \<noteq> None" by code_simp
  ultimately show ?thesis
    using rebuilt_task_is_sound [where task = won_task and names = "\<lambda>_. None" and om = "Some [(7, 2)]" and om' = None]
    by (auto simp: TASK_ID_MAX_def)
qed


end
