(* ===== verification/Promela.thy ===== *)
theory Promela
  imports Mission_Tasks "HOL-Library.List_Lexorder" "HOL-Library.Char_ord"
begin

text \<open>
  A mission compiled to a Promela model (\<^verbatim>\<open>verification/promela.py\<close>). The emitter's statements are
  kept as a tree and rendered to the lines the code appends; its accumulators (macros, latches,
  the objectives visited, what the walk knows) are a record threaded through the walk. The action
  vocabulary, which the code reads from the schema file, is an argument.
\<close>

section \<open>Statements, macros, the emitter\<close>

definition SEQUENCE_TAGS :: "string list" where "SEQUENCE_TAGS = [''Sequence'', ''ReactiveSequence'']"
definition CHOICE_TAGS :: "string list" where "CHOICE_TAGS = [''Fallback'']"
definition DECORATOR_TAGS :: "string list" where "DECORATOR_TAGS = [''RetryUntilSuccessful'', ''AlwaysSuccess'', ''Inverter'']"
definition IDLE :: string where "IDLE = ''idle''"

text \<open>An indivisible step sets \<open>step\<close>, perhaps the tree, perhaps one latch.\<close>

datatype stmt = Dstep string "string option" "string option" | Choice "stmt list list"

datatype macro = At_Step string string | Latched string

datatype promela_error =
  Not_Well_Formed | No_Behavior_Tree | Several_Trees nat | Unmodellable string | Refused violation | No_Actions
  | Not_Described string

record emitter =
  em_macros :: "(string \<times> macro) list"
  em_latches :: "string list"
  em_visits :: "string list"
  em_state :: facts

definition emitter_init :: emitter where
  "emitter_init = \<lparr>em_macros = [], em_latches = [], em_visits = [], em_state = []\<rparr>"

definition kind_name :: "fact_kind \<Rightarrow> string" where
  "kind_name k = (case k of AT_TREE \<Rightarrow> ''at_tree'' | AT_WAYPOINT \<Rightarrow> ''at_waypoint'' | AT_GPS \<Rightarrow> ''at_gps''
     | IN_AISLE \<Rightarrow> ''in_aisle'' | SAMPLED_TREE \<Rightarrow> ''sampled_tree'' | ARM_POSITIONED \<Rightarrow> ''arm_positioned'')"

definition proposition_of :: "fact_kind \<Rightarrow> string \<Rightarrow> string" where
  "proposition_of k a = kind_name k @ ''_'' @ a"

definition promela_ident :: "string \<Rightarrow> string" where
  "promela_ident s = lower (ident s)"

definition done_name :: "string \<Rightarrow> string" where
  "done_name tag = promela_ident tag @ ''_done''"

definition def_macro :: "string \<Rightarrow> macro \<Rightarrow> emitter \<Rightarrow> emitter" where
  "def_macro n m em = (if map_of (em_macros em) n = None then em\<lparr>em_macros := em_macros em @ [(n, m)]\<rparr> else em)"

definition def_latch :: "string \<Rightarrow> emitter \<Rightarrow> emitter" where
  "def_latch n em = def_macro n (Latched n) (em\<lparr>em_latches := List.insert n (em_latches em)\<rparr>)"

section \<open>The walk\<close>

text \<open>
  One action. An objective names its place and an achievement its fact; the code reads both
  without looking whether they are there.
\<close>

definition located_at :: "fact list \<Rightarrow> fact option" where
  "located_at fs = find (\<lambda>f. f_kind f \<in> set WHERE) fs"

definition emit_action :: "orchard option \<Rightarrow> xml \<Rightarrow> string \<Rightarrow> emitter \<Rightarrow> promela_error + stmt list \<times> emitter" where
  "emit_action om e tag em =
     (case advance (em_state em) e om of
        None \<Rightarrow> Inl (Not_Described tag)
      | Some (st, s1) \<Rightarrow>
          (case step_violation st of
             Some v \<Rightarrow> Inl (Refused v)
           | None \<Rightarrow>
               let spot = located_at (st_establishes st);
                   tree = (case spot of None \<Rightarrow> None
                     | Some f \<Rightarrow> if f_kind f = AT_TREE \<or> f_kind f = AT_WAYPOINT then Some (f_arg f) else None);
                   em1 = em\<lparr>em_state := s1\<rparr>
               in Inr (case st_proposition st of
                    OBJECTIVE \<Rightarrow>
                      let t = f_arg (the spot)
                      in ([Dstep tag tree None],
                          def_macro (proposition_of AT_TREE t) (At_Step tag t) (em1\<lparr>em_visits := em_visits em1 @ [t]\<rparr>))
                  | ACHIEVEMENT \<Rightarrow>
                      let ap = proposition_of (f_kind (hd (st_establishes st))) (f_arg (hd (st_establishes st)))
                      in ([Dstep tag tree (Some ap)], def_latch ap em1)
                  | DONE \<Rightarrow> ([Dstep tag tree (Some (done_name tag))], def_latch (done_name tag) em1)
                  | SILENT \<Rightarrow> ([Dstep tag tree None], em1))))"

fun emit :: "string list \<Rightarrow> orchard option \<Rightarrow> xml \<Rightarrow> emitter \<Rightarrow> promela_error + stmt list \<times> emitter"
and emit_kids :: "string list \<Rightarrow> orchard option \<Rightarrow> xml list \<Rightarrow> emitter \<Rightarrow> promela_error + stmt list \<times> emitter"
and emit_branches :: "string list \<Rightarrow> orchard option \<Rightarrow> facts \<Rightarrow> xml list \<Rightarrow> emitter \<Rightarrow> promela_error + (stmt list \<times> facts) list \<times> emitter"
where
  "emit A om (Node i t a x ks) em =
     (case t of
        None \<Rightarrow> Inr ([], em)
      | Some tag \<Rightarrow>
          if tag \<in> set SEQUENCE_TAGS then emit_kids A om ks em
          else if tag \<in> set CHOICE_TAGS then
            (case emit_branches A om (em_state em) ks em of
               Inl e \<Rightarrow> Inl e
             | Inr ([], em1) \<Rightarrow> Inr ([], em1)
             | Inr ((b, s) # bs, em1) \<Rightarrow> Inr ([Choice (b # map fst bs)], em1\<lparr>em_state := foldl merge s (map snd bs)\<rparr>))
          else if tag \<in> set DECORATOR_TAGS then emit_kids A om ks em
          else if tag \<in> set A then emit_action om (Node i t a x ks) tag em
          else Inl (Unmodellable tag))"
| "emit_kids A om [] em = Inr ([], em)"
| "emit_kids A om (k # ks) em =
     (case emit A om k em of
        Inl e \<Rightarrow> Inl e
      | Inr (ss, em1) \<Rightarrow> map_sum id (\<lambda>(ts, em2). (ss @ ts, em2)) (emit_kids A om ks em1))"
| "emit_branches A om entry [] em = Inr ([], em)"
| "emit_branches A om entry (k # ks) em =
     (if \<not> is_element k then emit_branches A om entry ks em
      else case emit A om k (em\<lparr>em_state := entry\<rparr>) of
        Inl e \<Rightarrow> Inl e
      | Inr (ss, em1) \<Rightarrow> map_sum id (\<lambda>(bs, em2). ((ss, em_state em1) # bs, em2)) (emit_branches A om entry ks em1))"

section \<open>The model\<close>

text \<open>The code keeps the source and the names of the macros; here also what they were rendered from.\<close>

record model =
  md_stmts :: "stmt list"
  md_macros :: "(string \<times> macro) list"
  md_source :: string
  md_visit_order :: "string list"

definition md_defined_aps :: "model \<Rightarrow> string list" where
  "md_defined_aps m = map fst (md_macros m)"

text \<open>The statements as the lines the code appends, and the whole source as \<^verbatim>\<open>_render\<close> joins it.\<close>

definition assigns :: "string \<Rightarrow> string option \<Rightarrow> string option \<Rightarrow> string list" where
  "assigns tag tree latch =
     (''step = '' @ tag) # (case tree of None \<Rightarrow> [] | Some t \<Rightarrow> [''tree = '' @ t]) @
     (case latch of None \<Rightarrow> [] | Some l \<Rightarrow> [l @ ''_f = true''])"

fun stmt_lines :: "string \<Rightarrow> stmt \<Rightarrow> string list" where
  "stmt_lines ind (Dstep tag tree latch) = [ind @ ''d_step { '' @ join ''; '' (assigns tag tree latch) @ '' }'']"
| "stmt_lines ind (Choice bs) =
     (ind @ ''if'') # concat (map (\<lambda>b. (ind @ '':: true ->'') # concat (map (stmt_lines (ind @ ''    '')) b)) bs) @ [ind @ ''fi;'']"

definition macro_text :: "macro \<Rightarrow> string" where
  "macro_text m = (case m of At_Step tag t \<Rightarrow> ''(step == '' @ tag @ '' && tree == '' @ t @ '')'' | Latched n \<Rightarrow> n @ ''_f'')"

definition render :: "string list \<Rightarrow> stmt list \<Rightarrow> emitter \<Rightarrow> string" where
  "render A ss em = join [newline]
     ([''mtype = { '' @ IDLE @ '', '' @ join '', '' A @ '' };'', [], ''mtype step = '' @ IDLE @ '';'', ''int tree = 0;''] @
      map (\<lambda>l. ''bool '' @ l @ ''_f = false;'') (sort (em_latches em)) @ [[]] @
      map (\<lambda>n. ''#define '' @ n @ '' '' @ macro_text (the (map_of (em_macros em) n))) (sort (map fst (em_macros em))) @
      [[], ''init {''] @ concat (map (stmt_lines ''    '') ss) @ [''    step = '' @ IDLE @ '';'', ''}'']) @ [newline]"

text \<open>The document is \<open>None\<close> when the text does not parse.\<close>

definition compile_mission :: "string list \<Rightarrow> xml option \<Rightarrow> orchard option \<Rightarrow> promela_error + model" where
  "compile_mission A mission om =
     (case mission of
        None \<Rightarrow> Inl Not_Well_Formed
      | Some doc \<Rightarrow>
          (case filter (\<lambda>k. xtag k = Some ''BehaviorTree'') (xkids doc) of
             [] \<Rightarrow> Inl No_Behavior_Tree
           | [tree] \<Rightarrow>
               (case emit_kids A om (xkids tree) emitter_init of
                  Inl e \<Rightarrow> Inl e
                | Inr (ss, em) \<Rightarrow>
                    if ss = [] then Inl No_Actions
                    else Inr \<lparr>md_stmts = ss, md_macros = em_macros em, md_source = render A ss em, md_visit_order = em_visits em\<rparr>)
           | trees \<Rightarrow> Inl (Several_Trees (length trees))))"

section \<open>What a formula talks about\<close>

definition ident_start :: "char \<Rightarrow> bool" where
  "ident_start c \<longleftrightarrow> ident_char c \<and> digit c = None"

text \<open>The maximal runs of identifier characters that start with a letter or underscore.\<close>

fun identifiers :: "string option \<Rightarrow> string \<Rightarrow> string list" where
  "identifiers None [] = []"
| "identifiers (Some w) [] = [w]"
| "identifiers None (c # cs) = (if ident_start c then identifiers (Some [c]) cs else identifiers None cs)"
| "identifiers (Some w) (c # cs) = (if ident_char c then identifiers (Some (w @ [c])) cs else w # identifiers None cs)"

definition RESERVED :: "string list" where
  "RESERVED = [''true'', ''false'', ''U'', ''V'', ''W'', ''X'', ''R'']"

definition formula_aps :: "string \<Rightarrow> string list" where
  "formula_aps f = filter (\<lambda>w. w \<notin> set RESERVED) (remdups (identifiers None f))"

text \<open>\<open>None\<close> when the plan covers the formula, else what it lacks.\<close>

definition coverage_gap :: "string \<Rightarrow> model \<Rightarrow> string list option" where
  "coverage_gap f m =
     (let missing = sort (filter (\<lambda>w. w \<notin> set (md_defined_aps m)) (formula_aps f))
      in if missing = [] then None else Some missing)"

end
