(* ===== verification/Promela_Runs.thy ===== *)
theory Promela_Runs
  imports Promela
begin

text \<open>
  What a compiled model does, and what it says about the plan. A run of the model is the list of
  its transitions: a choice takes one for the guard of the option it picks, an action one. The
  executions of a plan are its actions in order, with one alternative of every \<^verbatim>\<open>Fallback\<close>.
\<close>

section \<open>Runs of a model\<close>

datatype move = Guard | Act string "string option" "string option"

definition sequenced :: "'a list list \<Rightarrow> 'a list list \<Rightarrow> 'a list list" where
  "sequenced xs ys = concat (map (\<lambda>x. map (\<lambda>y. x @ y) ys) xs)"

definition sequences :: "'a list list list \<Rightarrow> 'a list list" where
  "sequences xss = foldr sequenced xss [[]]"

fun stmt_runs :: "stmt \<Rightarrow> move list list" where
  "stmt_runs (Dstep tag tree latch) = [[Act tag tree latch]]"
| "stmt_runs (Choice bs) = map ((#) Guard) (concat (map (\<lambda>b. sequences (map stmt_runs b)) bs))"

definition runs :: "stmt list \<Rightarrow> move list list" where
  "runs ss = sequences (map stmt_runs ss)"

text \<open>The variables of the model. A literal SPIN cannot read as a number is taken as 0.\<close>

record obs =
  ob_step :: string
  ob_tree :: int
  ob_latched :: "string list"

definition obs_init :: obs where "obs_init = \<lparr>ob_step = IDLE, ob_tree = 0, ob_latched = []\<rparr>"

definition numeral_of :: "string \<Rightarrow> int" where
  "numeral_of s = (case py_digits s of None \<Rightarrow> 0 | Some n \<Rightarrow> n)"

fun take_move :: "obs \<Rightarrow> move \<Rightarrow> obs" where
  "take_move ob Guard = ob"
| "take_move ob (Act tag tree latch) =
     ob\<lparr>ob_step := tag, ob_tree := (case tree of None \<Rightarrow> ob_tree ob | Some t \<Rightarrow> numeral_of t),
        ob_latched := (case latch of None \<Rightarrow> ob_latched ob | Some l \<Rightarrow> l # ob_latched ob)\<rparr>"

definition observed :: "move list \<Rightarrow> obs" where
  "observed r = foldl take_move obs_init r"

definition macro_holds :: "obs \<Rightarrow> macro \<Rightarrow> bool" where
  "macro_holds ob m = (case m of At_Step tag t \<Rightarrow> ob_step ob = tag \<and> ob_tree ob = numeral_of t | Latched n \<Rightarrow> n \<in> set (ob_latched ob))"

definition ap_holds :: "model \<Rightarrow> obs \<Rightarrow> string \<Rightarrow> bool" where
  "ap_holds m ob n = (case map_of (md_macros m) n of None \<Rightarrow> False | Some mac \<Rightarrow> macro_holds ob mac)"

definition acts_of :: "move list \<Rightarrow> move list" where
  "acts_of r = filter (\<lambda>mv. mv \<noteq> Guard) r"

section \<open>Executions of a plan\<close>

fun executions :: "xml \<Rightarrow> xml list list" where
  "executions (Node i t a x ks) =
     (case t of
        None \<Rightarrow> [[]]
      | Some tag \<Rightarrow>
          if tag \<in> set SEQUENCE_TAGS then sequences (map executions ks)
          else if tag \<in> set CHOICE_TAGS then
            (let bs = concat (map (\<lambda>k. if is_element k then executions k else []) ks)
             in if filter is_element ks = [] then [[]] else bs)
          else if tag \<in> set DECORATOR_TAGS then sequences (map executions ks)
          else [[Node i t a x ks]])"

definition plan_executions :: "xml \<Rightarrow> xml list list" where
  "plan_executions tree = sequences (map executions (xkids tree))"

section \<open>A run mirrors an execution\<close>

text \<open>What the step an action becomes must say when the robot stands at \<open>cur\<close>.\<close>

definition says :: "xml option \<Rightarrow> xml \<Rightarrow> string \<Rightarrow> string option \<Rightarrow> string option \<Rightarrow> bool" where
  "says cur e tag tree latch \<longleftrightarrow> is_action e \<and> xtag e = Some tag \<and> complete e \<and>
     tree = (if tag = ''MoveToTreeID'' then Some (tree_id e) else None) \<and>
     (tag = ''SampleLeaf'' \<longrightarrow> cur \<noteq> None) \<and>
     latch = (if tag = ''SampleLeaf'' then Some (proposition_of SAMPLED_TREE (tree_id (the cur)))
              else if tag = ''MoveToTreeID'' then None else Some (done_name tag))"

fun mirrors :: "xml option \<Rightarrow> xml list \<Rightarrow> move list \<Rightarrow> bool" where
  "mirrors cur es (Guard # r) = mirrors cur es r"
| "mirrors cur (e # es) (Act tag tree latch # r) \<longleftrightarrow> says cur e tag tree latch \<and> mirrors (stands cur e) es r"
| "mirrors cur [] [] = True"
| "mirrors cur _ _ = False"

lemma mirrors_append:
  "mirrors cur es r \<Longrightarrow> mirrors (foldl stands cur es) fs q \<Longrightarrow> mirrors cur (es @ fs) (r @ q)"
  by (induction cur es r rule: mirrors.induct) auto

text \<open>What the walk knows holds of the execution.\<close>

definition follows :: "facts \<Rightarrow> xml option \<Rightarrow> bool" where
  "follows s cur \<longleftrightarrow> exclusive s \<and> (\<forall>t. Fact AT_TREE t \<in> set s \<longrightarrow> cur \<noteq> None \<and> t = tree_id (the cur))"

lemma follows_subset: "follows s cur \<Longrightarrow> set s' \<subseteq> set s \<Longrightarrow> follows s' cur"
  unfolding follows_def exclusive_def by (meson subsetD)

lemma set_merges: "set (foldl merge s ss) \<subseteq> set s"
  by (induction ss arbitrary: s) (fastforce simp: merge_def)+

lemma set_merges_each: "s' \<in> set ss \<Longrightarrow> set (foldl merge s ss) \<subseteq> set s'"
proof (induction ss arbitrary: s)
  case (Cons u ss)
  have "set (foldl merge (merge s u) ss) \<subseteq> set u" using set_merges [of "merge s u" ss] by (auto simp: merge_def)
  then show ?case using Cons by auto
qed simp

lemma list_all2_sequenced:
  assumes "list_all2 P xs xs'" and "\<And>x x'. x \<in> set xs \<Longrightarrow> P x x' \<Longrightarrow> list_all2 (\<lambda>y y'. Q (x @ y) (x' @ y')) ys ys'"
  shows "list_all2 Q (sequenced xs ys) (sequenced xs' ys')"
  using assms
proof (induction rule: list_all2_induct)
  case (Cons x xs x' xs')
  have "list_all2 Q (map ((@) x) ys) (map ((@) x') ys')"
    using Cons.prems [OF _ Cons.hyps(1)] by (simp add: list_all2_map1 list_all2_map2)
  moreover have "list_all2 Q (sequenced xs ys) (sequenced xs' ys')" using Cons.IH Cons.prems by simp
  ultimately show ?case by (simp add: sequenced_def list_all2_appendI)
qed (simp add: sequenced_def)

lemma advance_follows:
  assumes "is_action e" and "advance s e om = Some (st, s1)" and "follows s cur" and "step_violation st = None"
  shows "complete e" "xtag e = Some ''SampleLeaf'' \<Longrightarrow> Fact AT_TREE (tree_id (the cur)) \<in> set s \<and> cur \<noteq> None"
    "follows s1 (stands cur e)"
proof -
  note shape = shapedD [OF step_shape [OF assms(1,2)]]
  have def: "st_defect st = None" using assms(4) by (auto simp: step_violation_def split: option.splits)
  then show c: "complete e" using shape(1) by simp
  have unmet: "\<not> (\<exists>n \<in> set (st_unmet st). n_strength n = REQUIRED)"
    using assms(4) def by (auto simp: step_violation_def find_None_iff)
  then show "xtag e = Some ''SampleLeaf'' \<Longrightarrow> Fact AT_TREE (tree_id (the cur)) \<in> set s \<and> cur \<noteq> None"
    using shape(7) assms(3) by (auto simp: follows_def)
  have s1: "set s1 = set (st_establishes st) \<union> {f \<in> set s. f_kind f \<notin> set (st_clears st)}"
    using def advance_row [OF assms(1,2)] set_after by metis
  have ex: "exclusive s" using assms(3) by (simp add: follows_def)
  show "follows s1 (stands cur e)"
  proof (cases "travels e")
    case True
    then have cl: "st_clears st = TRAVELS" by (rule shape(2))
    have travelling: "f \<in> set (st_establishes st)" if "f \<in> set s1" "f_kind f \<in> set TRAVELS" for f
      using that s1 cl by auto
    have "exclusive s1" unfolding exclusive_def
      using travelling shape(6) by (auto simp: kinds)
    moreover have "stands cur e \<noteq> None \<and> t = tree_id (the (stands cur e))" if "Fact AT_TREE t \<in> set s1" for t
      using travelling [OF that] shape(5) [of t] by (simp add: kinds stands_def)
    ultimately show ?thesis by (simp add: follows_def)
  next
    case False
    then have cl: "st_clears st = []" by (rule shape(3))
    have kept: "f \<in> set s" if "f \<in> set s1" "f_kind f \<in> set TRAVELS" for f
      using that s1 shape(4) False by auto
    have "exclusive s1" unfolding exclusive_def
      using kept ex by (auto simp: kinds exclusive_def)
    moreover have "stands cur e = cur" using False by (auto simp: stands_def approach_def travels_def)
    moreover have "cur \<noteq> None \<and> t = tree_id (the cur)" if "Fact AT_TREE t \<in> set s1" for t
      using kept [OF that] assms(3) by (simp add: kinds follows_def)
    ultimately show ?thesis by (simp add: follows_def)
  qed
qed

lemma spot_simps:
  "located_at [] = None"
  "located_at (Fact k a # fs) = (if k \<in> set WHERE then Some (Fact k a) else located_at fs)"
  by (simp_all add: located_at_def)

lemma follows_holding:
  assumes "follows s cur" and "Fact AT_TREE t \<in> set s"
  shows "holding s AT_TREE = Some (Fact AT_TREE t)"
proof -
  have "holding s AT_TREE \<noteq> None" using assms(2) by (auto simp: holding_def find_None_iff)
  then obtain f where f: "holding s AT_TREE = Some f" by blast
  then have "f \<in> set s" "f_kind f = AT_TREE" by (auto simp: holding_def find_Some_iff)
  then have "f = Fact AT_TREE t" using assms by (auto simp: follows_def exclusive_def kinds)
  then show ?thesis using f by simp
qed

text \<open>What one action emits.\<close>

lemma emit_action_says:
  assumes "is_action e" and "xtag e = Some tag" and "emit_action om e tag em = Inr (ss, em1)" and "follows (em_state em) cur"
  obtains tree latch where "ss = [Dstep tag tree latch]" "says cur e tag tree latch" "follows (em_state em1) (stands cur e)"
    "em_visits em1 = em_visits em @ (if approach e then [tree_id e] else [])"
    "em1 = (case latch of Some l \<Rightarrow> def_latch l (em\<lparr>em_state := em_state em1\<rparr>)
       | None \<Rightarrow> if approach e then def_macro (proposition_of AT_TREE (tree_id e)) (At_Step tag (tree_id e))
           (em\<lparr>em_state := em_state em1, em_visits := em_visits em1\<rparr>) else em\<lparr>em_state := em_state em1\<rparr>)"
proof -
  obtain st s1 where st: "advance (em_state em) e om = Some (st, s1)" by (rule advance_action [OF assms(1)])
  then have ok: "step_violation st = None" using assms(3) by (auto simp: emit_action_def split: option.splits)
  note follow = advance_follows [OF assms(1) st assms(4) ok]
  from advance_row [OF assms(1) st] assms(2) obtain rule
    where rule: "ontology_table tag = Some rule" "st = resolve (em_state em) e tag (rule e om (em_state em))" by auto
  note defs = move_to_tree_def move_to_aisle_head_def gps_move_def local_move_def follow_person_def arm_move_def
    sample_leaf_def defective_def plain_row_def Let_def table_eqs resolve_def
  have emitted: "emit_action om e tag em = Inr (ss, em1)" by fact
  have "\<exists>tree latch. ss = [Dstep tag tree latch] \<and> says cur e tag tree latch \<and> em_state em1 = s1 \<and>
      em_visits em1 = em_visits em @ (if approach e then [tree_id e] else []) \<and>
      em1 = (case latch of Some l \<Rightarrow> def_latch l (em\<lparr>em_state := s1\<rparr>)
       | None \<Rightarrow> if approach e then def_macro (proposition_of AT_TREE (tree_id e)) (At_Step tag (tree_id e))
           (em\<lparr>em_state := s1, em_visits := em_visits em1\<rparr>) else em\<lparr>em_state := s1\<rparr>)"
    using assms(1)
  proof (cases rule: action_cases)
    case 9
    have hold: "holding (em_state em) AT_TREE = Some (Fact AT_TREE (tree_id (the cur)))"
      using follow(2) [OF 9] follows_holding [OF assms(4)] by blast
    show ?thesis
      using emitted st ok 9 rule assms(2) follow(2) follow(1) assms(1) hold
      by (auto simp: emit_action_def defs says_def spot_simps kinds approach_def def_latch_def def_macro_def split: if_splits)
  next
    case 1
    then show ?thesis
      using emitted st ok rule assms(2) follow(1) assms(1)
      by (cases "approaches e"; cases "aisle_of om (tree_id e)")
        (auto simp: emit_action_def defs says_def spot_simps kinds approach_def def_macro_def complete_def tree_id_def split: if_splits)
  qed (use emitted st ok rule assms(2) follow(1) assms(1) in
     \<open>auto simp: emit_action_def defs says_def spot_simps kinds approach_def def_latch_def def_macro_def complete_def split: if_splits option.splits\<close>)
  then show thesis using that follow(3) by blast
qed

lemma sequenced_Nil [simp]: "sequenced [[]] ys = ys" "sequenced xs [[]] = xs"
  by (simp_all add: sequenced_def map_idI)

lemma sequenced_append: "sequenced (xs @ xs') ys = sequenced xs ys @ sequenced xs' ys"
  by (simp add: sequenced_def)

lemma sequenced_assoc: "sequenced (sequenced xs ys) zs = sequenced xs (sequenced ys zs)"
proof (induction xs)
  case (Cons x xs)
  have "sequenced (map ((@) x) ys) zs = map ((@) x) (sequenced ys zs)" for ys zs
    by (induction ys) (simp_all add: sequenced_def)
  then show ?case using Cons by (simp add: sequenced_def)
qed (simp add: sequenced_def)

lemma sequences_simps [simp]: "sequences [] = [[]]" "sequences (xs # xss) = sequenced xs (sequences xss)"
  by (simp_all add: sequences_def)

lemma sequences_append: "sequences (xss @ yss) = sequenced (sequences xss) (sequences yss)"
  by (induction xss) (simp_all add: sequenced_assoc)

lemma runs_simps [simp]: "runs [] = [[]]" "runs (s # ss) = sequenced (stmt_runs s) (runs ss)" "runs (ss @ ts) = sequenced (runs ss) (runs ts)"
  by (simp_all add: runs_def sequences_append)

lemma set_sequenced: "set (sequenced xs ys) = {x @ y |x y. x \<in> set xs \<and> y \<in> set ys}"
  by (auto simp: sequenced_def)

lemma described_is_action: "advance s e om = Some r \<Longrightarrow> is_action e"
proof -
  assume "advance s e om = Some r"
  then obtain t rule where t: "xtag e = Some t" "ontology_table t = Some rule" by (auto simp: advance_def split: option.splits)
  then show ?thesis by (auto simp: is_action_tag)
qed

abbreviation alternatives :: "xml list \<Rightarrow> xml list list" where
  "alternatives ks \<equiv> concat (map (\<lambda>k. if is_element k then executions k else []) ks)"

lemma emit_mirrors:
  "\<lbrakk>emit A om e em = Inr (ss, em1); follows (em_state em) cur\<rbrakk> \<Longrightarrow>
     list_all2 (mirrors cur) (executions e) (runs ss) \<and> (\<forall>es \<in> set (executions e). follows (em_state em1) (foldl stands cur es))"
  "\<lbrakk>emit_kids A om ks em = Inr (ss, em1); follows (em_state em) cur\<rbrakk> \<Longrightarrow>
     list_all2 (mirrors cur) (sequences (map executions ks)) (runs ss) \<and>
     (\<forall>es \<in> set (sequences (map executions ks)). follows (em_state em1) (foldl stands cur es))"
  "\<lbrakk>emit_branches A om entry ks em = Inr (bs, em1); follows entry cur\<rbrakk> \<Longrightarrow>
     list_all2 (mirrors cur) (alternatives ks) (concat (map (\<lambda>b. runs (fst b)) bs)) \<and>
     (\<forall>es \<in> set (alternatives ks). \<exists>b \<in> set bs. follows (snd b) (foldl stands cur es)) \<and>
     (bs = [] \<longleftrightarrow> filter is_element ks = []) \<and> (bs = [] \<longrightarrow> em1 = em)"
proof (induction A om e em and A om ks em and A om entry ks em arbitrary: ss em1 cur and ss em1 cur and bs em1 cur
    rule: emit_emit_kids_emit_branches.induct)
  case (1 A om i t a x ks em)
  note emitted = 1(4) and follow = 1(5)
  show ?case
  proof (cases t)
    case None
    then show ?thesis using emitted follow by simp
  next
    case (Some tag)
    consider "tag \<in> set SEQUENCE_TAGS \<or> tag \<notin> set CHOICE_TAGS \<and> tag \<in> set DECORATOR_TAGS"
      | "tag \<notin> set SEQUENCE_TAGS" "tag \<in> set CHOICE_TAGS"
      | "tag \<notin> set SEQUENCE_TAGS" "tag \<notin> set CHOICE_TAGS" "tag \<notin> set DECORATOR_TAGS" by blast
    then show ?thesis
    proof cases
      case a: 1
      then have "emit_kids A om ks em = Inr (ss, em1)" using emitted Some by (auto split: if_splits)
      moreover have "executions (Node i t a x ks) = sequences (map executions ks)" using a Some by auto
      ultimately show ?thesis using 1(1,3) [of tag ss em1 cur] a Some follow by auto
    next
      case 2
      then obtain bs em2 where bs: "emit_branches A om (em_state em) ks em = Inr (bs, em2)"
        and ss: "ss = (case bs of [] \<Rightarrow> [] | _ \<Rightarrow> [Choice (map fst bs)])"
        and em1: "em1 = (case bs of [] \<Rightarrow> em2 | (b, s) # bs \<Rightarrow> em2\<lparr>em_state := foldl merge s (map snd bs)\<rparr>)"
        using emitted Some by (auto split: sum.splits list.splits)
      note IH = 1(2) [OF Some 2 bs follow]
      have ex: "executions (Node i t a x ks) = (if bs = [] then [[]] else alternatives ks)"
        using 2 Some IH by (simp add: Let_def)
      show ?thesis
      proof (cases bs)
        case Nil
        then show ?thesis using ex ss em1 IH follow by simp
      next
        case (Cons b rest)
        have "list_all2 (mirrors cur) (alternatives ks) (map ((#) Guard) (concat (map (\<lambda>b. runs (fst b)) bs)))"
          using IH [THEN conjunct1] by (simp only: list_all2_map2 mirrors.simps)
        moreover have "runs ss = map ((#) Guard) (concat (map (\<lambda>b. runs (fst b)) bs))"
        proof -
          have "runs ss = stmt_runs (Choice (map fst bs))" using ss Cons by simp
          also have "\<dots> = map ((#) Guard) (concat (map (\<lambda>b. runs (fst b)) bs))"
            unfolding stmt_runs.simps runs_def map_map comp_def ..
          finally show ?thesis .
        qed
        moreover have "set (em_state em1) \<subseteq> set (snd b')" if "b' \<in> set bs" for b'
        proof (cases "b' = b")
          case True
          then show ?thesis using em1 Cons set_merges by (cases b) simp
        next
          case False
          then have "snd b' \<in> set (map snd rest)" using that Cons by simp
          then show ?thesis using em1 Cons set_merges_each by (cases b) simp
        qed
        then have "follows (em_state em1) (foldl stands cur es)" if "es \<in> set (alternatives ks)" for es
          using that IH [THEN conjunct2, THEN conjunct1] follows_subset by blast
        ultimately show ?thesis using ex Cons by simp
      qed
    next
      case 3
      then have emitted': "emit_action om (Node i t a x ks) tag em = Inr (ss, em1)" using emitted Some by (auto split: if_splits)
      then have "advance (em_state em) (Node i t a x ks) om \<noteq> None" by (auto simp: emit_action_def split: option.splits)
      then have act: "is_action (Node i t a x ks)" using described_is_action by blast
      have ex: "executions (Node i t a x ks) = [[Node i t a x ks]]" using 3 Some by simp
      show ?thesis
        by (rule emit_action_says [OF act _ emitted' follow]) (use Some ex in simp_all)
    qed
  qed
next
  case (2 A om em)
  then show ?case by simp
next
  case (3 A om k ks em)
  from 3(3) obtain ss1 em2 ss2 where k: "emit A om k em = Inr (ss1, em2)" and ks: "emit_kids A om ks em2 = Inr (ss2, em1)"
    and ss: "ss = ss1 @ ss2" by (auto split: sum.splits simp: map_sum_def)
  note K = 3(1) [OF k 3(4)]
  note KS = 3(2) [OF k refl ks]
  have "list_all2 (mirrors cur) (sequenced (executions k) (sequences (map executions ks))) (sequenced (runs ss1) (runs ss2))"
  proof (rule list_all2_sequenced [OF K [THEN conjunct1]])
    fix es r assume es: "es \<in> set (executions k)" "mirrors cur es r"
    then have "follows (em_state em2) (foldl stands cur es)" using K by blast
    then show "list_all2 (\<lambda>fs q. mirrors cur (es @ fs) (r @ q)) (sequences (map executions ks)) (runs ss2)"
      using KS mirrors_append [OF es(2)] by (blast intro: list_all2_mono)
  qed
  moreover have "follows (em_state em1) (foldl stands cur es)" if "es \<in> set (sequenced (executions k) (sequences (map executions ks)))" for es
    using that K KS by (auto simp: set_sequenced)
  ultimately show ?case by (simp add: ss)
next
  case (4 A om entry em)
  then show ?case by simp
next
  case (5 A om entry k ks em)
  show ?case
  proof (cases "is_element k")
    case False
    then show ?thesis using 5(1) [OF False] 5(4,5) by auto
  next
    case True
    from 5(4) True obtain ss em2 bs' where k: "emit A om k (em\<lparr>em_state := entry\<rparr>) = Inr (ss, em2)"
      and ks: "emit_branches A om entry ks em2 = Inr (bs', em1)" and bs: "bs = (ss, em_state em2) # bs'"
      by (auto split: sum.splits simp: map_sum_def)
    have K: "list_all2 (mirrors cur) (executions k) (runs ss) \<and> (\<forall>es \<in> set (executions k). follows (em_state em2) (foldl stands cur es))"
      using 5(2) [OF _ k] True 5(5) by simp
    have KS: "list_all2 (mirrors cur) (alternatives ks) (concat (map (\<lambda>b. runs (fst b)) bs')) \<and> (\<forall>es \<in> set (alternatives ks). \<exists>b \<in> set bs'. follows (snd b) (foldl stands cur es)) \<and> (bs' = [] \<longleftrightarrow> filter is_element ks = []) \<and> (bs' = [] \<longrightarrow> em1 = em2)"
      by (rule 5(3) [OF _ k refl ks 5(5)]) (use True in simp)
    show ?thesis using True K KS bs by (auto intro: list_all2_appendI)
  qed
qed

section \<open>The vocabulary of a model\<close>

lemma sequenced_Nil_iff [simp]: "sequenced xs ys = [] \<longleftrightarrow> xs = [] \<or> ys = []"
  by (cases xs) (auto simp: sequenced_def)

lemma sequences_not_Nil: "(\<And>xs. xs \<in> set xss \<Longrightarrow> xs \<noteq> []) \<Longrightarrow> sequences xss \<noteq> []"
  by (induction xss) auto

lemma executions_not_Nil: "executions e \<noteq> []"
proof (induction e rule: executions.induct)
  case (1 i t a x ks)
  have seq: "sequences (map executions ks) \<noteq> []" if "tag \<in> set SEQUENCE_TAGS \<or> tag \<in> set DECORATOR_TAGS" "t = Some tag" for tag
    using 1 that by (intro sequences_not_Nil) (auto simp: SEQUENCE_TAGS_def CHOICE_TAGS_def DECORATOR_TAGS_def)
  moreover have "alternatives ks \<noteq> []" if "filter is_element ks \<noteq> []" "tag \<in> set CHOICE_TAGS" "t = Some tag" for tag
  proof -
    have "\<exists>k \<in> set ks. is_element k" using that(1) by (simp add: filter_empty_conv)
    then obtain k where "k \<in> set ks" "is_element k" by blast
    moreover have "executions k \<noteq> []" using 1 that(2,3) calculation by (auto simp: SEQUENCE_TAGS_def CHOICE_TAGS_def)
    ultimately show ?thesis by auto
  qed
  ultimately show ?case by (auto simp: Let_def split: option.split)
qed

lemma plan_sequences_not_Nil: "sequences (map executions ks) \<noteq> []"
  by (rule sequences_not_Nil) (auto simp: executions_not_Nil)

definition pooled :: "'a list list \<Rightarrow> 'a set" where
  "pooled xss = (\<Union>xs \<in> set xss. set xs)"

lemma pooled_sequenced: "xs \<noteq> [] \<Longrightarrow> ys \<noteq> [] \<Longrightarrow> pooled (sequenced xs ys) = pooled xs \<union> pooled ys"
proof -
  assume "xs \<noteq> []" "ys \<noteq> []"
  then have "hd xs \<in> set xs" "hd ys \<in> set ys" by simp_all
  then show ?thesis by (auto simp: pooled_def set_sequenced) (metis UnCI set_append)+
qed

lemma pooled_simps [simp]: "pooled [] = {}" "pooled (x # xs) = set x \<union> pooled xs" "pooled (xs @ ys) = pooled xs \<union> pooled ys"
  by (auto simp: pooled_def)

definition latches_of :: "move list list \<Rightarrow> string set" where
  "latches_of rs = {l. \<exists>tag tree. Act tag tree (Some l) \<in> pooled rs}"

definition visits_of :: "xml list list \<Rightarrow> string set" where
  "visits_of ess = tree_id ` {e \<in> pooled ess. approach e}"

lemma def_macro_simps [simp]:
  "map_of (em_macros (def_macro n mac em)) k =
     (case map_of (em_macros em) k of Some v \<Rightarrow> Some v | None \<Rightarrow> if k = n then Some mac else None)"
  "em_latches (def_macro n mac em) = em_latches em" "em_visits (def_macro n mac em) = em_visits em"
  "em_state (def_macro n mac em) = em_state em"
  by (auto simp: def_macro_def map_add_def split: option.split)

text \<open>What the emitter has written down: one macro per latch, and one per tree approached.\<close>

definition entry_of :: "string set \<Rightarrow> string set \<Rightarrow> string \<Rightarrow> macro option" where
  "entry_of latches visits n =
     (if n \<in> latches then Some (Latched n)
      else if prefix ''at_tree_'' n \<and> drop 8 n \<in> visits then Some (At_Step ''MoveToTreeID'' (drop 8 n)) else None)"

definition books :: "emitter \<Rightarrow> bool" where
  "books em \<longleftrightarrow> (\<forall>n \<in> set (em_latches em). \<not> prefix ''at_tree_'' n) \<and>
     map_of (em_macros em) = entry_of (set (em_latches em)) (set (em_visits em))"

lemma books_init: "books emitter_init"
  by (auto simp: books_def emitter_init_def entry_of_def)

lemma at_tree_name: "proposition_of AT_TREE t = ''at_tree_'' @ t"
  by (simp add: proposition_of_def kind_name_def)

lemma sampled_name: "proposition_of SAMPLED_TREE t = ''sampled_tree_'' @ t"
  by (simp add: proposition_of_def kind_name_def)

lemma books_latch:
  assumes "books em" and "\<not> prefix ''at_tree_'' l"
  shows "books (def_latch l em)"
proof -
  have "map_of (em_macros (def_latch l em)) k = entry_of (insert l (set (em_latches em))) (set (em_visits em)) k" for k
    using assms by (auto simp: books_def def_latch_def entry_of_def split: option.split)
  then show ?thesis using assms by (auto simp: books_def def_latch_def)
qed

lemma books_visit:
  assumes "books em"
  shows "books (def_macro (proposition_of AT_TREE t) (At_Step ''MoveToTreeID'' t) (em\<lparr>em_visits := em_visits em @ [t]\<rparr>))"
proof -
  define ap where "ap = proposition_of AT_TREE t"
  have ap: "prefix ''at_tree_'' ap" "drop 8 ap = t" by (simp_all add: ap_def at_tree_name)
  have other: "\<not> (prefix ''at_tree_'' k \<and> drop 8 k = t)" if "k \<noteq> ap" for k
    using that by (auto simp: ap_def at_tree_name prefix_def)
  have fresh: "ap \<notin> set (em_latches em)" using assms ap(1) by (auto simp: books_def)
  have "map_of (em_macros (def_macro ap (At_Step ''MoveToTreeID'' t) (em\<lparr>em_visits := em_visits em @ [t]\<rparr>))) k =
      entry_of (set (em_latches em)) (insert t (set (em_visits em))) k" for k
  proof (cases "k = ap")
    case True
    then show ?thesis using assms ap fresh by (simp add: books_def entry_of_def)
  next
    case False
    have "entry_of (set (em_latches em)) (insert t (set (em_visits em))) k = entry_of (set (em_latches em)) (set (em_visits em)) k"
      using other [OF False] by (auto simp: entry_of_def)
    then show ?thesis using assms False by (simp add: books_def split: option.split)
  qed
  then show ?thesis using assms by (auto simp: books_def ap_def)
qed

lemma books_state [simp]: "books (em\<lparr>em_state := s\<rparr>) = books em"
  by (simp add: books_def)

lemma done_name_table:
  "map done_name action_tags = [''movetotreeid_done'', ''movetoaislehead_done'', ''movetogpslocation_done'', ''approachgpswaypoint_done'',
     ''movetorelativelocation_done'', ''orientrobotheading_done'', ''followperson_done'', ''movearmtoposition_done'', ''sampleleaf_done'']"
  by code_simp

lemma done_names: "tag \<in> set action_tags \<Longrightarrow> \<not> prefix ''at_tree_'' (done_name tag) \<and> \<not> prefix ''sampled_tree_'' (done_name tag)"
proof -
  assume "tag \<in> set action_tags"
  then have "done_name tag \<in> set (map done_name action_tags)" by simp
  then show ?thesis unfolding done_name_table by auto
qed

lemma done_names_distinct: "inj_on done_name (set action_tags)"
proof -
  have "distinct (map done_name action_tags)" unfolding done_name_table by simp
  then show ?thesis by (simp add: distinct_map)
qed

lemma says_latch: "says cur e tag tree (Some l) \<Longrightarrow> \<not> prefix ''at_tree_'' l"
  using done_names by (auto simp: says_def sampled_name is_action_def vocabulary_tags [symmetric] split: if_splits)

definition written :: "emitter \<Rightarrow> emitter \<Rightarrow> xml list list \<Rightarrow> move list list \<Rightarrow> bool" where
  "written em em1 ess rs \<longleftrightarrow> books em1 \<and> set (em_latches em1) = set (em_latches em) \<union> latches_of rs \<and>
     set (em_visits em1) = set (em_visits em) \<union> visits_of ess"

lemma latches_of_simps [simp]:
  "latches_of [] = {}" "latches_of [[]] = {}" "latches_of (rs @ qs) = latches_of rs \<union> latches_of qs"
  "latches_of (map ((#) Guard) rs) = latches_of rs" "latches_of [[Act tag tree l]] = set_option l"
  "rs \<noteq> [] \<Longrightarrow> qs \<noteq> [] \<Longrightarrow> latches_of (sequenced rs qs) = latches_of rs \<union> latches_of qs"
  by (auto simp: latches_of_def pooled_sequenced) (auto simp: pooled_def split: if_splits)

lemma visits_of_simps [simp]:
  "visits_of [] = {}" "visits_of [[]] = {}" "visits_of (es @ fs) = visits_of es \<union> visits_of fs"
  "visits_of [[e]] = (if approach e then {tree_id e} else {})"
  "es \<noteq> [] \<Longrightarrow> fs \<noteq> [] \<Longrightarrow> visits_of (sequenced es fs) = visits_of es \<union> visits_of fs"
  by (auto simp: visits_of_def pooled_sequenced)

lemma written_refl [simp]: "books em \<Longrightarrow> written em em [] []" "books em \<Longrightarrow> written em em [[]] [[]]"
  by (simp_all add: written_def)

lemma written_seq:
  "written em em1 es rs \<Longrightarrow> written em1 em2 fs qs \<Longrightarrow> es \<noteq> [] \<Longrightarrow> rs \<noteq> [] \<Longrightarrow> fs \<noteq> [] \<Longrightarrow> qs \<noteq> [] \<Longrightarrow>
    written em em2 (sequenced es fs) (sequenced rs qs)"
  by (auto simp: written_def)

lemma written_alt: "written em em1 es rs \<Longrightarrow> written em1 em2 fs qs \<Longrightarrow> written em em2 (es @ fs) (rs @ qs)"
  by (auto simp: written_def)

lemma emit_action_written:
  assumes "is_action e" and "xtag e = Some tag" and "emit_action om e tag em = Inr (ss, em1)" and "follows (em_state em) cur" and "books em"
  shows "written em em1 [[e]] (runs ss)"
proof (rule emit_action_says [OF assms(1-4)])
  fix tree latch
  assume ss: "ss = [Dstep tag tree latch]" and says: "says cur e tag tree latch"
    and visits: "em_visits em1 = em_visits em @ (if approach e then [tree_id e] else [])"
    and em1: "em1 = (case latch of Some l \<Rightarrow> def_latch l (em\<lparr>em_state := em_state em1\<rparr>)
       | None \<Rightarrow> if approach e then def_macro (proposition_of AT_TREE (tree_id e)) (At_Step tag (tree_id e))
           (em\<lparr>em_state := em_state em1, em_visits := em_visits em1\<rparr>) else em\<lparr>em_state := em_state em1\<rparr>)"
  have tag: "approach e \<Longrightarrow> tag = ''MoveToTreeID''" using assms(2) by (simp add: approach_def)
  show ?thesis
  proof (cases latch)
    case (Some l)
    then have "\<not> approach e" using says tag by (auto simp: says_def)
    moreover have "books em1" using em1 Some books_latch [OF _ says_latch [OF says [unfolded Some]]] assms(5) by (metis books_state option.simps(5))
    moreover have "set (em_latches em1) = insert l (set (em_latches em))"
      by (subst em1) (simp add: Some def_latch_def)
    ultimately show ?thesis using ss visits Some by (simp add: written_def)
  next
    case None
    show ?thesis
    proof (cases "approach e")
      case True
      have "books em1"
        by (subst em1) (use None True tag visits books_visit [of "em\<lparr>em_state := em_state em1\<rparr>" "tree_id e"] assms(5) in simp)
      moreover have "em_latches em1 = em_latches em" by (subst em1) (simp add: None True)
      ultimately show ?thesis using ss visits None True by (simp add: written_def)
    next
      case False
      have "books em1" "em_latches em1 = em_latches em" by (subst em1; simp add: None False assms(5))+
      then show ?thesis using ss visits None False by (simp add: written_def)
    qed
  qed
qed

lemma written_state [simp]: "written (em\<lparr>em_state := s\<rparr>) em1 ess rs = written em em1 ess rs"
  "written em (em1\<lparr>em_state := s\<rparr>) ess rs = written em em1 ess rs"
  by (simp_all add: written_def)

lemma written_guarded [simp]: "written em em1 ess (map ((#) Guard) rs) = written em em1 ess rs"
  by (simp add: written_def)

lemma emit_written:
  "\<lbrakk>emit A om e em = Inr (ss, em1); follows (em_state em) cur; books em\<rbrakk> \<Longrightarrow> written em em1 (executions e) (runs ss)"
  "\<lbrakk>emit_kids A om ks em = Inr (ss, em1); follows (em_state em) cur; books em\<rbrakk> \<Longrightarrow>
     written em em1 (sequences (map executions ks)) (runs ss)"
  "\<lbrakk>emit_branches A om entry ks em = Inr (bs, em1); follows entry cur; books em\<rbrakk> \<Longrightarrow>
     written em em1 (alternatives ks) (concat (map (\<lambda>b. runs (fst b)) bs))"
proof (induction A om e em and A om ks em and A om entry ks em arbitrary: ss em1 cur and ss em1 cur and bs em1 cur
    rule: emit_emit_kids_emit_branches.induct)
  case (1 A om i t a x ks em)
  note emitted = 1(4) and follow = 1(5) and bk = 1(6)
  show ?case
  proof (cases t)
    case None
    then show ?thesis using emitted bk by simp
  next
    case (Some tag)
    consider "tag \<in> set SEQUENCE_TAGS \<or> tag \<notin> set CHOICE_TAGS \<and> tag \<in> set DECORATOR_TAGS"
      | "tag \<notin> set SEQUENCE_TAGS" "tag \<in> set CHOICE_TAGS"
      | "tag \<notin> set SEQUENCE_TAGS" "tag \<notin> set CHOICE_TAGS" "tag \<notin> set DECORATOR_TAGS" by blast
    then show ?thesis
    proof cases
      case a: 1
      then have "emit_kids A om ks em = Inr (ss, em1)" using emitted Some by (auto split: if_splits)
      moreover have "executions (Node i t a x ks) = sequences (map executions ks)" using a Some by auto
      ultimately show ?thesis using 1(1,3) [of tag ss em1 cur] a Some follow bk by auto
    next
      case 2
      then obtain bs em2 where bs: "emit_branches A om (em_state em) ks em = Inr (bs, em2)"
        and ss: "ss = (case bs of [] \<Rightarrow> [] | _ \<Rightarrow> [Choice (map fst bs)])"
        and em1: "em1 = (case bs of [] \<Rightarrow> em2 | (b, s) # bs \<Rightarrow> em2\<lparr>em_state := foldl merge s (map snd bs)\<rparr>)"
        using emitted Some by (auto split: sum.splits list.splits)
      note IH = 1(2) [OF Some 2 bs follow bk]
      have none: "bs = [] \<longleftrightarrow> filter is_element ks = []" "bs = [] \<longrightarrow> em2 = em" using emit_mirrors(3) [OF bs follow] by auto
      show ?thesis
      proof (cases bs)
        case Nil
        then show ?thesis using ss em1 none 2 Some bk by (simp add: Let_def)
      next
        case (Cons b rest)
        have "runs ss = stmt_runs (Choice (map fst bs))" using ss Cons by simp
        also have "\<dots> = map ((#) Guard) (concat (map (\<lambda>b. runs (fst b)) bs))"
          unfolding stmt_runs.simps runs_def map_map comp_def ..
        finally have rs: "runs ss = map ((#) Guard) (concat (map (\<lambda>b. runs (fst b)) bs))" .
        have ex: "executions (Node i t a x ks) = alternatives ks" using 2 Some none Cons by (simp add: Let_def)
        have "written em em1 ess rs = written em em2 ess rs" for ess rs using em1 Cons by (simp split: prod.split)
        then show ?thesis unfolding rs ex using IH by simp
      qed
    next
      case 3
      then have emitted': "emit_action om (Node i t a x ks) tag em = Inr (ss, em1)" using emitted Some by (auto split: if_splits)
      then have "advance (em_state em) (Node i t a x ks) om \<noteq> None" by (auto simp: emit_action_def split: option.splits)
      then have "is_action (Node i t a x ks)" using described_is_action by blast
      from emit_action_written [OF this _ emitted' follow bk] 3 Some show ?thesis by simp
    qed
  qed
next
  case (3 A om k ks em)
  from 3(3) obtain ss1 em2 ss2 where k: "emit A om k em = Inr (ss1, em2)" and ks: "emit_kids A om ks em2 = Inr (ss2, em1)"
    and ss: "ss = ss1 @ ss2" by (auto split: sum.splits simp: map_sum_def)
  note K = 3(1) [OF k 3(4,5)]
  have M: "list_all2 (mirrors cur) (executions k) (runs ss1)" "\<forall>es \<in> set (executions k). follows (em_state em2) (foldl stands cur es)"
    using emit_mirrors(1) [OF k 3(4)] by auto
  obtain es where "es \<in> set (executions k)" using executions_not_Nil [of k] by (meson list.set_sel(1))
  then have f: "follows (em_state em2) (foldl stands cur es)" using M by blast
  have "runs ss1 \<noteq> []" using M(1) executions_not_Nil [of k] by auto
  moreover have "runs ss2 \<noteq> []" using emit_mirrors(2) [OF ks f] plan_sequences_not_Nil [of ks] by auto
  moreover have "written em2 em1 (sequences (map executions ks)) (runs ss2)"
    using 3(2) [OF k refl ks f] K by (simp add: written_def)
  ultimately show ?case using written_seq [OF K] executions_not_Nil plan_sequences_not_Nil by (simp add: ss)
next
  case (5 A om entry k ks em)
  show ?case
  proof (cases "is_element k")
    case False
    then show ?thesis using 5(1) [OF False] 5(4-6) by auto
  next
    case True
    from 5(4) True obtain ss em2 bs' where k: "emit A om k (em\<lparr>em_state := entry\<rparr>) = Inr (ss, em2)"
      and ks: "emit_branches A om entry ks em2 = Inr (bs', em1)" and bs: "bs = (ss, em_state em2) # bs'"
      by (auto split: sum.splits simp: map_sum_def)
    have K: "written em em2 (executions k) (runs ss)" using 5(2) [OF _ k] True 5(5,6) by simp
    then have "books em2" by (simp add: written_def)
    from 5(3) [OF _ k refl ks 5(5) this] True have "written em2 em1 (alternatives ks) (concat (map (\<lambda>b. runs (fst b)) bs'))" by simp
    from written_alt [OF K this] True bs show ?thesis by simp
  qed
qed simp_all


end
