(* ===== verification/Promela_Sound.thy ===== *)
theory Promela_Sound
  imports Promela_Runs
begin

text \<open>
  The propositions of a model, along a run, read off the plan: what the compiler promises to the
  formula's author.
\<close>

section \<open>Runs observed\<close>

lemma mirrors_prefix:
  "mirrors cur es (p @ q) \<Longrightarrow> mirrors cur (take (length (acts_of p)) es) p \<and> length (acts_of p) \<le> length es"
proof (induction p arbitrary: cur es)
  case (Cons mv p)
  show ?case
  proof (cases mv)
    case Guard
    then show ?thesis using Cons.prems Cons.IH [of cur es] by (simp add: acts_of_def)
  next
    case (Act tag tree latch)
    then obtain e fs where "es = e # fs" using Cons.prems by (cases es) auto
    then show ?thesis using Cons.prems Act Cons.IH [of "stands cur e" fs] by (simp add: acts_of_def)
  qed
qed (simp add: acts_of_def)

lemma mirrors_length: "mirrors cur es r \<Longrightarrow> length (acts_of r) = length es"
  by (induction cur es r rule: mirrors.induct) (auto simp: acts_of_def)

definition latches_said :: "xml option \<Rightarrow> xml list \<Rightarrow> string set" where
  "latches_said cur es = proposition_of SAMPLED_TREE ` (snd \<circ> snd) ` set (samples cur es) \<union>
     done_name ` {tag. \<exists>e \<in> set es. xtag e = Some tag \<and> tag \<noteq> ''MoveToTreeID'' \<and> tag \<noteq> ''SampleLeaf''}"

lemma observed_latches:
  "mirrors cur es r \<Longrightarrow> set (ob_latched (foldl take_move ob r)) = set (ob_latched ob) \<union> latches_said cur es"
proof (induction cur es r arbitrary: ob rule: mirrors.induct)
  case (2 cur e es tag tree latch r)
  have says: "says cur e tag tree latch" and rest: "mirrors (stands cur e) es r" using 2(2) by simp_all
  have "latches_said cur (e # es) = set_option latch \<union> latches_said (stands cur e) es"
    using says by (cases cur) (auto simp: latches_said_def says_def)
  then show ?case using 2(1) [OF rest] by (simp add: Un_assoc split: option.split)
qed (simp_all add: latches_said_def)

lemma observed_step:
  "mirrors cur es r \<Longrightarrow>
    (if es = [] then foldl take_move ob r = ob
     else Some (ob_step (foldl take_move ob r)) = xtag (last es) \<and>
       (xtag (last es) = Some ''MoveToTreeID'' \<longrightarrow> ob_tree (foldl take_move ob r) = numeral_of (tree_id (last es))))"
proof (induction cur es r arbitrary: ob rule: mirrors.induct)
  case (2 cur e es tag tree latch r)
  have says: "says cur e tag tree latch" and rest: "mirrors (stands cur e) es r" using 2(2) by simp_all
  show ?case using 2(1) [OF rest, of "take_move ob (Act tag tree latch)"] says by (cases "es = []") (auto simp: says_def)
qed simp_all

lemma numeral_of_str_nat [simp]: "numeral_of (str_nat n) = int n"
  by (simp add: numeral_of_def)

lemma str_nat_inject [simp]: "str_nat m = str_nat n \<longleftrightarrow> m = n"
  using numeral_of_str_nat by (metis of_nat_eq_iff)

section \<open>What the propositions mean\<close>

text \<open>The ids a plan names trees by are plain decimal numbers.\<close>

definition plain_ids :: "xml list \<Rightarrow> bool" where
  "plain_ids es \<longleftrightarrow> (\<forall>e \<in> set es. xtag e = Some ''MoveToTreeID'' \<longrightarrow> (\<exists>n. tree_id e = str_nat n))"

text \<open>The tags whose completion is a proposition of its own.\<close>

definition done_tags :: "string list" where
  "done_tags = filter (\<lambda>t. t \<noteq> ''MoveToTreeID'' \<and> t \<noteq> ''SampleLeaf'') action_tags"

text \<open>After some transitions \<open>p\<close> of a run that mirrors \<open>es\<close>, the actions \<open>reached\<close> have been taken.\<close>

definition reading :: "model \<Rightarrow> xml list list \<Rightarrow> xml list \<Rightarrow> move list \<Rightarrow> bool" where
  "reading m ess reached p \<longleftrightarrow>
     (\<forall>t. ap_holds m (observed p) (proposition_of AT_TREE t) \<longleftrightarrow>
        t \<in> visits_of ess \<and> reached \<noteq> [] \<and> xtag (last reached) = Some ''MoveToTreeID'' \<and> tree_id (last reached) = t) \<and>
     (\<forall>t. ap_holds m (observed p) (proposition_of SAMPLED_TREE t) \<longleftrightarrow> t \<in> (snd \<circ> snd) ` set (samples None reached)) \<and>
     (\<forall>tag \<in> set done_tags. ap_holds m (observed p) (done_name tag) \<longleftrightarrow> (\<exists>e \<in> set reached. xtag e = Some tag))"

lemma compiled:
  assumes "compile_mission A (Some doc) om = Inr m"
  obtains tree em where "filter (\<lambda>k. xtag k = Some ''BehaviorTree'') (xkids doc) = [tree]"
    "emit_kids A om (xkids tree) emitter_init = Inr (md_stmts m, em)" "md_macros m = em_macros em" "md_visit_order m = em_visits em"
    "md_source m = render A (md_stmts m) em" "md_stmts m \<noteq> []"
  using assms by (auto simp: compile_mission_def split: list.splits sum.splits if_splits)

lemma reading_of_prefix:
  assumes "mirrors None reached p" and "map_of (md_macros m) = entry_of L V" and "V = visits_of ess" and "plain_ids reached"
    and "\<forall>t \<in> V. \<exists>n. t = str_nat n" and "latches_said None reached \<subseteq> L" and "\<forall>n \<in> L. \<not> prefix ''at_tree_'' n"
    and "\<forall>e \<in> set reached. is_action e"
  shows "reading m ess reached p"
proof -
  have latched: "set (ob_latched (observed p)) = latches_said None reached"
    using observed_latches [OF assms(1), of obs_init] by (simp add: observed_def obs_init_def)
  have step: "if reached = [] then observed p = obs_init else Some (ob_step (observed p)) = xtag (last reached) \<and>
      (xtag (last reached) = Some ''MoveToTreeID'' \<longrightarrow> ob_tree (observed p) = numeral_of (tree_id (last reached)))"
    using observed_step [OF assms(1), of obs_init] by (simp add: observed_def)
  have holds: "ap_holds m (observed p) n \<longleftrightarrow>
      (if n \<in> L then n \<in> latches_said None reached
       else prefix ''at_tree_'' n \<and> drop 8 n \<in> V \<and> ob_step (observed p) = ''MoveToTreeID'' \<and> ob_tree (observed p) = numeral_of (drop 8 n))" for n
    using latched by (auto simp: ap_holds_def assms(2) entry_of_def macro_holds_def)
  have at: "ap_holds m (observed p) (proposition_of AT_TREE t) \<longleftrightarrow>
        t \<in> visits_of ess \<and> reached \<noteq> [] \<and> xtag (last reached) = Some ''MoveToTreeID'' \<and> tree_id (last reached) = t" for t
  proof -
    have "proposition_of AT_TREE t \<notin> L" using assms(7) by (auto simp: at_tree_name)
    then have *: "ap_holds m (observed p) (proposition_of AT_TREE t) \<longleftrightarrow>
        t \<in> V \<and> ob_step (observed p) = ''MoveToTreeID'' \<and> ob_tree (observed p) = numeral_of t"
      by (simp add: holds) (simp add: at_tree_name)
    show ?thesis
    proof (cases "reached = []")
      case True
      then have "ob_step (observed p) = IDLE" using step by (simp add: obs_init_def)
      then show ?thesis using True by (simp add: * IDLE_def)
    next
      case False
      have "numeral_of (tree_id (last reached)) = numeral_of t \<longleftrightarrow> tree_id (last reached) = t"
        if "t \<in> V" "xtag (last reached) = Some ''MoveToTreeID''"
      proof -
        obtain k where "t = str_nat k" using assms(5) \<open>t \<in> V\<close> by blast
        moreover obtain k' where "tree_id (last reached) = str_nat k'"
          using assms(4) False \<open>xtag (last reached) = _\<close> by (auto simp: plain_ids_def)
        ultimately show ?thesis by simp
      qed
      then show ?thesis using step False by (auto simp: * assms(3))
    qed
  qed
  have not_at: "ap_holds m (observed p) n \<longleftrightarrow> n \<in> latches_said None reached" if "\<not> prefix ''at_tree_'' n" for n
    using that assms(6) by (auto simp: holds)
  have said: "latches_said None reached = proposition_of SAMPLED_TREE ` (snd \<circ> snd) ` set (samples None reached) \<union>
      done_name ` {tag. \<exists>e \<in> set reached. xtag e = Some tag \<and> tag \<noteq> ''MoveToTreeID'' \<and> tag \<noteq> ''SampleLeaf''}"
    by (simp add: latches_said_def)
  have tags: "tag \<in> set action_tags" if "e \<in> set reached" "xtag e = Some tag" for e tag
    using that assms(8) by (auto simp: is_action_def vocabulary_tags [symmetric])
  have sampled: "ap_holds m (observed p) (proposition_of SAMPLED_TREE t) \<longleftrightarrow> t \<in> (snd \<circ> snd) ` set (samples None reached)" for t
  proof -
    have "proposition_of SAMPLED_TREE t \<noteq> done_name tag" if "tag \<in> set action_tags" for tag
      using done_names [OF that] by (metis prefixI sampled_name)
    then have "proposition_of SAMPLED_TREE t \<in> latches_said None reached \<longleftrightarrow> t \<in> (snd \<circ> snd) ` set (samples None reached)"
      unfolding said using tags by (auto simp: sampled_name)
    then show ?thesis by (subst not_at) (simp_all add: sampled_name)
  qed
  have finished: "ap_holds m (observed p) (done_name tag) \<longleftrightarrow> (\<exists>e \<in> set reached. xtag e = Some tag)" if "tag \<in> set done_tags" for tag
  proof -
    have tag: "tag \<in> set action_tags" "tag \<noteq> ''MoveToTreeID''" "tag \<noteq> ''SampleLeaf''" using that by (auto simp: done_tags_def)
    have "done_name tag \<noteq> proposition_of SAMPLED_TREE t" for t
      using done_names [OF tag(1)] by (metis prefixI sampled_name)
    then have "done_name tag \<in> latches_said None reached \<longleftrightarrow> (\<exists>e \<in> set reached. xtag e = Some tag)"
      unfolding said using tags tag inj_onD [OF done_names_distinct] by fastforce
    then show ?thesis using not_at done_names [OF tag(1)] by simp
  qed
  show ?thesis unfolding reading_def using at sampled finished by blast
qed

lemma latched_moves: "set (ob_latched (foldl take_move ob r)) = set (ob_latched ob) \<union> {l. \<exists>tag tree. Act tag tree (Some l) \<in> set r}"
proof (induction r arbitrary: ob)
  case (Cons mv r)
  then show ?case by (cases mv) (auto split: option.splits)
qed simp

lemma mirrors_actions: "mirrors cur es r \<Longrightarrow> \<forall>e \<in> set es. is_action e"
  by (induction cur es r rule: mirrors.induct) (auto simp: says_def)

lemma pooled_sequences: "(\<And>xs. xs \<in> set xss \<Longrightarrow> xs \<noteq> []) \<Longrightarrow> pooled (sequences xss) = (\<Union>xs \<in> set xss. pooled xs)"
proof (induction xss)
  case (Cons xs xss)
  then have "sequences xss \<noteq> []" by (intro sequences_not_Nil) simp
  then show ?case using Cons by (simp add: pooled_sequenced)
qed simp

lemma pooled_plan: "pooled (sequences (map executions ks)) = (\<Union>k \<in> set ks. pooled (executions k))"
  by (subst pooled_sequences) (auto simp: executions_not_Nil)

lemma pooled_concat: "pooled (concat xss) = (\<Union>xs \<in> set xss. pooled xs)"
  by (induction xss) simp_all

lemma executions_below: "pooled (executions e) \<subseteq> set (iter e)"
proof (induction e rule: iter.induct)
  case (1 i t a x ks)
  have kids: "pooled (executions k) \<subseteq> set (concat (map iter ks))" if "k \<in> set ks" for k using 1 [OF that] that by auto
  have seq: "pooled (sequences (map executions ks)) \<subseteq> set (concat (map iter ks))"
    using kids unfolding pooled_plan by blast
  have alt: "pooled (alternatives ks) \<subseteq> set (concat (map iter ks))"
    using kids by (auto simp: pooled_concat split: if_splits)
  show ?case using seq alt by (auto simp: Let_def split: option.split)
qed


definition tree_move :: "nat \<Rightarrow> string \<Rightarrow> string \<Rightarrow> xml" where
  "tree_move i t stop = Node i (Some ''MoveToTreeID'') [(''id'', t), (''approach_tree'', stop)] [] []"

definition sample_node :: "nat \<Rightarrow> xml" where
  "sample_node i = Node i (Some ''SampleLeaf'') [] [] []"

definition plan_of :: "xml list \<Rightarrow> xml" where
  "plan_of ks = Node 0 (Some ''root'') [] [] [Node 1 (Some ''BehaviorTree'') [] [] [Node 2 (Some ''Sequence'') [] [] ks]]"

definition two_ways :: xml where
  "two_ways = plan_of [Node 3 (Some ''Fallback'') [] [] [tree_move 4 ''10'' ''true'', Node 5 (Some ''FollowPerson'') [] [] []],
     tree_move 6 ''11'' ''true'', sample_node 7]"


definition passing_plan :: xml where
  "passing_plan = plan_of [tree_move 3 ''10'' ''true'', sample_node 4, tree_move 5 ''60'' ''true'', sample_node 6, tree_move 7 ''10'' ''false'']"

text \<open>
  Passing a tree reads as arriving at it. Once a plan approaches a tree somewhere, a later move
  that only passes it sets the same proposition: here tree 10 is approached first, sampled, and passed
  at the end, and the model says \<open>at_tree_10\<close> holds after \<open>sampled_tree_60\<close>, where the robot
  stands at no tree.
\<close>

lemma passing_reads_as_arriving:
  "case compile_mission action_tags (Some passing_plan) None of
     Inl _ \<Rightarrow> False
   | Inr m \<Rightarrow> list_all (\<lambda>r. ap_holds m (observed r) ''at_tree_10'' \<and> ap_holds m (observed r) ''sampled_tree_60'') (runs (md_stmts m)) \<and>
       runs (md_stmts m) \<noteq> [] \<and> standing (actions_in passing_plan) = None \<and>
       \<not> list_ex (\<lambda>e. tree_id e = ''10'' \<and> approach e) (drop 3 (actions_in passing_plan))"
  by code_simp


end
