(* ===== verification/Ltl.thy ===== *)
theory Ltl
  imports Promela
begin

text \<open>
  From the mission's text to a formula (\<^verbatim>\<open>verification/ltl.py\<close>, with \<^verbatim>\<open>strip_code_fence\<close> of
  \<^verbatim>\<open>runtime/llm.py\<close>) and from SPIN's output to a verdict (\<^verbatim>\<open>verification/verify.py\<close>). What the model
  replied and what a run of SPIN printed are arguments. Reasons are data; their wording is not modelled.
\<close>

section \<open>Python strings\<close>

fun contains :: "string \<Rightarrow> string \<Rightarrow> bool" where
  "contains p [] \<longleftrightarrow> p = []"
| "contains p (c # cs) \<longleftrightarrow> prefix p (c # cs) \<or> contains p cs"

text \<open>\<^verbatim>\<open>text.split()\<close>: the maximal runs without white space; the accumulator is the run being read.\<close>

fun words_from :: "string \<Rightarrow> string \<Rightarrow> string list" where
  "words_from w [] = (if w = [] then [] else [w])"
| "words_from w (c # cs) =
     (if py_space c then (if w = [] then words_from [] cs else w # words_from [] cs) else words_from (w @ [c]) cs)"

definition py_words :: "string \<Rightarrow> string list" where
  "py_words s = words_from [] s"

definition one_line :: "string \<Rightarrow> string" where
  "one_line s = strip (join '' '' (py_words s))"

text \<open>\<^verbatim>\<open>text.splitlines()\<close>; a carriage return and a newline together are one boundary.\<close>

definition line_end :: "char \<Rightarrow> bool" where
  "line_end c \<longleftrightarrow> (let n = of_char c :: nat in 10 \<le> n \<and> n \<le> 13 \<or> 28 \<le> n \<and> n \<le> 30 \<or> n = 133)"

fun lines_from :: "string \<Rightarrow> string \<Rightarrow> string list" where
  "lines_from w [] = (if w = [] then [] else [w])"
| "lines_from w [c] = (if line_end c then [w] else [w @ [c]])"
| "lines_from w (c # d # cs) =
     (if c = char_of (13 :: nat) \<and> d = newline then w # lines_from [] cs
      else if line_end c then w # lines_from [] (d # cs) else lines_from (w @ [c]) (d # cs))"

definition splitlines :: "string \<Rightarrow> string list" where
  "splitlines s = lines_from [] s"

definition rstrip :: "string \<Rightarrow> string" where
  "rstrip s = rev (dropWhile py_space (rev s))"

section \<open>Formulas\<close>

definition LTL_TOKENS :: "string list" where
  "LTL_TOKENS = [''[]'', ''<>'', '' U '', ''X '', ''&&'', ''||'', ''->'', ''<->'']"

definition PROSE_MARKERS :: "string list" where
  "PROSE_MARKERS = [''. '', ''.'' @ [newline], '', '', ''?'', '';'']"

datatype reply_defect = Empty_Reply | Unbalanced | No_Operator | Prose

definition looks_like_ltl :: "string \<Rightarrow> reply_defect option" where
  "looks_like_ltl f =
     (if f = [] then Some Empty_Reply
      else if count_list f CHR ''('' \<noteq> count_list f CHR '')'' then Some Unbalanced
      else if \<not> list_ex (\<lambda>t. contains t ('' '' @ f @ '' '')) LTL_TOKENS then Some No_Operator
      else if last f = CHR ''.'' \<or> list_ex (\<lambda>m. contains m f) PROSE_MARKERS then Some Prose
      else None)"

definition fence :: string where "fence = [CHR 0x60, CHR 0x60, CHR 0x60]"

definition strip_code_fence :: "string \<Rightarrow> string" where
  "strip_code_fence t =
     (let text = strip t
      in if prefix fence text then
           let ls = tl (splitlines text);
               ls1 = (if ls \<noteq> [] \<and> strip (last ls) = fence then butlast ls else ls)
           in strip (join [newline] ls1)
         else text)"

definition clean_formula :: "string \<Rightarrow> string" where
  "clean_formula reply =
     (let text = strip_code_fence reply;
          shown = rstrip text
      in one_line
           (if prefix ''ltl'' text \<and> CHR ''{'' \<in> set text \<and> shown \<noteq> [] \<and> last shown = CHR ''}''
            then tl (dropWhile (\<lambda>c. c \<noteq> CHR ''{'') (butlast shown)) else text))"

datatype formula_error = Empty_Mission | Model_Failed | Bad_Reply reply_defect
datatype formula = Formula string | No_Formula formula_error

text \<open>The reply is \<open>None\<close> when the model call raised.\<close>

definition generate :: "string \<Rightarrow> string option \<Rightarrow> formula" where
  "generate mission_text reply =
     (if strip mission_text = [] then No_Formula Empty_Mission
      else case reply of
        None \<Rightarrow> No_Formula Model_Failed
      | Some r \<Rightarrow>
          (case looks_like_ltl (clean_formula r) of
             Some d \<Rightarrow> No_Formula (Bad_Reply d)
           | None \<Rightarrow> Formula (clean_formula r)))"

section \<open>SPIN's verdict\<close>

text \<open>A run of SPIN: timed out, could not be started, or ended with a code and its output.\<close>

datatype spin_run = Timed_Out | Not_Started | Ran int string

record spin =
  sp_available :: bool
  sp_search :: "string \<Rightarrow> spin_run"
  sp_replay :: "string \<Rightarrow> spin_run"

datatype verdict_error = Empty_Formula | Spin_Missing | Spin_Timeout | Spin_Os_Error | Spin_Failed string | No_Verdict string

record verdict =
  vd_holds :: bool
  vd_counterexample :: string
  vd_error :: "verdict_error option"

definition conclusive :: "verdict \<Rightarrow> bool" where
  "conclusive v \<longleftrightarrow> vd_error v = None"

text \<open>Word characters of a Latin-1 text: identifiers' and the accented letters and number forms.\<close>

definition word_char :: "char \<Rightarrow> bool" where
  "word_char c \<longleftrightarrow> ident_char c \<or> (let n = of_char c :: nat in
     n \<in> {170, 178, 179, 181, 185, 186, 188, 189, 190} \<or> 192 \<le> n \<and> n \<noteq> 215 \<and> n \<noteq> 247)"

text \<open>\<^verbatim>\<open>_ERRORS_RE\<close>: the number after the first \<^verbatim>\<open>errors:\<close> that starts at a word boundary.\<close>

definition errors_here :: "string \<Rightarrow> int option" where
  "errors_here s =
     (if prefix ''errors:'' s
      then py_digits (takeWhile (\<lambda>c. digit c \<noteq> None) (dropWhile py_space (drop 7 s))) else None)"

fun errors_found :: "bool \<Rightarrow> string \<Rightarrow> int option" where
  "errors_found inside [] = None"
| "errors_found inside (c # cs) =
     (case if inside then None else errors_here (c # cs) of
        Some n \<Rightarrow> Some n
      | None \<Rightarrow> errors_found (word_char c) cs)"

definition tail_of :: "string \<Rightarrow> string" where
  "tail_of s = drop (length s - 400) s"

definition first_error :: "string \<Rightarrow> string" where
  "first_error out =
     (case find (\<lambda>l. contains ''Error:'' l \<or> prefix ''spin:'' l) (splitlines out) of
        Some l \<Rightarrow> strip l
      | None \<Rightarrow> tail_of (if strip out = [] then ''spin failed with no output'' else strip out))"

definition trail :: "spin_run \<Rightarrow> string" where
  "trail replay =
     (case replay of
        Ran _ out \<Rightarrow> if strip out = [] then ''(spin reported a violation but produced no trail)'' else strip out
      | _ \<Rightarrow> ''(counterexample unavailable)'')"

definition inconclusive :: "verdict_error \<Rightarrow> verdict" where
  "inconclusive e = \<lparr>vd_holds = False, vd_counterexample = [], vd_error = Some e\<rparr>"

definition checked_source :: "string \<Rightarrow> string \<Rightarrow> string" where
  "checked_source source f = source @ [newline] @ ''ltl mission { '' @ f @ '' }'' @ [newline]"

definition check :: "spin \<Rightarrow> string \<Rightarrow> string \<Rightarrow> verdict" where
  "check sp source f =
     (let f1 = one_line f;
          src = checked_source source f1
      in if f1 = [] then inconclusive Empty_Formula
         else if \<not> sp_available sp then inconclusive Spin_Missing
         else case sp_search sp src of
           Timed_Out \<Rightarrow> inconclusive Spin_Timeout
         | Not_Started \<Rightarrow> inconclusive Spin_Os_Error
         | Ran rc out \<Rightarrow>
             if rc \<noteq> 0 then inconclusive (Spin_Failed (first_error out))
             else (case errors_found False out of
                None \<Rightarrow> inconclusive (No_Verdict (tail_of out))
              | Some n \<Rightarrow>
                  if n = 0 then \<lparr>vd_holds = True, vd_counterexample = [], vd_error = None\<rparr>
                  else \<lparr>vd_holds = False, vd_counterexample = trail (sp_replay sp src), vd_error = None\<rparr>))"

section \<open>What a verdict rests on\<close>

text \<open>What SPIN has to have said for a plan to count as proved.\<close>

definition spin_proved :: "spin \<Rightarrow> string \<Rightarrow> string \<Rightarrow> bool" where
  "spin_proved sp source f \<longleftrightarrow> one_line f \<noteq> [] \<and> sp_available sp \<and>
     (\<exists>out. sp_search sp (checked_source source (one_line f)) = Ran 0 out \<and> errors_found False out = Some 0)"

definition spin_refuted :: "spin \<Rightarrow> string \<Rightarrow> string \<Rightarrow> bool" where
  "spin_refuted sp source f \<longleftrightarrow> one_line f \<noteq> [] \<and> sp_available sp \<and>
     (\<exists>out n. sp_search sp (checked_source source (one_line f)) = Ran 0 out \<and> errors_found False out = Some n \<and> n \<noteq> 0)"

lemma check_proved: "vd_holds (check sp source f) \<longleftrightarrow> spin_proved sp source f"
  by (auto simp: check_def spin_proved_def Let_def inconclusive_def split: spin_run.split option.split)

lemma check_refuted: "conclusive (check sp source f) \<and> \<not> vd_holds (check sp source f) \<longleftrightarrow> spin_refuted sp source f"
  by (auto simp: check_def spin_refuted_def conclusive_def Let_def inconclusive_def split: spin_run.split option.split)

end
