(* ===== verification/Ltl_Gate.thy ===== *)
theory Ltl_Gate
  imports Ltl
begin

text \<open>
  The verification gate (\<^verbatim>\<open>verification/ltl_gate.py\<close>). Parsing the XML is the library's: \<open>parse\<close>
  gives the document of a text, or \<open>None\<close> where lxml raises. \<open>ask\<close> answers for the injected generator.
\<close>

section \<open>State and results\<close>

record gate =
  lg_cache :: "(string \<times> string) list"
  lg_appendix :: string

definition gate_init :: gate where "gate_init = \<lparr>lg_cache = [], lg_appendix = []\<rparr>"

datatype gate_reason =
  Bad_Text | Rewritten string string | No_Mission_Text | No_Formula_Yet formula_error | Cannot_Model promela_error
  | Coverage "string list" | Spin_Not_Installed | Not_Conclusive verdict_error | Violation string string | Verified_Against string

record gate_result =
  gr_accepted :: bool
  gr_reason :: gate_reason
  gr_verified :: bool

definition result :: "bool \<Rightarrow> gate_reason \<Rightarrow> bool \<Rightarrow> gate_result" where
  "result a r v = \<lparr>gr_accepted = a, gr_reason = r, gr_verified = v\<rparr>"

section \<open>Operations\<close>

definition mission_element :: "xml \<Rightarrow> xml option" where
  "mission_element doc = find (\<lambda>k. xtag k = Some ''Mission'') (xkids doc)"

definition mission_text :: "xml \<Rightarrow> string" where
  "mission_text doc = strip (case mission_element doc of None \<Rightarrow> [] | Some e \<Rightarrow> xtext e)"

definition extend_text :: "string \<Rightarrow> string \<Rightarrow> string" where
  "extend_text t appendix = (if t = [] then appendix else t @ ''; '' @ appendix)"

definition allow_mission_text :: "string \<Rightarrow> gate \<Rightarrow> gate" where
  "allow_mission_text t g = g\<lparr>lg_appendix := strip t\<rparr>"

definition formula_for :: "(string \<Rightarrow> formula) \<Rightarrow> gate \<Rightarrow> string \<Rightarrow> gate \<times> formula" where
  "formula_for ask g t =
     (case map_of (lg_cache g) t of
        Some f \<Rightarrow> (g, Formula f)
      | None \<Rightarrow>
          (case ask t of
             Formula f \<Rightarrow> (g\<lparr>lg_cache := (t, f) # lg_cache g\<rparr>, Formula f)
           | No_Formula e \<Rightarrow> (g, No_Formula e)))"

definition warm :: "(string \<Rightarrow> formula) \<Rightarrow> gate \<Rightarrow> string \<Rightarrow> gate" where
  "warm ask g t = fst (formula_for ask g (strip t))"

text \<open>\<open>None\<close> when the text may stand, else what was expected.\<close>

definition text_unchanged :: "(string \<Rightarrow> xml option) \<Rightarrow> gate \<Rightarrow> string \<Rightarrow> string \<Rightarrow> string option" where
  "text_unchanged parse g t active =
     (case parse active of
        None \<Rightarrow> None
      | Some doc \<Rightarrow>
          let previous = mission_text doc
          in if t = previous then None
             else if lg_appendix g \<noteq> [] \<and> t = extend_text previous (lg_appendix g) then None
             else Some previous)"

text \<open>
  The gate proper. It raises (\<open>None\<close>) when an element of the schema's vocabulary is unknown to the
  ontology, whose error it does not catch.
\<close>

definition judge :: "string list \<Rightarrow> spin \<Rightarrow> xml \<Rightarrow> string \<Rightarrow> gate_result option" where
  "judge A sp doc f =
     (case compile_mission A (Some doc) None of
        Inl (Not_Described t) \<Rightarrow> None
      | Inl e \<Rightarrow> Some (result False (Cannot_Model e) False)
      | Inr model \<Rightarrow>
          Some (case coverage_gap f model of
            Some gap \<Rightarrow> result False (Coverage gap) False
          | None \<Rightarrow>
              if \<not> sp_available sp then result True Spin_Not_Installed False
              else let v = check sp (md_source model) f
                   in case vd_error v of
                        Some e \<Rightarrow> result True (Not_Conclusive e) False
                      | None \<Rightarrow>
                          if vd_holds v then result True (Verified_Against f) True
                          else result False (Violation f (vd_counterexample v)) True))"

definition gate_evaluate ::
  "(string \<Rightarrow> xml option) \<Rightarrow> string list \<Rightarrow> (string \<Rightarrow> formula) \<Rightarrow> spin \<Rightarrow> gate \<Rightarrow> string \<Rightarrow> string option \<Rightarrow> gate \<times> gate_result option" where
  "gate_evaluate parse A ask sp g candidate active =
     (case parse candidate of
        None \<Rightarrow> (g, Some (result False Bad_Text False))
      | Some doc \<Rightarrow>
          let t = mission_text doc
          in case Option.bind active (text_unchanged parse g t) of
               Some previous \<Rightarrow> (g, Some (result False (Rewritten previous t) False))
             | None \<Rightarrow>
                 if t = [] then (g, Some (result True No_Mission_Text False))
                 else case formula_for ask g t of
                   (g1, No_Formula e) \<Rightarrow> (g1, Some (result True (No_Formula_Yet e) False))
                 | (g1, Formula f) \<Rightarrow> (g1, judge A sp doc f))"

section \<open>Verdicts\<close>

lemma formula_for_simps [simp]:
  "lg_appendix (fst (formula_for ask g t)) = lg_appendix g"
  "snd (formula_for ask g t) = (case map_of (lg_cache g) t of Some f \<Rightarrow> Formula f | None \<Rightarrow> ask t)"
  by (simp_all add: formula_for_def split: option.split formula.split)

lemma gate_evaluate_appendix [simp]: "lg_appendix (fst (gate_evaluate parse A ask sp g candidate active)) = lg_appendix g"
proof -
  have "lg_appendix g1 = lg_appendix g" if "formula_for ask g t = (g1, f)" for g1 f t
    using formula_for_simps(1) [of ask g t] that by simp
  then show ?thesis
    by (auto simp: gate_evaluate_def Let_def split: option.split prod.split formula.split)
qed

text \<open>What a plan was judged against.\<close>

definition formula_of :: "(string \<Rightarrow> formula) \<Rightarrow> gate \<Rightarrow> string \<Rightarrow> formula" where
  "formula_of ask g t = (case map_of (lg_cache g) t of Some f \<Rightarrow> Formula f | None \<Rightarrow> ask t)"

definition proved_plan :: "string list \<Rightarrow> spin \<Rightarrow> xml \<Rightarrow> string \<Rightarrow> bool" where
  "proved_plan A sp doc f \<longleftrightarrow> (\<exists>m. compile_mission A (Some doc) None = Inr m \<and>
     set (formula_aps f) \<subseteq> set (md_defined_aps m) \<and> spin_proved sp (md_source m) f)"

lemma coverage_gap_none: "coverage_gap f m = None \<longleftrightarrow> set (formula_aps f) \<subseteq> set (md_defined_aps m)"
proof -
  have "sort xs = [] \<longleftrightarrow> xs = []" for xs :: "string list" by (metis set_empty set_sort)
  then show ?thesis by (auto simp: coverage_gap_def Let_def filter_empty_conv)
qed

lemma judge_proved:
  "(\<exists>r. judge A sp doc f = Some r \<and> gr_accepted r \<and> gr_verified r) \<longleftrightarrow> proved_plan A sp doc f"
proof (cases "compile_mission A (Some doc) None")
  case (Inl e)
  then show ?thesis by (cases e) (simp_all add: judge_def proved_plan_def result_def)
next
  case (Inr m)
  have "spin_proved sp (md_source m) f \<longleftrightarrow> sp_available sp \<and> conclusive (check sp (md_source m) f) \<and> vd_holds (check sp (md_source m) f)"
    by (auto simp: check_proved [symmetric] check_def Let_def inconclusive_def conclusive_def split: spin_run.splits option.splits if_splits)
  then show ?thesis
    using Inr coverage_gap_none [of f m]
    by (auto simp: judge_def proved_plan_def result_def Let_def conclusive_def split: option.split)
qed

lemma judge_accepts:
  "(\<exists>r. judge A sp doc f = Some r \<and> gr_accepted r) \<longleftrightarrow>
     (\<exists>m. compile_mission A (Some doc) None = Inr m \<and> set (formula_aps f) \<subseteq> set (md_defined_aps m) \<and>
        \<not> spin_refuted sp (md_source m) f)"
proof (cases "compile_mission A (Some doc) None")
  case (Inl e)
  then show ?thesis by (cases e) (simp_all add: judge_def result_def)
next
  case (Inr m)
  have "spin_refuted sp (md_source m) f \<Longrightarrow> sp_available sp" by (simp add: spin_refuted_def)
  then show ?thesis
    using Inr coverage_gap_none [of f m] check_refuted [of sp "md_source m" f]
    by (auto simp: judge_def result_def Let_def conclusive_def split: option.split)
qed

text \<open>The text of a candidate may stand: it is the active plan's, or that extended by what was allowed.\<close>

definition text_stands :: "(string \<Rightarrow> xml option) \<Rightarrow> gate \<Rightarrow> string option \<Rightarrow> xml \<Rightarrow> bool" where
  "text_stands parse g active doc \<longleftrightarrow>
     (case Option.bind active parse of
        None \<Rightarrow> True
      | Some old \<Rightarrow> mission_text doc = mission_text old \<or>
          lg_appendix g \<noteq> [] \<and> mission_text doc = extend_text (mission_text old) (lg_appendix g))"

lemma text_stands_bind: "Option.bind active (text_unchanged parse g (mission_text doc)) = None \<longleftrightarrow> text_stands parse g active doc"
  by (auto simp: text_stands_def text_unchanged_def Let_def split: option.split bind_split)

lemma formula_for_pair: obtains g1 where "formula_for ask g t = (g1, formula_of ask g t)"
  by (metis formula_for_simps(2) formula_of_def prod.collapse)

lemma gate_evaluate_shape:
  "snd (gate_evaluate parse A ask sp g candidate active) =
      (case parse candidate of
         None \<Rightarrow> Some (result False Bad_Text False)
       | Some doc \<Rightarrow>
           if \<not> text_stands parse g active doc
           then Some (result False (Rewritten (the (Option.bind active (text_unchanged parse g (mission_text doc)))) (mission_text doc)) False)
           else if mission_text doc = [] then Some (result True No_Mission_Text False)
           else case formula_of ask g (mission_text doc) of
             No_Formula e \<Rightarrow> Some (result True (No_Formula_Yet e) False)
           | Formula f \<Rightarrow> judge A sp doc f)"
proof (cases "parse candidate")
  case (Some doc)
  obtain g1 where "formula_for ask g (mission_text doc) = (g1, formula_of ask g (mission_text doc))" by (rule formula_for_pair)
  then show ?thesis
    using Some by (auto simp: gate_evaluate_def Let_def text_stands_bind [symmetric] split: option.split formula.split)
qed (simp add: gate_evaluate_def)

text \<open>
  C5: what the gate's two answers mean. A plan comes out verified and accepted exactly when its mission text
  stands, a formula was obtained for that text, the model defines every proposition the formula
  uses, and SPIN ended normally reporting no error on that model and formula. It comes out accepted
  exactly when its text stands and nothing was found against it: there is no text or no formula, or
  the model covers the formula and SPIN did not refute it.
\<close>

theorem gate_answers_are_exact:
  "((\<exists>r. snd (gate_evaluate parse A ask sp g candidate active) = Some r \<and> gr_accepted r \<and> gr_verified r) \<longleftrightarrow>
     (\<exists>doc f. parse candidate = Some doc \<and> text_stands parse g active doc \<and> mission_text doc \<noteq> [] \<and>
        formula_of ask g (mission_text doc) = Formula f \<and> proved_plan A sp doc f)) \<and>
   ((\<exists>r. snd (gate_evaluate parse A ask sp g candidate active) = Some r \<and> gr_accepted r) \<longleftrightarrow>
     (\<exists>doc. parse candidate = Some doc \<and> text_stands parse g active doc \<and>
        (mission_text doc = [] \<or>
         (case formula_of ask g (mission_text doc) of
            No_Formula e \<Rightarrow> True
          | Formula f \<Rightarrow> \<exists>m. compile_mission A (Some doc) None = Inr m \<and>
              set (formula_aps f) \<subseteq> set (md_defined_aps m) \<and> \<not> spin_refuted sp (md_source m) f))))"
  unfolding gate_evaluate_shape judge_accepts [symmetric]
  by (auto simp: result_def judge_proved [symmetric] split: option.split formula.split)

section \<open>One specification per text\<close>

datatype gate_op =
  Warm "string \<Rightarrow> formula" string | Allow string | Evaluate "string \<Rightarrow> formula" spin string "string option"

fun gate_step :: "(string \<Rightarrow> xml option) \<Rightarrow> string list \<Rightarrow> gate \<Rightarrow> gate_op \<Rightarrow> gate" where
  "gate_step parse A g (Warm ask t) = warm ask g t"
| "gate_step parse A g (Allow t) = allow_mission_text t g"
| "gate_step parse A g (Evaluate ask sp candidate active) = fst (gate_evaluate parse A ask sp g candidate active)"

lemma formula_for_keeps: "map_of (lg_cache g) t = Some f \<Longrightarrow> map_of (lg_cache (fst (formula_for ask g u))) t = Some f"
  by (auto simp: formula_for_def split: option.split formula.split)

lemma gate_step_keeps: "map_of (lg_cache g) t = Some f \<Longrightarrow> map_of (lg_cache (gate_step parse A g op)) t = Some f"
proof -
  assume known: "map_of (lg_cache g) t = Some f"
  have "map_of (lg_cache g1) t = Some f" if "formula_for ask g u = (g1, x)" for ask u g1 x
    using formula_for_keeps [OF known, of ask u] that by simp
  then show ?thesis
    using known formula_for_keeps [OF known]
    by (cases op) (auto simp: warm_def allow_mission_text_def gate_evaluate_def Let_def split: option.split prod.split formula.split)
qed

lemma formula_for_caches: "formula_of ask g t = Formula f \<Longrightarrow> map_of (lg_cache (fst (formula_for ask g t))) t = Some f"
  by (auto simp: formula_of_def formula_for_def split: option.splits formula.splits)

text \<open>
  A mission text has one specification. Once a formula was obtained for a text, by warming the
  gate or by judging a candidate, every later candidate with that text is judged against the same
  formula, whatever the model would answer then and whatever happens in between. A failed
  translation leaves nothing behind.
\<close>

lemma one_formula_per_text:
  "(formula_of ask g (strip t) = Formula f \<longrightarrow>
     formula_of ask' (run (gate_step parse A) (gate_step parse A g (Warm ask t)) ops) (strip t) = Formula f) \<and>
   (parse candidate = Some doc \<and> text_stands parse g active doc \<and> mission_text doc \<noteq> [] \<and>
      formula_of ask g (mission_text doc) = Formula f \<longrightarrow>
     formula_of ask' (run (gate_step parse A) (gate_step parse A g (Evaluate ask sp candidate active)) ops) (mission_text doc) = Formula f) \<and>
   (formula_of ask g (strip t) = No_Formula e \<longrightarrow> gate_step parse A g (Warm ask t) = g)"
proof (intro conjI impI)
  have later: "formula_of ask' (run (gate_step parse A) g1 ops) t = Formula f" if "map_of (lg_cache g1) t = Some f" for g1 t
  proof -
    have "map_of (lg_cache (run (gate_step parse A) g1 ops)) t = Some f"
      by (rule run_invariant [where P = "\<lambda>g. map_of (lg_cache g) t = Some f"]) (use that gate_step_keeps in auto)
    then show ?thesis by (simp add: formula_of_def)
  qed
  show "formula_of ask' (run (gate_step parse A) (gate_step parse A g (Warm ask t)) ops) (strip t) = Formula f"
    if "formula_of ask g (strip t) = Formula f"
    by (rule later) (simp add: warm_def formula_for_caches that)
  show "formula_of ask' (run (gate_step parse A) (gate_step parse A g (Evaluate ask sp candidate active)) ops) (mission_text doc) = Formula f"
    if a: "parse candidate = Some doc \<and> text_stands parse g active doc \<and> mission_text doc \<noteq> [] \<and>
      formula_of ask g (mission_text doc) = Formula f"
  proof (rule later)
    obtain g1 where g1: "formula_for ask g (mission_text doc) = (g1, formula_of ask g (mission_text doc))" by (rule formula_for_pair)
    then have "fst (gate_evaluate parse A ask sp g candidate active) = g1"
      using a text_stands_bind [of active parse g doc] by (auto simp: gate_evaluate_def Let_def)
    then show "map_of (lg_cache (gate_step parse A g (Evaluate ask sp candidate active))) (mission_text doc) = Some f"
      using formula_for_caches [of ask g "mission_text doc" f] a g1 by simp
  qed
  show "gate_step parse A g (Warm ask t) = g" if "formula_of ask g (strip t) = No_Formula e"
    using that by (auto simp: warm_def formula_for_def formula_of_def split: option.splits)
qed

lemma one_formula_per_text_witness:
  "formula_of (\<lambda>_. No_Formula Model_Failed)
     (run (gate_step (\<lambda>_. None) []) (gate_step (\<lambda>_. None) [] gate_init (Warm (\<lambda>_. Formula ''<>a'') ''sample'')) [Allow ''more''])
     (strip ''sample'') = Formula ''<>a''"
proof -
  have "formula_of (\<lambda>_. Formula ''<>a'') gate_init (strip ''sample'') = Formula ''<>a''" by (simp add: formula_of_def gate_init_def)
  then show ?thesis using one_formula_per_text [of "\<lambda>_. Formula ''<>a''" gate_init "''sample''" "''<>a''"] by blast
qed


end
