(* ===== verification/Arbiter.thy ===== *)
theory Arbiter
  imports Ltl_Gate
begin

text \<open>
  The arbiter (\<^verbatim>\<open>replanning/arbiter_node.py\<close>), the only node that publishes a plan. Each callback is
  one operation on the state, run to its end; messages sent are outputs. The XML library, the
  schema and the configuration are the record \<open>env\<close>; what the model, SPIN and the clock answer
  during a callback is the record \<open>answers\<close>. Logs and the status topic's readout are left out.
\<close>

section \<open>Configuration, state, messages\<close>

definition MAX_CHANGED_LINE_RATIO :: rat where "MAX_CHANGED_LINE_RATIO = 1 / 2"
definition MIN_ACCEPT_INTERVAL_SEC :: secs where "MIN_ACCEPT_INTERVAL_SEC = 5"
definition MAX_DROPPED_TREES :: nat where "MAX_DROPPED_TREES = 0"
definition PERMANENT_DROP_ALLOWANCE :: nat where "PERMANENT_DROP_ALLOWANCE = 1"
definition PERMANENT_KEYWORDS :: "string list" where
  "PERMANENT_KEYWORDS = [''permanent'', ''removed'', ''unavailable'', ''does not exist'']"
definition DEFAULT_VIABILITY_BUDGET :: nat where "DEFAULT_VIABILITY_BUDGET = 2"

text \<open>
  \<open>su_parse\<close> is \<^verbatim>\<open>etree.fromstring\<close>; \<open>su_print src d\<close> is \<^verbatim>\<open>etree.tostring\<close> of a document that was read
  from \<open>src\<close> and edited into \<open>d\<close>, whose layout comes from \<open>src\<close>; \<open>su_valid\<close> is the schema's verdict,
  true when no schema was loaded.
\<close>

record env =
  su_parse :: "string \<Rightarrow> xml option"
  su_print :: "string \<Rightarrow> xml \<Rightarrow> string"
  su_valid :: "xml \<Rightarrow> bool"
  su_actions :: "string list"
  su_names :: "string \<Rightarrow> string option"
  su_ltl_verification :: bool
  su_objective_gating :: bool

record answers =
  an_ask :: "string \<Rightarrow> formula"
  an_spin :: spin
  an_now :: secs

record arbiter =
  ar_active :: "string option"
  ar_original :: "string set option"
  ar_justified :: "string set"
  ar_completed :: "string set"
  ar_transferred :: "string set"
  ar_budget :: "nat option"
  ar_failure :: string
  ar_last_accept :: secs
  ar_awaiting_retry :: bool
  ar_published :: "string option"
  ar_gate_verified :: bool
  ar_gate :: gate
  ar_orchard :: "orchard option"
  ar_accepted :: nat
  ar_rejected :: nat
  ar_ltl_checked :: nat
  ar_ltl_rejected :: nat
  ar_ltl_unverified :: nat

definition arbiter_init :: arbiter where
  "arbiter_init = \<lparr>ar_active = None, ar_original = None, ar_justified = {}, ar_completed = {}, ar_transferred = {}, ar_budget = None,
     ar_failure = [], ar_last_accept = 0, ar_awaiting_retry = False, ar_published = None, ar_gate_verified = False, ar_gate = gate_init,
     ar_orchard = None, ar_accepted = 0, ar_rejected = 0, ar_ltl_checked = 0, ar_ltl_rejected = 0, ar_ltl_unverified = 0\<rparr>"

datatype refusal =
  Not_Xml | Schema | Precondition violation | Unjustified_Drop "string set" nat | Not_Viable "string set" nat
  | Gate gate_reason | Edit_Too_Large rat | Rate_Limited | Not_In_Plan | Bad_Target | Cannot_Rebuild | Cannot_Graft

datatype decision = Accept | Reject refusal | Abort refusal

datatype sent =
  Publish string | Rejection refusal | Abortion refusal | Viability_Budget nat nat
  | Replan_Request bool int target_kind "string list" "finding list"
  | Start_Budget string "string set" | Start_Warming string

section \<open>The checks\<close>

definition objective_tree_ids :: "xml \<Rightarrow> string set" where
  "objective_tree_ids doc =
     set (List.map_filter (attr ''id'')
       (filter (\<lambda>mv. lower (attr_or_empty ''approach_tree'' mv) = ''true'') (iter_tag ''MoveToTreeID'' doc)))"

definition check_preconditions :: "xml \<Rightarrow> arbiter \<Rightarrow> violation option" where
  "check_preconditions doc s =
     (case violations doc (ar_orchard s) of Some (v # _) \<Rightarrow> Some v | _ \<Rightarrow> None)"

definition allowed_new :: "arbiter \<Rightarrow> nat" where
  "allowed_new s =
     (if list_ex (\<lambda>kw. contains kw (lower (ar_failure s))) PERMANENT_KEYWORDS
      then max MAX_DROPPED_TREES PERMANENT_DROP_ALLOWANCE else MAX_DROPPED_TREES)"

definition budget_of :: "arbiter \<Rightarrow> nat" where
  "budget_of s = (case ar_budget s of None \<Rightarrow> DEFAULT_VIABILITY_BUDGET | Some n \<Rightarrow> n)"

definition check_objective_preserved :: "xml \<Rightarrow> arbiter \<Rightarrow> decision" where
  "check_objective_preserved doc s =
     (case ar_original s of
        None \<Rightarrow> Accept
      | Some original \<Rightarrow>
          if original = {} then Accept
          else let outstanding = original - ar_completed s - ar_transferred s;
                   dropped = outstanding - objective_tree_ids doc;
                   newly_dropped = dropped - ar_justified s
               in if card newly_dropped > allowed_new s then Reject (Unjustified_Drop newly_dropped (allowed_new s))
                  else if card dropped > budget_of s then Abort (Not_Viable dropped (budget_of s))
                  else Accept)"

definition stripped_lines :: "string \<Rightarrow> string list" where
  "stripped_lines t = filter (\<lambda>l. l \<noteq> []) (map strip (splitlines t))"

definition changed_line_ratio :: "string \<Rightarrow> string \<Rightarrow> rat" where
  "changed_line_ratio original edited =
     (let edit_lines = stripped_lines edited;
          changed = length (filter (\<lambda>l. l \<notin> set (stripped_lines original)) edit_lines)
      in if edit_lines = [] then 1 else of_nat changed / of_nat (length edit_lines))"

text \<open>The two policies on churn, when everything else has passed.\<close>

definition too_large :: "arbiter \<Rightarrow> string \<Rightarrow> rat option" where
  "too_large s candidate =
     (case ar_active s of
        None \<Rightarrow> None
      | Some active \<Rightarrow>
          if changed_line_ratio active candidate > MAX_CHANGED_LINE_RATIO then Some (changed_line_ratio active candidate) else None)"

definition rate_limited :: "answers \<Rightarrow> arbiter \<Rightarrow> bool" where
  "rate_limited an s \<longleftrightarrow>
     \<not> ar_awaiting_retry s \<and> ar_last_accept s > 0 \<and> an_now an - ar_last_accept s < MIN_ACCEPT_INTERVAL_SEC"

definition churn :: "answers \<Rightarrow> arbiter \<Rightarrow> string \<Rightarrow> decision" where
  "churn an s candidate =
     (case too_large s candidate of
        Some ratio \<Rightarrow> Reject (Edit_Too_Large ratio)
      | None \<Rightarrow> if rate_limited an s then Reject Rate_Limited else Accept)"

text \<open>Check 5, with its bookkeeping; \<open>None\<close> when the gate raises.\<close>

definition run_gate :: "env \<Rightarrow> answers \<Rightarrow> string \<Rightarrow> arbiter \<Rightarrow> arbiter \<times> decision option" where
  "run_gate su an candidate s =
     (case gate_evaluate (su_parse su) (su_actions su) (an_ask an) (an_spin an) (ar_gate s) candidate (ar_active s) of
        (g, None) \<Rightarrow> (s\<lparr>ar_gate := g\<rparr>, None)
      | (g, Some r) \<Rightarrow>
          let s1 = s\<lparr>ar_gate := g, ar_gate_verified := gr_verified r\<rparr>;
              s2 = (if gr_verified r then s1\<lparr>ar_ltl_checked := ar_ltl_checked s1 + 1\<rparr>
                    else s1\<lparr>ar_ltl_unverified := ar_ltl_unverified s1 + 1\<rparr>)
          in if gr_accepted r then (s2, Some (churn an s2 candidate))
             else (s2\<lparr>ar_ltl_rejected := ar_ltl_rejected s2 + 1\<rparr>, Some (Reject (Gate (gr_reason r)))))"

definition evaluate :: "env \<Rightarrow> answers \<Rightarrow> string \<Rightarrow> arbiter \<Rightarrow> arbiter \<times> decision option" where
  "evaluate su an candidate s0 =
     (let s = s0\<lparr>ar_gate_verified := False\<rparr>
      in case su_parse su candidate of
           None \<Rightarrow> (s, Some (Reject Not_Xml))
         | Some doc \<Rightarrow>
             if \<not> su_valid su doc then (s, Some (Reject Schema))
             else case check_preconditions doc s of
               Some v \<Rightarrow> (s, Some (Reject (Precondition v)))
             | None \<Rightarrow>
                 (case if su_objective_gating su then check_objective_preserved doc s else Accept of
                    Reject r \<Rightarrow> (s, Some (Reject r))
                  | Abort r \<Rightarrow> (s, Some (Abort r))
                  | Accept \<Rightarrow>
                      if \<not> su_ltl_verification su then (s\<lparr>ar_ltl_unverified := ar_ltl_unverified s + 1\<rparr>, Some Accept)
                      else run_gate su an candidate s))"

section \<open>Deciding\<close>

text \<open>Accepted, verified, and the reason when not accepted.\<close>

type_synonym report = "bool \<times> bool \<times> refusal option"

definition commit :: "env \<Rightarrow> answers \<Rightarrow> string \<Rightarrow> arbiter \<Rightarrow> arbiter" where
  "commit su an candidate s =
     s\<lparr>ar_published := Some candidate, ar_active := Some candidate, ar_last_accept := an_now an, ar_awaiting_retry := False,
       ar_justified := (case (ar_original s, su_parse su candidate) of
            (Some original, Some doc) \<Rightarrow> ar_justified s \<union> (original - objective_tree_ids doc)
          | _ \<Rightarrow> ar_justified s),
       ar_accepted := ar_accepted s + 1\<rparr>"

definition decide :: "env \<Rightarrow> answers \<Rightarrow> string \<Rightarrow> arbiter \<Rightarrow> arbiter \<times> sent list \<times> report option" where
  "decide su an candidate s =
     (case evaluate su an candidate s of
        (s1, None) \<Rightarrow> (s1, [], None)
      | (s1, Some Accept) \<Rightarrow> (commit su an candidate s1, [Publish candidate], Some (True, ar_gate_verified s1, None))
      | (s1, Some (Abort r)) \<Rightarrow> (s1\<lparr>ar_awaiting_retry := False\<rparr>, [Abortion r], Some (False, ar_gate_verified s1, Some r))
      | (s1, Some (Reject r)) \<Rightarrow>
          (s1\<lparr>ar_awaiting_retry := True, ar_rejected := ar_rejected s1 + 1\<rparr>, [Rejection r], Some (False, ar_gate_verified s1, Some r)))"

section \<open>The coordinator's edits\<close>

text \<open>A request to take a task on or to let it go; the subtree is the text the request carries.\<close>

record request =
  rq_removing :: bool
  rq_task_id :: int
  rq_capabilities :: int
  rq_kind :: int
  rq_a :: int
  rq_b :: int
  rq_priority :: int
  rq_xml :: string

definition mission_clause :: "mission_task \<Rightarrow> string" where
  "mission_clause task =
     (if tg_kind (mt_target task) \<noteq> TREE then []
      else if SAMPLE_LEAF \<in> set (capabilities_in (mt_capabilities task))
      then ''sample leaves from tree '' @ str_int (tg_a (mt_target task))
      else ''visit tree '' @ str_int (tg_a (mt_target task)))"

fun set_text :: "(xml \<Rightarrow> bool) \<Rightarrow> string \<Rightarrow> xml list \<Rightarrow> xml list" where
  "set_text P t [] = []"
| "set_text P t (k # ks) = (if P k then (case k of Node i tg a x kks \<Rightarrow> Node i tg a t kks # ks) else k # set_text P t ks)"

definition with_mission_text :: "string \<Rightarrow> xml \<Rightarrow> xml" where
  "with_mission_text t doc =
     (case doc of Node i tg a x ks \<Rightarrow> Node i tg a x (set_text (\<lambda>k. xtag k = Some ''Mission'') t ks))"

definition extend_mission_text :: "env \<Rightarrow> string \<Rightarrow> string \<Rightarrow> string option" where
  "extend_mission_text su mission_xml clause =
     (case su_parse su mission_xml of
        None \<Rightarrow> None
      | Some doc \<Rightarrow>
          Some (case mission_element doc of
            None \<Rightarrow> mission_xml
          | Some e \<Rightarrow>
              let current = strip (xtext e)
              in su_print su mission_xml (with_mission_text (if current = [] then clause else current @ ''; '' @ clause) doc)))"

definition requested_task :: "request \<Rightarrow> target \<Rightarrow> mission_task" where
  "requested_task rq t =
     \<lparr>mt_task_id = rq_task_id rq, mt_name = ''task_'' @ str_int (rq_task_id rq), mt_capabilities = rq_capabilities rq,
      mt_target = t, mt_priority = rq_priority rq, mt_xml = None\<rparr>"

text \<open>
  The plan with the task added or removed, the sanctioned text, what the rebuild left out. The
  errors the code raises as \<^verbatim>\<open>ValueError\<close> are refusals; \<open>None\<close> is an error of another kind (a plan
  just printed that does not parse).
\<close>

definition absorbed :: "env \<Rightarrow> string \<Rightarrow> mission_task \<Rightarrow> string list \<Rightarrow> (refusal + string \<times> string \<times> string list) option" where
  "absorbed su active task dropped =
     (case insert_task (su_parse su active) task of
        None \<Rightarrow> Some (Inl Cannot_Graft)
      | Some d \<Rightarrow>
          let edited = su_print su active d; clause = mission_clause task
          in if clause = [] then Some (Inr (edited, clause, dropped))
             else map_option (\<lambda>e. Inr (e, clause, dropped)) (extend_mission_text su edited clause))"

definition apply_task_edit :: "env \<Rightarrow> request \<Rightarrow> string \<Rightarrow> arbiter \<Rightarrow> (refusal + string \<times> string \<times> string list) option" where
  "apply_task_edit su rq active s =
     (if rq_removing rq then
        (case remove_task (su_parse su active) (rq_task_id rq) of
           Inr (Some d) \<Rightarrow> Some (Inr (su_print su active d, [], []))
         | _ \<Rightarrow> Some (Inl Not_In_Plan))
      else case Target (rq_kind rq) (rq_a rq) (rq_b rq) of
        Inl _ \<Rightarrow> Some (Inl Bad_Target)
      | Inr t \<Rightarrow>
          let task = requested_task rq t
          in if rq_xml rq = [] then
               (case synthesize (su_names su) task (ar_orchard s) of
                  None \<Rightarrow> Some (Inl Cannot_Rebuild)
                | Some r \<Rightarrow> absorbed su active (task\<lparr>mt_xml := Some (rb_xml r)\<rparr>) (rb_dropped r))
             else absorbed su active (task\<lparr>mt_xml := su_parse su (rq_xml rq)\<rparr>) [])"

definition objectives_leaving :: "env \<Rightarrow> string \<Rightarrow> string \<Rightarrow> string set" where
  "objectives_leaving su active candidate =
     (case (su_parse su active, su_parse su candidate) of
        (Some old, Some new) \<Rightarrow> objective_tree_ids old - objective_tree_ids new
      | _ \<Rightarrow> {})"

text \<open>The request to the planner; \<open>None\<close> when the target kind is none of the vocabulary's.\<close>

definition request_replan :: "env \<Rightarrow> request \<Rightarrow> string \<Rightarrow> string list \<Rightarrow> arbiter \<Rightarrow> sent list option" where
  "request_replan su rq committed dropped s =
     (case su_parse su committed of
        None \<Rightarrow> Some []
      | Some doc \<Rightarrow>
          (case (dangling doc (ar_orchard s), TargetKind (rq_kind rq)) of
             (Some findings, Inr k) \<Rightarrow> Some [Replan_Request (rq_removing rq) (rq_task_id rq) k dropped findings]
           | _ \<Rightarrow> None))"

definition allow :: "env \<Rightarrow> string \<Rightarrow> arbiter \<Rightarrow> arbiter" where
  "allow su t s = (if su_ltl_verification su then s\<lparr>ar_gate := allow_mission_text t (ar_gate s)\<rparr> else s)"

definition hand_over :: "string set \<Rightarrow> arbiter \<Rightarrow> arbiter" where
  "hand_over departing s = s\<lparr>ar_justified := ar_justified s \<union> departing, ar_transferred := ar_transferred s \<union> departing\<rparr>"

definition take_back :: "string set \<Rightarrow> arbiter \<Rightarrow> arbiter" where
  "take_back departing s = s\<lparr>ar_justified := ar_justified s - departing, ar_transferred := ar_transferred s - departing\<rparr>"

definition decide_edit :: "env \<Rightarrow> answers \<Rightarrow> string \<Rightarrow> string \<Rightarrow> string set \<Rightarrow> arbiter \<Rightarrow> arbiter \<times> sent list \<times> report option" where
  "decide_edit su an candidate appendix departing s =
     (case decide su an candidate (hand_over departing (allow su appendix s)) of
        (s1, out, answer) \<Rightarrow>
          let s2 = allow su [] s1;
              accepted = (case answer of Some (True, _) \<Rightarrow> True | _ \<Rightarrow> False)
          in (if accepted then s2 else take_back departing s2, out, answer))"

text \<open>The response: accepted, verified, reason. \<open>None\<close> when an exception leaves the handler.\<close>

definition on_verify_replan :: "env \<Rightarrow> answers \<Rightarrow> request \<Rightarrow> arbiter \<Rightarrow> arbiter \<times> sent list \<times> report option" where
  "on_verify_replan su an rq s =
     (case ar_active s of
        None \<Rightarrow> (s, [], Some (True, False, None))
      | Some active \<Rightarrow>
          if active = [] then (s, [], Some (True, False, None))
          else case apply_task_edit su rq active s of
            None \<Rightarrow> (s, [], None)
          | Some (Inl r) \<Rightarrow> (s, [], Some (False, False, Some r))
          | Some (Inr (candidate, appendix, dropped)) \<Rightarrow>
              let departing = (if rq_removing rq then objectives_leaving su active candidate else {})
              in case decide_edit su an candidate appendix departing s of
                   (s1, out, Some (True, verified, r)) \<Rightarrow>
                     (case request_replan su rq candidate dropped s1 of
                        None \<Rightarrow> (s1, out, None)
                      | Some asked \<Rightarrow> (s1, out @ asked, Some (True, verified, r)))
                 | other \<Rightarrow> other)"

section \<open>The other callbacks\<close>

definition on_mission :: "env \<Rightarrow> string \<Rightarrow> arbiter \<Rightarrow> arbiter \<times> sent list" where
  "on_mission su msg s =
     (if ar_published s = Some msg then (s, [])
      else let s1 = s\<lparr>ar_active := Some msg\<rparr>
           in if ar_original s1 \<noteq> None then (s1, [])
              else case su_parse su msg of
                None \<Rightarrow> (s1, [])
              | Some doc \<Rightarrow>
                  let t = (case mission_element doc of None \<Rightarrow> [] | Some e \<Rightarrow> xtext e)
                  in (s1\<lparr>ar_original := Some (objective_tree_ids doc), ar_justified := {}\<rparr>,
                      (if su_objective_gating su then [Start_Budget t (objective_tree_ids doc)] else []) @
                      (if su_ltl_verification su then [Start_Warming t] else [])))"

definition on_candidate :: "env \<Rightarrow> answers \<Rightarrow> string \<Rightarrow> arbiter \<Rightarrow> arbiter \<times> sent list" where
  "on_candidate su an msg s = (case decide su an msg s of (s1, out, _) \<Rightarrow> (s1, out))"

text \<open>The decoded map; an error in reading it leaves the handler with the state as it was.\<close>

definition on_orchard :: "json \<Rightarrow> arbiter \<Rightarrow> arbiter" where
  "on_orchard payload s =
     (case parse_orchard payload of
        Inr m \<Rightarrow> if m = [] then s else s\<lparr>ar_orchard := Some m\<rparr>
      | Inl _ \<Rightarrow> s)"

text \<open>
  A decoded status event: the text of its status, \<^verbatim>\<open>FAILURE\<close> when it has none; of its reason, empty when
  it has none; and the node's name. In Latin-1 only the sharp s has an upper case of two letters.
\<close>

record bt_event =
  ev_status :: string
  ev_reason :: string
  ev_node :: string

definition upper_char :: "char \<Rightarrow> string" where
  "upper_char c = (let n = of_char c :: nat in
     if n = 223 then ''SS''
     else if 97 \<le> n \<and> n \<le> 122 \<or> 224 \<le> n \<and> n \<le> 254 \<and> n \<noteq> 247 then [char_of (n - 32)] else [c])"

definition upper :: "string \<Rightarrow> string" where
  "upper s = concat (map upper_char s)"

definition on_bt_status :: "env \<Rightarrow> bt_event option \<Rightarrow> arbiter \<Rightarrow> arbiter" where
  "on_bt_status su event s =
     (case event of
        None \<Rightarrow> s
      | Some ev \<Rightarrow>
          if upper (ev_status ev) = ''FAILURE'' then s\<lparr>ar_failure := ev_reason ev\<rparr>
          else if upper (ev_status ev) \<noteq> ''SUCCESS'' then s
          else if ev_node ev = [] \<or> ev_node ev = ''<tree>'' then s
          else case Option.bind (ar_active s) (\<lambda>x. if x = [] then None else su_parse su x) of
            None \<Rightarrow> s
          | Some doc \<Rightarrow>
              (case Option.bind (sample_leaf_trees doc (ar_orchard s)) (\<lambda>m. map_of m (ev_node ev)) of
                 None \<Rightarrow> s
               | Some t \<Rightarrow> s\<lparr>ar_completed := insert t (ar_completed s)\<rparr>))"

text \<open>The integers in a reply, left to right; the accumulator is the one being read.\<close>

fun numbers_from :: "string \<Rightarrow> string \<Rightarrow> int list" where
  "numbers_from w [] = List.map_filter py_digits [w]"
| "numbers_from w (c # cs) =
     (if digit c \<noteq> None then numbers_from (w @ [c]) cs else List.map_filter py_digits [w] @ numbers_from [] cs)"

definition viability_budget :: "string option \<Rightarrow> nat \<Rightarrow> nat" where
  "viability_budget reply n_trees =
     (let n = (case reply of
            None \<Rightarrow> DEFAULT_VIABILITY_BUDGET
          | Some text \<Rightarrow> (case numbers_from [] text of [] \<Rightarrow> DEFAULT_VIABILITY_BUDGET | ns \<Rightarrow> nat (last ns)))
      in max 1 (min n n_trees))"

definition compute_viability_budget :: "string option \<Rightarrow> nat \<Rightarrow> arbiter \<Rightarrow> arbiter \<times> sent list" where
  "compute_viability_budget reply n_trees s =
     (let n = viability_budget reply n_trees in (s\<lparr>ar_budget := Some n\<rparr>, [Viability_Budget n n_trees]))"

definition warm_gate :: "answers \<Rightarrow> string \<Rightarrow> arbiter \<Rightarrow> arbiter" where
  "warm_gate an t s = s\<lparr>ar_gate := warm (an_ask an) (ar_gate s) t\<rparr>"

end
