(* ===== verification/Arbiter_Inv.thy ===== *)
theory Arbiter_Inv
  imports Arbiter
begin

text \<open>What the arbiter's operations do to its state, and what holds in every reachable one.\<close>

section \<open>One decision\<close>

text \<open>The fields a check leaves alone: all but the gate, its flag and the counters.\<close>

definition same_books :: "arbiter \<Rightarrow> arbiter \<Rightarrow> bool" where
  "same_books s s' \<longleftrightarrow> ar_active s' = ar_active s \<and> ar_original s' = ar_original s \<and> ar_justified s' = ar_justified s \<and>
     ar_completed s' = ar_completed s \<and> ar_transferred s' = ar_transferred s \<and> ar_budget s' = ar_budget s \<and>
     ar_failure s' = ar_failure s \<and> ar_last_accept s' = ar_last_accept s \<and> ar_published s' = ar_published s \<and>
     ar_orchard s' = ar_orchard s \<and> lg_appendix (ar_gate s') = lg_appendix (ar_gate s)"

lemma run_gate_books: "same_books s (fst (run_gate su an c s)) \<and> ar_awaiting_retry (fst (run_gate su an c s)) = ar_awaiting_retry s"
proof -
  obtain g r where g: "gate_evaluate (su_parse su) (su_actions su) (an_ask an) (an_spin an) (ar_gate s) c (ar_active s) = (g, r)"
    by (cases "gate_evaluate (su_parse su) (su_actions su) (an_ask an) (an_spin an) (ar_gate s) c (ar_active s)")
  then have "lg_appendix g = lg_appendix (ar_gate s)" using gate_evaluate_appendix by (metis fst_conv)
  then show ?thesis using g by (cases r) (simp_all add: run_gate_def same_books_def Let_def)
qed

lemma evaluate_books:
  "same_books s (fst (evaluate su an c s)) \<and> ar_awaiting_retry (fst (evaluate su an c s)) = ar_awaiting_retry s"
  using run_gate_books [of "s\<lparr>ar_gate_verified := False\<rparr>" su an c]
  by (auto simp: evaluate_def Let_def same_books_def split: option.split decision.split)

text \<open>The objective check, spelled out.\<close>

definition drops_allowed :: "xml \<Rightarrow> arbiter \<Rightarrow> bool" where
  "drops_allowed doc s \<longleftrightarrow>
     (case ar_original s of
        None \<Rightarrow> True
      | Some original \<Rightarrow>
          let dropped = original - ar_completed s - ar_transferred s - objective_tree_ids doc
          in card (dropped - ar_justified s) \<le> allowed_new s \<and> card dropped \<le> budget_of s)"

lemma objective_check: "check_objective_preserved doc s = Accept \<longleftrightarrow> drops_allowed doc s"
  by (auto simp: check_objective_preserved_def drops_allowed_def Let_def not_less split: option.split)

lemma precondition_check: "check_preconditions doc s = None \<longleftrightarrow> violations doc (ar_orchard s) = Some []"
proof -
  obtain sts s' where "walk (ar_orchard s) [] (actions_in doc) = Some (sts, s')"
    by (rule walk_agrees [OF actions_are_actions agrees_Nil])
  then show ?thesis by (auto simp: check_preconditions_def violations_def split: list.split)
qed

text \<open>What the gate and the churn policies demand when they are on.\<close>

definition formally_ok :: "env \<Rightarrow> answers \<Rightarrow> string \<Rightarrow> xml \<Rightarrow> arbiter \<Rightarrow> bool" where
  "formally_ok su an c doc s \<longleftrightarrow>
     text_stands (su_parse su) (ar_gate s) (ar_active s) doc \<and>
     (mission_text doc = [] \<or>
      (case formula_of (an_ask an) (ar_gate s) (mission_text doc) of
         No_Formula e \<Rightarrow> True
       | Formula f \<Rightarrow> \<exists>m. compile_mission (su_actions su) (Some doc) None = Inr m \<and>
           set (formula_aps f) \<subseteq> set (md_defined_aps m) \<and> \<not> spin_refuted (an_spin an) (md_source m) f)) \<and>
     too_large s c = None \<and> \<not> rate_limited an s"

lemma gate_accepts:
  "(\<exists>r. snd (gate_evaluate parse A ask sp g c active) = Some r \<and> gr_accepted r) \<longleftrightarrow>
     (\<exists>doc. parse c = Some doc \<and> text_stands parse g active doc \<and>
        (mission_text doc = [] \<or>
         (case formula_of ask g (mission_text doc) of
            No_Formula e \<Rightarrow> True
          | Formula f \<Rightarrow> \<exists>m. compile_mission A (Some doc) None = Inr m \<and>
              set (formula_aps f) \<subseteq> set (md_defined_aps m) \<and> \<not> spin_refuted sp (md_source m) f)))"
  unfolding gate_evaluate_shape judge_accepts [symmetric] by (auto simp: result_def split: option.split formula.split)

lemma gate_verifies:
  "(\<exists>r. snd (gate_evaluate parse A ask sp g c active) = Some r \<and> gr_accepted r \<and> gr_verified r) \<longleftrightarrow>
     (\<exists>doc f. parse c = Some doc \<and> text_stands parse g active doc \<and> mission_text doc \<noteq> [] \<and>
        formula_of ask g (mission_text doc) = Formula f \<and> proved_plan A sp doc f)"
  unfolding gate_evaluate_shape by (auto simp: result_def judge_proved [symmetric] split: option.split formula.split)

lemma churn_accepts: "churn an s c = Accept \<longleftrightarrow> too_large s c = None \<and> \<not> rate_limited an s"
  by (simp add: churn_def split: option.split)

lemma rate_limited_flags [simp]:
  "rate_limited an (s\<lparr>ar_gate := g\<rparr>) = rate_limited an s" "rate_limited an (s\<lparr>ar_gate_verified := v\<rparr>) = rate_limited an s"
  "rate_limited an (s\<lparr>ar_ltl_checked := n\<rparr>) = rate_limited an s" "rate_limited an (s\<lparr>ar_ltl_unverified := n\<rparr>) = rate_limited an s"
  by (simp_all add: rate_limited_def)

lemma too_large_flags [simp]:
  "too_large (s\<lparr>ar_gate := g\<rparr>) c = too_large s c" "too_large (s\<lparr>ar_gate_verified := v\<rparr>) c = too_large s c"
  "too_large (s\<lparr>ar_ltl_checked := n\<rparr>) c = too_large s c" "too_large (s\<lparr>ar_ltl_unverified := n\<rparr>) c = too_large s c"
  by (simp_all add: too_large_def)

lemma churn_flags [simp]:
  "churn an (s\<lparr>ar_gate := g\<rparr>) c = churn an s c" "churn an (s\<lparr>ar_gate_verified := v\<rparr>) c = churn an s c"
  "churn an (s\<lparr>ar_ltl_checked := n\<rparr>) c = churn an s c" "churn an (s\<lparr>ar_ltl_unverified := n\<rparr>) c = churn an s c"
  by (simp_all add: churn_def split: option.split)

lemma run_gate_accepts:
  assumes "su_parse su c = Some doc"
  shows "snd (run_gate su an c s) = Some Accept \<longleftrightarrow> formally_ok su an c doc s"
    and "snd (run_gate su an c s) = Some Accept \<Longrightarrow> ar_gate_verified (fst (run_gate su an c s)) \<longleftrightarrow>
      mission_text doc \<noteq> [] \<and> (\<exists>f. formula_of (an_ask an) (ar_gate s) (mission_text doc) = Formula f \<and>
        proved_plan (su_actions su) (an_spin an) doc f)"
proof -
  obtain g r where g: "gate_evaluate (su_parse su) (su_actions su) (an_ask an) (an_spin an) (ar_gate s) c (ar_active s) = (g, r)"
    by (cases "gate_evaluate (su_parse su) (su_actions su) (an_ask an) (an_spin an) (ar_gate s) c (ar_active s)")
  note accepts = gate_accepts [of "su_parse su" "su_actions su" "an_ask an" "an_spin an" "ar_gate s" c "ar_active s", unfolded g snd_conv]
  note verifies = gate_verifies [of "su_parse su" "su_actions su" "an_ask an" "an_spin an" "ar_gate s" c "ar_active s", unfolded g snd_conv]
  have run: "snd (run_gate su an c s) = Some Accept \<longleftrightarrow> (\<exists>x. r = Some x \<and> gr_accepted x) \<and> churn an s c = Accept"
    using g by (cases r) (simp_all add: run_gate_def Let_def)
  show ok: "snd (run_gate su an c s) = Some Accept \<longleftrightarrow> formally_ok su an c doc s"
    unfolding run accepts churn_accepts formally_ok_def using assms by auto
  assume "snd (run_gate su an c s) = Some Accept"
  then obtain x where x: "r = Some x" "gr_accepted x" and st: "text_stands (su_parse su) (ar_gate s) (ar_active s) doc"
    using run ok by (auto simp: formally_ok_def)
  have "ar_gate_verified (fst (run_gate su an c s)) \<longleftrightarrow> gr_verified x"
    using g x by (simp add: run_gate_def Let_def)
  then show "ar_gate_verified (fst (run_gate su an c s)) \<longleftrightarrow>
      mission_text doc \<noteq> [] \<and> (\<exists>f. formula_of (an_ask an) (ar_gate s) (mission_text doc) = Formula f \<and>
        proved_plan (su_actions su) (an_spin an) doc f)"
    using verifies x st assms by auto
qed

text \<open>A candidate is accepted exactly when it passes every check that is on.\<close>

definition passes :: "env \<Rightarrow> answers \<Rightarrow> string \<Rightarrow> xml \<Rightarrow> arbiter \<Rightarrow> bool" where
  "passes su an c doc s \<longleftrightarrow>
     su_valid su doc \<and> violations doc (ar_orchard s) = Some [] \<and>
     (su_objective_gating su \<longrightarrow> drops_allowed doc s) \<and> (su_ltl_verification su \<longrightarrow> formally_ok su an c doc s)"

lemma drops_allowed_flag [simp]: "drops_allowed doc (s\<lparr>ar_gate_verified := v\<rparr>) = drops_allowed doc s"
  by (simp add: drops_allowed_def allowed_new_def budget_of_def Let_def split: option.split)

lemma formally_ok_flag [simp]: "formally_ok su an c doc (s\<lparr>ar_gate_verified := v\<rparr>) = formally_ok su an c doc s"
  by (simp add: formally_ok_def)

lemma evaluate_accepts:
  "snd (evaluate su an c s) = Some Accept \<longleftrightarrow> (\<exists>doc. su_parse su c = Some doc \<and> passes su an c doc s)"
proof (cases "su_parse su c")
  case (Some doc)
  define s0 where "s0 = s\<lparr>ar_gate_verified := False\<rparr>"
  have pre: "check_preconditions doc s0 = None \<longleftrightarrow> violations doc (ar_orchard s) = Some []"
    using precondition_check [of doc s0] by (simp add: s0_def)
  have obj: "check_objective_preserved doc s0 = Accept \<longleftrightarrow> drops_allowed doc s"
    using objective_check [of doc s0] by (simp add: s0_def)
  have form: "snd (run_gate su an c s0) = Some Accept \<longleftrightarrow> formally_ok su an c doc s"
    using run_gate_accepts(1) [OF Some, of an s0] by (simp add: s0_def)
  show ?thesis
    using Some pre obj form
    by (auto simp: evaluate_def s0_def [symmetric] Let_def passes_def split: option.split decision.split)
qed (simp add: evaluate_def)

lemma evaluate_verified:
  assumes "snd (evaluate su an c s) = Some Accept" and "ar_gate_verified (fst (evaluate su an c s))" and "su_parse su c = Some doc"
  shows "su_ltl_verification su \<and> mission_text doc \<noteq> [] \<and> (\<exists>f. formula_of (an_ask an) (ar_gate s) (mission_text doc) = Formula f \<and>
        proved_plan (su_actions su) (an_spin an) doc f)"
proof -
  define s0 where "s0 = s\<lparr>ar_gate_verified := False\<rparr>"
  have "su_ltl_verification su \<and> evaluate su an c s = run_gate su an c s0"
    using assms by (auto simp: evaluate_def s0_def Let_def split: option.splits decision.splits if_splits)
  then show ?thesis using run_gate_accepts(2) [OF assms(3), of an s0] assms(1,2) by (simp add: s0_def)
qed

section \<open>Events\<close>

datatype event =
  Mission string | Candidate answers string | Orchard_Map json | Status "bt_event option"
  | Verify answers request | Budget_Reply "string option" nat | Warm_Up answers string

fun handle :: "env \<Rightarrow> event \<Rightarrow> arbiter \<Rightarrow> arbiter \<times> sent list" where
  "handle su (Mission msg) s = on_mission su msg s"
| "handle su (Candidate an msg) s = on_candidate su an msg s"
| "handle su (Orchard_Map j) s = (on_orchard j s, [])"
| "handle su (Status ev) s = (on_bt_status su ev s, [])"
| "handle su (Verify an rq) s = (case on_verify_replan su an rq s of (s1, out, _) \<Rightarrow> (s1, out))"
| "handle su (Budget_Reply reply n) s = compute_viability_budget reply n s"
| "handle su (Warm_Up an t) s = (warm_gate an t s, [])"

section \<open>What is published\<close>

lemma decide_accepted:
  "snd (evaluate su an c s) = Some Accept \<Longrightarrow>
    decide su an c s = (commit su an c (fst (evaluate su an c s)), [Publish c], Some (True, ar_gate_verified (fst (evaluate su an c s)), None))"
  by (cases "evaluate su an c s") (simp add: decide_def)

lemma decide_refused:
  assumes "snd (evaluate su an c s) \<noteq> Some Accept"
  obtains s1 out rep where "decide su an c s = (s1, out, rep)" "same_books s s1" "\<forall>x. Publish x \<notin> set out"
    "case rep of Some (a, _) \<Rightarrow> \<not> a | None \<Rightarrow> True"
proof -
  obtain s1 d where e: "evaluate su an c s = (s1, d)" by fastforce
  have b: "same_books s s1" using evaluate_books [of s su an c] e by simp
  have b': "same_books s (s1\<lparr>ar_awaiting_retry := v\<rparr>)" "same_books s (s1\<lparr>ar_awaiting_retry := v, ar_rejected := n\<rparr>)" for v n
    using b by (simp_all add: same_books_def)
  show thesis
  proof (cases d)
    case None
    then show thesis using that [of s1 "[]" None] e b by (simp add: decide_def)
  next
    case (Some x)
    then show thesis using that e b' assms by (cases x) (simp_all add: decide_def)
  qed
qed

definition departing_of :: "env \<Rightarrow> request \<Rightarrow> string \<Rightarrow> string \<Rightarrow> string set" where
  "departing_of su rq active c = (if rq_removing rq then objectives_leaving su active c else {})"

text \<open>The state a coordinator's edit is judged in: the text may grow, what leaves counts as handed over.\<close>

definition edit_state :: "env \<Rightarrow> request \<Rightarrow> string \<Rightarrow> string \<Rightarrow> string \<Rightarrow> arbiter \<Rightarrow> arbiter" where
  "edit_state su rq active c appendix s = hand_over (departing_of su rq active c) (allow su appendix s)"

lemma on_verify_cases:
  obtains (untouched) rep where "on_verify_replan su an rq s = (s, [], rep)" "\<forall>v r. rep = Some (True, v, r) \<longrightarrow> \<not> v"
      "\<forall>active. ar_active s = Some active \<and> active \<noteq> [] \<longrightarrow> (\<forall>c ap dr. apply_task_edit su rq active s \<noteq> Some (Inr (c, ap, dr)))"
  | (judged) active c appendix dropped s1 out rep where "ar_active s = Some active" "active \<noteq> []"
      "apply_task_edit su rq active s = Some (Inr (c, appendix, dropped))"
      "decide su an c (edit_state su rq active c appendix s) = (s1, out, rep)"
      "fst (on_verify_replan su an rq s) =
         (if (case rep of Some (a, _) \<Rightarrow> a | None \<Rightarrow> False) then allow su [] s1 else take_back (departing_of su rq active c) (allow su [] s1))"
      "\<forall>x. Publish x \<in> set (fst (snd (on_verify_replan su an rq s))) \<longleftrightarrow> Publish x \<in> set out"
      "\<forall>a v r. snd (snd (on_verify_replan su an rq s)) = Some (a, v, r) \<longrightarrow> rep = Some (a, v, r)"
proof (cases "ar_active s")
  case None
  then show thesis using untouched by (auto simp: on_verify_replan_def)
next
  case (Some active)
  consider "active = []" | "active \<noteq> []" "\<forall>c ap dr. apply_task_edit su rq active s \<noteq> Some (Inr (c, ap, dr))"
    | c ap dr where "active \<noteq> []" "apply_task_edit su rq active s = Some (Inr (c, ap, dr))" by blast
  then show thesis
  proof cases
    case 1
    then show thesis using untouched Some by (auto simp: on_verify_replan_def)
  next
    case 2
    then have "\<exists>rep. on_verify_replan su an rq s = (s, [], rep) \<and> (\<forall>v r. rep = Some (True, v, r) \<longrightarrow> \<not> v)"
      using Some by (cases "apply_task_edit su rq active s"; cases "the (apply_task_edit su rq active s)") (auto simp: on_verify_replan_def)
    then show thesis using untouched 2 Some by auto
  next
    case 3
    obtain s1 out rep where d: "decide su an c (edit_state su rq active c ap s) = (s1, out, rep)" by (metis prod_cases3)
    have asks: "Publish x \<notin> set more" if "request_replan su rq c dr s' = Some more" for x more s'
      using that by (auto simp: request_replan_def split: option.splits sum.splits)
    show thesis
      by (rule judged [OF Some 3 d])
        (use 3 Some d asks in \<open>auto simp: on_verify_replan_def decide_edit_def edit_state_def departing_of_def Let_def split: option.splits prod.splits bool.splits\<close>)
  qed
qed

lemma publishes:
  "Publish c \<in> set (snd (handle su e s)) \<longleftrightarrow>
     (\<exists>doc. su_parse su c = Some doc \<and>
        ((\<exists>an. e = Candidate an c \<and> passes su an c doc s) \<or>
         (\<exists>an rq active appendix dropped. e = Verify an rq \<and> ar_active s = Some active \<and> active \<noteq> [] \<and>
            apply_task_edit su rq active s = Some (Inr (c, appendix, dropped)) \<and>
            passes su an c doc (edit_state su rq active c appendix s))))"
proof -
  have decided: "Publish c \<in> set (fst (snd (decide su an c' s'))) \<longleftrightarrow> c' = c \<and> (\<exists>doc. su_parse su c = Some doc \<and> passes su an c doc s')" for an c' s'
  proof (cases "snd (evaluate su an c' s') = Some Accept")
    case True
    then show ?thesis using evaluate_accepts [of su an c' s'] by (auto simp: decide_accepted)
  next
    case False
    obtain s1 out rep where "decide su an c' s' = (s1, out, rep)" "\<forall>x. Publish x \<notin> set out" by (rule decide_refused [OF False])
    then show ?thesis using False evaluate_accepts [of su an c' s'] by auto
  qed
  show ?thesis
  proof (cases e)
    case (Candidate an msg)
    then show ?thesis using decided [of an msg s] by (auto simp: on_candidate_def split: prod.split)
  next
    case (Verify an rq)
    show ?thesis
    proof (cases rule: on_verify_cases [of su an rq s])
      case untouched
      then show ?thesis using Verify by auto
    next
      case (judged active c' appendix dropped s1 out rep)
      then show ?thesis using Verify decided [of an c' "edit_state su rq active c' appendix s"]
        by (auto split: prod.split)
    qed
  qed (auto simp: on_mission_def compute_viability_budget_def Let_def split: option.split)
qed

text \<open>
  C3: a plan is published exactly when it passes every check that is on. A candidate goes out when it
  parses, the schema accepts it, no precondition is violated, its new drops are justified and its
  drops within the budget, its text stands, nothing was found against it, and the churn limits
  hold. A coordinator's request is judged the same way, on the plan with the edit made, in a state where the
  edit's own text is allowed and the objectives that leave count as handed over.
\<close>

theorem published_exactly_when_it_passes:
  "Publish c \<in> set (snd (handle su e s)) \<longleftrightarrow>
     (\<exists>doc. su_parse su c = Some doc \<and>
        ((\<exists>an. e = Candidate an c \<and> passes su an c doc s) \<or>
         (\<exists>an rq active appendix dropped. e = Verify an rq \<and> ar_active s = Some active \<and> active \<noteq> [] \<and>
            apply_task_edit su rq active s = Some (Inr (c, appendix, dropped)) \<and>
            passes su an c doc (edit_state su rq active c appendix s))))"
  by (rule publishes)

text \<open>
  C6: verified means SPIN said so, for this plan. When the coordinator is told that its edit was
  committed and verified, verification is on and the plan published in that call is one for whose text a formula was
  obtained, whose model defines every proposition of it, and on which SPIN, in that call, reported no
  error. Nothing of an earlier candidate's check is inherited.
\<close>

theorem reported_verified_was_proved:
  assumes "snd (snd (on_verify_replan su an rq s)) = Some (True, True, r)"
  shows "su_ltl_verification su \<and>
     (\<exists>c doc f. Publish c \<in> set (fst (snd (on_verify_replan su an rq s))) \<and> su_parse su c = Some doc \<and> mission_text doc \<noteq> [] \<and>
        formula_of (an_ask an) (ar_gate s) (mission_text doc) = Formula f \<and> proved_plan (su_actions su) (an_spin an) doc f)"
proof (cases rule: on_verify_cases [of su an rq s])
  case (untouched rep)
  then show ?thesis using assms by auto
next
  case (judged active c appendix dropped s1 out rep)
  define s0 where "s0 = edit_state su rq active c appendix s"
  have rep: "rep = Some (True, True, r)" using judged(7) assms by blast
  have acc: "snd (evaluate su an c s0) = Some Accept"
  proof (rule ccontr)
    assume "snd (evaluate su an c s0) \<noteq> Some Accept"
    then obtain s2 out2 rep2 where "decide su an c s0 = (s2, out2, rep2)" "case rep2 of Some (a, _) \<Rightarrow> \<not> a | None \<Rightarrow> True"
      by (rule decide_refused)
    then show False using judged(4) rep by (auto simp: s0_def)
  qed
  then have d: "out = [Publish c]" "ar_gate_verified (fst (evaluate su an c s0))"
    using judged(4) rep decide_accepted [OF acc] by (auto simp: s0_def)
  obtain doc where doc: "su_parse su c = Some doc" using acc evaluate_accepts by blast
  have "formula_of (an_ask an) (ar_gate s0) t = formula_of (an_ask an) (ar_gate s) t" for t
    by (simp add: s0_def edit_state_def hand_over_def allow_def allow_mission_text_def formula_of_def)
  then show ?thesis using evaluate_verified [OF acc d(2) doc] judged(6) d(1) doc by auto
qed

section \<open>Reachable states\<close>

text \<open>
  The runs considered: nobody else publishes a plan once the arbiter has (what arrives on the plan's
  topic is its own echo), and the budget is answered once, as it is asked once.
\<close>

fun expected :: "event \<Rightarrow> arbiter \<Rightarrow> bool" where
  "expected (Mission msg) s \<longleftrightarrow> ar_published s = None \<or> ar_published s = Some msg"
| "expected (Budget_Reply reply n) s \<longleftrightarrow> ar_budget s = None"
| "expected _ s \<longleftrightarrow> True"

inductive reach :: "env \<Rightarrow> arbiter \<Rightarrow> bool" for su where
  start: "reach su arbiter_init"
| step: "reach su s \<Longrightarrow> expected e s \<Longrightarrow> reach su (fst (handle su e s))"

text \<open>What the plan in force no longer contains, and nobody has done or taken over.\<close>

definition given_up :: "arbiter \<Rightarrow> xml \<Rightarrow> string set" where
  "given_up s doc = \<Union> (set_option (ar_original s)) - ar_completed s - ar_transferred s - objective_tree_ids doc"

definition loss_limit :: "arbiter \<Rightarrow> nat" where
  "loss_limit s = max DEFAULT_VIABILITY_BUDGET (case ar_budget s of None \<Rightarrow> 0 | Some n \<Rightarrow> n)"

definition accounted :: "env \<Rightarrow> arbiter \<Rightarrow> bool" where
  "accounted su s \<longleftrightarrow> (\<forall>original. ar_original s = Some original \<longrightarrow> finite original) \<and>
     (\<forall>c. ar_published s = Some c \<longrightarrow> ar_active s = Some c \<and>
       (\<exists>doc. su_parse su c = Some doc \<and>
          (\<forall>original. ar_original s = Some original \<longrightarrow> original - objective_tree_ids doc \<subseteq> ar_justified s) \<and>
          card (given_up s doc) \<le> loss_limit s))"

lemma drops_allowed_books: "same_books s s' \<Longrightarrow> drops_allowed doc s' = drops_allowed doc s"
proof -
  assume b: "same_books s s'"
  then have "allowed_new s' = allowed_new s" "budget_of s' = budget_of s" by (simp_all add: same_books_def allowed_new_def budget_of_def)
  then show ?thesis using b by (cases "ar_original s") (simp_all add: drops_allowed_def same_books_def)
qed

lemma accounted_books: "same_books s s' \<Longrightarrow> accounted su s' = accounted su s"
  by (simp add: same_books_def accounted_def given_up_def loss_limit_def)

lemma accounted_gate [simp]: "accounted su (s\<lparr>ar_gate := g\<rparr>) = accounted su s"
  by (simp add: accounted_def given_up_def loss_limit_def)

lemma accounted_allow [simp]: "accounted su (allow su t s) = accounted su s"
  by (simp add: allow_def)

lemma accounted_commit:
  assumes "\<forall>original. ar_original s = Some original \<longrightarrow> finite original" and "su_parse su c = Some doc" and "drops_allowed doc s"
  shows "accounted su (commit su an c s)"
proof -
  have "card (given_up s doc) \<le> budget_of s" using assms(3) by (auto simp: drops_allowed_def given_up_def Let_def split: option.splits)
  moreover have "budget_of s \<le> loss_limit s" by (auto simp: budget_of_def loss_limit_def split: option.split)
  ultimately have "card (given_up s doc) \<le> loss_limit s" by simp
  then show ?thesis using assms(1,2) by (auto simp: accounted_def commit_def given_up_def loss_limit_def split: option.splits)
qed

lemma accounted_fewer:
  assumes "accounted su s" and "ar_completed s \<subseteq> ar_completed s'" and "ar_active s' = ar_active s" "ar_original s' = ar_original s"
    "ar_published s' = ar_published s" "loss_limit s \<le> loss_limit s'" "ar_justified s' = ar_justified s" "ar_transferred s' = ar_transferred s"
  shows "accounted su s'"
proof -
  have "card (given_up s' doc) \<le> loss_limit s'" if "card (given_up s doc) \<le> loss_limit s" for doc
  proof -
    have "given_up s' doc \<subseteq> given_up s doc" using assms(2,4,8) by (auto simp: given_up_def)
    moreover have "finite (given_up s doc)" using assms(1) by (cases "ar_original s") (auto simp: accounted_def given_up_def)
    ultimately show ?thesis using that assms(6) by (meson card_mono order_trans)
  qed
  then show ?thesis using assms(1) unfolding accounted_def assms(3,4,5,7) by blast
qed

lemma accounted_taken_back:
  assumes "accounted su s" and "same_books (hand_over dep (allow su t s)) s1"
    and "\<And>a doc. ar_active s = Some a \<Longrightarrow> su_parse su a = Some doc \<Longrightarrow> dep \<subseteq> objective_tree_ids doc"
  shows "accounted su (take_back dep s1)"
proof -
  define s2 where "s2 = take_back dep s1"
  have f: "ar_active s2 = ar_active s" "ar_original s2 = ar_original s" "ar_published s2 = ar_published s"
    "ar_completed s2 = ar_completed s" "ar_budget s2 = ar_budget s"
    "ar_justified s2 = ar_justified s - dep" "ar_transferred s2 = ar_transferred s - dep"
    using assms(2) by (auto simp: s2_def take_back_def same_books_def hand_over_def allow_def)
  have "accounted su s2" unfolding accounted_def
  proof (intro conjI allI impI)
    show "finite original" if "ar_original s2 = Some original" for original using that assms(1) f(2) by (auto simp: accounted_def)
    fix c assume "ar_published s2 = Some c"
    then obtain doc where doc: "ar_active s = Some c" "su_parse su c = Some doc" "card (given_up s doc) \<le> loss_limit s"
      "\<forall>original. ar_original s = Some original \<longrightarrow> original - objective_tree_ids doc \<subseteq> ar_justified s"
      using assms(1) f(3) by (auto simp: accounted_def)
    have dep: "dep \<subseteq> objective_tree_ids doc" using assms(3) doc(1,2) by blast
    show "ar_active s2 = Some c" using f(1) doc(1) by simp
    have "given_up s2 doc = given_up s doc" using dep f by (auto simp: given_up_def)
    moreover have "loss_limit s2 = loss_limit s" using f by (simp add: loss_limit_def)
    moreover have "original - objective_tree_ids doc \<subseteq> ar_justified s2" if "ar_original s2 = Some original" for original
      using that doc(4) dep f by auto
    ultimately show "\<exists>doc. su_parse su c = Some doc \<and>
        (\<forall>original. ar_original s2 = Some original \<longrightarrow> original - objective_tree_ids doc \<subseteq> ar_justified s2) \<and>
        card (given_up s2 doc) \<le> loss_limit s2" using doc(2,3) by auto
  qed
  then show ?thesis by (simp add: s2_def)
qed

lemma departing_inside:
  assumes "ar_active s = Some active" and "ar_active s = Some a" and "su_parse su a = Some doc"
  shows "departing_of su rq active c \<subseteq> objective_tree_ids doc"
  using assms by (auto simp: departing_of_def objectives_leaving_def split: option.splits)

lemma accounted_decide:
  assumes "accounted su s" and "su_objective_gating su"
  shows "accounted su (fst (decide su an c s))"
proof (cases "snd (evaluate su an c s) = Some Accept")
  case True
  then obtain doc where doc: "su_parse su c = Some doc" "passes su an c doc s" using evaluate_accepts by blast
  have b: "same_books s (fst (evaluate su an c s))" using evaluate_books by simp
  have "drops_allowed doc s" using doc(2) assms(2) by (simp add: passes_def)
  then have "drops_allowed doc (fst (evaluate su an c s))"
    using drops_allowed_books [OF b] by simp
  moreover have "\<forall>original. ar_original (fst (evaluate su an c s)) = Some original \<longrightarrow> finite original"
    using b assms(1) by (simp add: same_books_def accounted_def)
  ultimately show ?thesis using accounted_commit doc(1) by (simp add: decide_accepted [OF True])
next
  case False
  obtain s1 out rep where "decide su an c s = (s1, out, rep)" "same_books s s1" by (rule decide_refused [OF False])
  then show ?thesis using accounted_books assms(1) by simp
qed

lemma accounted_handle:
  assumes "accounted su s" and "expected e s" and "su_objective_gating su"
  shows "accounted su (fst (handle su e s))"
proof (cases e)
  case (Mission msg)
  show ?thesis
  proof (cases "ar_published s")
    case None
    then show ?thesis using Mission assms(1)
      by (auto simp: on_mission_def accounted_def objective_tree_ids_def Let_def split: option.split)
  next
    case (Some c)
    then show ?thesis using Mission assms(1,2) by (simp add: on_mission_def)
  qed
next
  case (Candidate an msg)
  then show ?thesis using accounted_decide [OF assms(1,3)] by (simp add: on_candidate_def split: prod.split) (metis fst_conv)
next
  case (Verify an rq)
  show ?thesis
  proof (cases rule: on_verify_cases [of su an rq s])
    case untouched
    then show ?thesis using Verify assms(1) by simp
  next
    case (judged active c appendix dropped s1 out rep)
    define s0 where "s0 = edit_state su rq active c appendix s"
    define dep where "dep = departing_of su rq active c"
    have s0: "s0 = hand_over dep (allow su appendix s)" by (simp add: s0_def edit_state_def dep_def)
    have "accounted su (fst (on_verify_replan su an rq s))"
    proof (cases "snd (evaluate su an c s0) = Some Accept")
      case True
      then obtain doc where doc: "su_parse su c = Some doc" "passes su an c doc s0" using evaluate_accepts by blast
      have b: "same_books s0 (fst (evaluate su an c s0))" using evaluate_books by simp
      have "drops_allowed doc s0" using doc(2) assms(3) by (simp add: passes_def)
      then have "drops_allowed doc (fst (evaluate su an c s0))"
        using drops_allowed_books [OF b] by simp
      moreover have "\<forall>original. ar_original (fst (evaluate su an c s0)) = Some original \<longrightarrow> finite original"
        using b assms(1) s0 by (auto simp: same_books_def accounted_def hand_over_def allow_def)
      ultimately have "accounted su (commit su an c (fst (evaluate su an c s0)))" using accounted_commit doc(1) by blast
      then show ?thesis using judged(4,5) decide_accepted [OF True] by (auto simp: s0_def [symmetric])
    next
      case False
      obtain s2 out2 rep2 where d: "decide su an c s0 = (s2, out2, rep2)" "same_books s0 s2" "case rep2 of Some (a, _) \<Rightarrow> \<not> a | None \<Rightarrow> True"
        by (rule decide_refused [OF False])
      have "same_books s0 (s2\<lparr>ar_gate := allow_mission_text t (ar_gate s2)\<rparr>) \<or> lg_appendix (ar_gate s0) \<noteq> strip t" for t
        using d(2) by (auto simp: same_books_def allow_mission_text_def)
      have "take_back dep (allow su [] s2) = allow su [] (take_back dep s2)" by (simp add: take_back_def allow_def)
      moreover have "accounted su (take_back dep s2)"
        by (rule accounted_taken_back [OF assms(1), where t = appendix])
          (use d(2) s0 departing_inside [OF judged(1)] in \<open>auto simp: dep_def\<close>)
      ultimately show ?thesis using judged(4,5) d by (auto simp: s0_def [symmetric] dep_def [symmetric] split: option.splits)
    qed
    then show ?thesis using Verify by (simp split: prod.split) (metis fst_conv)
  qed
next
  case (Status ev)
  have "accounted su (on_bt_status su ev s)"
    by (rule accounted_fewer [OF assms(1)]) (auto simp: on_bt_status_def loss_limit_def split: option.split)
  then show ?thesis using Status by simp
next
  case (Orchard_Map j)
  have "accounted su (on_orchard j s)"
    by (rule accounted_fewer [OF assms(1)]) (auto simp: on_orchard_def loss_limit_def split: sum.split)
  then show ?thesis using Orchard_Map by simp
next
  case (Budget_Reply reply n)
  have "accounted su (fst (compute_viability_budget reply n s))"
    by (rule accounted_fewer [OF assms(1)]) (use assms(2) Budget_Reply in \<open>auto simp: compute_viability_budget_def loss_limit_def Let_def\<close>)
  then show ?thesis using Budget_Reply by simp
next
  case (Warm_Up an t)
  then show ?thesis using assms(1) by (simp add: warm_gate_def)
qed


section \<open>A small fleet's arbiter\<close>

text \<open>
  Texts of one line per tree stand for plans with one declared task per tree, written in the
  order of the lines; the printer writes the lines for the trees a document approaches.
\<close>

definition drive :: "string \<Rightarrow> string \<Rightarrow> xml" where
  "drive t stop = Node 0 (Some ''MoveToTreeID'') [(''id'', t), (''approach_tree'', stop)] [] []"

definition tree_task :: "string \<Rightarrow> xml" where
  "tree_task t = Node 0 (Some ''Sequence'') [(''name'', ''tree__task_'' @ t)] []
     [drive t ''true'', Node 0 (Some ''SampleLeaf'') [(''name'', ''sample_'' @ t)] [] []]"

definition plan_doc :: "string list \<Rightarrow> xml" where
  "plan_doc ts = fst (relabel 0 (Node 0 (Some ''root'') [] []
     [Node 0 (Some ''Mission'') [] ''sample leaves'' [],
      Node 0 (Some ''BehaviorTree'') [] [] [Node 0 (Some ''Sequence'') [] [] (map tree_task ts)]]))"

definition plan_text :: "string list \<Rightarrow> string" where
  "plan_text ts = join [newline] (''root'' # ts)"

definition demo_parse :: "string \<Rightarrow> xml option" where
  "demo_parse t = (case splitlines t of [] \<Rightarrow> None | h # ts \<Rightarrow> if h = ''root'' then Some (plan_doc ts) else None)"

definition demo_print :: "string \<Rightarrow> xml \<Rightarrow> string" where
  "demo_print src d = plan_text (map tree_id (filter approach (actions_in d)))"

definition demo :: "bool \<Rightarrow> env" where
  "demo ltl = \<lparr>su_parse = demo_parse, su_print = demo_print, su_valid = (\<lambda>_. True), su_actions = action_tags, su_names = (\<lambda>_. None),
     su_ltl_verification = ltl, su_objective_gating = True\<rparr>"

definition at_time :: "secs \<Rightarrow> answers" where
  "at_time now = \<lparr>an_ask = (\<lambda>_. Formula ''<>sampled_tree_10''),
     an_spin = \<lparr>sp_available = True, sp_search = (\<lambda>_. Ran 0 ''errors: 0''), sp_replay = (\<lambda>_. Timed_Out)\<rparr>, an_now = now\<rparr>"

definition shed :: "int \<Rightarrow> request" where
  "shed t = \<lparr>rq_removing = True, rq_task_id = t, rq_capabilities = 129, rq_kind = 1, rq_a = t, rq_b = 0, rq_priority = 100, rq_xml = []\<rparr>"

definition take_up :: "int \<Rightarrow> request" where
  "take_up t = (shed t)\<lparr>rq_removing := False\<rparr>"

definition after_events :: "bool \<Rightarrow> event list \<Rightarrow> arbiter" where
  "after_events ltl es = run (\<lambda>s e. fst (handle (demo ltl) e s)) arbiter_init es"

definition failure :: "string \<Rightarrow> event" where
  "failure reason = Status (Some \<lparr>ev_status = ''FAILURE'', ev_reason = reason, ev_node = ''drive''\<rparr>)"

definition padded_drive :: xml where
  "padded_drive = Node 0 (Some ''Sequence'') [] [] [drive ''10'' '' true '', Node 1 (Some ''SampleLeaf'') [] [] []]"


theorem reported_verified_was_proved_witness:
  "\<exists>r. snd (snd (on_verify_replan (demo True) (at_time 10) (shed 60) (after_events True [Mission (plan_text [''10'', ''60''])]))) = Some (True, True, r) \<and>
     (\<exists>doc. proved_plan action_tags (an_spin (at_time 10)) doc ''<>sampled_tree_10'')"
proof -
  define s where "s = after_events True [Mission (plan_text [''10'', ''60''])]"
  have r: "snd (snd (on_verify_replan (demo True) (at_time 10) (shed 60) s)) = Some (True, True, None)"
    unfolding s_def by code_simp
  have "formula_of (an_ask (at_time 10)) (ar_gate s) t = Formula ''<>sampled_tree_10''" for t
  proof -
    have "lg_cache (ar_gate s) = []" unfolding s_def by code_simp
    then show ?thesis by (simp add: formula_of_def at_time_def)
  qed
  then show ?thesis using reported_verified_was_proved [OF r] r by (auto simp: demo_def s_def)
qed


section \<open>The mission's text\<close>

lemma allow_appendix [simp]: "lg_appendix (ar_gate (allow su t s)) = (if su_ltl_verification su then strip t else lg_appendix (ar_gate s))"
  by (simp add: allow_def allow_mission_text_def)

lemma decide_appendix [simp]: "lg_appendix (ar_gate (fst (decide su an c s))) = lg_appendix (ar_gate s)"
proof (cases "snd (evaluate su an c s) = Some Accept")
  case True
  then show ?thesis using evaluate_books [of s su an c] by (simp add: decide_accepted commit_def same_books_def)
next
  case False
  obtain s1 out rep where "decide su an c s = (s1, out, rep)" "same_books s s1" by (rule decide_refused [OF False])
  then show ?thesis by (simp add: same_books_def)
qed

lemma strip_Nil [simp]: "strip [] = []"
  by (simp add: strip_def)

lemma handle_appendix: "lg_appendix (ar_gate s) = [] \<Longrightarrow> lg_appendix (ar_gate (fst (handle su e s))) = []"
proof (cases e)
  case (Candidate an msg)
  assume "lg_appendix (ar_gate s) = []"
  then show ?thesis using Candidate decide_appendix [of su an msg s] by (cases "decide su an msg s") (simp add: on_candidate_def)
next
  case (Verify an rq)
  assume none: "lg_appendix (ar_gate s) = []"
  have "lg_appendix (ar_gate (fst (on_verify_replan su an rq s))) = []"
  proof (cases rule: on_verify_cases [of su an rq s])
    case untouched
    then show ?thesis using none by simp
  next
    case (judged active c appendix dropped s1 out rep)
    have "lg_appendix (ar_gate s1) = lg_appendix (ar_gate (edit_state su rq active c appendix s))"
      using decide_appendix [of su an c "edit_state su rq active c appendix s"] judged(4) by simp
    then show ?thesis using judged(5) none by (simp add: edit_state_def hand_over_def take_back_def)
  qed
  then show ?thesis using Verify by (cases "on_verify_replan su an rq s") simp
next
  case (Warm_Up an t)
  assume "lg_appendix (ar_gate s) = []"
  then show ?thesis using Warm_Up by (simp add: warm_gate_def warm_def)
qed (auto simp: on_mission_def on_orchard_def on_bt_status_def compute_viability_budget_def Let_def split: option.split sum.split)

lemma reach_appendix: "reach su s \<Longrightarrow> lg_appendix (ar_gate s) = []"
  by (induction rule: reach.induct) (simp_all add: arbiter_init_def gate_init_def handle_appendix)

lemma edit_clause:
  assumes "apply_task_edit su rq active s = Some (Inr (c, appendix, dropped))"
  shows "if rq_removing rq then appendix = [] else \<exists>t. Target (rq_kind rq) (rq_a rq) (rq_b rq) = Inr t \<and> appendix = mission_clause (requested_task rq t)"
  using assms
  by (auto simp: apply_task_edit_def absorbed_def mission_clause_def requested_task_def Let_def split: if_splits sum.splits option.splits)

text \<open>
  C8: only a task taken on extends the mission. In every reachable state with verification on, a plan that is
  published carries the mission text of the plan before it, or was made by the coordinator's request to
  take a task on, and then its text is the old one with the clause that task stands for
  after it. A planner's candidate never changes the text, nor does a task that leaves.
\<close>

theorem only_absorption_extends_the_mission:
  assumes "reach su s" and "su_ltl_verification su" and "Publish c \<in> set (snd (handle su e s))"
    and "ar_active s = Some active" and "su_parse su active = Some old"
  shows "\<exists>doc. su_parse su c = Some doc \<and>
     (mission_text doc = mission_text old \<or>
      (\<exists>an rq t. e = Verify an rq \<and> \<not> rq_removing rq \<and> Target (rq_kind rq) (rq_a rq) (rq_b rq) = Inr t \<and>
         mission_clause (requested_task rq t) \<noteq> [] \<and>
         mission_text doc = extend_text (mission_text old) (strip (mission_clause (requested_task rq t)))))"
proof -
  have none: "lg_appendix (ar_gate s) = []" by (rule reach_appendix [OF assms(1)])
  from publishes [of c su e s] assms(3) obtain doc where doc: "su_parse su c = Some doc"
    and how: "(\<exists>an. e = Candidate an c \<and> passes su an c doc s) \<or>
         (\<exists>an rq active appendix dropped. e = Verify an rq \<and> ar_active s = Some active \<and> active \<noteq> [] \<and>
            apply_task_edit su rq active s = Some (Inr (c, appendix, dropped)) \<and>
            passes su an c doc (edit_state su rq active c appendix s))" by blast
  from how show ?thesis
  proof
    assume "\<exists>an. e = Candidate an c \<and> passes su an c doc s"
    then have "text_stands (su_parse su) (ar_gate s) (Some active) doc" using assms(2,4) by (auto simp: passes_def formally_ok_def)
    then show ?thesis using doc none assms(5) by (auto simp: text_stands_def)
  next
    assume "\<exists>an rq active appendix dropped. e = Verify an rq \<and> ar_active s = Some active \<and> active \<noteq> [] \<and>
            apply_task_edit su rq active s = Some (Inr (c, appendix, dropped)) \<and>
            passes su an c doc (edit_state su rq active c appendix s)"
    then obtain an rq appendix dropped where v: "e = Verify an rq" "apply_task_edit su rq active s = Some (Inr (c, appendix, dropped))"
        "passes su an c doc (edit_state su rq active c appendix s)" using assms(4) by auto
    define s0 where "s0 = edit_state su rq active c appendix s"
    have s0: "ar_active s0 = Some active" "lg_appendix (ar_gate s0) = strip appendix"
      using assms(2,4) by (simp_all add: s0_def edit_state_def hand_over_def) (simp add: allow_def)
    have "text_stands (su_parse su) (ar_gate s0) (Some active) doc" using v(3) assms(2) s0(1) by (simp add: passes_def formally_ok_def s0_def)
    then have t: "mission_text doc = mission_text old \<or> strip appendix \<noteq> [] \<and> mission_text doc = extend_text (mission_text old) (strip appendix)"
      using s0(2) assms(5) by (simp add: text_stands_def)
    show ?thesis
    proof (cases "mission_text doc = mission_text old")
      case False
      then have a: "strip appendix \<noteq> []" "mission_text doc = extend_text (mission_text old) (strip appendix)" using t by auto
      then have "\<not> rq_removing rq" using edit_clause [OF v(2)] by (auto split: if_splits)
      then show ?thesis using edit_clause [OF v(2)] a v(1) doc by auto
    qed (use doc in blast)
  qed
qed

theorem only_absorption_extends_the_mission_witness:
  "\<exists>doc. demo_parse (plan_text [''10'']) = Some doc \<and> mission_text doc = mission_text (plan_doc [''10'', ''60''])"
proof -
  define s1 where "s1 = fst (handle (demo True) (Mission (plan_text [''10'', ''60''])) arbiter_init)"
  have "reach (demo True) arbiter_init" by (rule reach.start)
  then have r: "reach (demo True) s1" unfolding s1_def by (rule reach.step) (simp add: arbiter_init_def)
  have p: "Publish (plan_text [''10'']) \<in> set (snd (handle (demo True) (Verify (at_time 10) (shed 60)) s1))"
    unfolding s1_def by code_simp
  have a: "ar_active s1 = Some (plan_text [''10'', ''60''])" unfolding s1_def by code_simp
  have o: "su_parse (demo True) (plan_text [''10'', ''60'']) = Some (plan_doc [''10'', ''60''])" by code_simp
  have "su_ltl_verification (demo True)" "su_parse (demo True) = demo_parse" by (simp_all add: demo_def)
  then show ?thesis using only_absorption_extends_the_mission [OF r _ p a o] by (auto simp: shed_def)
qed

text \<open>
  C36: a refused edit grants nothing. When the coordinator's request is refused, the plan in force, the objectives, what is done, the
  budget, the failure report and the map are as before; no permission to change the
  text is left; and no drop is justified and no tree counts as a peer's that did not before.
\<close>

theorem refused_edit_grants_nothing:
  assumes "snd (snd (on_verify_replan su an rq s)) = Some (False, v, r)" and "lg_appendix (ar_gate s) = []"
  shows "\<exists>dep. same_books (s\<lparr>ar_justified := ar_justified s - dep, ar_transferred := ar_transferred s - dep\<rparr>) (fst (on_verify_replan su an rq s)) \<and>
     (\<forall>c. Publish c \<notin> set (fst (snd (on_verify_replan su an rq s)))) \<and>
     (\<forall>active doc. ar_active s = Some active \<longrightarrow> su_parse su active = Some doc \<longrightarrow> dep \<subseteq> objective_tree_ids doc)"
proof (cases rule: on_verify_cases [of su an rq s])
  case (untouched rep)
  then show ?thesis by (intro exI [of _ "{}"]) (simp add: same_books_def)
next
  case (judged active c appendix dropped s1 out rep)
  define s0 where "s0 = edit_state su rq active c appendix s"
  define dep where "dep = departing_of su rq active c"
  have rep: "rep = Some (False, v, r)" using judged(7) assms(1) by blast
  have "snd (evaluate su an c s0) \<noteq> Some Accept"
    using judged(4) rep by (auto simp: s0_def dest: decide_accepted)
  then obtain s2 out2 rep2 where d: "decide su an c s0 = (s2, out2, rep2)" "same_books s0 s2" "\<forall>x. Publish x \<notin> set out2"
    by (rule decide_refused)
  have eq: "s1 = s2" "out = out2" using judged(4) d(1) by (simp_all add: s0_def)
  have fin: "fst (on_verify_replan su an rq s) = take_back dep (allow su [] s2)" using judged(5) rep eq by (simp add: dep_def)
  have books: "same_books (s\<lparr>ar_justified := ar_justified s - dep, ar_transferred := ar_transferred s - dep\<rparr>) (take_back dep (allow su [] s2))"
    using d(2) assms(2) by (auto simp: same_books_def s0_def edit_state_def dep_def take_back_def allow_def hand_over_def allow_mission_text_def)
  have "\<forall>c. Publish c \<notin> set (fst (snd (on_verify_replan su an rq s)))" using judged(6) d(3) eq by blast
  moreover have "dep \<subseteq> objective_tree_ids doc" if "ar_active s = Some a" "su_parse su a = Some doc" for a doc
    using departing_inside [OF judged(1) that] by (simp add: dep_def)
  ultimately show ?thesis using fin books by (intro exI [of _ dep]) auto
qed

text \<open>A search that finds a violation: the coordinator's request is judged, and refused by the gate.\<close>

definition refuting :: answers where
  "refuting = (at_time 10)\<lparr>an_spin := \<lparr>sp_available = True, sp_search = (\<lambda>_. Ran 0 ''errors: 1''), sp_replay = (\<lambda>_. Timed_Out)\<rparr>\<rparr>"

theorem refused_edit_grants_nothing_witness:
  "\<exists>dep. same_books ((after_events True [Mission (plan_text [''10'', ''60''])])
       \<lparr>ar_justified := ar_justified (after_events True [Mission (plan_text [''10'', ''60''])]) - dep,
        ar_transferred := ar_transferred (after_events True [Mission (plan_text [''10'', ''60''])]) - dep\<rparr>)
      (fst (on_verify_replan (demo True) refuting (shed 60) (after_events True [Mission (plan_text [''10'', ''60''])])))"
proof -
  define s where "s = after_events True [Mission (plan_text [''10'', ''60''])]"
  have "map_option fst (snd (snd (on_verify_replan (demo True) refuting (shed 60) s))) = Some False"
    unfolding s_def by code_simp
  then obtain v r where r: "snd (snd (on_verify_replan (demo True) refuting (shed 60) s)) = Some (False, v, r)" by auto
  have "lg_appendix (ar_gate s) = []" unfolding s_def by code_simp
  from refused_edit_grants_nothing [OF r this] show ?thesis unfolding s_def by blast
qed

section \<open>Two callbacks at once\<close>

text \<open>
  The executor has several threads: a planner's candidate may be decided between the moment the
  coordinator's edit arms the gate and the moment that edit is decided.
\<close>

definition forged_text :: string where "forged_text = plan_text [''10'', ''60'', ''x'']"

definition forging :: env where
  "forging = (demo True)\<lparr>su_parse := (\<lambda>t. if t = forged_text
     then Some (with_mission_text ''sample leaves; sample leaves from tree 35'' (plan_doc [''10'', ''60''])) else demo_parse t)\<rparr>"



end
