(* ===== verification/Advice.thy ===== *)
theory Advice
  imports Arbiter Tasks
begin

text \<open>
  Reading what a language model answered: the parsers of the triage agent
  (\<^verbatim>\<open>coordination/triage_node.py\<close>) and of the note agent (\<^verbatim>\<open>coordination/note_node.py\<close>). A reply is a
  text with one JSON object in it. The JSON library is the record \<open>lib\<close>: decoding a text,
  encoding a value, and \<^verbatim>\<open>str\<close> of a float, a list or an object. Floats that are not finite are outside the model.
\<close>

record lib =
  lb_loads :: "string \<Rightarrow> json option"
  lb_dumps :: "json \<Rightarrow> string"
  lb_show :: "json \<Rightarrow> string"

section \<open>Values\<close>

definition py_str :: "lib \<Rightarrow> json \<Rightarrow> string" where
  "py_str lb j =
     (case j of JStr s \<Rightarrow> s | JNull \<Rightarrow> ''None'' | JBool b \<Rightarrow> if b then ''True'' else ''False'' | JInt i \<Rightarrow> str_int i | _ \<Rightarrow> lb_show lb j)"

definition falsy :: "json \<Rightarrow> bool" where
  "falsy j \<longleftrightarrow>
     (case j of JNull \<Rightarrow> True | JBool b \<Rightarrow> \<not> b | JInt i \<Rightarrow> i = 0 | JFloat x \<Rightarrow> x = 0 | JStr s \<Rightarrow> s = []
      | JList xs \<Rightarrow> xs = [] | JObject kvs \<Rightarrow> kvs = [])"

text \<open>\<^verbatim>\<open>str(value or "")\<close>\<close>

definition str_or_empty :: "lib \<Rightarrow> json \<Rightarrow> string" where
  "str_or_empty lb j = (if falsy j then [] else py_str lb j)"

text \<open>\<^verbatim>\<open>int(value)\<close>, \<open>None\<close> where it raises; a float is cut towards zero.\<close>

definition int_value :: "json \<Rightarrow> int option" where
  "int_value j =
     (case j of JInt i \<Rightarrow> Some i | JBool b \<Rightarrow> Some (if b then 1 else 0) | JStr s \<Rightarrow> py_int s
      | JFloat x \<Rightarrow> Some (if x < 0 then - \<lfloor>- x\<rfloor> else \<lfloor>x\<rfloor>) | _ \<Rightarrow> None)"

definition float_value :: "json \<Rightarrow> rat option" where
  "float_value j =
     (case j of JInt i \<Rightarrow> Some (of_int i) | JBool b \<Rightarrow> Some (if b then 1 else 0) | JStr s \<Rightarrow> py_float s | JFloat x \<Rightarrow> Some x | _ \<Rightarrow> None)"

text \<open>\<^verbatim>\<open>d.get(k, default)\<close>, and \<^verbatim>\<open>d[k]\<close>.\<close>

type_synonym fields = "(string \<times> json) list"

definition get_or :: "string \<Rightarrow> json \<Rightarrow> fields \<Rightarrow> json" where
  "get_or k def d = (case map_of d k of None \<Rightarrow> def | Some v \<Rightarrow> v)"

text \<open>A field that names one of a closed set: \<^verbatim>\<open>str(d.get(k, default)).strip().lower()\<close>.\<close>

definition word :: "lib \<Rightarrow> string \<Rightarrow> string \<Rightarrow> fields \<Rightarrow> string" where
  "word lb k def d = lower (strip (py_str lb (get_or k (JStr def) d)))"

definition prose :: "lib \<Rightarrow> string \<Rightarrow> fields \<Rightarrow> string" where
  "prose lb k d = strip (py_str lb (get_or k (JStr []) d))"

section \<open>The object in a reply\<close>

datatype advice_error =
  No_Object | A_List | Bad_Json | Not_An_Object | Bad_Word string string | Bad_Actions | Unknown_Action string
  | Bad_Place | Bad_Kind string | Note_Too_Long nat | No_Number | Keep_Meant

text \<open>\<^verbatim>\<open>text.find\<close> and \<^verbatim>\<open>text.rfind\<close> of a character.\<close>

definition index_of :: "char \<Rightarrow> string \<Rightarrow> nat option" where
  "index_of c s = (if c \<in> set s then Some (length (takeWhile (\<lambda>d. d \<noteq> c) s)) else None)"

definition last_index_of :: "char \<Rightarrow> string \<Rightarrow> nat option" where
  "last_index_of c s = map_option (\<lambda>i. length s - 1 - i) (index_of c (rev s))"

definition reply_object :: "lib \<Rightarrow> bool \<Rightarrow> string \<Rightarrow> advice_error + fields" where
  "reply_object lb one_only text =
     (case (index_of CHR ''{'' text, last_index_of CHR ''}'' text) of
        (Some i, Some j) \<Rightarrow>
          if j \<le> i then Inl No_Object
          else if one_only \<and> (case index_of CHR ''['' text of None \<Rightarrow> False | Some b \<Rightarrow> b < i) then Inl A_List
          else (case lb_loads lb (take (j + 1 - i) (drop i text)) of
             None \<Rightarrow> Inl Bad_Json
           | Some (JObject d) \<Rightarrow> Inr d
           | Some _ \<Rightarrow> Inl Not_An_Object)
      | _ \<Rightarrow> Inl No_Object)"

section \<open>Triage: where a fault goes\<close>

definition VALID_ACTIONS :: "string list" where "VALID_ACTIONS = [''re_delegate'', ''add_task'', ''drop_task'']"
definition VALID_DISPOSITIONS :: "string list" where "VALID_DISPOSITIONS = [''drop'', ''hold'', ''request_human'']"
definition VALID_ROUTES :: "string list" where "VALID_ROUTES = [''repair'', ''escalate'']"
definition MAX_GUIDANCE_CHARS :: nat where "MAX_GUIDANCE_CHARS = 500"

definition NOTE_MAX_BYTES :: int where
  "NOTE_MAX_BYTES = MAX_NOTE_FRAGMENTS * text_bytes_per_fragment DEFAULT_MAX_PAYLOAD_BYTES"

definition all_reasons :: "reason_code list" where
  "all_reasons = [UNSPECIFIED, TASK_FAILED, BATTERY_LOW, UNREACHABLE, CAPABILITY_MISSING, OPERATOR_REQUEST, TIMEOUT]"

fun reason_name :: "reason_code \<Rightarrow> string" where
  "reason_name UNSPECIFIED = ''unspecified''" | "reason_name TASK_FAILED = ''task_failed''" | "reason_name BATTERY_LOW = ''battery_low''"
| "reason_name UNREACHABLE = ''unreachable''" | "reason_name CAPABILITY_MISSING = ''capability_missing''"
| "reason_name OPERATOR_REQUEST = ''operator_request''" | "reason_name TIMEOUT = ''timeout''"

definition REASON_CODES :: "(string \<times> int) list" where
  "REASON_CODES = map (\<lambda>r. (reason_name r, reason_int r)) all_reasons"

definition reason_field :: "lib \<Rightarrow> fields \<Rightarrow> advice_error + int" where
  "reason_field lb d =
     (let w = word lb ''reason_code'' ''unspecified'' d
      in case map_of REASON_CODES w of None \<Rightarrow> Inl (Bad_Word ''reason_code'' w) | Some n \<Rightarrow> Inr n)"

record route =
  rt_route :: string
  rt_reason_code :: int
  rt_rationale :: string
  rt_guidance :: string

definition parse_route :: "lib \<Rightarrow> string \<Rightarrow> advice_error + route" where
  "parse_route lb reply =
     (case reply_object lb False (strip_code_fence reply) of
        Inl e \<Rightarrow> Inl e
      | Inr d \<Rightarrow>
          let route = word lb ''route'' [] d
          in if route \<notin> set VALID_ROUTES then Inl (Bad_Word ''route'' route)
             else case reason_field lb d of
               Inl e \<Rightarrow> Inl e
             | Inr code \<Rightarrow>
                 Inr \<lparr>rt_route = route, rt_reason_code = code, rt_rationale = prose lb ''rationale'' d,
                   rt_guidance = (if route = ''repair'' then take MAX_GUIDANCE_CHARS (prose lb ''guidance'' d) else [])\<rparr>)"

section \<open>Triage: what is to be done\<close>

definition bounded :: "json \<Rightarrow> int \<Rightarrow> int" where
  "bounded v maximum = (case int_value v of None \<Rightarrow> 0 | Some n \<Rightarrow> if 0 \<le> n \<and> n \<le> maximum then n else 0)"

fun named_mask :: "lib \<Rightarrow> int \<Rightarrow> json list \<Rightarrow> advice_error + int" where
  "named_mask lb acc [] = Inr acc"
| "named_mask lb acc (j # js) =
     (case capability_by_element (strip (py_str lb j)) of
        None \<Rightarrow> Inl (Unknown_Action (strip (py_str lb j)))
      | Some c \<Rightarrow> named_mask lb (acc OR push_bit (nat (cap_index c)) 1) js)"

definition capabilities_named :: "lib \<Rightarrow> json \<Rightarrow> advice_error + int" where
  "capabilities_named lb j =
     (case j of JNull \<Rightarrow> Inr 0 | JStr s \<Rightarrow> named_mask lb 0 [JStr s] | JList js \<Rightarrow> named_mask lb 0 js | _ \<Rightarrow> Inl Bad_Actions)"

definition place :: "py_exn + target \<Rightarrow> advice_error + target option" where
  "place t = (case t of Inl _ \<Rightarrow> Inl Bad_Place | Inr x \<Rightarrow> Inr (Some x))"

definition target_named :: "lib \<Rightarrow> json \<Rightarrow> advice_error + target option" where
  "target_named lb j =
     (case j of
        JNull \<Rightarrow> Inr None
      | JObject d \<Rightarrow>
          let kind = word lb ''kind'' [] d;
              index = int_value (get_or ''index'' JNull d)
          in if kind = [] \<or> kind = ''none'' then place target_none
             else if kind = ''tree'' then (case index of None \<Rightarrow> Inl Bad_Place | Some i \<Rightarrow> place (target_tree i))
             else if kind = ''aisle'' then (case index of None \<Rightarrow> Inl Bad_Place | Some i \<Rightarrow> place (target_aisle i))
             else if kind = ''gps'' then
               (case (float_value (get_or ''latitude'' JNull d), float_value (get_or ''longitude'' JNull d)) of
                  (Some lat, Some lon) \<Rightarrow> place (target_gps lat lon)
                | _ \<Rightarrow> Inl Bad_Place)
             else Inl (Bad_Kind kind)
      | _ \<Rightarrow> Inl Bad_Place)"

definition note_text :: "lib \<Rightarrow> json \<Rightarrow> string \<Rightarrow> advice_error + string" where
  "note_text lb j action =
     (let t = strip (str_or_empty lb j);
          size = length (encode_text t)
      in if t = [] \<or> action \<noteq> ''re_delegate'' then Inr []
         else if int size > NOTE_MAX_BYTES then Inl (Note_Too_Long size) else Inr t)"

record advice =
  av_action :: string
  av_reason_code :: int
  av_fallback :: string
  av_disposition :: string
  av_task_id :: int
  av_capabilities :: int
  av_target :: "target option"
  av_priority :: int
  av_rationale :: string
  av_note :: string

definition parse_decision :: "lib \<Rightarrow> string \<Rightarrow> advice_error + advice" where
  "parse_decision lb reply =
     (case reply_object lb True (strip_code_fence reply) of
        Inl e \<Rightarrow> Inl e
      | Inr d \<Rightarrow>
          let action = word lb ''action'' [] d;
              fallback = word lb ''fallback'' ''hold'' d;
              disposition = word lb ''disposition'' ''drop'' d
          in if action \<notin> set VALID_ACTIONS then Inl (Bad_Word ''action'' action)
             else if action = ''re_delegate'' \<and> fallback \<notin> set VALID_DISPOSITIONS then Inl (Bad_Word ''fallback'' fallback)
             else if action = ''drop_task'' \<and> disposition \<notin> set VALID_DISPOSITIONS then Inl (Bad_Word ''disposition'' disposition)
             else case reason_field lb d of
               Inl e \<Rightarrow> Inl e
             | Inr code \<Rightarrow>
                 (case capabilities_named lb (get_or ''actions'' JNull d) of
                    Inl e \<Rightarrow> Inl e
                  | Inr caps \<Rightarrow>
                      (case target_named lb (get_or ''target'' JNull d) of
                         Inl e \<Rightarrow> Inl e
                       | Inr spot \<Rightarrow>
                           (case note_text lb (get_or ''note'' JNull d) action of
                              Inl e \<Rightarrow> Inl e
                            | Inr n \<Rightarrow>
                                Inr \<lparr>av_action = action, av_reason_code = code,
                                  av_fallback = (if action = ''re_delegate'' then fallback else []),
                                  av_disposition = (if action = ''drop_task'' then disposition else []),
                                  av_task_id = bounded (get_or ''task_id'' JNull d) TASK_ID_MAX, av_capabilities = caps,
                                  av_target = spot, av_priority = bounded (get_or ''priority'' JNull d) PRIORITY_MAX,
                                  av_rationale = prose lb ''rationale'' d, av_note = n\<rparr>))))"

section \<open>Notes: what a sentence does to a bid\<close>

definition VALID_REVISIONS :: "string list" where "VALID_REVISIONS = [''keep'', ''revise'', ''withdraw'']"

record revision =
  rn_revision :: string
  rn_cost_delta :: int
  rn_reason :: string
  rn_rationale :: string

definition cost_delta :: "json \<Rightarrow> advice_error + int" where
  "cost_delta j =
     (case int_value j of
        None \<Rightarrow> Inl No_Number
      | Some n \<Rightarrow> if n = 0 then Inl Keep_Meant else Inr (max (- COST_MAX) (min n COST_MAX)))"

definition parse_revision :: "lib \<Rightarrow> string \<Rightarrow> advice_error + revision" where
  "parse_revision lb text =
     (case reply_object lb True text of
        Inl e \<Rightarrow> Inl e
      | Inr d \<Rightarrow>
          let rv = word lb ''revision'' [] d
          in if rv \<notin> set VALID_REVISIONS then Inl (Bad_Word ''revision'' rv)
             else case if rv = ''revise'' then cost_delta (get_or ''cost_delta'' JNull d) else Inr 0 of
               Inl e \<Rightarrow> Inl e
             | Inr delta \<Rightarrow>
                 Inr \<lparr>rn_revision = rv, rn_cost_delta = delta, rn_reason = prose lb ''reason'' d, rn_rationale = prose lb ''rationale'' d\<rparr>)"

end
