(* ===== verification/Triage.thy ===== *)
theory Triage
  imports Advice
begin

text \<open>
  The triage agent (\<^verbatim>\<open>coordination/triage_node.py\<close>): where a fault goes, when the fleet is told, and what
  the model's answer about an anomaly comes to. Each callback is one operation on the state; the
  thread that asks the model about a fault is the operation \<open>route_fault\<close>, with the reply as an
  argument (\<open>None\<close> when the call raised). Messages sent are outputs. An exception ends an operation: what it
  did before stands. Prompts, log lines and the status readout are left out, and so is the wording of errors.
\<close>

section \<open>State\<close>

definition LOG_WINDOW_SEC :: secs where "LOG_WINDOW_SEC = 30"
definition FAULT_CONTEXT_SEC :: secs where "FAULT_CONTEXT_SEC = 5"
definition MAX_LOG_LINES :: nat where "MAX_LOG_LINES = 60"
definition WORLD_STATE_FRAMES :: nat where "WORLD_STATE_FRAMES = 3"
definition ATTEMPT_HISTORY :: nat where "ATTEMPT_HISTORY = 6"

record log_entry =
  le_stamp :: secs
  le_level :: string
  le_name :: string
  le_msg :: string

record routed =
  rd_node :: string
  rd_timestamp :: json
  rd_at :: secs
  rd_verdict :: route

record triage =
  tr_logs :: "log_entry list"
  tr_world :: "string list"
  tr_attempts :: "json list"
  tr_last_fault :: fields
  tr_mission :: "string option"
  tr_routes :: "string \<rightharpoonup> routed"
  tr_routing :: "string set"
  tr_faults_seen :: nat
  tr_routed :: nat
  tr_escalations :: nat
  tr_interpretations :: nat
  tr_refused :: nat

definition triage_init :: triage where
  "triage_init = \<lparr>tr_logs = [], tr_world = [], tr_attempts = [], tr_last_fault = [], tr_mission = None, tr_routes = Map.empty,
     tr_routing = {}, tr_faults_seen = 0, tr_routed = 0, tr_escalations = 0, tr_interpretations = 0, tr_refused = 0\<rparr>"

text \<open>The verdict, the question to the model, and the report to the coordinator: its cause, its detail, the fault, the work.\<close>

datatype triage_out = Route_Out routed | Ask_Route fields | Infeasible string string fields "mission_task option"

section \<open>Context\<close>

text \<open>\<^verbatim>\<open>ANSI_ESCAPE.sub\<close>: what is after a colour code that starts here.\<close>

definition after_escape :: "string \<Rightarrow> string option" where
  "after_escape s =
     (case s of
        e # b # cs \<Rightarrow>
          if e = char_of (27 :: nat) \<and> b = CHR ''['' then
            (case dropWhile (\<lambda>c. digit c \<noteq> None \<or> c = CHR '';'') cs of
               m # rest \<Rightarrow> if m = CHR ''m'' then Some rest else None
             | [] \<Rightarrow> None)
          else None
      | _ \<Rightarrow> None)"

lemma after_escape_shorter: "after_escape s = Some rest \<Longrightarrow> length rest < length s"
proof -
  assume a: "after_escape s = Some rest"
  then obtain e b cs m where s: "s = e # b # cs" "dropWhile (\<lambda>c. digit c \<noteq> None \<or> c = CHR '';'') cs = m # rest"
    by (auto simp: after_escape_def split: list.splits if_splits)
  then have "length (m # rest) \<le> length cs" by (metis length_dropWhile_le)
  then show ?thesis using s(1) by simp
qed

function plain :: "string \<Rightarrow> string" where
  "plain [] = []"
| "plain (c # cs) = (case after_escape (c # cs) of Some rest \<Rightarrow> plain rest | None \<Rightarrow> c # plain cs)"
  by pat_completeness auto
termination by (relation "measure length") (auto dest: after_escape_shorter)

definition level_name :: "int \<Rightarrow> string" where
  "level_name n = (case map_of [(10, ''DEBUG''), (20, ''INFO''), (30, ''WARN''), (40, ''ERROR''), (50, ''FATAL'')] n of
     Some w \<Rightarrow> w | None \<Rightarrow> str_int n)"

definition on_log :: "secs \<Rightarrow> int \<Rightarrow> string \<Rightarrow> string \<Rightarrow> secs \<Rightarrow> triage \<Rightarrow> triage" where
  "on_log stamp level name msg now s =
     s\<lparr>tr_logs := filter (\<lambda>e. now - le_stamp e < LOG_WINDOW_SEC)
        (tr_logs s @ [\<lparr>le_stamp = stamp, le_level = level_name level, le_name = name, le_msg = plain msg\<rparr>])\<rparr>"

definition on_world_state :: "string \<Rightarrow> triage \<Rightarrow> triage" where
  "on_world_state frame s = s\<lparr>tr_world := newest WORLD_STATE_FRAMES (tr_world s @ [frame])\<rparr>"

definition note_mission :: "string \<Rightarrow> triage \<Rightarrow> triage" where
  "note_mission xml s = s\<lparr>tr_mission := Some xml\<rparr>"

definition remember_attempt :: "json \<Rightarrow> triage \<Rightarrow> triage" where
  "remember_attempt a s = s\<lparr>tr_attempts := newest ATTEMPT_HISTORY (tr_attempts s @ [a])\<rparr>"

text \<open>\<^verbatim>\<open>_parse\<close>: a text that is a JSON object.\<close>

definition decoded :: "lib \<Rightarrow> string \<Rightarrow> fields option" where
  "decoded lb payload = (case lb_loads lb payload of Some (JObject d) \<Rightarrow> Some d | _ \<Rightarrow> None)"

definition severe :: "log_entry \<Rightarrow> bool" where
  "severe e \<longleftrightarrow> le_level e \<in> set [''ERROR'', ''FATAL'', ''WARN'']"

definition log_line :: "log_entry \<Rightarrow> string" where
  "log_line e = ''['' @ le_level e @ ''] '' @ le_name e @ '': '' @ le_msg e"

text \<open>The lines around a fault, or around now; \<open>None\<close> when the fault's time is not a number.\<close>

definition log_window :: "secs \<Rightarrow> log_entry list \<Rightarrow> log_entry list" where
  "log_window centre logs =
     (let window = filter (\<lambda>e. centre - FAULT_CONTEXT_SEC \<le> le_stamp e \<and> le_stamp e \<le> centre + FAULT_CONTEXT_SEC) logs
      in if length window > MAX_LOG_LINES then sort_key le_stamp (take MAX_LOG_LINES (filter severe window @ window)) else window)"

definition log_slice :: "fields option \<Rightarrow> secs \<Rightarrow> triage \<Rightarrow> string option" where
  "log_slice fault now s =
     map_option (\<lambda>centre. join [newline] (map log_line (log_window centre (tr_logs s))))
       (case fault of None \<Rightarrow> Some now | Some f \<Rightarrow> map_option (\<lambda>x. x / 1000) (float_value (get_or ''timestamp_ms'' (JInt 0) f)))"

section \<open>Faults\<close>

definition task_for :: "lib \<Rightarrow> (string \<Rightarrow> xml option) \<Rightarrow> fields \<Rightarrow> string option \<Rightarrow> py_exn + mission_task option" where
  "task_for lb parse fault mission =
     (let name = py_str lb (get_or ''node'' (JStr []) fault)
      in if name = [] then Inr None else task_for_node (Option.bind mission parse) name)"

text \<open>\<open>None\<close> when resolving the work raises.\<close>

definition escalate ::
  "lib \<Rightarrow> (string \<Rightarrow> xml option) \<Rightarrow> string \<Rightarrow> string \<Rightarrow> triage \<Rightarrow> (triage \<times> triage_out list) option" where
  "escalate lb parse detail cause s =
     (case task_for lb parse (tr_last_fault s) (tr_mission s) of
        Inl _ \<Rightarrow> None
      | Inr task \<Rightarrow>
          Some (s\<lparr>tr_escalations := tr_escalations s + 1\<rparr>, [Infeasible cause detail (tr_last_fault s) task]))"

definition and_escalate ::
  "lib \<Rightarrow> (string \<Rightarrow> xml option) \<Rightarrow> string \<Rightarrow> string \<Rightarrow> triage \<times> triage_out list \<Rightarrow> triage \<times> triage_out list" where
  "and_escalate lb parse detail cause r =
     (case escalate lb parse detail cause (fst r) of None \<Rightarrow> r | Some (s1, out) \<Rightarrow> (s1, snd r @ out))"

definition status_of :: "lib \<Rightarrow> fields \<Rightarrow> string" where
  "status_of lb ev =
     (let v = get_or ''status'' JNull ev in upper (if falsy v then ''FAILURE'' else py_str lb v))"

definition node_of :: "lib \<Rightarrow> fields \<Rightarrow> string" where
  "node_of lb ev = str_or_empty lb (get_or ''node'' JNull ev)"

definition whole_tree :: "lib \<Rightarrow> fields \<Rightarrow> bool" where
  "whole_tree lb ev \<longleftrightarrow> node_of lb ev \<in> {[], ''<tree>''} \<or> get_or ''source'' JNull ev = JStr ''tree''"

definition on_fault :: "lib \<Rightarrow> string \<Rightarrow> triage \<Rightarrow> triage \<times> triage_out list" where
  "on_fault lb payload s =
     (case decoded lb payload of
        None \<Rightarrow> (s, [])
      | Some ev \<Rightarrow>
          if status_of lb ev \<noteq> ''FAILURE'' then (s, [])
          else
            let name = node_of lb ev;
                whole = whole_tree lb ev;
                start = (\<not> whole \<and> tr_routes s name = None \<and> name \<notin> tr_routing s);
                s1 = s\<lparr>tr_faults_seen := tr_faults_seen s + 1, tr_last_fault := (if whole then tr_last_fault s else ev),
                  tr_routing := (if start then insert name (tr_routing s) else tr_routing s)\<rparr>
            in (s1, if whole then []
                    else case tr_routes s name of
                      Some r \<Rightarrow> [Route_Out r]
                    | None \<Rightarrow> if start then [Ask_Route ev] else []))"

text \<open>The verdict, \<open>None\<close> when the context cannot be gathered, the call raised or the reply is refused.\<close>

definition decide_route ::
  "lib \<Rightarrow> (string \<Rightarrow> xml option) \<Rightarrow> fields \<Rightarrow> string option \<Rightarrow> secs \<Rightarrow> triage \<Rightarrow> route option" where
  "decide_route lb parse ev reply now s =
     (case (log_slice (Some ev) now s, task_for lb parse ev (tr_mission s), reply) of
        (Some _, Inr _, Some r) \<Rightarrow> (case parse_route lb r of Inl _ \<Rightarrow> None | Inr d \<Rightarrow> Some d)
      | _ \<Rightarrow> None)"

definition failed_route :: route where
  "failed_route = \<lparr>rt_route = ''repair'', rt_reason_code = reason_int UNSPECIFIED,
     rt_rationale = ''routing failed; defaulting to local repair'', rt_guidance = []\<rparr>"

definition route_fault ::
  "lib \<Rightarrow> (string \<Rightarrow> xml option) \<Rightarrow> fields \<Rightarrow> string option \<Rightarrow> secs \<Rightarrow> triage \<Rightarrow> triage \<times> triage_out list" where
  "route_fault lb parse ev reply now s =
     (let name = node_of lb ev;
          decision = (case decide_route lb parse ev reply now s of None \<Rightarrow> failed_route | Some d \<Rightarrow> d);
          payload = \<lparr>rd_node = name, rd_timestamp = get_or ''timestamp_ms'' (JInt 0) ev, rd_at = now, rd_verdict = decision\<rparr>;
          s1 = s\<lparr>tr_routes := (tr_routes s)(name \<mapsto> payload), tr_routing := tr_routing s - {name}, tr_routed := tr_routed s + 1\<rparr>
      in if rt_route decision = ''escalate''
         then and_escalate lb parse (''triage routed the fault to the fleet: '' @ rt_rationale decision) ''triage_route'' (s1, [Route_Out payload])
         else (s1, [Route_Out payload]))"

section \<open>The local loop reporting on itself\<close>

definition outcome_of :: "lib \<Rightarrow> fields \<Rightarrow> string" where
  "outcome_of lb info = join '' '' (map (\<lambda>k. py_str lb (get_or k (JStr []) info)) [''outcome'', ''event'', ''cause''])"

definition first_truthy :: "json list \<Rightarrow> json \<Rightarrow> json" where
  "first_truthy js def = (case find (\<lambda>j. \<not> falsy j) js of Some j \<Rightarrow> j | None \<Rightarrow> def)"

definition on_planner_status :: "lib \<Rightarrow> (string \<Rightarrow> xml option) \<Rightarrow> string \<Rightarrow> triage \<Rightarrow> triage \<times> triage_out list" where
  "on_planner_status lb parse payload s =
     (case decoded lb payload of
        None \<Rightarrow> (s, [])
      | Some info \<Rightarrow>
          let s1 = remember_attempt (JObject info) s;
              outcome = outcome_of lb info
          in if \<not> list_ex (\<lambda>w. contains w outcome) [''gave_up'', ''give_up'', ''max_retries''] then (s1, [])
             else
               let reason = first_truthy [get_or ''last_reason'' JNull info, get_or ''reason'' JNull info] (JStr (strip outcome))
               in and_escalate lb parse (''local replanning gave up: '' @ py_str lb reason) ''planner_gave_up'' (s1, []))"

definition on_abort :: "lib \<Rightarrow> (string \<Rightarrow> xml option) \<Rightarrow> string \<Rightarrow> triage \<Rightarrow> triage \<times> triage_out list" where
  "on_abort lb parse payload s =
     (let info = (case decoded lb payload of None \<Rightarrow> [] | Some d \<Rightarrow> d);
          s1 = remember_attempt (JObject (foldl (\<lambda>d (k, v). AList.update k v d) [(''event'', JStr ''aborted'')] info)) s
      in and_escalate lb parse (''arbiter aborted the mission: '' @ py_str lb (get_or ''reason'' (JStr ''unknown'') info)) ''arbiter_abort'' (s1, []))"

section \<open>Interpreting an anomaly\<close>

record anomaly_request =
  iq_fault_json :: string
  iq_log_context :: string
  iq_world_state :: string
  iq_local_attempts :: string
  iq_task_id :: int
  iq_capabilities :: int
  iq_kind :: int
  iq_a :: int
  iq_b :: int
  iq_priority :: int

text \<open>The response; a field nobody set is empty or zero.\<close>

record anomaly_response =
  ir_ok :: bool
  ir_action :: string
  ir_reason_code :: int
  ir_fallback :: string
  ir_note :: string
  ir_disposition :: string
  ir_task_id :: int
  ir_capabilities :: int
  ir_kind :: int
  ir_a :: int
  ir_b :: int
  ir_priority :: int
  ir_rationale :: string

definition refused_response :: anomaly_response where
  "refused_response = \<lparr>ir_ok = False, ir_action = [], ir_reason_code = 0, ir_fallback = [], ir_note = [], ir_disposition = [], ir_task_id = 0,
     ir_capabilities = 0, ir_kind = 0, ir_a = 0, ir_b = 0, ir_priority = 0, ir_rationale = []\<rparr>"

definition or_else :: "string \<Rightarrow> string \<Rightarrow> string" where
  "or_else a b = (if a = [] then b else a)"

definition assemble :: "lib \<Rightarrow> anomaly_request \<Rightarrow> secs \<Rightarrow> triage \<Rightarrow> (fields option \<times> string \<times> string \<times> string) option" where
  "assemble lb rq now s =
     (let fault = (if iq_fault_json rq \<noteq> [] then decoded lb (iq_fault_json rq)
                   else if tr_last_fault s = [] then None else Some (tr_last_fault s));
          world = or_else (iq_world_state rq) (if tr_world s = [] then [] else last (tr_world s));
          attempts = or_else (iq_local_attempts rq) (if tr_attempts s = [] then [] else lb_dumps lb (JList (tr_attempts s)))
      in map_option (\<lambda>logs. (fault, logs, world, attempts))
           (if iq_log_context rq \<noteq> [] then Some (iq_log_context rq) else log_slice fault now s))"

definition or_int :: "int \<Rightarrow> int \<Rightarrow> int" where
  "or_int a b = (if a = 0 then b else a)"

definition response_of :: "anomaly_request \<Rightarrow> advice \<Rightarrow> anomaly_response" where
  "response_of rq d =
     (let echo = (av_action d \<noteq> ''add_task'');
          (k, a, b) = (case av_target d of
             Some t \<Rightarrow> (kind_int (tg_kind t), tg_a t, tg_b t)
           | None \<Rightarrow> if echo then (iq_kind rq, iq_a rq, iq_b rq) else (kind_int NONE, 0, 0))
      in \<lparr>ir_ok = True, ir_action = av_action d, ir_reason_code = av_reason_code d, ir_fallback = av_fallback d, ir_note = av_note d,
          ir_disposition = av_disposition d,
          ir_task_id = or_int (av_task_id d) (if echo then iq_task_id rq else 0),
          ir_capabilities = or_int (av_capabilities d) (if echo then iq_capabilities rq else 0),
          ir_kind = k, ir_a = a, ir_b = b,
          ir_priority = or_int (av_priority d) (if echo then iq_priority rq else 0),
          ir_rationale = av_rationale d\<rparr>)"

definition on_interpret :: "lib \<Rightarrow> anomaly_request \<Rightarrow> string option \<Rightarrow> secs \<Rightarrow> triage \<Rightarrow> triage \<times> anomaly_response" where
  "on_interpret lb rq reply now s =
     (let s1 = s\<lparr>tr_interpretations := tr_interpretations s + 1\<rparr>
      in case (assemble lb rq now s1, map_option (parse_decision lb) reply) of
           (Some _, Some (Inr d)) \<Rightarrow> (s1, response_of rq d)
         | _ \<Rightarrow> (s1\<lparr>tr_refused := tr_refused s1 + 1\<rparr>, refused_response))"

end
