(* ===== verification/Interpreters.thy ===== *)
theory Interpreters
  imports Triage
begin

text \<open>
  The coordinator's ends of the two reasoning services (\<^verbatim>\<open>adapters/triage_client.py\<close>,
  \<^verbatim>\<open>adapters/note_client.py\<close>), the note agent's answer, and what an answer comes to once it has crossed the service:
  what the model said, or no interpretation. Exceptions the clients raise are all \<open>Raises\<close>.
\<close>

section \<open>A service call\<close>

text \<open>Nobody serves it, no answer in time, the future holds nothing, or a response.\<close>

datatype 'r service_reply = No_Service | Late | No_Response | Response 'r

definition responded :: "'r service_reply \<Rightarrow> 'r option" where
  "responded r = (case r of Response x \<Rightarrow> Some x | _ \<Rightarrow> None)"

section \<open>The triage client\<close>

definition anomaly_request_of :: "anomaly_context \<Rightarrow> string \<Rightarrow> anomaly_request" where
  "anomaly_request_of ctx detail =
     (case ax_task ctx of
        Some t \<Rightarrow>
          \<lparr>iq_fault_json = [], iq_log_context = [], iq_world_state = [], iq_local_attempts = detail,
           iq_task_id = tk_id t, iq_capabilities = tk_caps t, iq_kind = kind_int (tg_kind (tk_location t)),
           iq_a = tg_a (tk_location t), iq_b = tg_b (tk_location t), iq_priority = tk_priority t\<rparr>
      | None \<Rightarrow>
          \<lparr>iq_fault_json = [], iq_log_context = [], iq_world_state = [], iq_local_attempts = detail,
           iq_task_id = 0, iq_capabilities = 0, iq_kind = kind_int NONE, iq_a = 0, iq_b = 0, iq_priority = 0\<rparr>)"

definition DISPOSITIONS :: "(string \<times> local_disposition) list" where
  "DISPOSITIONS = [(''drop'', DROP), (''hold'', HOLD), (''request_human'', REQUEST_HUMAN)]"

definition disposition_named :: "string \<Rightarrow> local_disposition \<Rightarrow> local_disposition" where
  "disposition_named name def = (case map_of DISPOSITIONS (lower (strip name)) of None \<Rightarrow> def | Some d \<Rightarrow> d)"

definition bounded_int :: "int \<Rightarrow> int \<Rightarrow> int \<Rightarrow> int" where
  "bounded_int v maximum def = (if 0 \<le> v \<and> v \<le> maximum then v else def)"

definition text_of :: "string \<Rightarrow> text_str" where
  "text_of s = map of_char s"

definition task_from :: "anomaly_response \<Rightarrow> task option" where
  "task_from r =
     (if \<not> (0 < ir_task_id r \<and> ir_task_id r \<le> TASK_ID_MAX) then None
      else case Target (ir_kind r) (ir_a r) (ir_b r) of
        Inl _ \<Rightarrow> None
      | Inr location \<Rightarrow>
          (case Task (ir_task_id r) (ir_capabilities r) location (bounded_int (ir_priority r) PRIORITY_MAX 0) None of
             Inl _ \<Rightarrow> None
           | Inr t \<Rightarrow> Some t))"

definition decode_action :: "anomaly_response \<Rightarrow> anomaly_context \<Rightarrow> action answer" where
  "decode_action r ctx =
     (let action = lower (strip (ir_action r));
          code = bounded_int (ir_reason_code r) 0xFFFF (reason_int UNSPECIFIED)
      in if action = ''re_delegate'' then
           (case ax_task ctx of
              None \<Rightarrow> Raises
            | Some t \<Rightarrow> Answer (ReDelegate t code (disposition_named (ir_fallback r) HOLD) (text_of (strip (ir_note r)))))
         else if action = ''drop_task'' then
           (case ax_task ctx of
              None \<Rightarrow> Raises
            | Some t \<Rightarrow> Answer (DropTask t (disposition_named (ir_disposition r) DROP) code))
         else if action = ''add_task'' then (case task_from r of None \<Rightarrow> Raises | Some t \<Rightarrow> Answer (AddTask t code))
         else Raises)"

definition interpret_anomaly :: "anomaly_response service_reply \<Rightarrow> anomaly_context \<Rightarrow> action answer" where
  "interpret_anomaly reply ctx =
     (case responded reply of
        None \<Rightarrow> Raises
      | Some r \<Rightarrow> if \<not> ir_ok r then Raises else decode_action r ctx)"

section \<open>The note agent and its client\<close>

record note_response =
  nr_ok :: bool
  nr_revision :: string
  nr_cost_delta :: int
  nr_reason :: string
  nr_rationale :: string

definition on_interpret_note :: "lib \<Rightarrow> string option \<Rightarrow> note_response" where
  "on_interpret_note lb reply =
     (case map_option (parse_revision lb) reply of
        Some (Inr d) \<Rightarrow>
          \<lparr>nr_ok = True, nr_revision = rn_revision d, nr_cost_delta = rn_cost_delta d, nr_reason = rn_reason d, nr_rationale = rn_rationale d\<rparr>
      | _ \<Rightarrow> \<lparr>nr_ok = False, nr_revision = [], nr_cost_delta = 0, nr_reason = [], nr_rationale = []\<rparr>)"

definition decode_revision :: "note_response \<Rightarrow> bid_revision answer" where
  "decode_revision r =
     (let w = lower (strip (nr_revision r))
      in if w = ''keep'' then Answer KeepBid
         else if w = ''revise'' then Answer (ReviseBid (max (- COST_MAX) (min (nr_cost_delta r) COST_MAX)))
         else if w = ''withdraw'' then Answer WithdrawBid
         else Raises)"

definition interpret_note :: "note_response service_reply \<Rightarrow> bid_revision answer" where
  "interpret_note reply =
     (case responded reply of
        None \<Rightarrow> Raises
      | Some r \<Rightarrow> if \<not> nr_ok r then Raises else decode_revision r)"

section \<open>Stripping\<close>

lemma dropWhile_twice [simp]: "dropWhile P (dropWhile P xs) = dropWhile P xs"
  by (induction xs) auto

lemma strip_twice [simp]: "strip (strip s) = strip s"
proof -
  define u where "u = dropWhile py_space s"
  define v where "v = dropWhile py_space (rev u)"
  have head: "dropWhile py_space (rev v) = rev v"
  proof (cases "rev v")
    case (Cons c cs)
    obtain w where "rev u = w @ v" unfolding v_def by (metis takeWhile_dropWhile_id)
    then have "u = rev v @ rev w" by (metis rev_append rev_rev_ident)
    moreover have "u = [] \<or> \<not> py_space (hd u)" unfolding u_def using hd_dropWhile by blast
    ultimately show ?thesis using Cons by simp
  qed simp
  have "strip s = rev v" by (simp add: strip_def u_def v_def)
  moreover have "strip (rev v) = rev v" using head by (simp add: strip_def v_def)
  ultimately show ?thesis by simp
qed

lemma strip_empty [simp]: "strip [] = []"
  by (simp add: strip_def)

section \<open>What an accepted answer holds\<close>

lemma named_mask_bound:
  "named_mask lb acc js = Inr m \<Longrightarrow> 0 \<le> acc \<Longrightarrow> acc < 2 ^ 16 \<Longrightarrow> 0 \<le> m \<and> m < 2 ^ 16"
proof (induction js arbitrary: acc)
  case (Cons j js)
  then obtain c where c: "named_mask lb (acc OR push_bit (nat (cap_index c)) 1) js = Inr m" by (auto split: option.splits)
  have bit: "push_bit (nat (cap_index c)) (1 :: int) < 2 ^ 16" by (cases c) (simp_all add: push_bit_eq_mult)
  have "0 \<le> push_bit (nat (cap_index c)) (1 :: int)" by simp
  then have "acc OR push_bit (nat (cap_index c)) 1 < 2 ^ 16" "0 \<le> acc OR push_bit (nat (cap_index c)) 1"
    using OR_upper [OF Cons.prems(2,3) bit] Cons.prems(2) by simp_all
  then show ?case using Cons.IH [OF c] by simp
qed simp

lemma capabilities_bound: "capabilities_named lb j = Inr m \<Longrightarrow> 0 \<le> m \<and> m < 2 ^ 16"
  by (auto simp: capabilities_named_def simp del: named_mask.simps dest!: named_mask_bound split: json.splits)

lemma place_wf: "place t = Inr (Some x) \<Longrightarrow> \<forall>x. t = Inr x \<longrightarrow> target_wf x \<Longrightarrow> target_wf x"
  by (auto simp: place_def split: sum.splits)

lemma target_named_wf: "target_named lb j = Inr (Some t) \<Longrightarrow> target_wf t"
  by (auto simp: target_named_def Let_def target_none_def target_tree_def target_aisle_def target_gps_def Target_Inr
      elim!: place_wf split: json.splits if_splits option.splits)

lemma bounded_range: "0 \<le> m \<Longrightarrow> 0 \<le> bounded v m \<and> bounded v m \<le> m"
  by (auto simp: bounded_def split: option.split)

text \<open>The promise of the parser.\<close>

definition advice_ok :: "advice \<Rightarrow> bool" where
  "advice_ok d \<longleftrightarrow> av_action d \<in> set VALID_ACTIONS \<and>
     (av_action d = ''re_delegate'' \<longrightarrow> av_fallback d \<in> set VALID_DISPOSITIONS) \<and>
     (av_action d = ''drop_task'' \<longrightarrow> av_disposition d \<in> set VALID_DISPOSITIONS) \<and>
     av_reason_code d \<in> reason_int ` set all_reasons \<and> 0 \<le> av_task_id d \<and> av_task_id d \<le> TASK_ID_MAX \<and>
     0 \<le> av_capabilities d \<and> av_capabilities d < 2 ^ 16 \<and> (\<forall>t. av_target d = Some t \<longrightarrow> target_wf t) \<and>
     0 \<le> av_priority d \<and> av_priority d \<le> PRIORITY_MAX \<and> strip (av_note d) = av_note d \<and>
     int (length (encode_text (av_note d))) \<le> NOTE_MAX_BYTES"

lemma reason_field_code: "reason_field lb d = Inr n \<Longrightarrow> n \<in> reason_int ` set all_reasons"
  by (auto simp: reason_field_def REASON_CODES_def Let_def dest!: map_of_SomeD split: option.splits)

lemma NOTE_MAX_BYTES_value: "NOTE_MAX_BYTES = 328"
  by code_simp

lemma note_text_ok:
  "note_text lb j a = Inr n \<Longrightarrow> strip n = n \<and> int (length (encode_text n)) \<le> NOTE_MAX_BYTES \<and> (a \<noteq> ''re_delegate'' \<longrightarrow> n = [])"
  by (auto simp: note_text_def Let_def NOTE_MAX_BYTES_value encode_text_def split: if_splits)

lemma parse_decision_ok:
  assumes "parse_decision lb reply = Inr d"
  shows "advice_ok d"
proof -
  obtain f where f: "reply_object lb True (strip_code_fence reply) = Inr f"
    using assms by (cases "reply_object lb True (strip_code_fence reply)") (auto simp: parse_decision_def)
  obtain code caps spot n where parts: "reason_field lb f = Inr code" "capabilities_named lb (get_or ''actions'' JNull f) = Inr caps"
      "target_named lb (get_or ''target'' JNull f) = Inr spot" "note_text lb (get_or ''note'' JNull f) (word lb ''action'' [] f) = Inr n"
    using assms f by (auto simp: parse_decision_def Let_def split: if_splits sum.splits)
  show ?thesis
    using assms f parts reason_field_code [OF parts(1)] capabilities_bound [OF parts(2)] note_text_ok [OF parts(4)]
      bounded_range [of TASK_ID_MAX] bounded_range [of PRIORITY_MAX] target_named_wf [of lb "get_or ''target'' JNull f"]
    by (auto simp: parse_decision_def Let_def advice_ok_def TASK_ID_MAX_def PRIORITY_MAX_def split: if_splits)
qed

section \<open>What an answer means\<close>

text \<open>
  The action a piece of advice stands for, with the task the anomaly is about. Shedding and dropping are about that task and nothing
  else; adding is about the task the advice names, and means nothing when it names none.
\<close>

definition meant :: "advice \<Rightarrow> task option \<Rightarrow> action option" where
  "meant d about =
     (if av_action d = ''add_task'' then
        (if av_task_id d = 0 then None
         else Some (AddTask \<lparr>tk_id = av_task_id d, tk_caps = av_capabilities d,
           tk_location = (case av_target d of None \<Rightarrow> \<lparr>tg_kind = NONE, tg_a = 0, tg_b = 0\<rparr> | Some t \<Rightarrow> t),
           tk_priority = av_priority d, tk_payload = None\<rparr> (av_reason_code d)))
      else case about of
        None \<Rightarrow> None
      | Some t \<Rightarrow>
          if av_action d = ''re_delegate''
          then Some (ReDelegate t (av_reason_code d) (the (map_of DISPOSITIONS (av_fallback d))) (text_of (av_note d)))
          else Some (DropTask t (the (map_of DISPOSITIONS (av_disposition d))) (av_reason_code d)))"

lemma words_stand:
  "w \<in> set VALID_ACTIONS \<Longrightarrow> lower (strip w) = w" "w \<in> set VALID_DISPOSITIONS \<Longrightarrow> lower (strip w) = w"
  "w \<in> set VALID_REVISIONS \<Longrightarrow> lower (strip w) = w"
proof -
  have "list_all (\<lambda>w. lower (strip w) = w) (VALID_ACTIONS @ VALID_DISPOSITIONS @ VALID_REVISIONS)" by code_simp
  then show "w \<in> set VALID_ACTIONS \<Longrightarrow> lower (strip w) = w" "w \<in> set VALID_DISPOSITIONS \<Longrightarrow> lower (strip w) = w"
    "w \<in> set VALID_REVISIONS \<Longrightarrow> lower (strip w) = w" by (auto simp: list_all_iff)
qed

lemma disposition_stands:
  "w \<in> set VALID_DISPOSITIONS \<Longrightarrow> disposition_named w def = the (map_of DISPOSITIONS w)"
  using words_stand(2) [of w] by (auto simp: disposition_named_def VALID_DISPOSITIONS_def DISPOSITIONS_def)

lemma reason_code_range: "n \<in> reason_int ` set all_reasons \<Longrightarrow> bounded_int n 0xFFFF def = n"
  by (auto simp: all_reasons_def bounded_int_def)

lemma decode_meant:
  assumes "advice_ok d"
  shows "decode_action (response_of rq d) ctx = (case meant d (ax_task ctx) of None \<Rightarrow> Raises | Some a \<Rightarrow> Answer a)"
proof -
  have w: "lower (strip (av_action d)) = av_action d" using assms words_stand(1) by (auto simp: advice_ok_def)
  have code: "bounded_int (av_reason_code d) 0xFFFF (reason_int UNSPECIFIED) = av_reason_code d"
    using assms reason_code_range by (auto simp: advice_ok_def)
  consider (add) "av_action d = ''add_task''" | (shed) "av_action d = ''re_delegate''" | (drop) "av_action d = ''drop_task''"
    using assms by (auto simp: advice_ok_def VALID_ACTIONS_def)
  then show ?thesis
  proof cases
    case add
    define t where "t = (case av_target d of None \<Rightarrow> \<lparr>tg_kind = NONE, tg_a = 0, tg_b = 0\<rparr> | Some t \<Rightarrow> t)"
    have wf: "target_wf t"
      using assms by (auto simp: t_def advice_ok_def target_wf_def word_in_range_def TARGET_WORD_MIN_def TARGET_WORD_MAX_def split: option.split)
    have where_: "ir_kind (response_of rq d) = kind_int (tg_kind t)" "ir_a (response_of rq d) = tg_a t" "ir_b (response_of rq d) = tg_b t"
      using add by (auto simp: response_of_def t_def split: option.split)
    have rest: "ir_task_id (response_of rq d) = av_task_id d" "ir_capabilities (response_of rq d) = av_capabilities d"
        "ir_priority (response_of rq d) = av_priority d" "ir_reason_code (response_of rq d) = av_reason_code d"
        "ir_action (response_of rq d) = av_action d"
      using add by (auto simp: response_of_def or_int_def split: option.split)
    have "Target (kind_int (tg_kind t)) (tg_a t) (tg_b t) = Inr t" using wf by (simp add: Target_Inr)
    then have "task_from (response_of rq d) = (if av_task_id d = 0 then None
        else Some \<lparr>tk_id = av_task_id d, tk_caps = av_capabilities d, tk_location = t, tk_priority = av_priority d, tk_payload = None\<rparr>)"
      using assms unfolding task_from_def where_ rest
      by (auto simp: advice_ok_def Task_def bounded_int_def TASK_NONE_def CAP_MASK_BITS_def)
    then show ?thesis using add w code by (simp add: decode_action_def rest meant_def t_def)
  next
    case shed
    then show ?thesis
      using assms w code
      by (auto simp: decode_action_def meant_def response_of_def Let_def advice_ok_def disposition_stands split: option.split prod.split)
  next
    case drop
    then show ?thesis
      using assms w code
      by (auto simp: decode_action_def meant_def response_of_def Let_def advice_ok_def disposition_stands split: option.split prod.split)
  qed
qed

section \<open>An answer crosses the service\<close>

lemma assemble_counters [simp]: "assemble lb rq now (s\<lparr>tr_interpretations := n\<rparr>) = assemble lb rq now s"
  by (simp add: assemble_def log_slice_def)

lemma refused_is_refused: "\<not> ir_ok refused_response"
  by (simp add: refused_response_def)

lemma response_is_ok: "ir_ok (response_of rq d)"
  by (simp add: response_of_def Let_def split: option.split prod.split)

lemma interpret_meant:
  "interpret_anomaly (Response (snd (on_interpret lb rq reply now s))) ctx =
     (case (assemble lb rq now s, map_option (parse_decision lb) reply) of
        (Some _, Some (Inr d)) \<Rightarrow> (case meant d (ax_task ctx) of None \<Rightarrow> Raises | Some a \<Rightarrow> Answer a)
      | _ \<Rightarrow> Raises)"
proof (cases "assemble lb rq now s")
  case (Some e)
  show ?thesis
  proof (cases "map_option (parse_decision lb) reply")
    case r: (Some x)
    then show ?thesis
      using Some decode_meant parse_decision_ok response_is_ok refused_is_refused
      by (cases x) (fastforce simp: on_interpret_def interpret_anomaly_def responded_def Let_def)+
  qed (use Some refused_is_refused in \<open>simp add: on_interpret_def interpret_anomaly_def responded_def Let_def\<close>)
qed (use refused_is_refused in \<open>simp add: on_interpret_def interpret_anomaly_def responded_def Let_def\<close>)

lemma revision_meant:
  "interpret_note (Response (on_interpret_note lb reply)) =
     (case map_option (parse_revision lb) reply of
        Some (Inr d) \<Rightarrow>
          Answer (if rn_revision d = ''keep'' then KeepBid else if rn_revision d = ''withdraw'' then WithdrawBid else ReviseBid (rn_cost_delta d))
      | _ \<Rightarrow> Raises)"
proof -
  have ok: "rn_revision d \<in> set VALID_REVISIONS \<and> - COST_MAX \<le> rn_cost_delta d \<and> rn_cost_delta d \<le> COST_MAX"
    if "parse_revision lb r = Inr d" for r d
    using that by (auto simp: parse_revision_def cost_delta_def COST_MAX_def Let_def split: sum.splits if_splits option.splits)
  show ?thesis
    using ok words_stand(3)
    by (fastforce simp: interpret_note_def on_interpret_note_def responded_def decode_revision_def VALID_REVISIONS_def
        split: option.split sum.split)
qed

text \<open>
  C10: a model's answer reaches the coordinator as what the model said, or not at all. Whatever the model replies about an
  anomaly, the coordinator's client hands over the action the reply stands for, and no interpretation
  when the context cannot be gathered, the reply is refused by the agent, it is about a task and there is none, or
  it adds a task and names none. An answer the agent accepted is never changed on the way, and
  nothing else is ever refused by the client. The same holds of a reply about a note.
\<close>

theorem answers_cross_the_service_unchanged:
  "interpret_anomaly (Response (snd (on_interpret lb (anomaly_request_of ctx detail) reply now s))) ctx =
     (case (assemble lb (anomaly_request_of ctx detail) now s, map_option (parse_decision lb) reply) of
        (Some _, Some (Inr d)) \<Rightarrow> (case meant d (ax_task ctx) of None \<Rightarrow> Raises | Some a \<Rightarrow> Answer a)
      | _ \<Rightarrow> Raises) \<and>
   interpret_note (Response (on_interpret_note lb note_reply)) =
     (case map_option (parse_revision lb) note_reply of
        Some (Inr d) \<Rightarrow>
          Answer (if rn_revision d = ''keep'' then KeepBid else if rn_revision d = ''withdraw'' then WithdrawBid else ReviseBid (rn_cost_delta d))
      | _ \<Rightarrow> Raises)"
  by (intro conjI interpret_meant revision_meant)

section \<open>What is handed over can be carried out\<close>

lemma text_of_bytes: "utf8_encode (text_of t) = Some (encode_text t)"
proof -
  have "scalar (of_char c)" for c
    using nat_of_char_less_256 [of c] unfolding scalar_def by linarith
  then have "list_all scalar (map of_char t)" by (simp add: list_all_iff)
  then show ?thesis by (simp add: utf8_encode_def text_of_def encode_text_def)
qed

lemma notes_fit:
  assumes "n \<noteq> []" "int (length (encode_text n)) \<le> NOTE_MAX_BYTES" "0 < tid" "tid \<le> TASK_ID_MAX" "0 \<le> nid" "nid \<le> NOTE_ID_MAX"
  shows "\<exists>frames. split_note tid nid (text_of n) DEFAULT_MAX_PAYLOAD_BYTES MAX_NOTE_FRAGMENTS = Inr frames"
proof -
  have per: "text_bytes_per_fragment DEFAULT_MAX_PAYLOAD_BYTES = 41" by code_simp
  have "encode_text n \<noteq> []" using assms(1) text_of_bytes [of n] utf8_encode_Nil [of "text_of n"] by (auto simp: text_of_def)
  moreover have "length (note_chunks 41 (encode_text n)) \<le> 8"
    using assms(2) by (simp add: note_chunks_def NOTE_MAX_BYTES_value)
  ultimately show ?thesis
    using assms(3-6) by (simp add: split_note_def per text_of_bytes Let_def MAX_NOTE_FRAGMENTS_def)
qed

lemma meant_carried_out:
  assumes "meant d about = Some a" "advice_ok d" "\<forall>t. about = Some t \<longrightarrow> task_wf t"
  shows "task_wf (ac_task a) \<and> ac_reason_code a \<in> reason_int ` set all_reasons \<and>
     (\<forall>t code fallback n nid. a = ReDelegate t code fallback n \<longrightarrow> n \<noteq> [] \<longrightarrow> 0 \<le> nid \<longrightarrow> nid \<le> NOTE_ID_MAX \<longrightarrow>
        (\<exists>frames. split_note (tk_id t) nid n DEFAULT_MAX_PAYLOAD_BYTES MAX_NOTE_FRAGMENTS = Inr frames))"
proof -
  have wf: "task_wf (ac_task a)"
  proof (cases "av_action d = ''add_task''")
    case True
    define spot where "spot = (case av_target d of None \<Rightarrow> \<lparr>tg_kind = NONE, tg_a = 0, tg_b = 0\<rparr> | Some t \<Rightarrow> t)"
    have "target_wf spot"
      using assms(2) by (auto simp: spot_def advice_ok_def target_wf_def word_in_range_def TARGET_WORD_MIN_def TARGET_WORD_MAX_def split: option.split)
    moreover have "a = AddTask \<lparr>tk_id = av_task_id d, tk_caps = av_capabilities d, tk_location = spot, tk_priority = av_priority d, tk_payload = None\<rparr>
        (av_reason_code d)" "av_task_id d \<noteq> 0"
      using assms(1) True by (auto simp: meant_def spot_def split: if_splits)
    ultimately show ?thesis using assms(2) by (simp add: advice_ok_def task_wf_def TASK_NONE_def CAP_MASK_BITS_def)
  qed (use assms(1,3) in \<open>auto simp: meant_def split: if_splits option.splits\<close>)
  moreover have "\<exists>frames. split_note (tk_id t) nid n DEFAULT_MAX_PAYLOAD_BYTES MAX_NOTE_FRAGMENTS = Inr frames"
    if a: "a = ReDelegate t code fallback n" "n \<noteq> []" "0 \<le> nid" "nid \<le> NOTE_ID_MAX" for t code fallback n nid
  proof -
    have "n = text_of (av_note d)" using assms(1) a(1) by (auto simp: meant_def split: if_splits option.splits)
    then show ?thesis
      using notes_fit [of "av_note d" "tk_id t" nid] assms(2) a wf by (auto simp: advice_ok_def task_wf_def TASK_NONE_def text_of_def)
  qed
  moreover have "ac_reason_code a \<in> reason_int ` set all_reasons"
    using assms(1,2) by (auto simp: meant_def advice_ok_def split: if_splits option.splits)
  ultimately show ?thesis by blast
qed

text \<open>
  C39: what the coordinator is handed can be carried out. An action that comes back about a well-formed task is about a well-formed task,
  carries a reason the fleet has a word for, and its note, if it has one, splits into frames of the
  radio's default payload, whatever its number.
\<close>

theorem answers_can_be_carried_out:
  assumes "interpret_anomaly (Response (snd (on_interpret lb rq reply now s))) ctx = Answer a" and "\<forall>t. ax_task ctx = Some t \<longrightarrow> task_wf t"
  shows "task_wf (ac_task a) \<and> ac_reason_code a \<in> reason_int ` set all_reasons \<and>
     (\<forall>t code fallback n nid. a = ReDelegate t code fallback n \<longrightarrow> n \<noteq> [] \<longrightarrow> 0 \<le> nid \<longrightarrow> nid \<le> NOTE_ID_MAX \<longrightarrow>
        (\<exists>frames. split_note (tk_id t) nid n DEFAULT_MAX_PAYLOAD_BYTES MAX_NOTE_FRAGMENTS = Inr frames))"
proof -
  obtain d r where d: "parse_decision lb r = Inr d" "meant d (ax_task ctx) = Some a"
    using assms(1) unfolding interpret_meant by (auto split: option.splits sum.splits)
  then show ?thesis using meant_carried_out [OF d(2) parse_decision_ok [OF d(1)] assms(2)] by blast
qed

text \<open>A reply that sheds task 7, in a sentence.\<close>

definition shedding_reply :: string where
  "shedding_reply = ''Here is my decision: {...} as asked.''"

definition reading :: lib where
  "reading = \<lparr>lb_loads = (\<lambda>t. if t = ''{...}'' then Some (JObject [(''action'', JStr '' Re_Delegate ''), (''reason_code'', JStr ''battery_low''),
       (''note'', JStr ''wet ground '')]) else None), lb_dumps = (\<lambda>_. []), lb_show = (\<lambda>_. [])\<rparr>"

definition about_seven :: anomaly_context where
  "about_seven = \<lparr>ax_task = Some \<lparr>tk_id = 7, tk_caps = 129, tk_location = \<lparr>tg_kind = TREE, tg_a = 60, tg_b = 0\<rparr>, tk_priority = 100, tk_payload = None\<rparr>,
     ax_reason_code = 1, ax_peers = [], ax_battery = 80, ax_location = None, ax_at = 0\<rparr>"

theorem answers_can_be_carried_out_witness:
  "\<exists>frames. split_note 7 3 (text_of ''wet ground'') DEFAULT_MAX_PAYLOAD_BYTES MAX_NOTE_FRAGMENTS = Inr frames"
proof -
  define t where "t = the (ax_task about_seven)"
  have a: "interpret_anomaly (Response (snd (on_interpret reading (anomaly_request_of about_seven []) (Some shedding_reply) 0 triage_init))) about_seven =
      Answer (ReDelegate t 2 HOLD (text_of ''wet ground''))" unfolding t_def by code_simp
  have "task_wf t" "tk_id t = 7" "text_of ''wet ground'' \<noteq> []" "(3 :: int) \<le> NOTE_ID_MAX" unfolding t_def by code_simp+
  then show ?thesis using answers_can_be_carried_out [OF a] by (auto simp: t_def about_seven_def)
qed


end
