(* ===== verification/Triage_Runs.thy ===== *)
theory Triage_Runs
  imports Interpreters
begin

text \<open>Runs of the triage agent: the questions it puts to the model, and the verdicts that answer them.\<close>

section \<open>Events\<close>

datatype triage_event =
  Fault_Reported string | Verdict_Reached fields "string option" secs | Planner_Reported string | Mission_Aborted string
  | Mission_Seen string | Frame_Seen string | Line_Logged secs int string string secs | Asked anomaly_request "string option" secs

fun triage_step :: "lib \<Rightarrow> (string \<Rightarrow> xml option) \<Rightarrow> triage_event \<Rightarrow> triage \<Rightarrow> triage \<times> triage_out list" where
  "triage_step lb parse (Fault_Reported payload) s = on_fault lb payload s"
| "triage_step lb parse (Verdict_Reached ev reply now) s = route_fault lb parse ev reply now s"
| "triage_step lb parse (Planner_Reported payload) s = on_planner_status lb parse payload s"
| "triage_step lb parse (Mission_Aborted payload) s = on_abort lb parse payload s"
| "triage_step lb parse (Mission_Seen xml) s = (note_mission xml s, [])"
| "triage_step lb parse (Frame_Seen frame) s = (on_world_state frame s, [])"
| "triage_step lb parse (Line_Logged stamp level name msg now) s = (on_log stamp level name msg now s, [])"
| "triage_step lb parse (Asked rq reply now) s = (fst (on_interpret lb rq reply now s), [])"

fun questions :: "triage_out list \<Rightarrow> fields list" where
  "questions [] = []"
| "questions (Ask_Route ev # out) = ev # questions out"
| "questions (Route_Out r # out) = questions out"
| "questions (Infeasible c d f t # out) = questions out"

lemma questions_append [simp]: "questions (xs @ ys) = questions xs @ questions ys"
  by (induction xs rule: questions.induct) simp_all

fun answered :: "triage_event \<Rightarrow> fields list \<Rightarrow> fields list" where
  "answered (Verdict_Reached ev reply now) pending = remove1 ev pending"
| "answered _ pending = pending"

text \<open>
  The reachable states, with every question asked so far and those still open. A verdict is reached
  only where a question is open: the code starts a thread per question and nothing else calls \<^verbatim>\<open>_route_fault\<close>.
\<close>

inductive triage_reach :: "lib \<Rightarrow> (string \<Rightarrow> xml option) \<Rightarrow> triage \<Rightarrow> fields list \<Rightarrow> fields list \<Rightarrow> bool" for lb parse where
  start: "triage_reach lb parse triage_init [] []"
| step: "triage_reach lb parse s asked pending \<Longrightarrow> (\<forall>ev reply now. e = Verdict_Reached ev reply now \<longrightarrow> ev \<in> set pending) \<Longrightarrow>
    triage_step lb parse e s = (s', out) \<Longrightarrow>
    triage_reach lb parse s' (asked @ questions out) (answered e pending @ questions out)"

section \<open>The books of the questions\<close>

definition books_ok :: "lib \<Rightarrow> triage \<Rightarrow> fields list \<Rightarrow> fields list \<Rightarrow> bool" where
  "books_ok lb s asked pending \<longleftrightarrow>
     distinct (map (node_of lb) asked) \<and> distinct (map (node_of lb) pending) \<and> node_of lb ` set pending = tr_routing s \<and>
     dom (tr_routes s) \<inter> tr_routing s = {} \<and> dom (tr_routes s) \<union> tr_routing s = node_of lb ` set asked \<and>
     (\<forall>name r. tr_routes s name = Some r \<longrightarrow> rd_node r = name \<and> rt_route (rd_verdict r) \<in> set VALID_ROUTES)"

definition same_routes :: "triage \<Rightarrow> triage \<Rightarrow> bool" where
  "same_routes s s' \<longleftrightarrow> tr_routes s' = tr_routes s \<and> tr_routing s' = tr_routing s"

lemma and_escalate_routes: "same_routes (fst r) (fst (and_escalate lb parse d c r)) \<and> questions (snd (and_escalate lb parse d c r)) = questions (snd r)"
  by (auto simp: and_escalate_def escalate_def same_routes_def split: option.split sum.split)

lemma and_escalate_routes_iff [simp]:
  "tr_routes (fst (and_escalate lb parse d c r)) = tr_routes (fst r)" "tr_routing (fst (and_escalate lb parse d c r)) = tr_routing (fst r)"
  "questions (snd (and_escalate lb parse d c r)) = questions (snd r)"
  using and_escalate_routes [of r lb parse d c] by (auto simp: same_routes_def)

lemma quiet_step:
  assumes "triage_step lb parse e s = (s', out)" and "\<forall>p. e \<noteq> Fault_Reported p" and "\<forall>ev reply now. e \<noteq> Verdict_Reached ev reply now"
  shows "same_routes s s' \<and> questions out = []"
proof -
  have "same_routes s (fst (triage_step lb parse e s)) \<and> questions (snd (triage_step lb parse e s)) = []"
    using assms(2,3)
    by (cases e) (auto simp: same_routes_def on_planner_status_def on_abort_def remember_attempt_def note_mission_def on_world_state_def
        on_log_def on_interpret_def Let_def split: option.split sum.split)
  then show ?thesis using assms(1) by simp
qed

lemma parse_route_valid: "parse_route lb r = Inr d \<Longrightarrow> rt_route d \<in> set VALID_ROUTES"
  by (auto simp: parse_route_def Let_def split: sum.splits if_splits)

lemma verdict_valid:
  "rt_route (case decide_route lb parse ev reply now s of None \<Rightarrow> failed_route | Some d \<Rightarrow> d) \<in> set VALID_ROUTES"
proof -
  have "rt_route failed_route \<in> set VALID_ROUTES" by (simp add: failed_route_def VALID_ROUTES_def)
  then show ?thesis
    by (auto simp: decide_route_def parse_route_valid split: option.splits sum.splits)
qed

lemma route_fault_shape:
  obtains r rest where "route_fault lb parse ev reply now s = (fst (route_fault lb parse ev reply now s), Route_Out r # rest)"
    "rd_node r = node_of lb ev" "rt_route (rd_verdict r) \<in> set VALID_ROUTES"
    "tr_routes (fst (route_fault lb parse ev reply now s)) = (tr_routes s)(node_of lb ev \<mapsto> r)"
    "tr_routing (fst (route_fault lb parse ev reply now s)) = tr_routing s - {node_of lb ev}"
    "questions (Route_Out r # rest) = []"
proof -
  define d where "d = (case decide_route lb parse ev reply now s of None \<Rightarrow> failed_route | Some d \<Rightarrow> d)"
  define r where "r = \<lparr>rd_node = node_of lb ev, rd_timestamp = get_or ''timestamp_ms'' (JInt 0) ev, rd_at = now, rd_verdict = d\<rparr>"
  define s1 where "s1 = s\<lparr>tr_routes := (tr_routes s)(node_of lb ev \<mapsto> r), tr_routing := tr_routing s - {node_of lb ev}, tr_routed := tr_routed s + 1\<rparr>"
  define res where "res = (if rt_route d = ''escalate''
     then and_escalate lb parse (''triage routed the fault to the fleet: '' @ rt_rationale d) ''triage_route'' (s1, [Route_Out r])
     else (s1, [Route_Out r]))"
  have eq: "route_fault lb parse ev reply now s = res" by (simp add: route_fault_def Let_def d_def r_def s1_def res_def)
  have "\<exists>rest. snd res = Route_Out r # rest"
    by (auto simp: res_def and_escalate_def split: option.split)
  then obtain rest where rest: "snd res = Route_Out r # rest" by blast
  show thesis
  proof (rule that)
    show "route_fault lb parse ev reply now s = (fst (route_fault lb parse ev reply now s), Route_Out r # rest)"
      using rest eq by (metis prod.collapse)
    show "rt_route (rd_verdict r) \<in> set VALID_ROUTES" unfolding r_def d_def using verdict_valid by simp
    have "questions (snd res) = []" by (simp add: res_def)
    then show "questions (Route_Out r # rest) = []" using rest by simp
  qed (simp_all add: eq res_def r_def s1_def)
qed

lemma inj_on_remove1:
  assumes "distinct (map f xs)" "x \<in> set xs"
  shows "f ` set (remove1 x xs) = f ` set xs - {f x}" "distinct (map f (remove1 x xs))"
proof -
  have d: "distinct xs" "inj_on f (set xs)" using assms(1) by (auto simp: distinct_map)
  have r: "set (remove1 x xs) = set xs - {x}" by (rule set_remove1_eq [OF d(1)])
  show "f ` set (remove1 x xs) = f ` set xs - {f x}"
    unfolding r using inj_on_image_set_diff [OF d(2) Diff_subset, of "{x}"] assms(2) by simp
  show "distinct (map f (remove1 x xs))"
    using distinct_remove1 [OF d(1)] inj_on_subset [OF d(2) set_remove1_subset] by (simp add: distinct_map)
qed

lemma fault_step:
  assumes "books_ok lb s asked pending" "on_fault lb payload s = (s', out)"
  shows "books_ok lb s' (asked @ questions out) (pending @ questions out)"
proof -
  have eq: "s' = fst (on_fault lb payload s)" "out = snd (on_fault lb payload s)" using assms(2) by simp_all
  have "same_routes s s' \<and> questions out = [] \<or>
    (\<exists>ev. tr_routes s (node_of lb ev) = None \<and> node_of lb ev \<notin> tr_routing s \<and> questions out = [ev] \<and>
      tr_routes s' = tr_routes s \<and> tr_routing s' = insert (node_of lb ev) (tr_routing s))"
  proof (cases "decoded lb payload")
    case None
    then show ?thesis unfolding eq by (simp add: on_fault_def same_routes_def)
  next
    case (Some ev)
    show ?thesis
    proof (cases "status_of lb ev = ''FAILURE'' \<and> \<not> whole_tree lb ev \<and> tr_routes s (node_of lb ev) = None \<and> node_of lb ev \<notin> tr_routing s")
      case True
      then show ?thesis unfolding eq using Some by (intro disjI2 exI [of _ ev]) (simp add: on_fault_def Let_def)
    next
      case False
      then show ?thesis unfolding eq using Some
        by (intro disjI1) (auto simp: on_fault_def Let_def same_routes_def split: option.split)
    qed
  qed
  then consider (quiet) "same_routes s s'" "questions out = []"
    | (ask) ev where "tr_routes s (node_of lb ev) = None" "node_of lb ev \<notin> tr_routing s" "questions out = [ev]"
        "tr_routes s' = tr_routes s" "tr_routing s' = insert (node_of lb ev) (tr_routing s)"
    by blast
  then show ?thesis
  proof cases
    case quiet
    then show ?thesis using assms(1) by (simp add: books_ok_def same_routes_def)
  next
    case ask
    have b: "distinct (map (node_of lb) asked)" "distinct (map (node_of lb) pending)" "node_of lb ` set pending = tr_routing s"
        "dom (tr_routes s) \<inter> tr_routing s = {}" "dom (tr_routes s) \<union> tr_routing s = node_of lb ` set asked"
        "\<forall>name r. tr_routes s name = Some r \<longrightarrow> rd_node r = name \<and> rt_route (rd_verdict r) \<in> set VALID_ROUTES"
      using assms(1) by (simp_all add: books_ok_def)
    have new: "node_of lb ev \<notin> dom (tr_routes s)" "node_of lb ev \<notin> node_of lb ` set asked" "node_of lb ev \<notin> node_of lb ` set pending"
    proof -
      show d: "node_of lb ev \<notin> dom (tr_routes s)" using ask(1) by (simp add: domIff)
      then show "node_of lb ev \<notin> node_of lb ` set asked" using ask(2) b(5) by blast
      show "node_of lb ev \<notin> node_of lb ` set pending" using ask(2) b(3) by simp
    qed
    show ?thesis unfolding books_ok_def ask(3,4,5)
    proof (intro conjI)
      show "distinct (map (node_of lb) (asked @ [ev]))" "distinct (map (node_of lb) (pending @ [ev]))" using b(1,2) new(2,3) by simp_all
      show "node_of lb ` set (pending @ [ev]) = insert (node_of lb ev) (tr_routing s)" using b(3) by auto
      show "dom (tr_routes s) \<inter> insert (node_of lb ev) (tr_routing s) = {}" using b(4) new(1) by blast
      show "dom (tr_routes s) \<union> insert (node_of lb ev) (tr_routing s) = node_of lb ` set (asked @ [ev])" using b(5) by auto
    qed (rule b(6))
  qed
qed

lemma verdict_step:
  assumes "books_ok lb s asked pending" "ev \<in> set pending" "route_fault lb parse ev reply now s = (s', out)"
  shows "books_ok lb s' (asked @ questions out) (remove1 ev pending @ questions out)"
proof -
  obtain r rest where r: "route_fault lb parse ev reply now s = (fst (route_fault lb parse ev reply now s), Route_Out r # rest)"
    "rd_node r = node_of lb ev" "rt_route (rd_verdict r) \<in> set VALID_ROUTES"
    "tr_routes (fst (route_fault lb parse ev reply now s)) = (tr_routes s)(node_of lb ev \<mapsto> r)"
    "tr_routing (fst (route_fault lb parse ev reply now s)) = tr_routing s - {node_of lb ev}"
    "questions (Route_Out r # rest) = []" by (rule route_fault_shape)
  have s': "tr_routes s' = (tr_routes s)(node_of lb ev \<mapsto> r)" "tr_routing s' = tr_routing s - {node_of lb ev}" "questions out = []"
    using r assms(3) by auto
  have b: "distinct (map (node_of lb) asked)" "distinct (map (node_of lb) pending)" "node_of lb ` set pending = tr_routing s"
      "dom (tr_routes s) \<inter> tr_routing s = {}" "dom (tr_routes s) \<union> tr_routing s = node_of lb ` set asked"
      "\<forall>name r. tr_routes s name = Some r \<longrightarrow> rd_node r = name \<and> rt_route (rd_verdict r) \<in> set VALID_ROUTES"
    using assms(1) by (simp_all add: books_ok_def)
  have was: "node_of lb ev \<in> tr_routing s" using assms(2) b(3) by blast
  note one = inj_on_remove1 [OF b(2) assms(2)]
  show ?thesis unfolding books_ok_def s' append_Nil2
  proof (intro conjI)
    show "node_of lb ` set (remove1 ev pending) = tr_routing s - {node_of lb ev}" using one(1) b(3) by simp
    show "dom ((tr_routes s)(node_of lb ev \<mapsto> r)) \<inter> (tr_routing s - {node_of lb ev}) = {}" using b(4) by auto
    show "dom ((tr_routes s)(node_of lb ev \<mapsto> r)) \<union> (tr_routing s - {node_of lb ev}) = node_of lb ` set asked" using b(5) was by auto
    show "\<forall>name r'. ((tr_routes s)(node_of lb ev \<mapsto> r)) name = Some r' \<longrightarrow> rd_node r' = name \<and> rt_route (rd_verdict r') \<in> set VALID_ROUTES"
      using b(6) r(2,3) by simp
  qed (rule b(1) one(2))+
qed

lemma reach_books: "triage_reach lb parse s asked pending \<Longrightarrow> books_ok lb s asked pending"
proof (induction rule: triage_reach.induct)
  case start
  then show ?case by (simp add: books_ok_def triage_init_def)
next
  case (step s asked pending e s' out)
  show ?case
  proof (cases "\<exists>p. e = Fault_Reported p")
    case True
    then show ?thesis using fault_step [OF step.IH] step.hyps by auto
  next
    case no_fault: False
    show ?thesis
    proof (cases "\<exists>ev reply now. e = Verdict_Reached ev reply now")
      case True
      then show ?thesis using verdict_step [OF step.IH] step.hyps by auto
    next
      case False
      then have "same_routes s s' \<and> questions out = []" using quiet_step [OF step.hyps(3)] no_fault by blast
      moreover have "answered e pending = pending" using False by (cases e) auto
      ultimately show ?thesis using step.IH by (simp add: books_ok_def same_routes_def)
    qed
  qed
qed

text \<open>
  C12: the model is asked about a leaf once, and every failure of a leaf has a verdict or waits for one. In every run no two
  questions are about the same leaf; and when a leaf fails, its verdict goes out at once if there is
  one (to repair or to escalate, and nothing else), and otherwise a question about it is open.
\<close>

theorem one_question_per_leaf:
  assumes "triage_reach lb parse s asked pending"
    and "decoded lb payload = Some ev" and "status_of lb ev = ''FAILURE''" and "\<not> whole_tree lb ev"
  shows "distinct (map (node_of lb) asked) \<and>
     (case tr_routes s (node_of lb ev) of
        Some r \<Rightarrow> snd (on_fault lb payload s) = [Route_Out r] \<and> rd_node r = node_of lb ev \<and> rt_route (rd_verdict r) \<in> {''repair'', ''escalate''}
      | None \<Rightarrow> node_of lb ev \<in> node_of lb ` set (pending @ questions (snd (on_fault lb payload s))))"
proof -
  have b: "books_ok lb s asked pending" by (rule reach_books [OF assms(1)])
  show ?thesis
  proof (cases "tr_routes s (node_of lb ev)")
    case None
    then show ?thesis using b assms(2-4) by (auto simp: books_ok_def on_fault_def Let_def)
  next
    case (Some r)
    then show ?thesis using b assms(2-4) by (auto simp: books_ok_def on_fault_def Let_def VALID_ROUTES_def)
  qed
qed

definition sampling_failed :: fields where
  "sampling_failed = [(''node'', JStr ''sample_10''), (''status'', JStr ''failure''), (''timestamp_ms'', JInt 5000)]"

definition reports :: lib where
  "reports = \<lparr>lb_loads = (\<lambda>t. if t = ''f'' then Some (JObject sampling_failed)
      else if t = ''{e}'' then Some (JObject [(''route'', JStr ''escalate''), (''rationale'', JStr ''camera'')]) else None),
    lb_dumps = (\<lambda>_. []), lb_show = (\<lambda>_. [])\<rparr>"

theorem one_question_per_leaf_witness:
  "\<exists>s. tr_routing s = {} \<and> snd (on_fault reports ''f'' s) \<noteq> [] \<and> distinct (map (node_of reports) [sampling_failed])"
proof -
  define s1 where "s1 = fst (on_fault reports ''f'' triage_init)"
  define s2 where "s2 = fst (route_fault reports (\<lambda>_. None) sampling_failed (Some ''{e}'') 6 s1)"
  have o1: "snd (on_fault reports ''f'' triage_init) = [Ask_Route sampling_failed]" by code_simp
  then have "triage_step reports (\<lambda>_. None) (Fault_Reported ''f'') triage_init = (s1, [Ask_Route sampling_failed])"
    by (simp add: s1_def prod_eq_iff)
  from triage_reach.step [OF triage_reach.start _ this]
  have r1: "triage_reach reports (\<lambda>_. None) s1 [sampling_failed] [sampling_failed]" by simp
  have "questions (snd (route_fault reports (\<lambda>_. None) sampling_failed (Some ''{e}'') 6 s1)) = []"
    by (metis route_fault_shape snd_conv)
  then obtain out where "triage_step reports (\<lambda>_. None) (Verdict_Reached sampling_failed (Some ''{e}'') 6) s1 = (s2, out)" "questions out = []"
    by (simp add: s2_def prod_eq_iff)
  from triage_reach.step [OF r1 _ this(1)] this(2)
  have r2: "triage_reach reports (\<lambda>_. None) s2 [sampling_failed] []" by simp
  have d: "decoded reports ''f'' = Some sampling_failed" by (simp add: decoded_def reports_def)
  have st: "status_of reports sampling_failed = ''FAILURE''" "\<not> whole_tree reports sampling_failed" by code_simp+
  have n: "tr_routes s2 (node_of reports sampling_failed) \<noteq> None"
    by (metis (no_types, lifting) route_fault_shape s2_def fun_upd_same option.distinct(1))
  have "tr_routing s2 = {}" using reach_books [OF r2] by (simp add: books_ok_def)
  then show ?thesis
    using one_question_per_leaf [OF r2 d st] n by (auto intro!: exI [of _ s2])
qed

end
