(* ===== verification/Planner.thy ===== *)
theory Planner
  imports Triage
begin

text \<open>
  The mission planner (\<^verbatim>\<open>replanning/mission_planner_node.py\<close>): when a planning session opens, what the model is
  shown, when its answer is a candidate, how often it may try again and when it gives up. Each callback is one
  operation on the state, and so is each session, which in the code is a thread; what a thread is started
  with is an output. \<open>ask\<close> answers for the model: \<open>None\<close> when the call raised. Where an operation raises, what it did before stands.
  Log lines, the status readout, the text of the prompts and of the summaries are left out.
\<close>

section \<open>State\<close>

definition FAILURE_CONTEXT_SEC :: secs where "FAILURE_CONTEXT_SEC = 3"
definition MAX_RETRIES :: nat where "MAX_RETRIES = 3"
definition MAX_REJECTION_RETRIES :: nat where "MAX_REJECTION_RETRIES = 3"
definition COMPRESS_AFTER :: nat where "COMPRESS_AFTER = 3"

datatype template = Replan_User | Replan_Request_User

datatype edit_change = Changed_Line nat string | Line_Count nat nat

datatype attempt = Submitted | Rejected_By_Arbiter json

record memory_entry =
  me_event :: fields
  me_summary :: "edit_change list"
  me_outcome :: attempt

record constraint =
  fc_node :: json
  fc_reason :: string
  fc_timestamp :: json

text \<open>What a session is started with besides its event and log excerpt: template, extra fields, triage's guidance.\<close>

record session_call =
  sc_template :: template
  sc_extra :: fields
  sc_guidance :: string

definition default_call :: session_call where
  "default_call = \<lparr>sc_template = Replan_User, sc_extra = [], sc_guidance = []\<rparr>"

text \<open>A give-up is remembered by its cause, and by its node when retries are counted per node.\<close>

type_synonym gave_up_key = "string \<times> json option"

record planner =
  pl_mission :: "string option"
  pl_logs :: "log_entry list"
  pl_memory :: "memory_entry list"
  pl_frames :: "json list"
  pl_orchard :: "orchard option"
  pl_completed :: "string list"
  pl_succeeded :: "json list"
  pl_constraints :: "constraint list"
  pl_sessions :: nat
  pl_retries :: nat
  pl_event :: "fields option"
  pl_reason :: "json option"
  pl_aborted :: bool
  pl_call :: session_call
  pl_gave_up :: "gave_up_key list"
  pl_routes :: "string \<rightharpoonup> fields"

definition planner_init :: planner where
  "planner_init = \<lparr>pl_mission = None, pl_logs = [], pl_memory = [], pl_frames = [], pl_orchard = None, pl_completed = [], pl_succeeded = [],
     pl_constraints = [], pl_sessions = 0, pl_retries = 0, pl_event = None, pl_reason = None, pl_aborted = False, pl_call = default_call,
     pl_gave_up = [], pl_routes = Map.empty\<rparr>"

text \<open>What the model is shown.\<close>

record prompt =
  pp_template :: template
  pp_rejection :: "json option"
  pp_event :: fields
  pp_mission :: string
  pp_frames :: "json list"
  pp_logs :: "log_entry list"
  pp_memory :: "memory_entry list"
  pp_orchard_facts :: "(int \<times> int option) list"
  pp_aisles :: "int list"
  pp_completed :: "string list"
  pp_succeeded :: "json list"
  pp_constraints :: "constraint list"
  pp_guidance :: string
  pp_extra :: fields

datatype planner_out =
  Start_Repair fields "log_entry list" | Start_Session fields "log_entry list" session_call
  | Submit string | Gave_Up string json string

section \<open>Keeping up with the mission\<close>

definition track_mission :: "string \<Rightarrow> planner \<Rightarrow> planner" where
  "track_mission xml s = s\<lparr>pl_mission := Some xml\<rparr>"

definition keep_frame :: "json \<Rightarrow> planner \<Rightarrow> planner" where
  "keep_frame frame s = s\<lparr>pl_frames := newest WORLD_STATE_FRAMES (pl_frames s @ [frame])\<rparr>"

text \<open>The map is replaced by whatever the document reads as; a text that is no JSON reads as \<open>JNull\<close>.\<close>

definition track_orchard :: "json \<Rightarrow> planner \<Rightarrow> planner" where
  "track_orchard payload s = (case parse_orchard payload of Inl _ \<Rightarrow> s | Inr m \<Rightarrow> s\<lparr>pl_orchard := Some m\<rparr>)"

definition keep_log :: "secs \<Rightarrow> int \<Rightarrow> string \<Rightarrow> string \<Rightarrow> secs \<Rightarrow> planner \<Rightarrow> planner" where
  "keep_log stamp level name msg now s =
     (if contains ''BTStatusPublisher'' msg then s
      else s\<lparr>pl_logs := filter (\<lambda>e. now - le_stamp e < LOG_WINDOW_SEC)
        (pl_logs s @ [\<lparr>le_stamp = stamp, le_level = level_name level, le_name = name, le_msg = plain msg\<rparr>])\<rparr>)"

section \<open>Giving up\<close>

definition report_gave_up :: "string \<Rightarrow> json \<Rightarrow> string \<Rightarrow> planner \<Rightarrow> planner \<times> planner_out list" where
  "report_gave_up cause node reason s =
     (let key = (cause, if cause = ''max_retries_exhausted'' then None else Some node)
      in if key \<in> set (pl_gave_up s) then (s, [])
         else (s\<lparr>pl_gave_up := pl_gave_up s @ [key]\<rparr>, [Gave_Up cause node reason]))"

section \<open>A session\<close>

fun line_changes :: "nat \<Rightarrow> string list \<Rightarrow> string list \<Rightarrow> edit_change list" where
  "line_changes n (a # as) (b # bs) =
     (if strip a \<noteq> strip b then [Changed_Line n (take 80 (strip b))] else []) @ line_changes (n + 1) as bs"
| "line_changes n _ _ = []"

definition summarize_edit :: "string \<Rightarrow> string \<Rightarrow> edit_change list" where
  "summarize_edit original edited =
     (let as = splitlines original; bs = splitlines edited
      in take 3 (line_changes 1 as bs @ (if length as \<noteq> length bs then [Line_Count (length as) (length bs)] else [])))"

definition event_node :: "fields \<Rightarrow> json" where
  "event_node ev = get_or ''node'' JNull ev"

text \<open>A different node is a new failure and starts its retries afresh.\<close>

definition begin_session :: "fields \<Rightarrow> session_call \<Rightarrow> planner \<Rightarrow> planner" where
  "begin_session ev call s =
     (let s1 = (case pl_event s of
            Some prev \<Rightarrow> if event_node prev = event_node ev then s else s\<lparr>pl_retries := 0, pl_reason := None\<rparr>
          | None \<Rightarrow> s\<lparr>pl_retries := 0, pl_reason := None\<rparr>)
      in s1\<lparr>pl_event := Some ev, pl_call := call\<rparr>)"

definition xsd_validate :: "env \<Rightarrow> bool \<Rightarrow> string \<Rightarrow> bool" where
  "xsd_validate su loaded xml =
     (if \<not> loaded then True else case su_parse su xml of None \<Rightarrow> False | Some doc \<Rightarrow> su_valid su doc)"

text \<open>The plan without the finished work: \<open>None\<close> when reading it raises, \<open>Some None\<close> when nothing is left of it.\<close>

definition pruned_plan :: "env \<Rightarrow> string \<Rightarrow> planner \<Rightarrow> (string \<times> string list) option option" where
  "pruned_plan su xml s =
     (case su_parse su xml of
        None \<Rightarrow> Some (Some (xml, []))
      | Some doc \<Rightarrow>
          (case prune_completed doc (pl_completed s) (pl_orchard s) of
             None \<Rightarrow> None
           | Some pruned \<Rightarrow>
               Some (if actions_in pruned = [] then None
                     else Some (su_print su xml pruned,
                       sort (remdups (map (\<lambda>e. strip (attr_or_empty ''id'' e))
                         (filter (\<lambda>e. xtag e = Some ''MoveToTreeID'' \<and> attr_or_empty ''id'' e \<noteq> []) (actions_in pruned))))))))"

definition add_constraint :: "lib \<Rightarrow> fields \<Rightarrow> planner \<Rightarrow> planner" where
  "add_constraint lb ev s =
     (let reason = str_or_empty lb (get_or ''reason'' JNull ev);
          stamp = get_or ''timestamp_ms'' JNull ev
      in if reason \<noteq> [] \<and> (event_node ev, stamp) \<notin> set (map (\<lambda>c. (fc_node c, fc_timestamp c)) (pl_constraints s))
         then s\<lparr>pl_constraints := pl_constraints s @ [\<lparr>fc_node = event_node ev, fc_reason = reason, fc_timestamp = stamp\<rparr>]\<rparr> else s)"

definition prompt_of :: "fields \<Rightarrow> log_entry list \<Rightarrow> session_call \<Rightarrow> string \<Rightarrow> string list \<Rightarrow> constraint list \<Rightarrow> planner \<Rightarrow> prompt" where
  "prompt_of ev logs call pruned trees prior s =
     (let known = (case pl_orchard s of None \<Rightarrow> [] | Some m \<Rightarrow> m)
      in \<lparr>pp_template = sc_template call, pp_rejection = pl_reason s, pp_event = ev, pp_mission = pruned, pp_frames = pl_frames s, pp_logs = logs,
          pp_memory = newest COMPRESS_AFTER (filter (\<lambda>m. event_node (me_event m) = get_or ''node'' (JStr ''unknown'') ev) (pl_memory s)),
          pp_orchard_facts = (if known = [] then [] else facts_for_trees known trees), pp_aisles = sorted_list_of_set (aisles known),
          pp_completed = sort (pl_completed s), pp_succeeded = pl_succeeded s, pp_constraints = prior,
          pp_guidance = sc_guidance call, pp_extra = sc_extra call\<rparr>)"

definition submit :: "fields \<Rightarrow> string \<Rightarrow> string \<Rightarrow> planner \<Rightarrow> planner \<times> planner_out list" where
  "submit ev shown edited s =
     (s\<lparr>pl_memory := pl_memory s @ [\<lparr>me_event = ev, me_summary = summarize_edit shown edited, me_outcome = Submitted\<rparr>],
        pl_sessions := pl_sessions s + 1\<rparr>, [Submit edited])"

definition run_planner ::
  "env \<Rightarrow> lib \<Rightarrow> bool \<Rightarrow> (prompt \<Rightarrow> string option) \<Rightarrow> fields \<Rightarrow> log_entry list \<Rightarrow> session_call \<Rightarrow> planner \<Rightarrow> planner \<times> planner_out list" where
  "run_planner su lb loaded ask ev logs call s =
     (if pl_aborted s then (s, [])
      else case pl_mission s of
        None \<Rightarrow> (s, [])
      | Some xml \<Rightarrow>
          if pl_sessions s \<ge> MAX_RETRIES then
            report_gave_up ''max_retries_exhausted'' (event_node ev) ''reached MAX_RETRIES (3) planning sessions without a plan that runs'' s
          else
            let s1 = begin_session ev call s
            in case pruned_plan su xml s1 of
                 Some (Some (pruned, trees)) \<Rightarrow>
                   let s2 = add_constraint lb ev s1
                   in (case map_option strip_code_fence (ask (prompt_of ev logs call pruned trees (pl_constraints s1) s2)) of
                         None \<Rightarrow> (s2, [])
                       | Some edited \<Rightarrow> if \<not> xsd_validate su loaded edited then (s2, []) else submit ev pruned edited s2)
               | _ \<Rightarrow> (s1, []))"

section \<open>Why a session opens\<close>

definition leaf_success :: "env \<Rightarrow> fields \<Rightarrow> planner \<Rightarrow> planner" where
  "leaf_success su ev s =
     (let name = event_node ev
      in if falsy name \<or> name = JStr ''<tree>'' then s
         else
           let s1 = (if name \<in> set (pl_succeeded s) then s else s\<lparr>pl_succeeded := pl_succeeded s @ [name]\<rparr>)
           in case Option.bind (pl_mission s) (su_parse su) of
                None \<Rightarrow> s1
              | Some doc \<Rightarrow>
                  (case (sample_leaf_trees doc (pl_orchard s), name) of
                     (Some trees, JStr n) \<Rightarrow>
                       (case map_of trees n of
                          None \<Rightarrow> s1
                        | Some t \<Rightarrow> s1\<lparr>pl_completed := List.insert t (pl_completed s1)\<rparr>)
                   | _ \<Rightarrow> s1))"

text \<open>\<^verbatim>\<open>event.get("timestamp_ms", 0) / 1000.0\<close>: a text is no number here.\<close>

definition event_time :: "fields \<Rightarrow> secs option" where
  "event_time ev =
     (case get_or ''timestamp_ms'' (JInt 0) ev of
        JInt i \<Rightarrow> Some (of_int i / 1000) | JBool b \<Rightarrow> Some ((if b then 1 else 0) / 1000) | JFloat x \<Rightarrow> Some (x / 1000) | _ \<Rightarrow> None)"

definition on_bt_failure :: "env \<Rightarrow> lib \<Rightarrow> string \<Rightarrow> planner \<Rightarrow> planner \<times> planner_out list" where
  "on_bt_failure su lb payload s =
     (if pl_aborted s then (s, [])
      else case decoded lb payload of
        None \<Rightarrow> (s, [])
      | Some ev \<Rightarrow>
          if status_of lb ev = ''SUCCESS'' then (leaf_success su ev s, [])
          else if status_of lb ev \<noteq> ''FAILURE'' then (s, [])
          else case event_time ev of
            None \<Rightarrow> (s, [])
          | Some t \<Rightarrow>
              (s, [Start_Repair ev (filter (\<lambda>e. t - FAILURE_CONTEXT_SEC \<le> le_stamp e \<and> le_stamp e \<le> t + FAILURE_CONTEXT_SEC) (pl_logs s))]))"

definition on_fault_route :: "lib \<Rightarrow> string \<Rightarrow> planner \<Rightarrow> planner" where
  "on_fault_route lb payload s =
     (case decoded lb payload of
        None \<Rightarrow> s
      | Some r \<Rightarrow> if node_of lb r = [] then s else s\<lparr>pl_routes := (pl_routes s)(node_of lb r \<mapsto> r)\<rparr>)"

text \<open>
  The wait for a verdict ends when there is one or when it has lasted \<^verbatim>\<open>ROUTE_TIMEOUT_SEC\<close>; the operation stands for
  what happens then.
\<close>

definition awaited_route :: "string \<Rightarrow> planner \<Rightarrow> fields" where
  "awaited_route name s = (case pl_routes s name of None \<Rightarrow> [(''route'', JStr ''repair'')] | Some r \<Rightarrow> r)"

definition repair_if_routed ::
  "env \<Rightarrow> lib \<Rightarrow> bool \<Rightarrow> (prompt \<Rightarrow> string option) \<Rightarrow> fields \<Rightarrow> log_entry list \<Rightarrow> planner \<Rightarrow> planner \<times> planner_out list" where
  "repair_if_routed su lb loaded ask ev logs s =
     (let route = (if whole_tree lb ev then [(''route'', JStr ''repair'')] else awaited_route (node_of lb ev) s)
      in if py_str lb (get_or ''route'' JNull route) = ''escalate'' then (s, [])
         else run_planner su lb loaded ask ev logs
           (default_call\<lparr>sc_guidance := str_or_empty lb (get_or ''guidance'' JNull route)\<rparr>) s)"

definition on_replan_request :: "lib \<Rightarrow> string \<Rightarrow> planner \<Rightarrow> planner \<times> planner_out list" where
  "on_replan_request lb payload s =
     (if pl_aborted s then (s, [])
      else case decoded lb payload of
        None \<Rightarrow> (s, [])
      | Some rq \<Rightarrow>
          let cause = py_str lb (get_or ''cause'' (JStr ''workload_changed'') rq);
              ev = [(''node'', JStr (cause @ '':'' @ py_str lb (get_or ''task_id'' JNull rq))), (''reason'', JStr cause),
                    (''timestamp_ms'', get_or ''timestamp_ms'' (JInt 0) rq)]
          in (s\<lparr>pl_sessions := 0, pl_gave_up := [], pl_retries := 0, pl_reason := None, pl_event := None\<rparr>,
              [Start_Session ev [] \<lparr>sc_template = Replan_Request_User, sc_extra = [(''request'', JObject rq)], sc_guidance = []\<rparr>]))"

definition correct_last :: "json \<Rightarrow> memory_entry list \<Rightarrow> memory_entry list" where
  "correct_last reason ms = (if ms = [] then [] else butlast ms @ [(last ms)\<lparr>me_outcome := Rejected_By_Arbiter reason\<rparr>])"

definition on_rejection :: "lib \<Rightarrow> string \<Rightarrow> planner \<Rightarrow> planner \<times> planner_out list" where
  "on_rejection lb payload s =
     (case decoded lb payload of
        None \<Rightarrow> (s, [])
      | Some rejection \<Rightarrow>
          let reason = get_or ''reason'' (JStr ''unknown'') rejection;
              s1 = s\<lparr>pl_memory := correct_last reason (pl_memory s)\<rparr>
          in case pl_event s1 of
               None \<Rightarrow> (s1, [])
             | Some ev \<Rightarrow>
                 if pl_aborted s1 then (s1, [])
                 else if pl_retries s1 \<ge> MAX_REJECTION_RETRIES
                 then report_gave_up ''rejection_retries_exhausted'' (event_node ev) (''gave up after 3 rejections: '' @ py_str lb reason) s1
                 else (s1\<lparr>pl_retries := pl_retries s1 + 1, pl_reason := Some reason\<rparr>, [Start_Session ev [] (pl_call s1)]))"

text \<open>A payload that is no JSON still aborts; JSON that is no object raises first.\<close>

definition on_mission_abort :: "lib \<Rightarrow> string \<Rightarrow> planner \<Rightarrow> planner" where
  "on_mission_abort lb payload s =
     (case lb_loads lb payload of
        None \<Rightarrow> s\<lparr>pl_event := None, pl_retries := 0, pl_aborted := True\<rparr>
      | Some (JObject _) \<Rightarrow> s\<lparr>pl_event := None, pl_retries := 0, pl_aborted := True\<rparr>
      | Some _ \<Rightarrow> s)"

end
