(* ===== verification/Planner_Runs.thy ===== *)
theory Planner_Runs
  imports Planner Arbiter_Inv
begin

text \<open>Runs of the mission planner: how many candidates it may publish, what it says when it may publish no more, and what comes of a session.\<close>

section \<open>Events\<close>

datatype planner_event =
  Plan_Seen string | Frame_Kept json | Map_Seen json | Line_Kept secs int string string secs | Tree_Status string | Route_Told string
  | Repair "prompt \<Rightarrow> string option" fields "log_entry list" | Session "prompt \<Rightarrow> string option" fields "log_entry list" session_call
  | Workload_Changed string | Refused_By_Arbiter string | Told_To_Stop string

fun planner_step :: "env \<Rightarrow> lib \<Rightarrow> bool \<Rightarrow> planner \<Rightarrow> planner_event \<Rightarrow> planner \<times> planner_out list" where
  "planner_step su lb loaded s (Plan_Seen xml) = (track_mission xml s, [])"
| "planner_step su lb loaded s (Frame_Kept f) = (keep_frame f s, [])"
| "planner_step su lb loaded s (Map_Seen j) = (track_orchard j s, [])"
| "planner_step su lb loaded s (Line_Kept stamp level name msg now) = (keep_log stamp level name msg now s, [])"
| "planner_step su lb loaded s (Tree_Status p) = on_bt_failure su lb p s"
| "planner_step su lb loaded s (Route_Told p) = (on_fault_route lb p s, [])"
| "planner_step su lb loaded s (Repair ask ev logs) = repair_if_routed su lb loaded ask ev logs s"
| "planner_step su lb loaded s (Session ask ev logs call) = run_planner su lb loaded ask ev logs call s"
| "planner_step su lb loaded s (Workload_Changed p) = on_replan_request lb p s"
| "planner_step su lb loaded s (Refused_By_Arbiter p) = on_rejection lb p s"
| "planner_step su lb loaded s (Told_To_Stop p) = (on_mission_abort lb p s, [])"

definition planner_run :: "env \<Rightarrow> lib \<Rightarrow> bool \<Rightarrow> planner \<Rightarrow> planner_event list \<Rightarrow> planner" where
  "planner_run su lb loaded s es = run (\<lambda>s e. fst (planner_step su lb loaded s e)) s es"

definition said :: "env \<Rightarrow> lib \<Rightarrow> bool \<Rightarrow> planner \<Rightarrow> planner_event list \<Rightarrow> planner_out list" where
  "said su lb loaded s es = emits (\<lambda>s e. fst (planner_step su lb loaded s e)) (\<lambda>s e. snd (planner_step su lb loaded s e)) s es"

lemma said_simps [simp]:
  "said su lb loaded s [] = []"
  "said su lb loaded s (e # es) = snd (planner_step su lb loaded s e) @ said su lb loaded (fst (planner_step su lb loaded s e)) es"
  by (simp_all add: said_def)

text \<open>The candidates and the give-ups among what was said; a give-up by what it is remembered by.\<close>

definition candidates :: "planner_out list \<Rightarrow> string list" where
  "candidates out = List.map_filter (\<lambda>x. case x of Submit c \<Rightarrow> Some c | _ \<Rightarrow> None) out"

definition give_ups :: "planner_out list \<Rightarrow> gave_up_key list" where
  "give_ups out = List.map_filter (\<lambda>x. case x of
     Gave_Up cause node _ \<Rightarrow> Some (cause, if cause = ''max_retries_exhausted'' then None else Some node) | _ \<Rightarrow> None) out"

lemma map_filter_append: "List.map_filter f (xs @ ys) = List.map_filter f xs @ List.map_filter f ys"
  by (simp add: List.map_filter_def)

lemma out_append [simp]: "candidates (xs @ ys) = candidates xs @ candidates ys" "give_ups (xs @ ys) = give_ups xs @ give_ups ys"
  by (simp_all add: candidates_def give_ups_def map_filter_append)

lemma out_simps [simp]:
  "candidates [] = []" "candidates [Submit c] = [c]" "candidates [Start_Repair ev logs] = []" "candidates [Start_Session ev logs call] = []"
  "candidates [Gave_Up cause node reason] = []" "give_ups [] = []" "give_ups [Submit c] = []" "give_ups [Start_Repair ev logs] = []"
  "give_ups [Start_Session ev logs call] = []"
  "give_ups [Gave_Up cause node reason] = [(cause, if cause = ''max_retries_exhausted'' then None else Some node)]"
  by (simp_all add: candidates_def give_ups_def map_filter_simps)

section \<open>The ration\<close>

text \<open>What one step does to the books: sessions count the candidates, and a give-up is remembered and new.\<close>

definition rationed :: "planner \<Rightarrow> planner \<times> planner_out list \<Rightarrow> bool" where
  "rationed s r \<longleftrightarrow>
     pl_sessions (fst r) = pl_sessions s + length (candidates (snd r)) \<and>
     (candidates (snd r) \<noteq> [] \<longrightarrow> pl_sessions s < MAX_RETRIES) \<and> length (candidates (snd r)) \<le> 1 \<and>
     pl_gave_up (fst r) = pl_gave_up s @ give_ups (snd r) \<and>
     (give_ups (snd r) = [] \<or> (\<exists>k. give_ups (snd r) = [k] \<and> k \<notin> set (pl_gave_up s)))"

lemma rationed_quiet [simp]:
  "rationed s (s', []) \<longleftrightarrow> pl_sessions s' = pl_sessions s \<and> pl_gave_up s' = pl_gave_up s"
  by (auto simp: rationed_def)

lemma begin_session_books [simp]:
  "pl_sessions (begin_session ev call s) = pl_sessions s" "pl_gave_up (begin_session ev call s) = pl_gave_up s"
  "pl_aborted (begin_session ev call s) = pl_aborted s"
  by (simp_all add: begin_session_def Let_def split: option.split)

lemma add_constraint_books [simp]:
  "pl_sessions (add_constraint lb ev s) = pl_sessions s" "pl_gave_up (add_constraint lb ev s) = pl_gave_up s"
  "pl_aborted (add_constraint lb ev s) = pl_aborted s"
  by (simp_all add: add_constraint_def Let_def)

lemma report_rationed: "rationed s (report_gave_up cause node reason s)"
  by (auto simp: report_gave_up_def rationed_def Let_def)

text \<open>What comes of a session that may still submit: a candidate, or nothing.\<close>

definition attempt_at :: "env \<Rightarrow> lib \<Rightarrow> bool \<Rightarrow> (prompt \<Rightarrow> string option) \<Rightarrow> fields \<Rightarrow> log_entry list \<Rightarrow> session_call \<Rightarrow> string \<Rightarrow> planner \<Rightarrow> string option" where
  "attempt_at su lb loaded ask ev logs call xml s =
     (case pruned_plan su xml (begin_session ev call s) of
        Some (Some (pruned, trees)) \<Rightarrow>
          (case ask (prompt_of ev logs call pruned trees (pl_constraints s) (add_constraint lb ev (begin_session ev call s))) of
             None \<Rightarrow> None
           | Some reply \<Rightarrow> if xsd_validate su loaded (strip_code_fence reply) then Some (strip_code_fence reply) else None)
      | _ \<Rightarrow> None)"

lemma begin_session_constraints [simp]: "pl_constraints (begin_session ev call s) = pl_constraints s"
  by (simp add: begin_session_def Let_def split: option.split)

lemma run_planner_said:
  "snd (run_planner su lb loaded ask ev logs call s) =
     (if pl_aborted s then []
      else case pl_mission s of
        None \<Rightarrow> []
      | Some xml \<Rightarrow>
          if MAX_RETRIES \<le> pl_sessions s then
            (if (''max_retries_exhausted'', None) \<in> set (pl_gave_up s) then []
             else [Gave_Up ''max_retries_exhausted'' (event_node ev) ''reached MAX_RETRIES (3) planning sessions without a plan that runs''])
          else case attempt_at su lb loaded ask ev logs call xml s of None \<Rightarrow> [] | Some c \<Rightarrow> [Submit c])"
  by (auto simp: run_planner_def report_gave_up_def attempt_at_def submit_def Let_def split: option.split)

lemma run_planner_rationed: "rationed s (run_planner su lb loaded ask ev logs call s)"
  using report_rationed
  by (auto simp: run_planner_def submit_def rationed_def Let_def split: option.split)

lemma leaf_success_books [simp]:
  "pl_sessions (leaf_success su ev s) = pl_sessions s" "pl_gave_up (leaf_success su ev s) = pl_gave_up s"
  "pl_aborted (leaf_success su ev s) = pl_aborted s"
  by (simp_all add: leaf_success_def Let_def split: option.split json.split)

lemma step_rationed:
  assumes "\<forall>p. e \<noteq> Workload_Changed p"
  shows "rationed s (planner_step su lb loaded s e)"
proof (cases e)
  case (Repair ask ev logs)
  then show ?thesis using run_planner_rationed by (simp add: repair_if_routed_def Let_def)
next
  case (Refused_By_Arbiter p)
  have mem: "rationed s (report_gave_up cause node reason (s\<lparr>pl_memory := m\<rparr>))" for cause node reason m
    using report_rationed [of "s\<lparr>pl_memory := m\<rparr>" cause node reason] by (simp add: rationed_def)
  have start: "rationed s (s\<lparr>pl_memory := m, pl_retries := n, pl_reason := x\<rparr>, [Start_Session ev logs call])" for m n x ev logs call
    by (simp add: rationed_def)
  show ?thesis
    using Refused_By_Arbiter mem start by (simp add: on_rejection_def Let_def split: option.split)
next
  case (Tree_Status p)
  then show ?thesis by (auto simp: on_bt_failure_def rationed_def split: option.split)
qed (use assms run_planner_rationed in \<open>auto simp: track_mission_def keep_frame_def track_orchard_def keep_log_def on_fault_route_def
      on_mission_abort_def split: option.split sum.split json.split\<close>)


section \<open>After an abort\<close>

lemma aborted_step:
  assumes "pl_aborted s"
  shows "snd (planner_step su lb loaded s e) = [] \<and> pl_aborted (fst (planner_step su lb loaded s e))"
  using assms
  by (cases e)
    (auto simp: track_mission_def keep_frame_def track_orchard_def keep_log_def on_bt_failure_def on_fault_route_def repair_if_routed_def
      run_planner_def on_replan_request_def on_rejection_def on_mission_abort_def Let_def split: option.split sum.split json.split)

text \<open>
  An aborted planner is silent. Once the arbiter has declared the mission dead, no event, in any order, makes
  the planner publish a candidate, announce a give-up or start a session.
\<close>

lemma aborted_planner_is_silent:
  assumes "pl_aborted s"
  shows "said su lb loaded s es = [] \<and> pl_aborted (planner_run su lb loaded s es)"
  using assms by (induction es arbitrary: s) (simp_all add: aborted_step planner_run_def)


section \<open>A planner at work\<close>

definition fault_at :: "string \<Rightarrow> fields" where
  "fault_at node = [(''node'', JStr node), (''status'', JStr ''failure''), (''reason'', JStr ''blocked''), (''timestamp_ms'', JInt 5000)]"

definition mute :: lib where
  "mute = \<lparr>lb_loads = (\<lambda>_. None), lb_dumps = (\<lambda>_. []), lb_show = (\<lambda>_. [])\<rparr>"

definition four_sessions :: "planner_event list" where
  "four_sessions = Plan_Seen (plan_text [''10'']) # map (\<lambda>n. Session (\<lambda>_. Some (plan_text [''10''])) (fault_at n) [] default_call) [''a'', ''b'', ''c'', ''d'', ''e'']"


lemma aborted_planner_is_silent_witness:
  "said (demo False) mute True (on_mission_abort mute [] planner_init) four_sessions = []"
proof -
  have "pl_aborted (on_mission_abort mute [] planner_init)" by code_simp
  from aborted_planner_is_silent [OF this] show ?thesis by blast
qed

end
