(* ===== verification/Repair_Loop.thy ===== *)
theory Repair_Loop
  imports Triage_Runs Planner_Runs
begin

text \<open>
  The local repair loop: a fault reaches the triage agent and the planner, the planner waits for
  triage's verdict, and the arbiter answers the planner's candidates. Messages are carried by hand from one component's outputs to
  another's operations.
\<close>

section \<open>A fault goes one way\<close>

text \<open>The verdict as the message triage publishes.\<close>

definition route_fields :: "routed \<Rightarrow> fields" where
  "route_fields r =
     [(''node'', JStr (rd_node r)), (''timestamp_ms'', rd_timestamp r), (''at'', JFloat (rd_at r)),
      (''route'', JStr (rt_route (rd_verdict r))), (''reason_code'', JInt (rt_reason_code (rd_verdict r))),
      (''rationale'', JStr (rt_rationale (rd_verdict r))), (''guidance'', JStr (rt_guidance (rd_verdict r)))]"

lemma route_fields_read:
  "node_of lb (route_fields r) = rd_node r"
  "py_str lb (get_or ''route'' JNull (route_fields r)) = rt_route (rd_verdict r)"
  "str_or_empty lb (get_or ''guidance'' JNull (route_fields r)) = rt_guidance (rd_verdict r)"
  by (auto simp: route_fields_def node_of_def get_or_def str_or_empty_def falsy_def py_str_def)

lemma escalated_verdict:
  assumes "route_fault lb parse ev reply now s = (s', Route_Out r # rest)" and "tr_last_fault s = ev"
  shows "rd_node r = node_of lb ev \<and>
     (if rt_route (rd_verdict r) = ''escalate''
      then \<exists>work. task_for lb parse ev (tr_mission s) = Inr work \<and>
        rest = [Infeasible ''triage_route'' (''triage routed the fault to the fleet: '' @ rt_rationale (rd_verdict r)) ev work]
      else rest = [])"
proof -
  define d where "d = (case decide_route lb parse ev reply now s of None \<Rightarrow> failed_route | Some d \<Rightarrow> d)"
  have r: "r = \<lparr>rd_node = node_of lb ev, rd_timestamp = get_or ''timestamp_ms'' (JInt 0) ev, rd_at = now, rd_verdict = d\<rparr>"
    using assms(1) by (auto simp: route_fault_def Let_def d_def and_escalate_def split: if_splits option.splits)
  have "\<exists>work. task_for lb parse ev (tr_mission s) = Inr work" if "rt_route d = ''escalate''"
    using that by (auto simp: d_def failed_route_def decide_route_def split: option.splits sum.splits)
  then show ?thesis
    using assms r by (auto simp: route_fault_def Let_def d_def [symmetric] and_escalate_def escalate_def split: if_splits option.splits sum.splits)
qed


section \<open>One day\<close>

text \<open>A leaf that samples fails; the model's verdict is to escalate. \<open>f\<close>, \<open>g\<close>, \<open>m\<close>, \<open>j\<close> stand for the texts of the messages.\<close>

definition leaf_fault :: fields where
  "leaf_fault = [(''node'', JStr ''sample_10''), (''status'', JStr ''failure''), (''timestamp_ms'', JInt 5000)]"

definition tree_fault :: fields where
  "tree_fault = [(''node'', JStr ''<tree>''), (''status'', JStr ''failure''), (''source'', JStr ''tree''), (''timestamp_ms'', JInt 6000)]"

definition ruling :: routed where
  "ruling = \<lparr>rd_node = ''sample_10'', rd_timestamp = JInt 5000, rd_at = 6,
     rd_verdict = \<lparr>rt_route = ''escalate'', rt_reason_code = 4, rt_rationale = ''camera'', rt_guidance = []\<rparr>\<rparr>"

definition day :: lib where
  "day = \<lparr>lb_loads = (\<lambda>t. map_option JObject (map_of
       [(''f'', leaf_fault), (''g'', tree_fault), (''m'', route_fields ruling), (''j'', [(''reason'', JStr ''refused'')]),
        (''{e}'', [(''route'', JStr ''escalate''), (''reason_code'', JStr ''capability_missing''), (''rationale'', JStr ''camera'')])] t)),
     lb_dumps = (\<lambda>_. []), lb_show = (\<lambda>_. [])\<rparr>"

definition before_fault :: triage where
  "before_fault = note_mission (plan_text [''10'', ''60'']) triage_init"

definition after_ruling :: triage where
  "after_ruling = fst (route_fault day demo_parse leaf_fault (Some ''{e}'') 6 (fst (on_fault day ''f'' before_fault)))"

definition planning :: planner where
  "planning = track_mission (plan_text [''10'', ''60'']) planner_init"

definition willing :: "prompt \<Rightarrow> string option" where
  "willing pr = Some (plan_text [''10''])"


section \<open>Where the loop falls short\<close>


end
