(* ===== verification/Spec2Isabelle.thy ===== *)
theory Spec2Isabelle
  imports Prelude Ring_Queue Framing Airtime Vocabulary Codec Ordered_Dict Dedup Utf8 Notes Addressing Session
    Tasks Registry Auction Bidding Coordinator_Params Coordinator Coordinator_Inv Coordinator_Steps
    Coordinator_Props Coordinator_Live Mission_Xml Orchard Ontology Pruning Task_Names Mission_Tasks Task_Units Task_Edits Task_Grafts Promela Promela_Runs Promela_Sound Ltl Ltl_Gate Arbiter Arbiter_Inv Advice Triage Interpreters Triage_Runs Planner Planner_Runs Repair_Loop
begin

text \<open>
  The communication and coordination stack of a fleet of field robots.
\<close>

end
